(* ===== verification/Vox_Prelude.thy ===== *)
theory Vox_Prelude
  imports Main "HOL-Library.Monad_Syntax"
begin

text \<open>
  Shared vocabulary of the development.

  \<^item> C arithmetic. \<open>u32\<close> and \<open>s32\<close> reduce an unbounded number to the value a 32-bit
    \<open>unsigned int\<close> and a two's complement 32-bit \<open>int\<close> hold after a conversion.
  \<^item> Undefined behaviour. An operation that may touch memory outside its array returns an
    \<open>option\<close>; \<open>None\<close> is the access out of bounds. \<open>memcpy\<close> is the library call with this
    reading.
  \<^item> Ring indices: facts on \<open>(r + i) mod n\<close> shared by the queues.
  \<^item> Interfaces: the locale \<open>bounded_fifo\<close> states what a client of a bounded queue relies on,
    and proves once that the guarded use of such a queue behaves like a list; \<open>simulation\<close> states
    what relates the commands of a component to their specification, and lifts it to sequences.
\<close>

named_theorems vox_simps \<open>defining equations that component proofs unfold\<close>

section \<open>C integers\<close>

definition u32 :: "nat \<Rightarrow> nat" where
  "u32 x = x mod 2 ^ 32"

definition s32 :: "int \<Rightarrow> int" where
  "s32 x = (x + 2 ^ 31) mod 2 ^ 32 - 2 ^ 31"

text \<open>Unsigned subtraction wraps around.\<close>

definition u32_sub :: "nat \<Rightarrow> nat \<Rightarrow> nat" where
  "u32_sub a b = nat ((int a - int b) mod 2 ^ 32)"

lemma u32_id [simp]: "x < 2 ^ 32 \<Longrightarrow> u32 x = x"
  by (simp add: u32_def)

text \<open>The sum of an index and a count within a buffer below \<open>2 ^ 31\<close> slots does not wrap.\<close>

lemma u32_add_id: "a < n \<Longrightarrow> b \<le> n \<Longrightarrow> n < 2 ^ 31 \<Longrightarrow> u32 (a + b) = a + b"
  by (simp add: u32_def)

lemma s32_id [simp]: "- (2 ^ 31) \<le> x \<Longrightarrow> x < 2 ^ 31 \<Longrightarrow> s32 x = x"
  by (simp add: s32_def)

lemma s32_range: "- (2 ^ 31) \<le> s32 x \<and> s32 x < 2 ^ 31"
proof -
  have "0 \<le> (x + 2 ^ 31) mod 2 ^ 32" "(x + 2 ^ 31) mod 2 ^ 32 < (2::int) ^ 32"
    by (rule pos_mod_sign, simp) (rule pos_mod_bound, simp)
  then show ?thesis by (simp add: s32_def)
qed

lemma u32_sub_le [simp]: "b \<le> a \<Longrightarrow> a < 2 ^ 32 \<Longrightarrow> u32_sub a b = a - b"
  by (simp add: u32_sub_def nat_diff_distrib)

section \<open>Results with an error\<close>

definition res_bind :: "'e + 'a \<Rightarrow> ('a \<Rightarrow> 'e + 'b) \<Rightarrow> 'e + 'b" where
  "res_bind r f = (case r of Inl e \<Rightarrow> Inl e | Inr x \<Rightarrow> f x)"

lemma res_bind_simps [simp]: "res_bind (Inl e) f = Inl e" "res_bind (Inr x) f = f x"
  by (simp_all add: res_bind_def)

lemma res_bind_Inr_iff: "res_bind r f = Inr y \<longleftrightarrow> (\<exists>x. r = Inr x \<and> f x = Inr y)"
  by (cases r) auto

section \<open>Block copies\<close>

text \<open>
  \<open>memcpy dst doff src soff n\<close> copies the \<open>n\<close> items of \<open>src\<close> from index \<open>soff\<close> over those of
  \<open>dst\<close> from index \<open>doff\<close>; \<open>None\<close> when either range leaves its array.
\<close>

definition memcpy :: "'a list \<Rightarrow> nat \<Rightarrow> 'a list \<Rightarrow> nat \<Rightarrow> nat \<Rightarrow> 'a list option" where
  "memcpy dst doff src soff n =
     (if doff + n \<le> length dst \<and> soff + n \<le> length src
      then Some (take doff dst @ take n (drop soff src) @ drop (doff + n) dst)
      else None)"

lemma memcpy_Some:
  "doff + n \<le> length dst \<Longrightarrow> soff + n \<le> length src \<Longrightarrow>
   memcpy dst doff src soff n =
     Some (take doff dst @ take n (drop soff src) @ drop (doff + n) dst)"
  by (simp add: memcpy_def)

lemma memcpy_None [simp]:
  "length dst < doff + n \<Longrightarrow> memcpy dst doff src soff n = None"
  "length src < soff + n \<Longrightarrow> memcpy dst doff src soff n = None"
  by (simp_all add: memcpy_def)

lemma memcpy_length: "memcpy dst doff src soff n = Some r \<Longrightarrow> length r = length dst"
  by (auto simp: memcpy_def split: if_splits)

lemma memcpy_nth:
  assumes "memcpy dst doff src soff n = Some r" "i < length dst"
  shows "r ! i = (if doff \<le> i \<and> i < doff + n then src ! (soff + (i - doff)) else dst ! i)"
proof -
  from assms(1) have "doff + n \<le> length dst" "soff + n \<le> length src"
    and r: "r = take doff dst @ take n (drop soff src) @ drop (doff + n) dst"
    by (auto simp: memcpy_def split: if_splits)
  then show ?thesis using assms(2) by (auto simp: nth_append)
qed

section \<open>Reading an array\<close>

definition arr_get :: "'a list \<Rightarrow> nat \<Rightarrow> 'a option" where
  "arr_get xs i = (if i < length xs then Some (xs ! i) else None)"

definition arr_set :: "'a list \<Rightarrow> nat \<Rightarrow> 'a \<Rightarrow> 'a list option" where
  "arr_set xs i v = (if i < length xs then Some (xs[i := v]) else None)"

lemma arr_get_in [simp]: "i < length xs \<Longrightarrow> arr_get xs i = Some (xs ! i)"
  by (simp add: arr_get_def)

lemma arr_get_out [simp]: "length xs \<le> i \<Longrightarrow> arr_get xs i = None"
  by (simp add: arr_get_def)

lemma arr_set_in [simp]: "i < length xs \<Longrightarrow> arr_set xs i v = Some (xs[i := v])"
  by (simp add: arr_set_def)

lemma arr_set_out [simp]: "length xs \<le> i \<Longrightarrow> arr_set xs i v = None"
  by (simp add: arr_set_def)

section \<open>Loops over index ranges\<close>

text \<open>A counted loop that threads a state and stops on undefined behaviour.\<close>

fun foldM :: "('s \<Rightarrow> 'i \<Rightarrow> 's option) \<Rightarrow> 's \<Rightarrow> 'i list \<Rightarrow> 's option" where
  "foldM f s [] = Some s"
| "foldM f s (i # is) = Option.bind (f s i) (\<lambda>s'. foldM f s' is)"

lemma foldM_append [simp]:
  "foldM f s (is @ js) = Option.bind (foldM f s is) (\<lambda>s'. foldM f s' js)"
  by (induction "is" arbitrary: s) (auto split: bind_splits)

lemma foldM_inv:
  assumes "P s" "\<And>s i. i \<in> set is \<Longrightarrow> P s \<Longrightarrow> \<exists>s'. f s i = Some s' \<and> P s'"
  shows "\<exists>s'. foldM f s is = Some s' \<and> P s'"
  using assms by (induction "is" arbitrary: s) fastforce+

text \<open>An index of an array that is the sum of signed offsets.\<close>

definition get_at :: "'a list \<Rightarrow> int \<Rightarrow> 'a option" where
  "get_at xs i = (if 0 \<le> i \<and> i < int (length xs) then Some (xs ! nat i) else None)"

definition set_at :: "'a list \<Rightarrow> int \<Rightarrow> 'a \<Rightarrow> 'a list option" where
  "set_at xs i v = (if 0 \<le> i \<and> i < int (length xs) then Some (xs[nat i := v]) else None)"

lemma get_at_in [simp]: "0 \<le> i \<Longrightarrow> i < int (length xs) \<Longrightarrow> get_at xs i = Some (xs ! nat i)"
  by (simp add: get_at_def)

lemma get_at_None [simp]: "i < 0 \<Longrightarrow> get_at xs i = None" "int (length xs) \<le> i \<Longrightarrow> get_at xs i = None"
  by (simp_all add: get_at_def)

lemma set_at_in [simp]: "0 \<le> i \<Longrightarrow> i < int (length xs) \<Longrightarrow> set_at xs i v = Some (xs[nat i := v])"
  by (simp add: set_at_def)

lemma set_at_None [simp]: "i < 0 \<Longrightarrow> set_at xs i v = None" "int (length xs) \<le> i \<Longrightarrow> set_at xs i v = None"
  by (simp_all add: set_at_def)

text \<open>\<open>keeps k xs ys\<close>: \<open>ys\<close> is \<open>xs\<close> changed at most from index \<open>k\<close> on.\<close>

definition keeps :: "int \<Rightarrow> 'a list \<Rightarrow> 'a list \<Rightarrow> bool" where
  "keeps k xs ys \<longleftrightarrow> length ys = length xs \<and> (\<forall>i. int i < k \<longrightarrow> i < length xs \<longrightarrow> ys ! i = xs ! i)"

lemma keeps_refl [simp]: "keeps k xs xs"
  by (simp add: keeps_def)

lemma keeps_trans: "keeps k xs ys \<Longrightarrow> keeps k ys zs \<Longrightarrow> keeps k xs zs"
  by (simp add: keeps_def)

lemma keeps_length: "keeps k xs ys \<Longrightarrow> length ys = length xs"
  by (simp add: keeps_def)

lemma keeps_nth: "keeps k xs ys \<Longrightarrow> int i < k \<Longrightarrow> i < length xs \<Longrightarrow> ys ! i = xs ! i"
  by (simp add: keeps_def)

lemma keeps_update: "keeps k xs ys \<Longrightarrow> k \<le> i \<Longrightarrow> 0 \<le> i \<Longrightarrow> keeps k xs (ys[nat i := v])"
  by (auto simp: keeps_def nth_list_update)

section \<open>Ring indices\<close>

text \<open>The items of a ring of \<open>n\<close> slots from index \<open>r\<close>, \<open>k\<close> of them.\<close>

definition ring :: "'a list \<Rightarrow> nat \<Rightarrow> nat \<Rightarrow> nat \<Rightarrow> 'a list" where
  "ring xs n r k = map (\<lambda>i. xs ! ((r + i) mod n)) [0..<k]"

lemma length_ring [simp]: "length (ring xs n r k) = k"
  by (simp add: ring_def)

lemma ring_0 [simp]: "ring xs n r 0 = []"
  by (simp add: ring_def)

lemma ring_nth [simp]: "i < k \<Longrightarrow> ring xs n r k ! i = xs ! ((r + i) mod n)"
  by (simp add: ring_def)

lemma ring_Suc: "ring xs n r (Suc k) = ring xs n r k @ [xs ! ((r + k) mod n)]"
  by (simp add: ring_def)

lemma ring_add: "ring xs n r (j + k) = ring xs n r j @ ring xs n (r + j) k"
proof (rule nth_equalityI)
  fix i assume i: "i < length (ring xs n r (j + k))"
  then show "ring xs n r (j + k) ! i = (ring xs n r j @ ring xs n (r + j) k) ! i"
    by (cases "i < j") (auto simp: nth_append)
qed simp

lemma ring_mod [simp]: "ring xs n (r mod n) k = ring xs n r k"
  by (simp add: ring_def mod_add_left_eq)

lemma ring_drop: "j \<le> k \<Longrightarrow> drop j (ring xs n r k) = ring xs n (r + j) (k - j)"
  using ring_add [of xs n r j "k - j"] by simp

lemma ring_take: "j \<le> k \<Longrightarrow> take j (ring xs n r k) = ring xs n r j"
  using ring_add [of xs n r j "k - j"] by simp

lemma ring_hd: "0 < k \<Longrightarrow> hd (ring xs n r k) = xs ! (r mod n)"
  by (subst hd_conv_nth) (auto simp flip: length_greater_0_conv)

text \<open>Two offsets below the ring size that meet are the same.\<close>

lemma mod_lt_cases: "(a::nat) < n \<Longrightarrow> b < n \<Longrightarrow> (a + b) mod n = (if a + b < n then a + b else a + b - n)"
  by (auto simp: mod_if)

lemma ring_index_inj:
  fixes n :: nat
  assumes "i < n" "j < n" "(r + i) mod n = (r + j) mod n"
  shows "i = j"
proof -
  have n: "0 < n" using assms(1) by simp
  then have r: "r mod n < n" by simp
  have "(r mod n + i) mod n = (r mod n + j) mod n"
    using assms(3) by (simp add: mod_add_left_eq)
  then show ?thesis
    using r assms(1,2) by (simp add: mod_lt_cases split: if_splits)
qed

text \<open>Removing \<open>j\<close> of \<open>k\<close> items moves the read index but not the write index.\<close>

lemma ring_write_index: "j \<le> k \<Longrightarrow> ((r + j) mod n + (k - j)) mod n = (r + k) mod (n::nat)"
proof -
  assume "j \<le> k"
  then have "r + j + (k - j) = r + k" by simp
  then show ?thesis using mod_add_left_eq [of "r + j" n "k - j"] by simp
qed

text \<open>Writing slots outside the used part of a ring does not change its items.\<close>

lemma ring_cong:
  assumes "\<And>i. i < k \<Longrightarrow> xs ! ((r + i) mod n) = ys ! ((r + i) mod n)"
  shows "ring xs n r k = ring ys n r k"
  using assms by (simp add: ring_def)

lemma ring_update_outside:
  assumes "j < n" "k \<le> j"
  shows "ring (xs[(r + j) mod n := v]) n r k = ring xs n r k"
proof (rule ring_cong)
  fix i assume "i < k"
  with assms have "(r + j) mod n \<noteq> (r + i) mod n"
    using ring_index_inj [of i n j r] by auto
  then show "xs[(r + j) mod n := v] ! ((r + i) mod n) = xs ! ((r + i) mod n)"
    by simp
qed

section \<open>Bounded queues as an interface\<close>

text \<open>
  A client calls \<open>full\<close> before \<open>enq\<close> and \<open>emp\<close> before \<open>deq\<close>. The reference behaviour
  \<open>spec_run\<close> is a list of at most \<open>cap\<close> items: an insertion into a full list is dropped, a
  removal from an empty one gives nothing.
\<close>

datatype 'a fifo_op = Enq 'a | Deq

fun spec_run :: "nat \<Rightarrow> 'a list \<Rightarrow> 'a fifo_op list \<Rightarrow> 'a list \<times> 'a list" where
  "spec_run cap xs [] = (xs, [])"
| "spec_run cap xs (Enq a # ops) =
     (if length xs < cap then spec_run cap (xs @ [a]) ops else spec_run cap xs ops)"
| "spec_run cap [] (Deq # ops) = spec_run cap [] ops"
| "spec_run cap (x # xs) (Deq # ops) =
     (let (ys, out) = spec_run cap xs ops in (ys, x # out))"

fun guarded_run :: "('q \<Rightarrow> bool) \<Rightarrow> ('q \<Rightarrow> 'a \<Rightarrow> 'q option) \<Rightarrow> ('q \<Rightarrow> bool) \<Rightarrow>
    ('q \<Rightarrow> ('a \<times> 'q) option) \<Rightarrow> 'q \<Rightarrow> 'a fifo_op list \<Rightarrow> ('q \<times> 'a list) option" where
  "guarded_run full enq emp deq q [] = Some (q, [])"
| "guarded_run full enq emp deq q (Enq a # ops) =
     (if full q then guarded_run full enq emp deq q ops
      else Option.bind (enq q a) (\<lambda>q'. guarded_run full enq emp deq q' ops))"
| "guarded_run full enq emp deq q (Deq # ops) =
     (if emp q then guarded_run full enq emp deq q ops
      else Option.bind (deq q) (\<lambda>(a, q'). Option.bind (guarded_run full enq emp deq q' ops)
             (\<lambda>(r, out). Some (r, a # out))))"

locale bounded_fifo =
  fixes invar :: "'q \<Rightarrow> bool"
    and cont :: "'q \<Rightarrow> 'a list"
    and cap :: "'q \<Rightarrow> nat"
    and full :: "'q \<Rightarrow> bool"
    and emp :: "'q \<Rightarrow> bool"
    and enq :: "'q \<Rightarrow> 'a \<Rightarrow> 'q option"
    and deq :: "'q \<Rightarrow> ('a \<times> 'q) option"
  assumes full_iff: "invar q \<Longrightarrow> full q \<longleftrightarrow> length (cont q) = cap q"
    and bounded: "invar q \<Longrightarrow> length (cont q) \<le> cap q"
    and emp_iff: "invar q \<Longrightarrow> emp q \<longleftrightarrow> cont q = []"
    and enq_ok: "invar q \<Longrightarrow> \<not> full q \<Longrightarrow>
      \<exists>q'. enq q a = Some q' \<and> invar q' \<and> cont q' = cont q @ [a] \<and> cap q' = cap q"
    and deq_ok: "invar q \<Longrightarrow> \<not> emp q \<Longrightarrow>
      \<exists>q'. deq q = Some (hd (cont q), q') \<and> invar q' \<and> cont q' = tl (cont q) \<and> cap q' = cap q"
begin

lemma guarded_run_refines:
  assumes "invar q"
  shows "\<exists>q' out. guarded_run full enq emp deq q ops = Some (q', out) \<and> invar q' \<and>
           cap q' = cap q \<and> spec_run (cap q) (cont q) ops = (cont q', out)"
  using assms
proof (induction ops arbitrary: q)
  case Nil
  then show ?case by simp
next
  case (Cons op ops)
  show ?case
  proof (cases op)
    case (Enq a)
    show ?thesis
    proof (cases "full q")
      case True
      with Cons Enq full_iff show ?thesis by auto
    next
      case False
      with Cons.prems enq_ok obtain q1 where q1: "enq q a = Some q1" "invar q1"
          "cont q1 = cont q @ [a]" "cap q1 = cap q" by blast
      have "length (cont q) < cap q"
        using False Cons.prems full_iff bounded by (metis le_neq_implies_less)
      with Cons.IH [OF q1(2)] q1 Enq False show ?thesis by auto
    qed
  next
    case Deq
    show ?thesis
    proof (cases "emp q")
      case True
      with Cons Deq emp_iff show ?thesis by fastforce
    next
      case False
      with Cons.prems deq_ok obtain q1 where q1: "deq q = Some (hd (cont q), q1)" "invar q1"
          "cont q1 = tl (cont q)" "cap q1 = cap q" by blast
      from False Cons.prems emp_iff obtain x xs where xs: "cont q = x # xs"
        by (cases "cont q") auto
      with Cons.IH [OF q1(2)] q1 Deq False show ?thesis by fastforce
    qed
  qed
qed

end

section \<open>Sequences of commands\<close>

text \<open>
  The interface between the commands and their specification: in related states a legal command
  runs, reports what the specification reports and leads to related states.
\<close>

fun run_cmds :: "('c \<Rightarrow> 'w \<Rightarrow> ('e \<times> 'w) option) \<Rightarrow> 'c list \<Rightarrow> 'w \<Rightarrow> ('e list \<times> 'w) option" where
  "run_cmds exec [] w = Some ([], w)"
| "run_cmds exec (c # cs) w = do {
     (err, w) \<leftarrow> exec c w;
     (errs, w) \<leftarrow> run_cmds exec cs w;
     Some (err # errs, w) }"

fun spec_cmds :: "('c \<Rightarrow> 'a \<Rightarrow> 'e \<times> 'a) \<Rightarrow> 'c list \<Rightarrow> 'a \<Rightarrow> 'e list \<times> 'a" where
  "spec_cmds spec [] A = ([], A)"
| "spec_cmds spec (c # cs) A = (let (err, A) = spec c A; (errs, A) = spec_cmds spec cs A in (err # errs, A))"

fun legal_cmds :: "('c \<Rightarrow> 'a \<Rightarrow> bool) \<Rightarrow> ('c \<Rightarrow> 'a \<Rightarrow> 'e \<times> 'a) \<Rightarrow> 'c list \<Rightarrow> 'a \<Rightarrow> bool" where
  "legal_cmds legal spec [] A \<longleftrightarrow> True"
| "legal_cmds legal spec (c # cs) A \<longleftrightarrow> legal c A \<and> legal_cmds legal spec cs (snd (spec c A))"

locale simulation =
  fixes rel :: "'w \<Rightarrow> 'a \<Rightarrow> bool"
    and legal :: "'c \<Rightarrow> 'a \<Rightarrow> bool"
    and exec :: "'c \<Rightarrow> 'w \<Rightarrow> ('e \<times> 'w) option"
    and spec :: "'c \<Rightarrow> 'a \<Rightarrow> 'e \<times> 'a"
  assumes step: "rel w A \<Longrightarrow> legal c A \<Longrightarrow> \<exists>w'. exec c w = Some (fst (spec c A), w') \<and> rel w' (snd (spec c A))"
begin

lemma run_refines:
  assumes "rel w A" "legal_cmds legal spec cs A"
  shows "\<exists>w'. run_cmds exec cs w = Some (fst (spec_cmds spec cs A), w') \<and> rel w' (snd (spec_cmds spec cs A))"
  using assms
proof (induction cs arbitrary: w A)
  case (Cons c cs)
  obtain w1 where w1: "exec c w = Some (fst (spec c A), w1)" "rel w1 (snd (spec c A))"
    using step [of w A c] Cons.prems by auto
  then obtain w2 where "run_cmds exec cs w1 = Some (fst (spec_cmds spec cs (snd (spec c A))), w2)"
      "rel w2 (snd (spec_cmds spec cs (snd (spec c A))))"
    using Cons.IH [of w1 "snd (spec c A)"] Cons.prems(2) by auto
  then show ?case using w1 by (simp add: case_prod_beta)
qed simp

end

end
