(* ===== verification/Label.thy ===== *)
theory Label
  imports Complex_Main Vox_Prelude
begin

text \<open>
  \<open>MAGE::Label\<close> (\<open>mage/src/Label.h\<close>, \<open>Label.cpp\<close>): one label of an utterance, read from a
  line \<open>begin end query\<close> or \<open>query\<close>. \<open>parseQuery\<close> keeps its three fields in
  \<open>static\<close> strings, so they are a state (\<open>first\<close>, \<open>middle\<close>, \<open>last\<close>) that the model threads
  through successive calls. Of the standard library it uses \<open>getline\<close> on an
  \<open>istringstream\<close>, \<open>strcpy\<close> into buffers of \<open>maxStrLen\<close> characters, \<open>sscanf( s, "%d" )\<close> in
  \<open>isdigit_string\<close> (\<open>mage/src/hts.cpp\<close>) and \<open>atof\<close>, all modelled here in the C locale.
  \<open>None\<close> is undefined behaviour: a \<open>strcpy\<close> past its buffer, or a \<open>double\<close> that does not fit
  the \<open>int\<close> it is converted to. A \<open>double\<close> is a \<open>real\<close>.
\<close>

section \<open>C strings and numbers\<close>

definition maxStrLen :: nat where
  "maxStrLen = 1024"

definition NUL :: char where
  "NUL = CHR 0x00"

definition c_str :: "string \<Rightarrow> string" where
  "c_str s = takeWhile (\<lambda>c. c \<noteq> NUL) s"

text \<open>\<open>strcpy\<close> into a \<open>char[maxStrLen]\<close>: the text and its terminator have to fit.\<close>

definition strcpy :: "string \<Rightarrow> string option" where
  "strcpy s = (if length (c_str s) < maxStrLen then Some (c_str s) else None)"

definition isspace :: "char \<Rightarrow> bool" where
  "isspace c \<longleftrightarrow> c = CHR '' '' \<or> ((9::nat) \<le> of_char c \<and> of_char c \<le> (13::nat))"

definition digit_val :: "char \<Rightarrow> nat option" where
  "digit_val c =
     (let n = of_char c :: nat
      in if 48 \<le> n \<and> n \<le> 57 then Some (n - 48)
         else if 97 \<le> n \<and> n \<le> 102 then Some (n - 87)
         else if 65 \<le> n \<and> n \<le> 70 then Some (n - 55) else None)"

definition isdigit_in :: "nat \<Rightarrow> char \<Rightarrow> bool" where
  "isdigit_in base c = (case digit_val c of None \<Rightarrow> False | Some d \<Rightarrow> d < base)"

fun skip_sign :: "string \<Rightarrow> bool \<times> string" where
  "skip_sign [] = (False, [])"
| "skip_sign (c # s) =
     (if c = CHR ''-'' then (True, s) else if c = CHR ''+'' then (False, s) else (False, c # s))"

definition isdigit_string :: "string \<Rightarrow> bool" where
  "isdigit_string str =
     (case snd (skip_sign (dropWhile isspace str)) of
        [] \<Rightarrow> False
      | c # _ \<Rightarrow> isdigit_in 10 c)"

definition digits_val :: "nat \<Rightarrow> string \<Rightarrow> nat" where
  "digits_val base ds = foldl (\<lambda>acc c. base * acc + the (digit_val c)) 0 ds"

text \<open>An exponent needs at least one digit after its marker and sign; otherwise it is not read.\<close>

definition exponent :: "char list \<Rightarrow> string \<Rightarrow> int" where
  "exponent markers s =
     (case s of
        [] \<Rightarrow> 0
      | m # r \<Rightarrow>
          (let (neg, r') = skip_sign r; ds = takeWhile (isdigit_in 10) r'
           in if m \<in> set markers \<and> ds \<noteq> []
              then (if neg then - int (digits_val 10 ds) else int (digits_val 10 ds)) else 0))"

definition mantissa :: "nat \<Rightarrow> string \<Rightarrow> (real \<times> string) option" where
  "mantissa base s =
     (let ip = takeWhile (isdigit_in base) s;
          r = dropWhile (isdigit_in base) s;
          (fp, r') = (case r of
             [] \<Rightarrow> ([], [])
           | c # t \<Rightarrow> if c = CHR ''.'' then (takeWhile (isdigit_in base) t, dropWhile (isdigit_in base) t)
                      else ([], c # t))
      in if ip = [] \<and> fp = [] then None
         else Some (real (digits_val base ip) + real (digits_val base fp) / real base ^ length fp, r'))"

text \<open>
  \<open>atof\<close> on decimal and hexadecimal numbers. The words for infinity and not-a-number are not
  read as such: \<open>parseQuery\<close> calls \<open>atof\<close> only on texts that \<open>isdigit_string\<close> accepts.
\<close>

definition atof_abs :: "string \<Rightarrow> real" where
  "atof_abs s =
     (let hex = (case s of z # x # r \<Rightarrow>
            (if z = CHR ''0'' \<and> (x = CHR ''x'' \<or> x = CHR ''X'')
             then map_option (\<lambda>(m, r'). m * 2 powi exponent ''pP'' r') (mantissa 16 r) else None)
          | _ \<Rightarrow> None)
      in case hex of
           Some v \<Rightarrow> v
         | None \<Rightarrow> (case mantissa 10 s of
             None \<Rightarrow> 0
           | Some (m, r') \<Rightarrow> m * 10 powi exponent ''eE'' r'))"

definition atof :: "string \<Rightarrow> real" where
  "atof str =
     (let (neg, s) = skip_sign (dropWhile isspace str)
      in if neg then - atof_abs s else atof_abs s)"

text \<open>\<open>double\<close> to \<open>int\<close>: the fraction is discarded; outside the range of \<open>int\<close> it is undefined.\<close>

definition c_trunc :: "real \<Rightarrow> int" where
  "c_trunc x = (if 0 \<le> x then \<lfloor>x\<rfloor> else \<lceil>x\<rceil>)"

definition to_int :: "real \<Rightarrow> int option" where
  "to_int x = (if - (2 ^ 31) \<le> c_trunc x \<and> c_trunc x < 2 ^ 31 then Some (c_trunc x) else None)"

section \<open>\<open>getline\<close> on a string stream\<close>

text \<open>
  The stream is the unread text and its \<open>good()\<close> flag. A \<open>getline\<close> on a stream that is not good
  leaves the string argument as it was; otherwise it stores the characters up to the delimiter,
  which it consumes, and a stream that ends before one is no longer good.
\<close>

record istringstream =
  unread :: string
  good :: bool

definition getline :: "istringstream \<Rightarrow> string \<Rightarrow> istringstream \<times> string" where
  "getline is str =
     (if \<not> good is then (is, str)
      else let tok = takeWhile (\<lambda>c. c \<noteq> CHR '' '') (unread is);
               rest = dropWhile (\<lambda>c. c \<noteq> CHR '' '') (unread is)
           in case rest of
                [] \<Rightarrow> (is\<lparr>unread := [], good := False\<rparr>, tok)
              | _ # r \<Rightarrow> (is\<lparr>unread := r\<rparr>, tok))"

section \<open>The class\<close>

record LabelMemory =
  strQuery :: string
  strBegin :: string
  strEnd :: string

record Label =
  labelMemory :: LabelMemory
  query :: string
  isDurationForcedFlag :: bool
  speed :: real
  lbegin :: int
  lend :: int

text \<open>The \<open>static string first, middle, last\<close> of \<open>parseQuery\<close>.\<close>

record parse_statics =
  first_s :: string
  middle_s :: string
  last_s :: string

definition Label_new :: Label where
  "Label_new =
     \<lparr>labelMemory = \<lparr>strQuery = [], strBegin = [], strEnd = []\<rparr>, query = [],
      isDurationForcedFlag = False, speed = 1, lbegin = -1, lend = -1\<rparr>"

definition parseQuery :: "parse_statics \<Rightarrow> Label \<Rightarrow> string \<Rightarrow> (parse_statics \<times> Label) option" where
  "parseQuery st l q =
     (let (is1, f) = getline \<lparr>unread = q, good = True\<rparr> (first_s st);
          (is2, m) = getline is1 (middle_s st);
          (is3, la) = getline is2 (last_s st)
      in do {
        b \<leftarrow> strcpy f;
        e \<leftarrow> strcpy m;
        s \<leftarrow> strcpy la;
        let l1 = l\<lparr>labelMemory := \<lparr>strQuery = s, strBegin = b, strEnd = e\<rparr>\<rparr>;
        l2 \<leftarrow> (if isdigit_string b \<and> isdigit_string e
              then do {
                bi \<leftarrow> to_int (atof b);
                ei \<leftarrow> to_int (atof e);
                Some (l1\<lparr>lbegin := bi, lend := ei, query := s, isDurationForcedFlag := True\<rparr>)
              }
              else Some (l1\<lparr>lbegin := -1, lend := -1, query := b, isDurationForcedFlag := False\<rparr>));
        Some (\<lparr>first_s = f, middle_s = m, last_s = la\<rparr>, l2\<lparr>speed := 1\<rparr>)
      })"

definition Label_of_string :: "parse_statics \<Rightarrow> string \<Rightarrow> (parse_statics \<times> Label) option" where
  "Label_of_string st q =
     do { (st', l) \<leftarrow> parseQuery st Label_new q; Some (st', l\<lparr>speed := 1\<rparr>) }"

definition setQuery :: "parse_statics \<Rightarrow> Label \<Rightarrow> string \<Rightarrow> (parse_statics \<times> Label) option" where
  "setQuery st l q = parseQuery st l q"

definition getQuery :: "Label \<Rightarrow> string" where "getQuery l = query l"
definition getSpeed :: "Label \<Rightarrow> real" where "getSpeed l = speed l"
definition getBegin :: "Label \<Rightarrow> int" where "getBegin l = lbegin l"
definition getEnd :: "Label \<Rightarrow> int" where "getEnd l = lend l"
definition isDurationForced :: "Label \<Rightarrow> bool" where "isDurationForced l = isDurationForcedFlag l"

definition setSpeed :: "Label \<Rightarrow> real \<Rightarrow> Label" where
  "setSpeed l s = l\<lparr>speed := s\<rparr>"

definition setBegin :: "Label \<Rightarrow> int \<Rightarrow> Label" where
  "setBegin l b = l\<lparr>lbegin := b\<rparr>"

definition setEnd :: "Label \<Rightarrow> int \<Rightarrow> Label" where
  "setEnd l e = l\<lparr>lend := e\<rparr>"

definition setDurationForced :: "Label \<Rightarrow> bool \<Rightarrow> Label" where
  "setDurationForced l f = l\<lparr>isDurationForcedFlag := f\<rparr>"

lemmas [vox_simps] = getQuery_def getSpeed_def getBegin_def getEnd_def isDurationForced_def
  setSpeed_def setBegin_def setEnd_def setDurationForced_def

section \<open>Lemmas\<close>

text \<open>A field: no blank and no terminator, and short enough for the buffers.\<close>

definition is_field :: "string \<Rightarrow> bool" where
  "is_field s \<longleftrightarrow> CHR '' '' \<notin> set s \<and> NUL \<notin> set s \<and> length s < maxStrLen"

lemma takeWhile_all: "(\<And>x. x \<in> set xs \<Longrightarrow> P x) \<Longrightarrow> takeWhile P xs = xs"
  by (induction xs) auto

lemma dropWhile_none: "(\<And>x. x \<in> set xs \<Longrightarrow> P x) \<Longrightarrow> dropWhile P xs = []"
  by (induction xs) auto

lemma span_field:
  assumes "is_field s"
  shows "takeWhile (\<lambda>c. c \<noteq> CHR '' '') s = s" "dropWhile (\<lambda>c. c \<noteq> CHR '' '') s = []"
    "takeWhile (\<lambda>c. c \<noteq> CHR '' '') (s @ CHR '' '' # r) = s"
    "dropWhile (\<lambda>c. c \<noteq> CHR '' '') (s @ CHR '' '' # r) = CHR '' '' # r"
    "takeWhile (\<lambda>c. c \<noteq> NUL) s = s"
proof -
  have ne: "\<And>c. c \<in> set s \<Longrightarrow> c \<noteq> CHR '' ''" "\<And>c. c \<in> set s \<Longrightarrow> c \<noteq> NUL"
    using assms by (auto simp: is_field_def)
  show "takeWhile (\<lambda>c. c \<noteq> CHR '' '') s = s" "dropWhile (\<lambda>c. c \<noteq> CHR '' '') s = []"
    "takeWhile (\<lambda>c. c \<noteq> NUL) s = s"
    using ne by (auto intro: takeWhile_all dropWhile_none)
  show "takeWhile (\<lambda>c. c \<noteq> CHR '' '') (s @ CHR '' '' # r) = s"
    "dropWhile (\<lambda>c. c \<noteq> CHR '' '') (s @ CHR '' '' # r) = CHR '' '' # r"
    using ne(1) by (simp_all add: takeWhile_append dropWhile_append2)
qed

lemma strcpy_field: "is_field s \<Longrightarrow> strcpy s = Some s"
  by (simp add: strcpy_def c_str_def span_field) (simp add: is_field_def)

lemma strcpy_length: "strcpy s = Some t \<Longrightarrow> length t < maxStrLen"
  by (auto simp: strcpy_def split: if_splits)

lemma getline_sep:
  "is_field s \<Longrightarrow> getline \<lparr>unread = s @ CHR '' '' # r, good = True\<rparr> old = (\<lparr>unread = r, good = True\<rparr>, s)"
  by (simp add: getline_def span_field)

lemma getline_last:
  assumes "CHR '' '' \<notin> set s"
  shows "getline \<lparr>unread = s, good = True\<rparr> old = (\<lparr>unread = [], good = False\<rparr>, s)"
proof -
  have span: "takeWhile (\<lambda>c. c \<noteq> CHR '' '') s = s" "dropWhile (\<lambda>c. c \<noteq> CHR '' '') s = []"
    using assms by (auto intro!: takeWhile_all simp: dropWhile_eq_Nil_conv)
  show ?thesis by (simp add: getline_def Let_def span)
qed

lemma getline_end:
  "is_field s \<Longrightarrow> getline \<lparr>unread = s, good = True\<rparr> old = (\<lparr>unread = [], good = False\<rparr>, s)"
  by (simp add: getline_def span_field Let_def)

lemma getline_bad: "getline \<lparr>unread = r, good = False\<rparr> old = (\<lparr>unread = r, good = False\<rparr>, old)"
  by (simp add: getline_def)

lemmas getline_simps = getline_sep getline_end getline_bad

lemma digits_val_bound:
  "(\<And>c. c \<in> set ds \<Longrightarrow> isdigit_in b c) \<Longrightarrow> digits_val b ds < b ^ length ds"
proof (induction ds rule: rev_induct)
  case (snoc c ds)
  then have "digits_val b ds < b ^ length ds" by simp
  then have "Suc (digits_val b ds) * b \<le> b ^ length ds * b"
    by (intro mult_le_mono1) simp
  moreover obtain d where "digit_val c = Some d" "d < b"
    using snoc.prems [of c] by (auto simp: isdigit_in_def split: option.splits)
  ultimately show ?case by (simp add: digits_val_def mult.commute)
qed (simp add: digits_val_def)

text \<open>\<open>atof\<close> of a plain decimal number is the number.\<close>

definition is_decimal :: "string \<Rightarrow> bool" where
  "is_decimal s \<longleftrightarrow> s \<noteq> [] \<and> (\<forall>c \<in> set s. isdigit_in 10 c)"

lemma isdigit_cases: "isdigit_in 10 c \<Longrightarrow> 48 \<le> (of_char c :: nat) \<and> of_char c \<le> (57 :: nat)"
  by (auto simp: isdigit_in_def digit_val_def Let_def split: if_splits)

lemma isdigit_not_space: "isdigit_in 10 c \<Longrightarrow> \<not> isspace c"
  by (drule isdigit_cases) (auto simp: isspace_def)

lemma isdigit_not_sign: "isdigit_in 10 c \<Longrightarrow> c \<noteq> CHR ''-'' \<and> c \<noteq> CHR ''+'' \<and> c \<noteq> CHR ''x'' \<and> c \<noteq> CHR ''X''"
  by (drule isdigit_cases) auto

lemma decimal_skip:
  assumes "is_decimal s"
  shows "skip_sign (dropWhile isspace s) = (False, s)"
  using assms isdigit_not_space isdigit_not_sign
  by (cases s) (auto simp: is_decimal_def)

lemma isdigit_decimal:
  assumes "is_decimal s"
  shows "isdigit_string s"
  unfolding isdigit_string_def decimal_skip [OF assms]
  using assms by (auto simp: is_decimal_def split: list.splits)

lemma mantissa_decimal: "is_decimal s \<Longrightarrow> mantissa 10 s = Some (real (digits_val 10 s), [])"
  by (auto simp: mantissa_def is_decimal_def takeWhile_all dropWhile_none digits_val_def)

lemma atof_decimal:
  assumes "is_decimal s"
  shows "atof s = real (digits_val 10 s)"
proof -
  have "(case s of z # x # r \<Rightarrow>
          (if z = CHR ''0'' \<and> (x = CHR ''x'' \<or> x = CHR ''X'')
           then map_option (\<lambda>(m, r'). m * 2 powi exponent ''pP'' r') (mantissa 16 r) else None)
        | _ \<Rightarrow> None) = None"
    using assms isdigit_not_sign by (auto simp: is_decimal_def split: list.splits)
  then show ?thesis
    by (simp add: atof_def decimal_skip [OF assms] atof_abs_def mantissa_decimal [OF assms] exponent_def)
qed

lemma to_int_nat: "n < 2 ^ 31 \<Longrightarrow> to_int (real n) = Some (int n)"
  by (simp add: to_int_def c_trunc_def)

lemma c_trunc_int [simp]: "c_trunc (real_of_int n) = n"
  by (simp add: c_trunc_def)

lemma c_trunc_bounds: "\<bar>real_of_int (c_trunc x) - x\<bar> < 1"
  by (auto simp: c_trunc_def) linarith+

lemma c_trunc_nonneg: "0 \<le> x \<Longrightarrow> 0 \<le> c_trunc x"
  by (simp add: c_trunc_def)

lemma c_trunc_neg: "x < 0 \<Longrightarrow> c_trunc x \<le> 0"
  by (simp add: c_trunc_def ceiling_le_iff)

lemma c_trunc_mono: "x \<le> y \<Longrightarrow> c_trunc x \<le> c_trunc y"
  by (auto simp: c_trunc_def intro: floor_mono ceiling_mono)
     (smt (verit) ceiling_le_zero zero_le_floor)

section \<open>Parsing a label\<close>

text \<open>The statics left by a call always fit the buffers.\<close>

definition statics_ok :: "parse_statics \<Rightarrow> bool" where
  "statics_ok st \<longleftrightarrow> length (c_str (middle_s st)) < maxStrLen \<and> length (c_str (last_s st)) < maxStrLen"

lemma strcpy_Some_iff: "(\<exists>t. strcpy s = Some t) \<longleftrightarrow> length (c_str s) < maxStrLen"
  by (simp add: strcpy_def)

lemma parseQuery_statics_ok: "parseQuery st l q = Some (st', l') \<Longrightarrow> statics_ok st'"
  by (auto simp: parseQuery_def statics_ok_def Let_def strcpy_def
      split: prod.splits bind_splits if_splits)

lemma parse_bare:
  assumes "is_field s" "\<not> isdigit_string s" "statics_ok st"
  shows "parseQuery st l s = Some (st\<lparr>first_s := s\<rparr>,
      l\<lparr>labelMemory := \<lparr>strQuery = c_str (last_s st), strBegin = s, strEnd = c_str (middle_s st)\<rparr>,
        query := s, isDurationForcedFlag := False, speed := 1, lbegin := -1, lend := -1\<rparr>)"
  using assms
  by (simp add: parseQuery_def getline_end getline_bad strcpy_field statics_ok_def)
     (simp add: strcpy_def)

text \<open>To decide the predicates on concrete text.\<close>

lemmas field_simps_concrete = is_field_def is_decimal_def isdigit_in_def digit_val_def digits_val_def
  isdigit_string_def isspace_def NUL_def maxStrLen_def Let_def of_char_def horner_sum_foldr foldr_def

section \<open>Properties\<close>

text \<open>
  C32. A line \<open>begin end query\<close> with decimal times below \<open>2 ^ 31\<close> and fields that fit their buffers
  gives a label with that query and those times whose duration is forced.
\<close>

theorem parseQuery_timed:
  assumes "is_field b" "is_field e" "is_field s" "is_decimal b" "is_decimal e"
    and "digits_val 10 b < 2 ^ 31" "digits_val 10 e < 2 ^ 31"
  shows "parseQuery st l (b @ CHR '' '' # e @ CHR '' '' # s) =
    Some (\<lparr>first_s = b, middle_s = e, last_s = s\<rparr>,
      l\<lparr>labelMemory := \<lparr>strQuery = s, strBegin = b, strEnd = e\<rparr>, query := s,
        isDurationForcedFlag := True, speed := 1,
        lbegin := int (digits_val 10 b), lend := int (digits_val 10 e)\<rparr>)"
  using assms
  by (simp add: parseQuery_def getline_sep getline_end strcpy_field isdigit_decimal atof_decimal to_int_nat)

theorem parseQuery_timed_witness:
  "\<exists>st l. parseQuery \<lparr>first_s = [], middle_s = [], last_s = []\<rparr> Label_new ''0 250 pau'' = Some (st, l) \<and>
    getQuery l = ''pau'' \<and> getBegin l = 0 \<and> getEnd l = 250 \<and> isDurationForced l"
  using parseQuery_timed [of "''0''" "''250''" "''pau''" "\<lparr>first_s = [], middle_s = [], last_s = []\<rparr>" Label_new]
  by (simp add: field_simps_concrete vox_simps)

text \<open>
  A line without spaces that does not start with a number gives a label with the line as its
  query and no times, whatever the statics of the parser hold, as long as they fit the buffers
  (they always do after a successful parse).
\<close>

theorem parseQuery_bare:
  assumes "is_field s" "\<not> isdigit_string s"
    and "st = \<lparr>first_s = [], middle_s = [], last_s = []\<rparr> \<or> parseQuery st0 l0 q = Some (st, l1)"
  shows "\<exists>st' l'. parseQuery st l s = Some (st', l') \<and> getQuery l' = s \<and> \<not> isDurationForced l' \<and>
    getBegin l' = -1 \<and> getEnd l' = -1 \<and> getSpeed l' = 1"
proof -
  have "statics_ok st"
    using assms(3) parseQuery_statics_ok by (auto simp: statics_ok_def c_str_def maxStrLen_def)
  then show ?thesis using parse_bare [OF assms(1,2), of st l] by (simp add: vox_simps)
qed

theorem parseQuery_bare_witness:
  "\<exists>st' l'. parseQuery \<lparr>first_s = [], middle_s = [], last_s = []\<rparr> Label_new ''x-pau+s'' = Some (st', l') \<and>
    getQuery l' = ''x-pau+s'' \<and> \<not> isDurationForced l'"
  using parseQuery_bare [of "''x-pau+s''" "\<lparr>first_s = [], middle_s = [], last_s = []\<rparr>" undefined undefined undefined undefined Label_new]
  by (simp add: field_simps_concrete) blast

text \<open>
  The strings of \<open>parseQuery\<close> are static: after a label with times, a line that holds only a
  number takes its end time and its query from that label.
\<close>

theorem parseQuery_inherits:
  assumes "is_field b" "is_field e" "is_field s" "is_decimal b" "is_decimal e"
    and "digits_val 10 b < 2 ^ 31" "digits_val 10 e < 2 ^ 31"
    and "is_field n" "is_decimal n" "digits_val 10 n < 2 ^ 31"
  shows "\<exists>st1 l1 st2 l2. parseQuery st l (b @ CHR '' '' # e @ CHR '' '' # s) = Some (st1, l1) \<and>
    parseQuery st1 l' n = Some (st2, l2) \<and> getQuery l2 = s \<and> isDurationForced l2 \<and>
    getBegin l2 = int (digits_val 10 n) \<and> getEnd l2 = int (digits_val 10 e)"
  using assms
  by (simp add: parseQuery_def getline_sep getline_end getline_bad strcpy_field isdigit_decimal atof_decimal
      to_int_nat vox_simps)

theorem parseQuery_inherits_witness:
  "\<exists>st1 l1 st2 l2. parseQuery \<lparr>first_s = [], middle_s = [], last_s = []\<rparr> Label_new ''0 250 pau'' = Some (st1, l1) \<and>
    parseQuery st1 Label_new ''7'' = Some (st2, l2) \<and> getQuery l2 = ''pau'' \<and> getBegin l2 = 7 \<and> getEnd l2 = 250"
  using parseQuery_inherits [of "''0''" "''250''" "''pau''" "''7''" "\<lparr>first_s = [], middle_s = [], last_s = []\<rparr>" Label_new Label_new]
  by (auto simp: field_simps_concrete)

end
