(* ===== verification/Constants.thy ===== *)
theory Constants
  imports Label
begin

text \<open>
  The constants of \<open>mage/src/Constants.h\<close> that the modelled code uses (mode \<open>HTS\<close>), the
  rounding of \<open>MathFunctions.cpp\<close>, and the checked conversion of an arithmetic result to \<open>int\<close>
  (signed overflow is undefined, here \<open>None\<close>).
\<close>

definition nOfDers :: nat where "nOfDers = 3"
definition nOfMGCs :: nat where "nOfMGCs = 35"
definition maxStreamLen :: nat where "maxStreamLen = nOfDers * nOfMGCs"
definition nOfStates :: nat where "nOfStates = 5"
definition nOfStreams :: nat where "nOfStreams = 3"
definition nOfLookup :: nat where "nOfLookup = 0"
definition nOfBackup :: nat where "nOfBackup = 2"
definition maxNumOfFrames :: nat where "maxNumOfFrames = 512"
definition maxDuration :: int where
  "maxDuration = int maxNumOfFrames div int (nOfBackup + nOfLookup + 1)"
definition maxLabelQueueLen :: nat where "maxLabelQueueLen = 512"
definition maxFrameQueueLen :: nat where "maxFrameQueueLen = 200"
definition maxModelQueueLen :: nat where "maxModelQueueLen = nOfLookup + nOfBackup + 2"
definition defaultAlpha :: real where "defaultAlpha = 55 / 100"
definition defaultFrameRate :: int where "defaultFrameRate = 240"
definition defaultInterpFrameRate :: int where "defaultInterpFrameRate = 1"
definition defaultSamplingRate :: int where "defaultSamplingRate = 48000"
definition defaultPadeOrder :: int where "defaultPadeOrder = 5"
definition defaultGamma :: int where "defaultGamma = 0"
definition defaultVolume :: int where "defaultVolume = 1"
definition defaultPitch :: int where "defaultPitch = 110"
definition mgcStreamIndex :: nat where "mgcStreamIndex = 0"
definition lf0StreamIndex :: nat where "lf0StreamIndex = 1"
definition lpfStreamIndex :: nat where "lpfStreamIndex = 2"
definition durStreamIndex :: nat where "durStreamIndex = 3"
definition noaction :: int where "noaction = -1"
definition overwrite :: int where "overwrite = 0"
definition shift :: int where "shift = 1"
definition scale :: int where "scale = 2"
definition synthetic :: int where "synthetic = 3"
definition maxNumOfArguments :: nat where "maxNumOfArguments = 100"
definition defaultInterpolationWeight :: real where "defaultInterpolationWeight = 1"
definition defaultMSDflag :: real where "defaultMSDflag = 0"

lemmas size_consts = nOfDers_def nOfMGCs_def maxStreamLen_def nOfStates_def nOfStreams_def
  nOfLookup_def nOfBackup_def maxNumOfFrames_def maxDuration_def maxLabelQueueLen_def
  maxFrameQueueLen_def maxModelQueueLen_def mgcStreamIndex_def lf0StreamIndex_def
  lpfStreamIndex_def durStreamIndex_def maxNumOfArguments_def

lemmas action_consts = noaction_def overwrite_def shift_def scale_def synthetic_def

definition Round :: "real \<Rightarrow> real" where
  "Round x = real_of_int \<lfloor>x + 1 / 2\<rfloor>"

definition c_int :: "int \<Rightarrow> int option" where
  "c_int x = (if - (2 ^ 31) \<le> x \<and> x < 2 ^ 31 then Some x else None)"

text \<open>Division of \<open>int\<close> truncates towards zero.\<close>

definition c_quot :: "int \<Rightarrow> int \<Rightarrow> int" where
  "c_quot a b = sgn a * sgn b * (\<bar>a\<bar> div \<bar>b\<bar>)"

lemma c_quot_pos [simp]: "0 \<le> a \<Longrightarrow> 0 < b \<Longrightarrow> c_quot a b = a div b"
  by (cases "a = 0") (auto simp: c_quot_def sgn_if)

lemma c_int_Some: "c_int x = Some y \<Longrightarrow> y = x"
  by (simp add: c_int_def split: if_splits)

lemma c_int_in [simp]: "- (2 ^ 31) \<le> x \<Longrightarrow> x < 2 ^ 31 \<Longrightarrow> c_int x = Some x"
  by (simp add: c_int_def)

lemma to_int_of_int: "to_int (real_of_int x) = c_int x"
  by (simp add: to_int_def c_int_def)

text \<open>A loop that updates each of the first items of an array, stopping on undefined behaviour.\<close>

fun traverse :: "('a \<Rightarrow> 'b option) \<Rightarrow> 'a list \<Rightarrow> 'b list option" where
  "traverse f [] = Some []"
| "traverse f (x # xs) = do { y \<leftarrow> f x; ys \<leftarrow> traverse f xs; Some (y # ys) }"

lemma traverse_Some_iff:
  "traverse f xs = Some ys \<longleftrightarrow> length ys = length xs \<and> (\<forall>i < length xs. f (xs ! i) = Some (ys ! i))"
proof (induction xs arbitrary: ys)
  case (Cons x xs)
  show ?case
  proof (cases ys)
    case (Cons y zs)
    have "(\<forall>i < length (x # xs). f ((x # xs) ! i) = Some ((y # zs) ! i)) \<longleftrightarrow>
        f x = Some y \<and> (\<forall>i < length xs. f (xs ! i) = Some (zs ! i))"
      by (auto simp: less_Suc_eq_0_disj)
    then show ?thesis using Cons.IH [of zs] Cons by (auto split: bind_splits)
  qed (auto split: bind_splits)
qed auto

lemma traverse_ex:
  assumes "\<And>x. x \<in> set xs \<Longrightarrow> \<exists>y. f x = Some y"
  shows "traverse f xs = Some (map (\<lambda>x. the (f x)) xs)"
  using assms by (induction xs) fastforce+

lemma traverse_length: "traverse f xs = Some ys \<Longrightarrow> length ys = length xs"
  by (simp add: traverse_Some_iff)

text \<open>Two arrays walked together: the second has to be at least as long.\<close>

definition zip_arr :: "'a list \<Rightarrow> 'b list \<Rightarrow> ('a \<times> 'b) list option" where
  "zip_arr xs ys = (if length xs \<le> length ys then Some (zip xs ys) else None)"

lemma zip_arr_in [simp]: "length xs \<le> length ys \<Longrightarrow> zip_arr xs ys = Some (zip xs ys)"
  by (simp add: zip_arr_def)

lemma zip_arr_Some: "zip_arr xs ys = Some ps \<Longrightarrow> ps = zip xs ys \<and> length ps = length xs"
  by (auto simp: zip_arr_def split: if_splits)

end
