(* ===== verification/Duration.thy ===== *)
theory Duration
  imports Label
begin

text \<open>
  \<open>mHTS_set_duration\<close> (\<open>mage/src/hts.cpp\<close>): the durations of the states of a model from
  their mean and variance and a wanted length in frames. A \<open>double\<close> is a \<open>real\<close>, so the
  theorems about the estimate hold in exact arithmetic and for positive variances; the
  theorems about the correction loop only use the integers. The correction loop picks a state
  \<open>j\<close>; \<open>duration[j]\<close> with \<open>j = -1\<close> is an access outside the array, here \<open>None\<close>.
\<close>

section \<open>The function\<close>

definition at_least_1 :: "int \<Rightarrow> int" where
  "at_least_1 d = (if d < 1 then 1 else d)"

text \<open>\<open>( int )( x + 0.5 )\<close> for every state, raised to 1.\<close>

fun round_all :: "real list \<Rightarrow> int list option" where
  "round_all [] = Some []"
| "round_all (x # xs) =
     do { d \<leftarrow> to_int (x + 1 / 2); ds \<leftarrow> round_all xs; Some (at_least_1 d # ds) }"

text \<open>
  The search for the flexible state: over the indices \<open>is\<close>, among those that \<open>elig\<close> allows,
  the state with the largest \<open>cost\<close>; \<open>j = None\<close> is \<open>j = -1\<close>.
\<close>

fun flex_search :: "(nat \<Rightarrow> bool) \<Rightarrow> (nat \<Rightarrow> real) \<Rightarrow> nat list \<Rightarrow> nat option \<Rightarrow> real \<Rightarrow> nat option" where
  "flex_search elig cost [] j temp1 = j"
| "flex_search elig cost (i # is) j temp1 =
     (if elig i \<and> (j = None \<or> temp1 < cost i) then flex_search elig cost is (Some i) (cost i)
      else flex_search elig cost is j temp1)"

definition incr_state :: "real \<Rightarrow> real list \<Rightarrow> real list \<Rightarrow> int list \<Rightarrow> real \<Rightarrow> nat option" where
  "incr_state rho mean vari duration temp1 =
     flex_search (\<lambda>i. True)
       (\<lambda>i. \<bar>rho - (real_of_int (duration ! i) + 1 - mean ! i) / vari ! i\<bar>)
       [1..<length duration] None temp1"

definition decr_state :: "real \<Rightarrow> real list \<Rightarrow> real list \<Rightarrow> int list \<Rightarrow> real \<Rightarrow> nat option" where
  "decr_state rho mean vari duration temp1 =
     flex_search (\<lambda>i. duration ! i > 1)
       (\<lambda>i. \<bar>rho - (real_of_int (duration ! i) - 1 - mean ! i) / vari ! i\<bar>)
       [1..<length duration] None temp1"

text \<open>
  The loop \<open>while( target_length != sum )\<close>. Every search resets \<open>temp1\<close> at its first
  candidate, so the value it starts from does not matter and is not threaded.
\<close>

function adjust :: "real \<Rightarrow> real list \<Rightarrow> real list \<Rightarrow> int \<Rightarrow> int \<Rightarrow> int list \<Rightarrow> int list option" where
  "adjust rho mean vari target dsum duration =
     (if target = dsum then Some duration
      else if target > dsum then
        (case incr_state rho mean vari duration 0 of
           None \<Rightarrow> None
         | Some j \<Rightarrow> adjust rho mean vari target (dsum + 1) (duration[j := duration ! j + 1]))
      else
        (case decr_state rho mean vari duration 0 of
           None \<Rightarrow> None
         | Some j \<Rightarrow> adjust rho mean vari target (dsum - 1) (duration[j := duration ! j - 1])))"
  by pat_completeness auto
termination
  by (relation "measure (\<lambda>(rho, mean, vari, target, dsum, duration). nat \<bar>target - dsum\<bar>)") auto

declare adjust.simps [simp del]

definition mHTS_set_duration :: "real list \<Rightarrow> real list \<Rightarrow> real \<Rightarrow> (int list \<times> int) option" where
  "mHTS_set_duration mean vari frame_length =
     (let n = length mean in
      if frame_length = 0 then do { ds \<leftarrow> round_all mean; Some (ds, sum_list ds) }
      else do {
        target \<leftarrow> to_int (frame_length + 1 / 2);
        if target \<le> int n then Some (replicate n 1, int n)
        else do {
          let rho = (real_of_int target - sum_list mean) / sum_list vari;
          ds \<leftarrow> round_all (map2 (\<lambda>m v. m + rho * v) mean vari);
          ds' \<leftarrow> adjust rho mean vari target (sum_list ds) ds;
          Some (ds', target)
        }
      })"

section \<open>The estimate\<close>

lemma at_least_1_ge [simp]: "1 \<le> at_least_1 d"
  by (simp add: at_least_1_def)

lemma round_all_props:
  "round_all xs = Some ds \<Longrightarrow> length ds = length xs \<and> (\<forall>d \<in> set ds. 1 \<le> d)"
  by (induction xs arbitrary: ds) (auto split: bind_splits)

lemma round_all_nth:
  "round_all xs = Some ds \<Longrightarrow> i < length xs \<Longrightarrow> ds ! i = at_least_1 (c_trunc (xs ! i + 1 / 2))"
proof (induction xs arbitrary: ds i)
  case (Cons x xs)
  then show ?case
    by (cases i) (auto split: bind_splits simp: to_int_def split: if_splits)
qed simp

section \<open>The correction loop\<close>

lemma flex_search_Some:
  "flex_search elig cost is j t = Some k \<Longrightarrow> j = Some k \<or> (k \<in> set is \<and> elig k)"
  by (induction elig cost "is" j t rule: flex_search.induct) (auto split: if_splits)

lemma flex_search_keeps: "flex_search elig cost is (Some k) t \<noteq> None"
proof (induction elig cost "is" "Some k" t arbitrary: k rule: flex_search.induct)
  case (2 elig cost i "is" t)
  then show ?case by (metis flex_search.simps(2))
qed simp

lemma flex_search_None_iff: "flex_search elig cost is None t = None \<longleftrightarrow> (\<forall>i \<in> set is. \<not> elig i)"
  by (induction "is" arbitrary: t) (auto simp: flex_search_keeps)

lemma incr_state_Some: "incr_state rho mean vari d t = Some j \<Longrightarrow> 0 < j \<and> j < length d"
  unfolding incr_state_def by (drule flex_search_Some) auto

lemma incr_state_ex: "2 \<le> length d \<Longrightarrow> incr_state rho mean vari d t \<noteq> None"
  unfolding incr_state_def flex_search_None_iff by auto

lemma decr_state_Some:
  "decr_state rho mean vari d t = Some j \<Longrightarrow> 0 < j \<and> j < length d \<and> 1 < d ! j"
  unfolding decr_state_def by (drule flex_search_Some) auto

lemma decr_state_None_iff:
  "decr_state rho mean vari d t = None \<longleftrightarrow> (\<forall>i. 0 < i \<and> i < length d \<longrightarrow> d ! i \<le> 1)"
  unfolding decr_state_def flex_search_None_iff by (force simp: not_less)

lemma all_upd:
  assumes "\<forall>x \<in> set d. 1 \<le> (x::int)" "1 \<le> v"
  shows "\<forall>x \<in> set (d[j := v]). 1 \<le> x"
  using assms set_update_subset_insert [of d j v] by blast

lemma all_incr:
  assumes "\<forall>x \<in> set d. 1 \<le> (x::int)" "j < length d"
  shows "\<forall>x \<in> set (d[j := d ! j + 1]). 1 \<le> x"
proof -
  have "1 \<le> d ! j" using assms by simp
  then show ?thesis by (intro all_upd [OF assms(1)]) simp
qed

lemma sum_list_upd:
  "j < length d \<Longrightarrow> sum_list (d[j := v]) = sum_list d - d ! j + (v::int)"
proof (induction d arbitrary: j)
  case (Cons x d)
  then show ?case by (cases j) auto
qed simp

lemma head_le_sum:
  assumes "d \<noteq> []" "\<forall>x \<in> set d. 1 \<le> (x::int)"
  shows "d ! 0 + int (length d) - 1 \<le> sum_list d"
proof -
  obtain x xs where d: "d = x # xs" using assms(1) by (cases d) auto
  have "int (length xs) \<le> sum_list xs" using assms(2) unfolding d by (induction xs) auto
  then show ?thesis by (simp add: d)
qed

text \<open>
  Whenever the loop stops inside the array, the durations have the wanted sum and stay
  positive, and the first state keeps its estimate.
\<close>

lemma adjust_sound:
  assumes "adjust rho mean vari target (sum_list d) d = Some d'" "\<forall>x \<in> set d. 1 \<le> x"
  shows "sum_list d' = target \<and> length d' = length d \<and> (\<forall>x \<in> set d'. 1 \<le> x) \<and>
    (d \<noteq> [] \<longrightarrow> d' ! 0 = d ! 0)"
  using assms
proof (induction rho mean vari target "sum_list d" d rule: adjust.induct)
  case (1 rho mean vari target d)
  show ?case
  proof (cases target "sum_list d" rule: linorder_cases)
    case equal
    with 1 show ?thesis by (simp add: adjust.simps)
  next
    case greater
    then obtain j where j: "incr_state rho mean vari d 0 = Some j"
      using "1.prems" by (auto simp: adjust.simps split: option.splits)
    note jb = incr_state_Some [OF j]
    let ?d = "d[j := d ! j + 1]"
    have s: "sum_list ?d = sum_list d + 1" using jb by (simp add: sum_list_upd)
    have a: "adjust rho mean vari target (sum_list ?d) ?d = Some d'"
      using "1.prems"(1) greater j s by (simp add: adjust.simps [of _ _ _ _ "sum_list d" d])
    have p: "\<forall>x \<in> set ?d. 1 \<le> x"
      using "1.prems"(2) jb by (intro all_incr) auto
    from "1.hyps"(1) [of j] greater j s a p jb show ?thesis by auto
  next
    case less
    then obtain j where j: "decr_state rho mean vari d 0 = Some j"
      using "1.prems" by (auto simp: adjust.simps split: option.splits)
    note jb = decr_state_Some [OF j]
    let ?d = "d[j := d ! j - 1]"
    have s: "sum_list ?d = sum_list d - 1" using jb by (simp add: sum_list_upd)
    have a: "adjust rho mean vari target (sum_list ?d) ?d = Some d'"
      using "1.prems"(1) less j s by (simp add: adjust.simps [of _ _ _ _ "sum_list d" d])
    have p: "\<forall>x \<in> set ?d. 1 \<le> x"
      using "1.prems"(2) jb by (intro all_upd) auto
    from "1.hyps"(2) [of j] less j s a p jb show ?thesis by auto
  qed
qed

text \<open>
  The loop leaves the array exactly when the first state alone, with one frame for each of the
  others, is already longer than the wanted length.
\<close>

lemma adjust_defined_iff:
  assumes "2 \<le> length d" "\<forall>x \<in> set d. 1 \<le> x"
  shows "adjust rho mean vari target (sum_list d) d \<noteq> None \<longleftrightarrow>
    sum_list d \<le> target \<or> d ! 0 + int (length d) - 1 \<le> target"
  using assms
proof (induction rho mean vari target "sum_list d" d rule: adjust.induct)
  case (1 rho mean vari target d)
  show ?case
  proof (cases target "sum_list d" rule: linorder_cases)
    case equal
    then show ?thesis by (simp add: adjust.simps)
  next
    case greater
    obtain j where j: "incr_state rho mean vari d 0 = Some j"
      using incr_state_ex [OF "1.prems"(1)] by blast
    note jb = incr_state_Some [OF j]
    let ?d = "d[j := d ! j + 1]"
    have s: "sum_list ?d = sum_list d + 1" using jb by (simp add: sum_list_upd)
    have p: "\<forall>x \<in> set ?d. 1 \<le> x"
      using "1.prems"(2) jb by (intro all_incr) auto
    from "1.hyps"(1) [of j] greater j s p jb "1.prems"(1)
    have "adjust rho mean vari target (sum_list d + 1) ?d \<noteq> None" by auto
    with greater j show ?thesis by (simp add: adjust.simps [of _ _ _ _ "sum_list d" d])
  next
    case less
    show ?thesis
    proof (cases "decr_state rho mean vari d 0")
      case None
      then have ones: "\<forall>i. 0 < i \<and> i < length d \<longrightarrow> d ! i = 1"
        using "1.prems"(2) by (metis decr_state_None_iff antisym nth_mem)
      obtain x xs where d: "d = x # xs" using "1.prems"(1) by (cases d) auto
      then have "\<forall>y \<in> set xs. y = 1"
        using ones by (metis Suc_less_eq in_set_conv_nth length_Cons nth_Cons_Suc zero_less_Suc)
      then have "sum_list xs = int (length xs)" by (induction xs) auto
      with None less d show ?thesis by (simp add: adjust.simps)
    next
      case (Some j)
      note jb = decr_state_Some [OF Some]
      let ?d = "d[j := d ! j - 1]"
      have s: "sum_list ?d = sum_list d - 1" using jb by (simp add: sum_list_upd)
      have p: "\<forall>x \<in> set ?d. 1 \<le> x"
        using "1.prems"(2) jb by (intro all_upd) auto
      from "1.hyps"(2) [of j] less Some s p jb "1.prems"(1)
      have "adjust rho mean vari target (sum_list d - 1) ?d \<noteq> None \<longleftrightarrow>
          sum_list d - 1 \<le> target \<or> d ! 0 + int (length d) - 1 \<le> target" by auto
      moreover have "sum_list d - 1 \<le> target \<Longrightarrow> d ! 0 + int (length d) - 1 \<le> target"
      proof -
        have "?d \<noteq> []" "?d ! 0 = d ! 0" "length ?d = length d" using jb by auto
        then show "d ! 0 + int (length d) - 1 \<le> target" if "sum_list d - 1 \<le> target"
          using head_le_sum [OF _ p] s that by simp
      qed
      ultimately show ?thesis using less Some by (auto simp: adjust.simps [of _ _ _ _ "sum_list d" d])
    qed
  qed
qed

section \<open>Properties\<close>





end
