(* ===== verification/Model.thy ===== *)
theory Model
  imports Constants Duration
begin

text \<open>
  \<open>MAGE::Model\<close> (\<open>mage/src/Model.h\<close>, \<open>Model.cpp\<close>) with \<open>Distribution.h\<close> and \<open>State.h\<close>: the
  hidden Markov model of one label. The lookups in the voice's decision trees
  (\<open>HTS_ModelSet_get_*\<close> of the hts\_engine library) are functions of the record \<open>Engine\<close>,
  which also has the fields of \<open>HTS_Global\<close> and of the streams that the code reads. The
  weight arrays of \<open>HTS_Global\<close> are reached through pointers, so
  \<open>checkInterpolationWeights\<close>, which works on a copy of the struct, changes them in the
  engine. \<open>None\<close> is undefined behaviour (an index outside an array, an \<open>int\<close> overflow, a
  query too long for its buffer).
\<close>

section \<open>Data\<close>

record Distribution =
  dmean :: real
  dvari :: real
  msdFlag :: real

record State =
  sduration :: int
  gv_switch_streams :: "bool list"
  streams :: "Distribution list list"
  gv_streams :: "Distribution list list"

record ModelMemory =
  duration_mean :: "real list"
  duration_vari :: "real list"
  duration_array :: "int list"
  mstrQuery :: string

record Model =
  mduration :: int
  state :: "State list"
  modelMemory :: ModelMemory
  weightsChecked :: bool

record HTS_Window =
  wsize :: nat
  l_width :: "int list"
  r_width :: "int list"
  coefficient :: "nat \<Rightarrow> int \<Rightarrow> real"
  max_width :: nat

record HTS_Stream =
  vector_length :: nat
  msd_flag :: bool
  window :: HTS_Window
  use_gv :: bool

record Engine =
  sampling_rate :: int
  fperiod :: int
  msd_threshold :: "real list"
  duration_iw :: "real list"
  parameter_iw :: "real list list"
  gv_iw :: "real list list"
  estreams :: "HTS_Stream list"
  get_duration :: "string \<Rightarrow> real list \<Rightarrow> real list \<times> real list"
  get_parameter :: "string \<Rightarrow> nat \<Rightarrow> nat \<Rightarrow> real list \<Rightarrow> real list \<times> real list \<times> real"
  get_gv :: "string \<Rightarrow> nat \<Rightarrow> real list \<Rightarrow> real list \<times> real list"

definition Distribution_zero :: Distribution where
  "Distribution_zero = \<lparr>dmean = 0, dvari = 0, msdFlag = 0\<rparr>"

definition State_zero :: State where
  "State_zero = \<lparr>sduration = 0, gv_switch_streams = replicate nOfStreams False,
     streams = replicate nOfStreams (replicate maxStreamLen Distribution_zero),
     gv_streams = replicate nOfStreams (replicate maxStreamLen Distribution_zero)\<rparr>"

definition ModelMemory_new :: ModelMemory where
  "ModelMemory_new = \<lparr>duration_mean = replicate nOfStates 0, duration_vari = replicate nOfStates 0,
     duration_array = replicate nOfStates 0, mstrQuery = []\<rparr>"

definition Model_new :: Model where
  "Model_new = \<lparr>mduration = 0, state = replicate nOfStates State_zero, modelMemory = ModelMemory_new,
     weightsChecked = False\<rparr>"

definition getState :: "Model \<Rightarrow> nat \<Rightarrow> State option" where
  "getState m index = arr_get (state m) index"

definition setState :: "Model \<Rightarrow> State \<Rightarrow> nat \<Rightarrow> Model option" where
  "setState m st index = map_option (\<lambda>s. m\<lparr>state := s\<rparr>) (arr_set (state m) index st)"

definition getDuration :: "Model \<Rightarrow> int" where
  "getDuration m = mduration m"

definition setDuration :: "Model \<Rightarrow> int \<Rightarrow> Model" where
  "setDuration m d = m\<lparr>mduration := d\<rparr>"

section \<open>Interpolation weights\<close>

definition normalise :: "real list \<Rightarrow> real list" where
  "normalise iw =
     (let temp = sum_list iw
      in if temp \<noteq> 0 then map (\<lambda>w. if w \<noteq> 0 then w / temp else w) iw else iw)"

definition checkInterpolationWeights :: "Model \<Rightarrow> Engine \<Rightarrow> bool \<Rightarrow> Model \<times> Engine" where
  "checkInterpolationWeights m e forced =
     (if \<not> weightsChecked m \<or> forced
      then (m\<lparr>weightsChecked := True\<rparr>,
            e\<lparr>duration_iw := normalise (duration_iw e),
              parameter_iw := map normalise (parameter_iw e),
              gv_iw := map2 (\<lambda>s iw. if use_gv s then normalise iw else iw) (estreams e) (gv_iw e)
                @ drop (length (estreams e)) (gv_iw e)\<rparr>)
      else (m, e))"

section \<open>Durations\<close>

definition initDuration :: "Model \<Rightarrow> Model" where
  "initDuration m = m\<lparr>state := map (\<lambda>s. s\<lparr>sduration := 0\<rparr>) (state m)\<rparr>"

definition frame_rate :: "Engine \<Rightarrow> real" where
  "frame_rate e = real_of_int (sampling_rate e) / (real_of_int (fperiod e) * 10 ^ 7)"

text \<open>
  The call of \<open>mHTS_set_duration\<close>: forced by the label's times, or from its speed. A forced
  label without an end time only prints a warning, and the arrays keep their content.
\<close>

definition set_durations :: "Model \<Rightarrow> Engine \<Rightarrow> Label \<Rightarrow> Model option" where
  "set_durations m e label =
     (let mm = modelMemory m;
          update = (\<lambda>fl. do {
            (ds, dsum) \<leftarrow> mHTS_set_duration (duration_mean mm) (duration_vari mm) fl;
            Some (m\<lparr>modelMemory := mm\<lparr>duration_array := ds\<rparr>, mduration := dsum\<rparr>)
          })
      in if isDurationForced label
         then do {
           len \<leftarrow> c_int (getEnd label - getBegin label);
           if getEnd label > 0 then update (real_of_int len * frame_rate e) else Some m
         }
         else if getSpeed label \<noteq> 1 then update (sum_list (duration_mean mm) / getSpeed label)
         else update 0)"

text \<open>\<open>state[i].duration += Round( iw * duration_array[i] )\<close> for every state.\<close>

definition add_duration :: "real \<Rightarrow> State \<times> int \<Rightarrow> State option" where
  "add_duration iw = (\<lambda>(s, d). do {
     n \<leftarrow> to_int (real_of_int (sduration s) + Round (iw * real_of_int d));
     Some (s\<lparr>sduration := n\<rparr>)
   })"

definition computeDuration :: "Model \<Rightarrow> Engine \<Rightarrow> Label \<Rightarrow> real list option \<Rightarrow> Model option" where
  "computeDuration m e label interpolationWeight =
     do {
       q \<leftarrow> strcpy (getQuery label);
       iw \<leftarrow> (case interpolationWeight of
               Some w \<Rightarrow> arr_get w durStreamIndex
             | None \<Rightarrow> Some 1);
       let (mean, vari) = get_duration e q (duration_iw e);
       let m1 = m\<lparr>modelMemory := (modelMemory m)\<lparr>mstrQuery := q, duration_mean := mean,
                     duration_vari := vari\<rparr>\<rparr>;
       m2 \<leftarrow> set_durations m1 e label;
       sd \<leftarrow> zip_arr (state m2) (duration_array (modelMemory m2));
       ss \<leftarrow> traverse (add_duration iw) sd;
       Some (m2\<lparr>state := ss\<rparr>)
     }"

definition act_duration :: "int \<Rightarrow> State \<times> real \<Rightarrow> State option" where
  "act_duration action = (\<lambda>(s, f). do {
     d \<leftarrow> (if action = overwrite then to_int f
          else if action = shift then to_int (real_of_int (sduration s) + f)
          else if action = scale then to_int (real_of_int (sduration s) * f)
          else Some (sduration s));
     Some (s\<lparr>sduration := if d < 0 then 1 else d\<rparr>)
   })"

text \<open>
  The limit for the memory of the model queue: \<open>duration *= maxDuration; duration /= dsum\<close>
  in \<open>int\<close> arithmetic; the product can overflow. The durations are not negative, so the
  division truncates as \<open>div\<close> does.
\<close>

definition limit_duration :: "int \<Rightarrow> State \<Rightarrow> State option" where
  "limit_duration dsum s = do {
     p \<leftarrow> c_int (sduration s * maxDuration);
     Some (s\<lparr>sduration := p div dsum\<rparr>)
   }"

definition total_duration :: "State list \<Rightarrow> int" where
  "total_duration ss = sum_list (map sduration ss)"

definition updateDuration :: "Model \<Rightarrow> real list option \<Rightarrow> int \<Rightarrow> Model option" where
  "updateDuration m updateFunction action =
     (case updateFunction of
        None \<Rightarrow> Some m
      | Some f \<Rightarrow> do {
          sf \<leftarrow> zip_arr (state m) f;
          ss \<leftarrow> traverse (act_duration action) sf;
          dsum \<leftarrow> c_int (total_duration ss);
          if dsum > maxDuration then do {
            ss' \<leftarrow> traverse (limit_duration dsum) ss;
            Some (m\<lparr>state := ss', mduration := total_duration ss'\<rparr>)
          }
          else Some (m\<lparr>state := ss, mduration := dsum\<rparr>)
        })"

section \<open>Parameters\<close>

definition initParameters :: "Model \<Rightarrow> Model" where
  "initParameters m = m\<lparr>state := map (\<lambda>s. s\<lparr>streams :=
     map (map (\<lambda>d. d\<lparr>dmean := 0, dvari := 0\<rparr>)) (streams s)\<rparr>) (state m)\<rparr>"

text \<open>
  The loop over \<open>j\<close>: the first \<open>n\<close> distributions of a stream of a state are updated from the
  arrays \<open>mean\<close> and \<open>vari\<close>.
\<close>

definition upd_row :: "(Distribution \<Rightarrow> real \<Rightarrow> real \<Rightarrow> Distribution) \<Rightarrow> nat \<Rightarrow>
    real list \<Rightarrow> real list \<Rightarrow> Distribution list \<Rightarrow> Distribution list option" where
  "upd_row f n mean vari row =
     (if n \<le> length row \<and> n \<le> length mean \<and> n \<le> length vari
      then Some (map (\<lambda>j. f (row ! j) (mean ! j) (vari ! j)) [0..<n] @ drop n row)
      else None)"

definition add_dist :: "real \<Rightarrow> real \<Rightarrow> Distribution \<Rightarrow> real \<Rightarrow> real \<Rightarrow> Distribution" where
  "add_dist iw msd d mean vari =
     d\<lparr>dmean := dmean d + iw * mean, dvari := dvari d + iw * iw * vari, msdFlag := msd\<rparr>"

definition param_row :: "Engine \<Rightarrow> string \<Rightarrow> real \<Rightarrow> nat \<Rightarrow> nat \<Rightarrow> State \<Rightarrow> State option" where
  "param_row e q iw k i s =
     do {
       str \<leftarrow> arr_get (estreams e) k;
       piw \<leftarrow> arr_get (parameter_iw e) k;
       let (mean, vari, msd) = get_parameter e q k (i + 2) piw;
       let lf0_msd = (if msd_flag str then msd else defaultMSDflag);
       row \<leftarrow> arr_get (streams s) k;
       row' \<leftarrow> upd_row (add_dist iw lf0_msd) (vector_length str) mean vari row;
       Some (s\<lparr>streams := (streams s)[k := row']\<rparr>)
     }"

fun param_streams :: "Engine \<Rightarrow> string \<Rightarrow> real list option \<Rightarrow> nat list \<Rightarrow> State list \<Rightarrow> State list option" where
  "param_streams e q w [] ss = Some ss"
| "param_streams e q w (k # ks) ss =
     do {
       iw \<leftarrow> (case w of Some v \<Rightarrow> arr_get v k | None \<Rightarrow> Some 1);
       ss' \<leftarrow> traverse (\<lambda>(i, s). param_row e q iw k i s) (List.enumerate 0 ss);
       param_streams e q w ks ss'
     }"

definition computeParameters :: "Model \<Rightarrow> Engine \<Rightarrow> Label \<Rightarrow> real list option \<Rightarrow> Model option" where
  "computeParameters m e label interpolationWeight =
     do {
       q \<leftarrow> strcpy (getQuery label);
       ss \<leftarrow> param_streams e q interpolationWeight [0..<nOfStreams] (state m);
       Some (m\<lparr>state := ss\<rparr>)
     }"

definition set_gv :: "Distribution \<Rightarrow> real \<Rightarrow> real \<Rightarrow> Distribution" where
  "set_gv d mean vari = d\<lparr>dmean := mean, dvari := vari\<rparr>"

definition gv_row :: "Engine \<Rightarrow> string \<Rightarrow> nat \<Rightarrow> State \<Rightarrow> State option" where
  "gv_row e q k s =
     do {
       str \<leftarrow> arr_get (estreams e) k;
       if use_gv str then do {
         giw \<leftarrow> arr_get (gv_iw e) k;
         let (mean, vari) = get_gv e q k giw;
         row \<leftarrow> arr_get (gv_streams s) k;
         row' \<leftarrow> upd_row set_gv (vector_length str) mean vari row;
         Some (s\<lparr>gv_streams := (gv_streams s)[k := row']\<rparr>)
       }
       else Some s
     }"

fun gv_rows :: "Engine \<Rightarrow> string \<Rightarrow> nat list \<Rightarrow> State \<Rightarrow> State option" where
  "gv_rows e q [] s = Some s"
| "gv_rows e q (k # ks) s = do { s' \<leftarrow> gv_row e q k s; gv_rows e q ks s' }"

text \<open>
  The local \<open>gv_switch\<close> that the code reads from the voice is never used: every switch is set
  to \<open>false\<close>.
\<close>

definition computeGlobalVariances :: "Model \<Rightarrow> Engine \<Rightarrow> Label \<Rightarrow> Model option" where
  "computeGlobalVariances m e label =
     do {
       q \<leftarrow> strcpy (getQuery label);
       ss \<leftarrow> traverse (gv_rows e q [0..<nOfStreams]) (state m);
       Some (m\<lparr>state := map (\<lambda>s. s\<lparr>gv_switch_streams := replicate nOfStreams False\<rparr>) ss\<rparr>)
     }"

section \<open>Lemmas: weights\<close>

lemma sum_list_scale: "sum_list (map (\<lambda>w. w / t) ws) = sum_list ws / (t::real)"
  by (induction ws) (auto simp: add_divide_distrib)

lemma normalise_eq: "sum_list iw \<noteq> 0 \<Longrightarrow> normalise iw = map (\<lambda>w. w / sum_list iw) iw"
  by (auto simp: normalise_def Let_def)

lemma sum_normalise: "sum_list iw \<noteq> 0 \<Longrightarrow> sum_list (normalise iw) = 1"
  by (simp add: normalise_eq sum_list_scale)

lemma length_normalise [simp]: "length (normalise iw) = length iw"
  by (simp add: normalise_def Let_def)

lemma normalise_zero: "sum_list iw = 0 \<Longrightarrow> normalise iw = iw"
  by (simp add: normalise_def)

lemma normalise_idem: "normalise (normalise iw) = normalise iw"
proof (cases "sum_list iw = 0")
  case False
  then have "sum_list (normalise iw) = 1" by (rule sum_normalise)
  then show ?thesis by (simp add: normalise_eq)
qed (simp add: normalise_zero)

section \<open>Lemmas: durations\<close>

definition model_ok :: "Model \<Rightarrow> bool" where
  "model_ok m \<longleftrightarrow> length (state m) = nOfStates \<and>
     (\<forall>s \<in> set (state m). length (streams s) = nOfStreams \<and> length (gv_streams s) = nOfStreams \<and>
        (\<forall>r \<in> set (streams s). length r = maxStreamLen) \<and> (\<forall>r \<in> set (gv_streams s). length r = maxStreamLen))"

text \<open>What the queue memory relies on: the state durations are the model's duration and fit.\<close>

definition duration_ok :: "Model \<Rightarrow> bool" where
  "duration_ok m \<longleftrightarrow> (\<forall>s \<in> set (state m). 0 \<le> sduration s) \<and>
     mduration m = total_duration (state m) \<and> mduration m \<le> maxDuration"

lemma total_duration_nonneg: "(\<And>s. s \<in> set ss \<Longrightarrow> 0 \<le> sduration s) \<Longrightarrow> 0 \<le> total_duration ss"
  unfolding total_duration_def by (rule sum_list_nonneg) auto

lemma act_duration_nonneg: "act_duration a (s, f) = Some s' \<Longrightarrow> 0 \<le> sduration s'"
  by (auto simp: act_duration_def split: bind_splits if_splits)

lemma limit_duration_Some:
  "limit_duration t s = Some s' \<Longrightarrow> sduration s' = sduration s * maxDuration div t"
  by (auto simp: limit_duration_def dest: c_int_Some split: bind_splits)

text \<open>Rounding every share of a limit down keeps the sum within the limit.\<close>

lemma sum_floor_shares:
  assumes "0 < (t::int)"
  shows "sum_list (map (\<lambda>d. d * k div t) ds) \<le> sum_list ds * k div t"
proof (induction ds)
  case (Cons d ds)
  have "d * k div t + sum_list ds * k div t \<le> (d * k + sum_list ds * k) div t"
    using assms pos_imp_zdiv_nonneg_iff [OF assms] pos_mod_sign [OF assms]
    by (simp add: div_add1_eq [of "d * k" "sum_list ds * k" t])
  with Cons show ?case by (simp add: distrib_right)
qed simp

lemma traverse_map_eq:
  "traverse f xs = Some ys \<Longrightarrow> (\<And>x y. f x = Some y \<Longrightarrow> g y = h x) \<Longrightarrow> map g ys = map h xs"
  by (auto simp: traverse_Some_iff intro!: nth_equalityI)

lemma traverse_set:
  "traverse f xs = Some ys \<Longrightarrow> y \<in> set ys \<Longrightarrow> \<exists>x \<in> set xs. f x = Some y"
  by (fastforce simp: traverse_Some_iff in_set_conv_nth)

lemma limit_total:
  assumes "traverse (limit_duration t) ss = Some ss'" "t = total_duration ss" "0 < t"
  shows "total_duration ss' \<le> maxDuration"
proof -
  have "map sduration ss' = map (\<lambda>d. d * maxDuration div t) (map sduration ss)"
    using traverse_map_eq [OF assms(1) limit_duration_Some] by (simp add: comp_def)
  then have "total_duration ss' \<le> sum_list (map sduration ss) * maxDuration div t"
    using sum_floor_shares [OF assms(3), of maxDuration "map sduration ss"]
    by (simp add: total_duration_def)
  also have "\<dots> = maxDuration" using assms(2,3) by (simp add: total_duration_def)
  finally show ?thesis .
qed

lemma updateDuration_ok:
  assumes "updateDuration m (Some f) a = Some m'"
  shows "duration_ok m'"
proof -
  from assms obtain sf ss dsum where
    ss: "traverse (act_duration a) sf = Some ss" and
    tot: "dsum = total_duration ss" and
    m': "if dsum > maxDuration then \<exists>ss'. traverse (limit_duration dsum) ss = Some ss' \<and>
           m' = m\<lparr>state := ss', mduration := total_duration ss'\<rparr>
         else m' = m\<lparr>state := ss, mduration := dsum\<rparr>"
    by (auto simp: updateDuration_def dest!: c_int_Some split: bind_splits if_splits)
  have nn: "0 \<le> sduration s" if "s \<in> set ss" for s
    using traverse_set [OF ss that] act_duration_nonneg by fastforce
  show ?thesis
  proof (cases "dsum > maxDuration")
    case True
    then have pos: "0 < dsum" by (simp add: size_consts)
    from True m' obtain ss' where ss': "traverse (limit_duration dsum) ss = Some ss'"
      and eq: "m' = m\<lparr>state := ss', mduration := total_duration ss'\<rparr>" by auto
    have "0 \<le> sduration s" if s: "s \<in> set ss'" for s
    proof -
      obtain s0 where "s0 \<in> set ss" "limit_duration dsum s0 = Some s"
        using traverse_set [OF ss' s] by blast
      then show ?thesis
        using nn [of s0] limit_duration_Some [of dsum s0 s] pos
        by (simp add: size_consts pos_imp_zdiv_nonneg_iff)
    qed
    with limit_total [OF ss' tot pos] eq show ?thesis by (simp add: duration_ok_def)
  next
    case False
    with m' nn tot show ?thesis by (simp add: duration_ok_def)
  qed
qed

text \<open>
  \<open>2 ^ 31 div maxDuration\<close>, 12632256: below it the product in the limit does not overflow.
\<close>

lemma limit_duration_ex:
  assumes "0 \<le> sduration s" "sduration s \<le> 12632256"
  shows "\<exists>s'. limit_duration t s = Some s'"
proof -
  have "0 \<le> sduration s * maxDuration" "sduration s * maxDuration < 2 ^ 31"
    using assms by (simp_all add: size_consts)
  then show ?thesis by (simp add: limit_duration_def)
qed

lemma updateDuration_noaction:
  assumes "length (state m) \<le> length f" "\<forall>s \<in> set (state m). 0 \<le> sduration s"
    and "total_duration (state m) \<le> 12632256"
  shows "\<exists>m'. updateDuration m (Some f) noaction = Some m' \<and> length (state m') = length (state m) \<and>
    (total_duration (state m) \<le> maxDuration \<longrightarrow> state m' = state m)"
proof -
  let ?ss = "state m"
  have act: "traverse (act_duration noaction) (zip ?ss f) = Some ?ss"
    using assms(1,2) by (auto simp: traverse_Some_iff act_duration_def action_consts not_less [symmetric])
  have range: "c_int (total_duration ?ss) = Some (total_duration ?ss)"
    using assms(3) total_duration_nonneg [of ?ss] assms(2) by simp
  have each: "\<exists>s'. limit_duration t s = Some s'" if "s \<in> set ?ss" for t s
  proof (rule limit_duration_ex)
    show "0 \<le> sduration s" using assms(2) that by blast
    have "sduration s \<le> sum_list (map sduration ?ss)"
      using assms(2) that by (intro member_le_sum_list) auto
    then show "sduration s \<le> 12632256" using assms(3) by (simp add: total_duration_def)
  qed
  note tr = traverse_ex [of ?ss "limit_duration (total_duration ?ss)", OF each]
  show ?thesis
    using act range tr assms(1) by (auto simp: updateDuration_def)
qed

section \<open>Lemmas: parameters\<close>

text \<open>
  What the code relies on in a loaded voice: one entry per stream in every table, vectors that
  fit the arrays, and lookups that fill the whole vector.
\<close>

definition voice_ok :: "Engine \<Rightarrow> bool" where
  "voice_ok e \<longleftrightarrow> length (estreams e) = nOfStreams \<and> length (parameter_iw e) = nOfStreams \<and>
     length (gv_iw e) = nOfStreams \<and> length (msd_threshold e) = nOfStreams \<and>
     (\<forall>s \<in> set (estreams e). vector_length s \<le> maxStreamLen) \<and>
     (\<forall>q k i iw. k < nOfStreams \<longrightarrow>
        (case get_parameter e q k i iw of (mean, vari, msd) \<Rightarrow>
           vector_length (estreams e ! k) \<le> length mean \<and> vector_length (estreams e ! k) \<le> length vari)) \<and>
     (\<forall>q k iw. k < nOfStreams \<longrightarrow>
        (case get_gv e q k iw of (mean, vari) \<Rightarrow>
           vector_length (estreams e ! k) \<le> length mean \<and> vector_length (estreams e ! k) \<le> length vari))"

definition state_ok :: "State \<Rightarrow> bool" where
  "state_ok s \<longleftrightarrow> length (streams s) = nOfStreams \<and> length (gv_streams s) = nOfStreams \<and>
     (\<forall>r \<in> set (streams s). length r = maxStreamLen) \<and> (\<forall>r \<in> set (gv_streams s). length r = maxStreamLen)"

lemma model_ok_state_ok:
  "model_ok m \<longleftrightarrow> length (state m) = nOfStates \<and> (\<forall>s \<in> set (state m). state_ok s)"
  by (simp add: model_ok_def state_ok_def)

lemma voice_okD:
  assumes "voice_ok e" "k < nOfStreams"
  shows "k < length (estreams e)" "k < length (parameter_iw e)" "k < length (gv_iw e)"
    "vector_length (estreams e ! k) \<le> maxStreamLen"
    "get_parameter e q k i iw = (mean, vari, msd) \<Longrightarrow> vector_length (estreams e ! k) \<le> length mean"
    "get_parameter e q k i iw = (mean, vari, msd) \<Longrightarrow> vector_length (estreams e ! k) \<le> length vari"
    "get_gv e q k iw = (mean, vari) \<Longrightarrow> vector_length (estreams e ! k) \<le> length mean"
    "get_gv e q k iw = (mean, vari) \<Longrightarrow> vector_length (estreams e ! k) \<le> length vari"
proof -
  have par: "case get_parameter e q k i iw of (mean, vari, msd) \<Rightarrow>
      vector_length (estreams e ! k) \<le> length mean \<and> vector_length (estreams e ! k) \<le> length vari"
    and gv: "case get_gv e q k iw of (mean, vari) \<Rightarrow>
      vector_length (estreams e ! k) \<le> length mean \<and> vector_length (estreams e ! k) \<le> length vari"
    using assms by (simp_all add: voice_ok_def)
  show "k < length (estreams e)" "k < length (parameter_iw e)" "k < length (gv_iw e)"
    "vector_length (estreams e ! k) \<le> maxStreamLen"
    using assms by (simp_all add: voice_ok_def)
  show "get_parameter e q k i iw = (mean, vari, msd) \<Longrightarrow> vector_length (estreams e ! k) \<le> length mean"
    "get_parameter e q k i iw = (mean, vari, msd) \<Longrightarrow> vector_length (estreams e ! k) \<le> length vari"
    using par by auto
  show "get_gv e q k iw = (mean, vari) \<Longrightarrow> vector_length (estreams e ! k) \<le> length mean"
    "get_gv e q k iw = (mean, vari) \<Longrightarrow> vector_length (estreams e ! k) \<le> length vari"
    using gv by auto
qed

lemma state_okD:
  assumes "state_ok s" "k < nOfStreams"
  shows "k < length (streams s)" "k < length (gv_streams s)"
    "length (streams s ! k) = maxStreamLen" "length (gv_streams s ! k) = maxStreamLen"
  using assms by (auto simp: state_ok_def)

lemma state_ok_upd:
  assumes "state_ok s" "length r = maxStreamLen"
  shows "state_ok (s\<lparr>streams := (streams s)[k := r]\<rparr>)"
    and "state_ok (s\<lparr>gv_streams := (gv_streams s)[k := r]\<rparr>)"
  using assms set_update_subset_insert [of "streams s" k r] set_update_subset_insert [of "gv_streams s" k r]
  by (auto simp: state_ok_def)

lemma upd_row_ex:
  assumes "n \<le> length row" "n \<le> length mean" "n \<le> length vari"
  shows "\<exists>row'. upd_row f n mean vari row = Some row' \<and> length row' = length row"
  using assms by (simp add: upd_row_def)

lemma param_row_ok:
  assumes "voice_ok e" "state_ok s" "k < nOfStreams"
  shows "\<exists>s'. param_row e q iw k i s = Some s' \<and> state_ok s' \<and> sduration s' = sduration s"
proof -
  obtain mean vari msd where g: "get_parameter e q k (i + 2) (parameter_iw e ! k) = (mean, vari, msd)"
    by (cases "get_parameter e q k (i + 2) (parameter_iw e ! k)") auto
  note v = voice_okD [OF assms(1,3)] and st = state_okD [OF assms(2,3)]
  let ?str = "estreams e ! k"
  from upd_row_ex [of "vector_length ?str" "streams s ! k" mean vari] v g st obtain row' where
    r: "upd_row (add_dist iw (if msd_flag ?str then msd else defaultMSDflag)) (vector_length ?str)
       mean vari (streams s ! k) = Some row'" "length row' = maxStreamLen"
    by metis
  then have "param_row e q iw k i s = Some (s\<lparr>streams := (streams s)[k := row']\<rparr>)"
    using v(1,2) st(1) g by (simp add: param_row_def)
  with state_ok_upd(1) [OF assms(2) r(2)] show ?thesis by simp
qed

lemma traverse_ok:
  assumes "\<And>x. x \<in> set xs \<Longrightarrow> \<exists>y. f x = Some y \<and> P y"
  shows "\<exists>ys. traverse f xs = Some ys \<and> length ys = length xs \<and> (\<forall>y \<in> set ys. P y)"
  using assms
proof (induction xs)
  case (Cons x xs)
  then obtain y ys where "f x = Some y" "P y" "traverse f xs = Some ys" "length ys = length xs"
    "\<forall>y \<in> set ys. P y" by (metis list.set_intros(1,2))
  then show ?case by simp
qed simp

lemma param_streams_ok:
  assumes "voice_ok e" "\<forall>s \<in> set ss. state_ok s" "\<forall>k \<in> set ks. k < nOfStreams"
    and "\<forall>v. w = Some v \<longrightarrow> nOfStreams \<le> length v"
  shows "\<exists>ss'. param_streams e q w ks ss = Some ss' \<and> length ss' = length ss \<and> (\<forall>s \<in> set ss'. state_ok s)"
  using assms(2,3)
proof (induction ks arbitrary: ss)
  case (Cons k ks)
  have k: "k < nOfStreams" using Cons.prems by simp
  obtain iw where iw: "(case w of Some v \<Rightarrow> arr_get v k | None \<Rightarrow> Some 1) = Some iw"
    using assms(4) k by (cases w) (auto simp: arr_get_def)
  have "\<exists>y. (case p of (i, s) \<Rightarrow> param_row e q iw k i s) = Some y \<and> state_ok y"
    if "p \<in> set (List.enumerate 0 ss)" for p
  proof -
    obtain i s where p: "p = (i, s)" by (cases p)
    with that have "s \<in> set ss" by (auto simp: in_set_enumerate_eq)
    then show ?thesis using param_row_ok [OF assms(1) _ k] Cons.prems(1) p by fastforce
  qed
  from traverse_ok [of "List.enumerate 0 ss" "\<lambda>(i, s). param_row e q iw k i s" state_ok, OF this] obtain ss1 where
    "traverse (\<lambda>(i, s). param_row e q iw k i s) (List.enumerate 0 ss) = Some ss1"
    "length ss1 = length ss" "\<forall>s \<in> set ss1. state_ok s" by auto
  with Cons.IH [of ss1] Cons.prems(2) iw show ?case by simp
qed simp

lemma computeParameters_ok:
  assumes "voice_ok e" "model_ok m" "length (c_str (getQuery label)) < maxStrLen"
    and "\<forall>v. w = Some v \<longrightarrow> nOfStreams \<le> length v"
  shows "\<exists>m'. computeParameters m e label w = Some m' \<and> model_ok m'"
  using param_streams_ok [OF assms(1) _ _ assms(4), of "state m" "[0..<nOfStreams]" "c_str (getQuery label)"]
    assms(2,3)
  by (auto simp: computeParameters_def strcpy_def model_ok_state_ok)

lemma gv_row_ok:
  assumes "voice_ok e" "state_ok s" "k < nOfStreams"
  shows "\<exists>s'. gv_row e q k s = Some s' \<and> state_ok s'"
proof -
  obtain mean vari where g: "get_gv e q k (gv_iw e ! k) = (mean, vari)"
    by (cases "get_gv e q k (gv_iw e ! k)") auto
  note v = voice_okD [OF assms(1,3)] and st = state_okD [OF assms(2,3)]
  let ?str = "estreams e ! k"
  from upd_row_ex [of "vector_length ?str" "gv_streams s ! k" mean vari] v g st obtain row' where
    r: "upd_row set_gv (vector_length ?str) mean vari (gv_streams s ! k) = Some row'"
    "length row' = maxStreamLen" by metis
  then have "gv_row e q k s =
      (if use_gv ?str then Some (s\<lparr>gv_streams := (gv_streams s)[k := row']\<rparr>) else Some s)"
    using v(1,3) st(2) g by (simp add: gv_row_def)
  with state_ok_upd(2) [OF assms(2) r(2)] assms(2) show ?thesis by simp
qed

lemma gv_rows_ok:
  assumes "voice_ok e" "state_ok s" "\<forall>k \<in> set ks. k < nOfStreams"
  shows "\<exists>s'. gv_rows e q ks s = Some s' \<and> state_ok s'"
  using assms(2,3)
proof (induction ks arbitrary: s)
  case (Cons k ks)
  then obtain s1 where "gv_row e q k s = Some s1" "state_ok s1"
    using gv_row_ok [OF assms(1)] by force
  with Cons show ?case by simp
qed simp

lemma computeGlobalVariances_ok:
  assumes "voice_ok e" "model_ok m" "length (c_str (getQuery label)) < maxStrLen"
  shows "\<exists>m'. computeGlobalVariances m e label = Some m' \<and> model_ok m' \<and>
    (\<forall>s \<in> set (state m'). \<forall>b \<in> set (gv_switch_streams s). \<not> b)"
proof -
  have "\<exists>y. gv_rows e (c_str (getQuery label)) [0..<nOfStreams] s = Some y \<and> state_ok y"
    if "s \<in> set (state m)" for s
    using gv_rows_ok [OF assms(1)] assms(2) that by (simp add: model_ok_state_ok)
  from traverse_ok [of "state m" "gv_rows e (c_str (getQuery label)) [0..<nOfStreams]" state_ok, OF this] obtain ss where
    "traverse (gv_rows e (c_str (getQuery label)) [0..<nOfStreams]) (state m) = Some ss"
    "length ss = length (state m)" "\<forall>s \<in> set ss. state_ok s" by auto
  then show ?thesis using assms(2,3)
    by (auto simp: computeGlobalVariances_def strcpy_def model_ok_state_ok) (simp add: state_ok_def)
qed

section \<open>Lemmas: what the steps leave alone\<close>

text \<open>The shape of a state: everything but its duration has the right size.\<close>

definition shape_ok :: "State \<Rightarrow> bool" where
  "shape_ok s \<longleftrightarrow> state_ok s \<and> length (gv_switch_streams s) = nOfStreams"

definition slot_ok :: "Model \<Rightarrow> bool" where
  "slot_ok m \<longleftrightarrow> length (state m) = nOfStates \<and> (\<forall>s \<in> set (state m). shape_ok s)"

lemma slot_ok_model_ok: "slot_ok m \<Longrightarrow> model_ok m"
  by (simp add: slot_ok_def model_ok_state_ok shape_ok_def)

lemma shape_ok_duration [simp]: "shape_ok (s\<lparr>sduration := d\<rparr>) = shape_ok s"
  by (simp add: shape_ok_def state_ok_def)

lemma Model_new_ok: "slot_ok Model_new"
  by (auto simp: slot_ok_def Model_new_def shape_ok_def state_ok_def State_zero_def)

lemma duration_ok_cong:
  assumes "map sduration (state m') = map sduration (state m)" "mduration m' = mduration m"
  shows "duration_ok m' = duration_ok m"
proof -
  have "sduration ` set (state m') = sduration ` set (state m)" using arg_cong [OF assms(1), of set] by simp
  then have "(\<forall>s \<in> set (state m'). 0 \<le> sduration s) = (\<forall>s \<in> set (state m). 0 \<le> sduration s)"
    by (metis (no_types, lifting) image_iff)
  then show ?thesis using assms by (simp add: duration_ok_def total_duration_def)
qed

lemma traverse_shape:
  assumes "traverse f xs = Some ys" "\<And>x y. x \<in> set xs \<Longrightarrow> f x = Some y \<Longrightarrow> P y"
  shows "length ys = length xs" "\<forall>y \<in> set ys. P y"
  using assms(2) traverse_set [OF assms(1)] traverse_length [OF assms(1)] by blast+

lemma set_durations_state: "set_durations m e l = Some m' \<Longrightarrow> state m' = state m"
  by (auto simp: set_durations_def Let_def bind_eq_Some_conv split: if_splits)

lemma computeDuration_slot:
  assumes "computeDuration m e l w = Some m'" "slot_ok m"
  shows "slot_ok m'"
proof -
  obtain q iw m2 ss sd where sdur: "set_durations (m\<lparr>modelMemory := (modelMemory m)\<lparr>mstrQuery := q,
        duration_mean := fst (get_duration e q (duration_iw e)),
        duration_vari := snd (get_duration e q (duration_iw e))\<rparr>\<rparr>) e l = Some m2"
    and z: "zip_arr (state m2) (duration_array (modelMemory m2)) = Some sd"
    and tr: "traverse (add_duration iw) sd = Some ss" and m': "m' = m2\<lparr>state := ss\<rparr>"
    using assms(1) by (auto simp: computeDuration_def Let_def bind_eq_Some_conv case_prod_beta)
  have st: "state m2 = state m" using set_durations_state [OF sdur] by simp
  have sd: "sd = zip (state m) (duration_array (modelMemory m2))" "length sd = length (state m)"
    using zip_arr_Some [OF z] st by auto
  have "shape_ok y" if "x \<in> set sd" "add_duration iw x = Some y" for x y
  proof -
    obtain s d where x: "x = (s, d)" by (cases x)
    then have "s \<in> set (state m)" using that(1) sd(1) by (auto dest: set_zip_leftD)
    with assms(2) that(2) x show ?thesis by (auto simp: add_duration_def slot_ok_def split: bind_splits)
  qed
  from traverse_shape [of "add_duration iw" sd ss shape_ok, OF tr this] sd(2) assms(2) show ?thesis by (auto simp: slot_ok_def m')
qed

lemma updateDuration_slot:
  assumes "updateDuration m (Some f) a = Some m'" "slot_ok m"
  shows "slot_ok m'"
proof -
  from assms(1) obtain sf ss dsum where
    sf: "zip_arr (state m) f = Some sf" and ss: "traverse (act_duration a) sf = Some ss" and
    m': "(if dsum > maxDuration then do {
            ss' \<leftarrow> traverse (limit_duration dsum) ss;
            Some (m\<lparr>state := ss', mduration := total_duration ss'\<rparr>)
          } else Some (m\<lparr>state := ss, mduration := dsum\<rparr>)) = Some m'"
    by (simp add: updateDuration_def bind_eq_Some_conv) blast
  have sf': "sf = zip (state m) f" "length sf = length (state m)" using zip_arr_Some [OF sf] by auto
  have "shape_ok y" if "x \<in> set sf" "act_duration a x = Some y" for x y
  proof -
    obtain s d where x: "x = (s, d)" by (cases x)
    then have "s \<in> set (state m)" using that(1) sf'(1) by (auto dest: set_zip_leftD)
    with assms(2) that(2) x show ?thesis by (auto simp: act_duration_def slot_ok_def split: bind_splits)
  qed
  note ok = traverse_shape [of "act_duration a" sf ss shape_ok, OF ss this]
  have lim: "shape_ok y" if "x \<in> set ss" "limit_duration dsum x = Some y" for x y
    using that ok(2) by (auto simp: limit_duration_def split: bind_splits)
  show ?thesis
    using m' ok sf'(2) assms(2) traverse_shape [of "limit_duration dsum" ss _ shape_ok, OF _ lim]
    by (auto simp: slot_ok_def bind_eq_Some_conv split: if_splits)
qed

lemma param_row_keeps:
  "param_row e q iw k i s = Some s' \<Longrightarrow> sduration s' = sduration s \<and> gv_switch_streams s' = gv_switch_streams s"
  by (auto simp: param_row_def Let_def case_prod_beta bind_eq_Some_conv)

lemma param_streams_keeps:
  "param_streams e q w ks ss = Some ss' \<Longrightarrow> map sduration ss' = map sduration ss \<and>
   map gv_switch_streams ss' = map gv_switch_streams ss"
proof (induction ks arbitrary: ss)
  case (Cons k ks)
  then obtain iw ss1 where tr: "traverse (\<lambda>(i, s). param_row e q iw k i s) (List.enumerate 0 ss) = Some ss1"
    and rest: "param_streams e q w ks ss1 = Some ss'"
    by (auto simp: bind_eq_Some_conv)
  have "map sduration ss1 = map (sduration \<circ> snd) (List.enumerate 0 ss)"
    "map gv_switch_streams ss1 = map (gv_switch_streams \<circ> snd) (List.enumerate 0 ss)"
    by (rule traverse_map_eq [OF tr], use param_row_keeps in fastforce)+
  then show ?case using Cons.IH [OF rest] by (simp flip: map_map)
qed simp

lemma computeParameters_keeps:
  assumes "computeParameters m e l w = Some m'"
  shows "map sduration (state m') = map sduration (state m)" "mduration m' = mduration m"
  using assms by (auto simp: computeParameters_def bind_eq_Some_conv dest: param_streams_keeps)

lemma gv_rows_keeps: "gv_rows e q ks s = Some s' \<Longrightarrow> sduration s' = sduration s"
proof (induction ks arbitrary: s)
  case (Cons k ks)
  then obtain s1 where "gv_row e q k s = Some s1" "gv_rows e q ks s1 = Some s'" by (auto simp: bind_eq_Some_conv)
  with Cons.IH show ?case
    by (auto simp: gv_row_def bind_eq_Some_conv Let_def case_prod_beta split: if_splits)
qed simp

lemma computeGlobalVariances_keeps:
  assumes "computeGlobalVariances m e l = Some m'"
  shows "map sduration (state m') = map sduration (state m)" "mduration m' = mduration m"
    "\<forall>s \<in> set (state m'). length (gv_switch_streams s) = nOfStreams"
proof -
  obtain q ss where tr: "traverse (gv_rows e q [0..<nOfStreams]) (state m) = Some ss"
    and m': "m' = m\<lparr>state := map (\<lambda>s. s\<lparr>gv_switch_streams := replicate nOfStreams False\<rparr>) ss\<rparr>"
    using assms by (auto simp: computeGlobalVariances_def bind_eq_Some_conv)
  show "map sduration (state m') = map sduration (state m)"
    using traverse_map_eq [OF tr gv_rows_keeps] by (simp add: m' comp_def)
  show "mduration m' = mduration m" "\<forall>s \<in> set (state m'). length (gv_switch_streams s) = nOfStreams"
    by (auto simp: m')
qed

lemma initParameters_keeps:
  "duration_ok (initParameters m) = duration_ok m" "model_ok (initParameters m) = model_ok m"
  by (auto simp: initParameters_def duration_ok_def model_ok_def total_duration_def comp_def)

lemma initDuration_slot: "slot_ok m \<Longrightarrow> slot_ok (initDuration m)"
  by (auto simp: slot_ok_def initDuration_def)

section \<open>Lemmas: the durations of a label without times\<close>

text \<open>
  What the code relies on in the duration tables of a voice: a mean for every state, none
  negative and none above 100000 frames.
\<close>

definition durations_ok :: "Engine \<Rightarrow> bool" where
  "durations_ok e \<longleftrightarrow> (\<forall>q iw. case get_duration e q iw of (mean, vari) \<Rightarrow>
     length mean = nOfStates \<and> (\<forall>x \<in> set mean. 0 \<le> x \<and> x \<le> 100000))"

definition natural_durations :: "Engine \<Rightarrow> string \<Rightarrow> int list" where
  "natural_durations e q = map (\<lambda>x. max 1 \<lfloor>x + 1 / 2\<rfloor>) (fst (get_duration e q (duration_iw e)))"

lemma round_all_natural:
  "\<forall>x \<in> set xs. 0 \<le> x \<and> x \<le> 100000 \<Longrightarrow> round_all xs = Some (map (\<lambda>x. max 1 \<lfloor>x + 1 / 2\<rfloor>) xs)"
proof (induction xs)
  case (Cons x xs)
  then have "0 \<le> \<lfloor>x + 1 / 2\<rfloor>" "\<lfloor>x + 1 / 2\<rfloor> < 2 ^ 31" "0 \<le> x + 1 / 2" by (auto simp: floor_less_iff)
  then show ?case using Cons by (auto simp: to_int_def c_trunc_def at_least_1_def max_def)
qed simp

lemma natural_durations_bounds:
  assumes "durations_ok e"
  shows "length (natural_durations e q) = nOfStates"
    and "d \<in> set (natural_durations e q) \<Longrightarrow> 1 \<le> d \<and> d \<le> 100001"
proof -
  obtain mean vari where g: "get_duration e q (duration_iw e) = (mean, vari)" by fastforce
  then have "length mean = nOfStates" and b: "\<forall>x \<in> set mean. 0 \<le> x \<and> x \<le> 100000"
    using assms [unfolded durations_ok_def, THEN spec [where x = q], THEN spec [where x = "duration_iw e"]] by simp_all
  then show "length (natural_durations e q) = nOfStates" using g by (simp add: natural_durations_def)
  assume "d \<in> set (natural_durations e q)"
  then obtain x where x: "x \<in> set mean" "d = max 1 \<lfloor>x + 1 / 2\<rfloor>" by (auto simp: natural_durations_def g)
  have "x + 1 / 2 < real_of_int 100001 + 1" using b x(1) by force
  then have "\<lfloor>x + 1 / 2\<rfloor> \<le> 100001" unfolding floor_le_iff .
  then show "1 \<le> d \<and> d \<le> 100001" using x(2) by simp
qed

lemma add_duration_fresh:
  assumes "sduration s = 0" "0 \<le> d" "d < 2 ^ 31"
  shows "add_duration 1 (s, d) = Some (s\<lparr>sduration := d\<rparr>)"
proof -
  have "\<lfloor>real_of_int d + 1 / 2\<rfloor> = d" by (simp add: floor_eq_iff)
  then show ?thesis using assms by (simp add: add_duration_def Round_def to_int_of_int)
qed

lemma computeDuration_natural:
  assumes "durations_ok e" "\<not> isDurationForced l" "getSpeed l = 1" "length (c_str (getQuery l)) < maxStrLen"
    and "length (state m) = nOfStates" "\<forall>s \<in> set (state m). sduration s = 0"
  shows "\<exists>m'. computeDuration m e l None = Some m' \<and>
    map sduration (state m') = natural_durations e (c_str (getQuery l))"
proof -
  let ?q = "c_str (getQuery l)"
  let ?ds = "natural_durations e ?q"
  obtain mean vari where g: "get_duration e ?q (duration_iw e) = (mean, vari)" by fastforce
  then have "\<forall>x \<in> set mean. 0 \<le> x \<and> x \<le> 100000"
    using assms(1) [unfolded durations_ok_def, THEN spec [where x = ?q], THEN spec [where x = "duration_iw e"]] by simp
  from round_all_natural [OF this] have r: "round_all mean = Some ?ds" by (simp add: natural_durations_def g)
  note len = natural_durations_bounds(1) [OF assms(1), of ?q]
  let ?f = "\<lambda>(s, d). s\<lparr>sduration := d\<rparr>"
  have "add_duration 1 x = Some (?f x)" if "x \<in> set (zip (state m) ?ds)" for x
  proof -
    obtain s d where x: "x = (s, d)" by fastforce
    then have s: "s \<in> set (state m)" and d: "d \<in> set ?ds"
      using that by (auto dest: set_zip_leftD set_zip_rightD)
    then show ?thesis
      using assms(6) natural_durations_bounds(2) [OF assms(1) d] add_duration_fresh [of s d] x by auto
  qed
  then have t: "traverse (add_duration 1) (zip (state m) ?ds) = Some (map ?f (zip (state m) ?ds))"
    using traverse_ex [of "zip (state m) ?ds" "add_duration 1"] by auto
  have "map sduration (map ?f (zip (state m) ?ds)) = ?ds"
    using len assms(5) by (auto simp: comp_def case_prod_beta)
  then show ?thesis
    using assms r g t len by (auto simp: computeDuration_def strcpy_def set_durations_def mHTS_set_duration_def Let_def)
qed

section \<open>Properties\<close>

text \<open>
  C25. Whatever action the user asks for, and whatever the durations were before, the durations
  that \<open>updateDuration\<close> leaves are not negative, sum up to the duration of the model, and stay
  within the share of the queue memory that one model may use.
\<close>

theorem updateDuration_bounded:
  assumes "updateDuration m (Some f) act = Some m'"
  shows "(\<forall>s \<in> set (state m'). 0 \<le> sduration s) \<and> mduration m' = total_duration (state m') \<and>
    0 \<le> mduration m' \<and> mduration m' \<le> maxDuration"
  using updateDuration_ok [OF assms] total_duration_nonneg [of "state m'"] by (auto simp: duration_ok_def)

theorem updateDuration_bounded_witness:
  "\<exists>m'. updateDuration Model_new (Some [100, 100, 100, 100, 100]) overwrite = Some m' \<and> mduration m' \<le> maxDuration"
proof -
  have "updateDuration Model_new (Some [100, 100, 100, 100, 100]) overwrite \<noteq> None"
    by (simp add: updateDuration_def Model_new_def State_zero_def nOfStates_def zip_arr_def act_duration_def
        action_consts to_int_def c_trunc_def total_duration_def size_consts limit_duration_def eval_nat_numeral)
  then obtain m' where "updateDuration Model_new (Some [100, 100, 100, 100, 100]) overwrite = Some m'" by blast
  with updateDuration_bounded [OF this] show ?thesis by blast
qed

text \<open>
  C26. A label without times at speed 1 gets, for every state, the mean of the voice's tables
  rounded to the nearest frame and at least one frame.
\<close>

theorem computeDuration_rounds_means:
  assumes "durations_ok e" "\<not> isDurationForced l" "getSpeed l = 1" "length (c_str (getQuery l)) < maxStrLen"
    and "length (state m) = nOfStates"
  shows "\<exists>m'. computeDuration (initDuration m) e l None = Some m' \<and>
    map sduration (state m') = natural_durations e (c_str (getQuery l))"
  using assms by (intro computeDuration_natural) (auto simp: initDuration_def)

definition still_voice :: Engine where
  "still_voice = \<lparr>sampling_rate = 48000, fperiod = 240, msd_threshold = [0, 1 / 2, 0], duration_iw = [1],
     parameter_iw = [[1], [1], [1]], gv_iw = [[1], [1], [1]],
     estreams = replicate 3 \<lparr>vector_length = 1, msd_flag = False,
       window = \<lparr>wsize = 1, l_width = [0], r_width = [0], coefficient = (\<lambda>i j. 1), max_width = 0\<rparr>, use_gv = False\<rparr>,
     get_duration = (\<lambda>q iw. ([2, 2, 2, 2, 2], [1, 1, 1, 1, 1])),
     get_parameter = (\<lambda>q k i iw. ([0], [1], 0)), get_gv = (\<lambda>q k iw. ([0], [1]))\<rparr>"

theorem computeDuration_rounds_means_witness:
  "\<exists>m'. computeDuration (initDuration Model_new) still_voice Label_new None = Some m' \<and>
    map sduration (state m') = [2, 2, 2, 2, 2]"
  using computeDuration_rounds_means [of still_voice Label_new Model_new]
  by (simp add: still_voice_def durations_ok_def natural_durations_def Label_new_def vox_simps Model_new_def size_consts
      maxStrLen_def c_str_def)

text \<open>
  The interpolation weights that a model checks for the first time are normalised: those of
  the durations and of every stream sum up to 1 unless they summed up to 0, and checking them
  again, forced or not, changes nothing.
\<close>

theorem weights_normalised:
  assumes "\<not> weightsChecked m" "length (gv_iw e) = length (estreams e)"
    and "checkInterpolationWeights m e b = (m1, e1)"
  shows "weightsChecked m1 \<and> (sum_list (duration_iw e) \<noteq> 0 \<longrightarrow> sum_list (duration_iw e1) = 1) \<and>
    (\<forall>k < length (parameter_iw e). sum_list (parameter_iw e ! k) \<noteq> 0 \<longrightarrow> sum_list (parameter_iw e1 ! k) = 1) \<and>
    checkInterpolationWeights m1 e1 b' = (m1, e1)"
proof -
  have e1: "e1 = e\<lparr>duration_iw := normalise (duration_iw e), parameter_iw := map normalise (parameter_iw e),
      gv_iw := map2 (\<lambda>s iw. if use_gv s then normalise iw else iw) (estreams e) (gv_iw e)\<rparr>"
    and m1: "m1 = m\<lparr>weightsChecked := True\<rparr>"
    using assms by (auto simp: checkInterpolationWeights_def)
  have "map2 (\<lambda>s iw. if use_gv s then normalise iw else iw) (estreams e) (gv_iw e1) = gv_iw e1"
    using assms(2) by (auto simp: e1 normalise_idem intro!: nth_equalityI)
  then show ?thesis
    using assms(2) by (simp add: e1 m1 sum_normalise checkInterpolationWeights_def normalise_idem comp_def)
qed

theorem weights_normalised_witness:
  "sum_list (duration_iw (snd (checkInterpolationWeights Model_new (still_voice\<lparr>duration_iw := [1, 3]\<rparr>) False))) = 1"
  using weights_normalised [of Model_new "still_voice\<lparr>duration_iw := [1, 3]\<rparr>" False
      "fst (checkInterpolationWeights Model_new (still_voice\<lparr>duration_iw := [1, 3]\<rparr>) False)"
      "snd (checkInterpolationWeights Model_new (still_voice\<lparr>duration_iw := [1, 3]\<rparr>) False)"]
  by (simp add: Model_new_def still_voice_def)

text \<open>
  C27. For a well-formed voice and a query that fits its buffer, adding the parameters and then
  the global variances of a voice stays inside all arrays and keeps the model well-formed; the
  switches of the global variance are off afterwards, whatever the voice says.
\<close>

theorem parameters_total:
  assumes "voice_ok e" "model_ok m" "length (c_str (getQuery l)) < maxStrLen"
    and "\<forall>v. w = Some v \<longrightarrow> nOfStreams \<le> length v"
  shows "\<exists>m1 m2. computeParameters m e l w = Some m1 \<and> computeGlobalVariances m1 e l = Some m2 \<and> model_ok m2 \<and>
    map sduration (state m2) = map sduration (state m) \<and>
    (\<forall>s \<in> set (state m2). \<forall>b \<in> set (gv_switch_streams s). \<not> b)"
proof -
  obtain m1 where m1: "computeParameters m e l w = Some m1" "model_ok m1"
    using computeParameters_ok [OF assms] by blast
  obtain m2 where m2: "computeGlobalVariances m1 e l = Some m2" "model_ok m2"
      "\<forall>s \<in> set (state m2). \<forall>b \<in> set (gv_switch_streams s). \<not> b"
    using computeGlobalVariances_ok [OF assms(1) m1(2) assms(3)] by blast
  show ?thesis
    using m1 m2 computeParameters_keeps(1) [OF m1(1)] computeGlobalVariances_keeps(1) [OF m2(1)] by auto
qed

lemma still_voice_ok: "voice_ok still_voice" "durations_ok still_voice"
  by (auto simp: voice_ok_def durations_ok_def still_voice_def size_consts)

theorem parameters_total_witness:
  "\<exists>m1 m2. computeParameters Model_new still_voice Label_new None = Some m1 \<and>
    computeGlobalVariances m1 still_voice Label_new = Some m2 \<and> model_ok m2"
  using parameters_total [OF still_voice_ok(1), of Model_new Label_new None] slot_ok_model_ok [OF Model_new_ok]
  by (fastforce simp: Label_new_def vox_simps maxStrLen_def c_str_def)

end
