(* ===== verification/MemQueue.thy ===== *)
theory MemQueue
  imports Vox_Prelude
begin

text \<open>
  The ring buffer template \<open>MAGE::MemQueue<Item>\<close> (\<open>mage/src/MemQueue.h\<close>), the base class of
  the model and frame queues. The record has the class's fields, with \<open>unsigned int\<close> as \<open>nat\<close>
  reduced by \<open>u32\<close> and \<open>int\<close> as \<open>int\<close> reduced by \<open>s32\<close>. The overloads of \<open>push\<close>, \<open>pop\<close> and
  \<open>get\<close> with an item array have the suffix \<open>_items\<close>; \<open>get\<close> and \<open>next\<close> without one return a
  pointer into \<open>rawData\<close>, here an index. An operation is \<open>None\<close> when a copy leaves its array
  or when \<open>% length\<close> divides by zero. Memory barriers have no effect on one thread.

  The lemmas show that, as long as the caller leaves room, the ring is the list of the pushed
  and not yet popped items, and the interpretation \<open>memq\<close> makes it a \<open>bounded_fifo\<close>.
\<close>

record 'i MemQueue =
  nOfItems :: int
  qlength :: nat
  remain :: nat
  qread :: nat
  qwrite :: nat
  rawData :: "'i list"

definition MemQueue_new :: "nat \<Rightarrow> 'i \<Rightarrow> 'i MemQueue" where
  "MemQueue_new queueLen item0 =
     \<lparr>nOfItems = 0, qlength = queueLen, remain = 0, qread = 0, qwrite = 0,
      rawData = replicate queueLen item0\<rparr>"

definition getNumOfItems :: "'i MemQueue \<Rightarrow> nat" where
  "getNumOfItems q = (if nOfItems q > 0 then nat (nOfItems q) else 0)"

definition isEmpty :: "'i MemQueue \<Rightarrow> bool" where
  "isEmpty q = (nOfItems q \<le> 0)"

definition isFull :: "'i MemQueue \<Rightarrow> bool" where
  "isFull q = (getNumOfItems q \<ge> qlength q)"

definition push_items :: "'i MemQueue \<Rightarrow> 'i list \<Rightarrow> nat \<Rightarrow> 'i MemQueue option" where
  "push_items q item nItem =
     do {
       q1 \<leftarrow> (if u32 (qwrite q + nItem) \<le> qlength q
             then do {
               raw \<leftarrow> memcpy (rawData q) (qwrite q) item 0 nItem;
               Some (q\<lparr>rawData := raw\<rparr>)
             }
             else do {
               let rem = u32_sub (qlength q) (qwrite q);
               raw1 \<leftarrow> memcpy (rawData q) (qwrite q) item 0 rem;
               raw2 \<leftarrow> memcpy raw1 0 item rem (u32_sub nItem rem);
               Some (q\<lparr>remain := rem, rawData := raw2\<rparr>)
             });
       if qlength q = 0 then None
       else Some (q1\<lparr>qwrite := u32 (qwrite q + nItem) mod qlength q,
                     nOfItems := s32 (nOfItems q + int nItem)\<rparr>)
     }"

definition push :: "'i MemQueue \<Rightarrow> nat \<Rightarrow> 'i MemQueue option" where
  "push q nItem =
     (if qlength q = 0 then None
      else Some (q\<lparr>qwrite := u32 (qwrite q + nItem) mod qlength q,
                   nOfItems := s32 (nOfItems q + int nItem)\<rparr>))"

text \<open>
  \<open>copy_out\<close> is the copy that \<open>pop( Item *, n )\<close> and \<open>get( Item *, n )\<close> both contain; it
  returns the queue with \<open>remain\<close> updated and the caller's array.
\<close>

definition copy_out :: "'i MemQueue \<Rightarrow> 'i list \<Rightarrow> nat \<Rightarrow> ('i MemQueue \<times> 'i list) option" where
  "copy_out q item nItem =
     (if u32 (qread q + nItem) \<le> qlength q
      then do {
        out \<leftarrow> memcpy item 0 (rawData q) (qread q) nItem;
        Some (q, out)
      }
      else do {
        let rem = u32_sub (qlength q) (qread q);
        out1 \<leftarrow> memcpy item 0 (rawData q) (qread q) rem;
        out2 \<leftarrow> memcpy out1 rem (rawData q) 0 (u32_sub nItem rem);
        Some (q\<lparr>remain := rem\<rparr>, out2)
      })"

definition pop_items :: "'i MemQueue \<Rightarrow> 'i list \<Rightarrow> nat \<Rightarrow> ('i MemQueue \<times> 'i list) option" where
  "pop_items q item nItem =
     (let nItem = (if nItem > getNumOfItems q then getNumOfItems q else nItem)
      in do {
        (q1, out) \<leftarrow> copy_out q item nItem;
        if qlength q = 0 then None
        else Some (q1\<lparr>qread := u32 (qread q + nItem) mod qlength q,
                      nOfItems := s32 (nOfItems q - int nItem)\<rparr>, out)
      })"

definition pop :: "'i MemQueue \<Rightarrow> nat \<Rightarrow> 'i MemQueue option" where
  "pop q nItem =
     (let nItem = (if nItem > getNumOfItems q then getNumOfItems q else nItem)
      in if qlength q = 0 then None
         else Some (q\<lparr>qread := u32 (qread q + nItem) mod qlength q,
                      nOfItems := s32 (nOfItems q - int nItem)\<rparr>))"

definition get_items :: "'i MemQueue \<Rightarrow> 'i list \<Rightarrow> nat \<Rightarrow> ('i MemQueue \<times> 'i list) option" where
  "get_items q item nItem =
     (let nItem = (if nItem > getNumOfItems q then getNumOfItems q else nItem)
      in copy_out q item nItem)"

definition get :: "'i MemQueue \<Rightarrow> nat" where
  "get q = qread q"

definition next_slot :: "'i MemQueue \<Rightarrow> nat" where
  "next_slot q = qwrite q"

text \<open>Reading and writing through the pointers that \<open>get\<close> and \<open>next\<close> return.\<close>

definition slot_get :: "'i MemQueue \<Rightarrow> nat \<Rightarrow> 'i option" where
  "slot_get q p = arr_get (rawData q) p"

definition slot_set :: "'i MemQueue \<Rightarrow> nat \<Rightarrow> 'i \<Rightarrow> 'i MemQueue option" where
  "slot_set q p v = map_option (\<lambda>raw. q\<lparr>rawData := raw\<rparr>) (arr_set (rawData q) p v)"

section \<open>Invariant and abstraction\<close>

definition mq_contents :: "'i MemQueue \<Rightarrow> 'i list" where
  "mq_contents q = ring (rawData q) (qlength q) (qread q) (nat (nOfItems q))"

definition mq_inv :: "'i MemQueue \<Rightarrow> bool" where
  "mq_inv q \<longleftrightarrow> length (rawData q) = qlength q \<and> 0 < qlength q \<and> qlength q < 2 ^ 31 \<and>
     qread q < qlength q \<and> 0 \<le> nOfItems q \<and> nOfItems q \<le> int (qlength q) \<and>
     qwrite q = (qread q + nat (nOfItems q)) mod qlength q"

lemma mq_invD:
  assumes "mq_inv q"
  shows "length (rawData q) = qlength q" "0 < qlength q" "qlength q < 2 ^ 31"
    "qread q < qlength q" "0 \<le> nOfItems q" "nOfItems q \<le> int (qlength q)"
    "qwrite q = (qread q + nat (nOfItems q)) mod qlength q" "qwrite q < qlength q"
    "nat (nOfItems q) \<le> qlength q"
  using assms by (auto simp: mq_inv_def)

lemma length_mq_contents: "length (mq_contents q) = getNumOfItems q"
  by (simp add: mq_contents_def getNumOfItems_def)

lemma getNumOfItems_inv: "mq_inv q \<Longrightarrow> getNumOfItems q = nat (nOfItems q)"
  by (simp add: getNumOfItems_def mq_inv_def)

lemma MemQueue_new_inv:
  "0 < n \<Longrightarrow> n < 2 ^ 31 \<Longrightarrow> mq_inv (MemQueue_new n x) \<and> mq_contents (MemQueue_new n x) = []"
  by (simp add: MemQueue_new_def mq_inv_def mq_contents_def)

lemma isEmpty_iff: "mq_inv q \<Longrightarrow> isEmpty q \<longleftrightarrow> mq_contents q = []"
  by (auto simp: isEmpty_def mq_contents_def mq_inv_def simp flip: length_0_conv)

lemma isFull_iff: "mq_inv q \<Longrightarrow> isFull q \<longleftrightarrow> length (mq_contents q) = qlength q"
  by (auto simp: isFull_def length_mq_contents getNumOfItems_def mq_inv_def)

lemma length_mq_contents_le: "mq_inv q \<Longrightarrow> length (mq_contents q) \<le> qlength q"
  by (auto simp: length_mq_contents getNumOfItems_def mq_inv_def)

section \<open>Insertion\<close>

text \<open>The pointer arithmetic of both \<open>push\<close> overloads, for any new array content.\<close>

lemma push_state_inv:
  assumes "mq_inv q" "nat (nOfItems q) + n \<le> qlength q" "length raw = qlength q"
  shows "mq_inv (q\<lparr>remain := r, rawData := raw, qwrite := u32 (qwrite q + n) mod qlength q,
                   nOfItems := s32 (nOfItems q + int n)\<rparr>)"
proof -
  note inv = mq_invD [OF assms(1)]
  have s: "s32 (nOfItems q + int n) = nOfItems q + int n"
    using inv assms(2) by (intro s32_id) auto
  have u: "u32 (qwrite q + n) = qwrite q + n"
    using inv assms(2) by (intro u32_add_id [of _ "qlength q"]) auto
  have "(qwrite q + n) mod qlength q = (qread q + nat (nOfItems q + int n)) mod qlength q"
    using inv by (simp add: mod_add_left_eq nat_add_distrib add.assoc)
  then show ?thesis using inv(1-6) assms(2,3) by (simp add: mq_inv_def s u)
qed

lemma push_contents:
  assumes "mq_inv q" "nat (nOfItems q) + n \<le> qlength q"
    and old: "\<And>i. i < nat (nOfItems q) \<Longrightarrow>
      raw ! ((qread q + i) mod qlength q) = rawData q ! ((qread q + i) mod qlength q)"
  shows "mq_contents (q\<lparr>remain := r, rawData := raw, qwrite := w,
                       nOfItems := s32 (nOfItems q + int n)\<rparr>) =
         mq_contents q @ ring raw (qlength q) (qwrite q) n"
proof -
  note inv = mq_invD [OF assms(1)]
  have s: "s32 (nOfItems q + int n) = nOfItems q + int n"
    using inv assms(2) by (intro s32_id) auto
  have "ring raw (qlength q) (qread q) (nat (nOfItems q)) = mq_contents q"
    unfolding mq_contents_def by (rule ring_cong) (rule old)
  then show ?thesis
    using inv by (simp add: mq_contents_def s nat_add_distrib ring_add)
qed

text \<open>What the two copies of \<open>push( Item *, n )\<close> leave in the array.\<close>

lemma push_copy:
  assumes "mq_inv q" "nat (nOfItems q) + n \<le> qlength q" "n \<le> length item"
  obtains raw r where
    "push_items q item n =
       Some (q\<lparr>remain := r, rawData := raw, qwrite := u32 (qwrite q + n) mod qlength q,
               nOfItems := s32 (nOfItems q + int n)\<rparr>)"
    "length raw = qlength q"
    "\<And>i. i < n \<Longrightarrow> raw ! ((qwrite q + i) mod qlength q) = item ! i"
    "\<And>j. j < qlength q \<Longrightarrow> (\<And>i. i < n \<Longrightarrow> j \<noteq> (qwrite q + i) mod qlength q) \<Longrightarrow>
       raw ! j = rawData q ! j"
proof -
  note inv = mq_invD(1-6,8,9) [OF assms(1)]
  have u: "u32 (qwrite q + n) = qwrite q + n"
    using inv assms(2) by (intro u32_add_id [of _ "qlength q"]) auto
  show ?thesis
  proof (cases "qwrite q + n \<le> qlength q")
    case True
    then obtain raw where raw: "memcpy (rawData q) (qwrite q) item 0 n = Some raw"
      using inv assms(3) by (simp add: memcpy_def)
    note nth = memcpy_nth [OF raw]
    show ?thesis
    proof (rule that [of raw "remain q"])
      show "push_items q item n = Some (q\<lparr>remain := remain q, rawData := raw,
          qwrite := u32 (qwrite q + n) mod qlength q, nOfItems := s32 (nOfItems q + int n)\<rparr>)"
        using True inv raw by (simp add: push_items_def u)
    next
      show "length raw = qlength q" using memcpy_length [OF raw] inv by simp
    next
      fix i assume "i < n"
      with True nth inv show "raw ! ((qwrite q + i) mod qlength q) = item ! i" by simp
    next
      fix j assume j: "j < qlength q" "\<And>i. i < n \<Longrightarrow> j \<noteq> (qwrite q + i) mod qlength q"
      have "\<not> (qwrite q \<le> j \<and> j < qwrite q + n)"
      proof
        assume "qwrite q \<le> j \<and> j < qwrite q + n"
        then have "j - qwrite q < n" "qwrite q + (j - qwrite q) = j" by auto
        with j(2) [of "j - qwrite q"] j(1) show False by simp
      qed
      with nth j(1) inv show "raw ! j = rawData q ! j" by auto
    qed
  next
    case False
    define rem where "rem = qlength q - qwrite q"
    have rem: "u32_sub (qlength q) (qwrite q) = rem" "rem < n" "rem \<le> qlength q"
      using False inv by (auto simp: rem_def)
    have n: "u32_sub n rem = n - rem" using rem assms(2) inv by simp
    obtain raw1 where raw1: "memcpy (rawData q) (qwrite q) item 0 rem = Some raw1"
      using inv assms(3) rem by (simp add: memcpy_def rem_def)
    then have l1: "length raw1 = qlength q" using memcpy_length inv by metis
    obtain raw where raw: "memcpy raw1 0 item rem (n - rem) = Some raw"
      using memcpy_Some [of 0 "n - rem" raw1 rem item] l1 assms(2,3) rem by fastforce
    note nth1 = memcpy_nth [OF raw1] and nth = memcpy_nth [OF raw]
    show ?thesis
    proof (rule that [of raw rem])
      show "push_items q item n = Some (q\<lparr>remain := rem, rawData := raw,
          qwrite := u32 (qwrite q + n) mod qlength q, nOfItems := s32 (nOfItems q + int n)\<rparr>)"
        using False inv raw raw1 n by (simp add: push_items_def u rem(1))
    next
      show "length raw = qlength q" using memcpy_length [OF raw] l1 by simp
    next
      fix i assume i: "i < n"
      then have "(qwrite q + i) mod qlength q = (if i < rem then qwrite q + i else i - rem)"
        using inv assms(2) by (auto simp: rem_def mod_if)
      with i nth nth1 l1 inv rem assms(2)
      show "raw ! ((qwrite q + i) mod qlength q) = item ! i" by (auto simp: rem_def)
    next
      fix j assume j: "j < qlength q" "\<And>i. i < n \<Longrightarrow> j \<noteq> (qwrite q + i) mod qlength q"
      have "n - rem \<le> j" using j(1) j(2) [of "j + rem"] inv assms(2)
        by (cases "j + rem < n") (auto simp: rem_def)
      moreover have "j < qwrite q"
      proof (rule ccontr)
        assume "\<not> j < qwrite q"
        then have "j - qwrite q < n" "qwrite q + (j - qwrite q) = j"
          using j(1) rem by (auto simp: rem_def)
        with j(2) [of "j - qwrite q"] j(1) show False by simp
      qed
      ultimately show "raw ! j = rawData q ! j" using nth nth1 l1 j(1) inv rem by auto
    qed
  qed
qed

text \<open>The slots that an insertion writes are not the slots in use.\<close>

lemma free_slots:
  assumes "mq_inv q" "nat (nOfItems q) + n \<le> qlength q" "k < nat (nOfItems q)" "i < n"
  shows "(qread q + k) mod qlength q \<noteq> (qwrite q + i) mod qlength q"
proof
  assume eq: "(qread q + k) mod qlength q = (qwrite q + i) mod qlength q"
  note inv = mq_invD [OF assms(1)]
  have "(qwrite q + i) mod qlength q = (qread q + (nat (nOfItems q) + i)) mod qlength q"
    using inv by (simp add: mod_add_left_eq add.assoc)
  with eq ring_index_inj [of k "qlength q" "nat (nOfItems q) + i" "qread q"] assms
  show False by auto
qed

lemma push_items_ok:
  assumes "mq_inv q" "length (mq_contents q) + n \<le> qlength q" "n \<le> length item"
  shows "\<exists>q'. push_items q item n = Some q' \<and> mq_inv q' \<and>
           mq_contents q' = mq_contents q @ take n item \<and> qlength q' = qlength q"
proof -
  have n: "nat (nOfItems q) + n \<le> qlength q"
    using assms(1,2) by (simp add: length_mq_contents getNumOfItems_inv)
  from push_copy [OF assms(1) n assms(3)] obtain raw r where
    eq: "push_items q item n =
       Some (q\<lparr>remain := r, rawData := raw, qwrite := u32 (qwrite q + n) mod qlength q,
               nOfItems := s32 (nOfItems q + int n)\<rparr>)"
    and len: "length raw = qlength q"
    and new: "\<And>i. i < n \<Longrightarrow> raw ! ((qwrite q + i) mod qlength q) = item ! i"
    and old: "\<And>j. j < qlength q \<Longrightarrow> (\<And>i. i < n \<Longrightarrow> j \<noteq> (qwrite q + i) mod qlength q) \<Longrightarrow>
       raw ! j = rawData q ! j"
    by blast
  have kept: "raw ! ((qread q + i) mod qlength q) = rawData q ! ((qread q + i) mod qlength q)"
    if "i < nat (nOfItems q)" for i
    using free_slots [OF assms(1) n that] mq_invD(2) [OF assms(1)] by (intro old) auto
  have "ring raw (qlength q) (qwrite q) n = take n item"
    using new assms(3) by (intro nth_equalityI) auto
  with push_contents [OF assms(1) n kept] push_state_inv [OF assms(1) n len] eq
  show ?thesis by simp
qed

lemma push_ok:
  assumes "mq_inv q" "length (mq_contents q) + n \<le> qlength q"
  shows "\<exists>q'. push q n = Some q' \<and> mq_inv q' \<and> qlength q' = qlength q \<and>
           mq_contents q' = mq_contents q @ ring (rawData q) (qlength q) (next_slot q) n"
proof -
  have n: "nat (nOfItems q) + n \<le> qlength q"
    using assms(1,2) by (simp add: length_mq_contents getNumOfItems_inv)
  show ?thesis
    using push_contents [OF assms(1) n refl, where r = "remain q"
        and w = "u32 (qwrite q + n) mod qlength q"]
      push_state_inv [OF assms(1) n, of "rawData q" "remain q"] mq_invD(1,2) [OF assms(1)]
    by (simp add: push_def next_slot_def)
qed

section \<open>Removal\<close>

lemma pop_state:
  fixes q :: "'i MemQueue" and r :: nat
  assumes "mq_inv q" "n \<le> length (mq_contents q)"
  defines "q' \<equiv> q\<lparr>remain := r, qread := u32 (qread q + n) mod qlength q,
                   nOfItems := s32 (nOfItems q - int n)\<rparr>"
  shows "mq_inv q' \<and> mq_contents q' = drop n (mq_contents q)"
proof -
  note inv = mq_invD [OF assms(1)]
  have n: "int n \<le> nOfItems q"
    using assms(1,2) inv(5) by (simp add: length_mq_contents getNumOfItems_inv)
  have s: "s32 (nOfItems q - int n) = nOfItems q - int n" using inv n by (intro s32_id) auto
  have u: "u32 (qread q + n) = qread q + n" using inv n by (intro u32_add_id [of _ "qlength q"]) auto
  have k: "nat (nOfItems q - int n) = nat (nOfItems q) - n" by (simp add: nat_diff_distrib)
  have "((qread q + n) mod qlength q + (nat (nOfItems q) - n)) mod qlength q = qwrite q"
    using ring_write_index [of n "nat (nOfItems q)" "qread q" "qlength q"] inv(7) n by simp
  then have "mq_inv q'" using inv n by (simp add: q'_def mq_inv_def s u k)
  moreover have "mq_contents q' = drop n (mq_contents q)"
    using n by (simp add: q'_def mq_contents_def s u k ring_drop)
  ultimately show ?thesis ..
qed

lemma copy_out_ok:
  assumes "mq_inv q" "n \<le> length (mq_contents q)" "n \<le> length item"
  shows "\<exists>r out. copy_out q item n = Some (q\<lparr>remain := r\<rparr>, out) \<and>
           take n out = take n (mq_contents q) \<and> drop n out = drop n item"
proof -
  note inv = mq_invD [OF assms(1)]
  have n: "n \<le> nat (nOfItems q)" "n \<le> qlength q"
    using assms(1,2) inv by (auto simp: length_mq_contents getNumOfItems_inv)
  have u: "u32 (qread q + n) = qread q + n" using inv n by (intro u32_add_id [of _ "qlength q"]) auto
  have tk: "take n (mq_contents q) = ring (rawData q) (qlength q) (qread q) n"
    using n by (simp add: mq_contents_def ring_take)
  show ?thesis
  proof (cases "qread q + n \<le> qlength q")
    case True
    then have "take n (drop (qread q) (rawData q)) = ring (rawData q) (qlength q) (qread q) n"
      using inv by (intro nth_equalityI) auto
    then show ?thesis
      using True inv assms(3) by (intro exI [of _ "remain q"]) (simp add: copy_out_def u tk memcpy_def)
  next
    case False
    define rem where "rem = qlength q - qread q"
    have rem: "u32_sub (qlength q) (qread q) = rem" "rem < n"
      using False inv by (auto simp: rem_def)
    have nr: "u32_sub n rem = n - rem" using rem n inv by simp
    have "take rem (drop (qread q) (rawData q)) @ take (n - rem) (rawData q) =
          ring (rawData q) (qlength q) (qread q) n"
    proof (rule nth_equalityI)
      fix i assume "i < length (take rem (drop (qread q) (rawData q)) @ take (n - rem) (rawData q))"
      then have i: "i < n" using inv rem n by (simp add: rem_def)
      have "(qread q + i) mod qlength q = (if i < rem then qread q + i else i - rem)"
        using mod_lt_cases [of "qread q" "qlength q" i] inv(4) n i by (auto simp: rem_def)
      with i inv show "(take rem (drop (qread q) (rawData q)) @ take (n - rem) (rawData q)) ! i =
          ring (rawData q) (qlength q) (qread q) n ! i"
        by (auto simp: nth_append rem_def)
    qed (use inv rem n in \<open>simp add: rem_def\<close>)
    moreover obtain out1 where o1: "memcpy item 0 (rawData q) (qread q) rem = Some out1"
        "out1 = take rem (drop (qread q) (rawData q)) @ drop rem item"
      using inv assms(3) rem by (simp add: memcpy_def rem_def)
    moreover have "length out1 = length item" using memcpy_length [OF o1(1)] .
    moreover have "take rem out1 = take rem (drop (qread q) (rawData q))"
      "drop n out1 = drop n item" using o1(2) rem inv by (simp_all add: rem_def)
    ultimately show ?thesis
      using False inv(1) n assms(3) rem nr
      by (intro exI [of _ rem]) (simp add: copy_out_def u tk memcpy_Some)
  qed
qed

definition clip :: "'i MemQueue \<Rightarrow> nat \<Rightarrow> nat" where
  "clip q n = min n (length (mq_contents q))"

lemma clip_simp: "(if n > getNumOfItems q then getNumOfItems q else n) = clip q n"
  by (simp add: clip_def length_mq_contents)

lemma pop_items_ok:
  assumes "mq_inv q" "clip q n \<le> length item"
  shows "\<exists>q' out. pop_items q item n = Some (q', out) \<and> mq_inv q' \<and> qlength q' = qlength q \<and>
           mq_contents q' = drop n (mq_contents q) \<and>
           take (clip q n) out = take n (mq_contents q) \<and> drop (clip q n) out = drop (clip q n) item"
proof -
  have c: "clip q n \<le> length (mq_contents q)" by (simp add: clip_def)
  have tk: "take (clip q n) (mq_contents q) = take n (mq_contents q)"
    and dr: "drop (clip q n) (mq_contents q) = drop n (mq_contents q)"
    by (auto simp: clip_def min_def)
  from copy_out_ok [OF assms(1) c assms(2)] obtain r out where
    o: "copy_out q item (clip q n) = Some (q\<lparr>remain := r\<rparr>, out)"
      "take (clip q n) out = take n (mq_contents q)" "drop (clip q n) out = drop (clip q n) item"
    unfolding tk by blast
  show ?thesis
    using o pop_state [OF assms(1) c, of r] mq_invD(2) [OF assms(1)] dr
    by (simp add: pop_items_def clip_simp Let_def)
qed

lemma pop_ok:
  assumes "mq_inv q"
  shows "\<exists>q'. pop q n = Some q' \<and> mq_inv q' \<and> qlength q' = qlength q \<and> rawData q' = rawData q \<and>
           mq_contents q' = drop n (mq_contents q)"
proof -
  have c: "clip q n \<le> length (mq_contents q)" by (simp add: clip_def)
  have "drop (clip q n) (mq_contents q) = drop n (mq_contents q)"
    by (auto simp: clip_def min_def)
  then show ?thesis
    using pop_state [OF assms(1) c, of "remain q"] mq_invD(2) [OF assms(1)]
    by (simp add: pop_def clip_simp Let_def)
qed

lemma get_hd:
  assumes "mq_inv q" "\<not> isEmpty q"
  shows "slot_get q (get q) = Some (hd (mq_contents q))"
  using assms mq_invD [OF assms(1)]
  by (simp add: slot_get_def get_def mq_contents_def ring_hd isEmpty_def)

section \<open>The write-then-push protocol\<close>

text \<open>
  \<open>item = q->next(); *item = v; q->push()\<close>: access, write, save.
\<close>

definition write_next :: "'i MemQueue \<Rightarrow> 'i \<Rightarrow> 'i MemQueue option" where
  "write_next q v = do { q1 \<leftarrow> slot_set q (next_slot q) v; push q1 1 }"

lemma slot_set_next:
  assumes "mq_inv q" "\<not> isFull q"
  shows "slot_set q (next_slot q) v = Some (q\<lparr>rawData := (rawData q)[qwrite q := v]\<rparr>)"
    and "mq_inv (q\<lparr>rawData := (rawData q)[qwrite q := v]\<rparr>)"
    and "mq_contents (q\<lparr>rawData := (rawData q)[qwrite q := v]\<rparr>) = mq_contents q"
proof -
  note inv = mq_invD [OF assms(1)]
  have "nat (nOfItems q) < qlength q"
    using assms inv by (simp add: isFull_def getNumOfItems_inv)
  then show "mq_contents (q\<lparr>rawData := (rawData q)[qwrite q := v]\<rparr>) = mq_contents q"
    unfolding mq_contents_def by (simp add: inv(7) ring_update_outside)
  show "slot_set q (next_slot q) v = Some (q\<lparr>rawData := (rawData q)[qwrite q := v]\<rparr>)"
    using inv by (simp add: slot_set_def next_slot_def)
  show "mq_inv (q\<lparr>rawData := (rawData q)[qwrite q := v]\<rparr>)"
    using inv by (simp add: mq_inv_def)
qed

lemma write_next_ok:
  assumes "mq_inv q" "\<not> isFull q"
  shows "\<exists>q'. write_next q v = Some q' \<and> mq_inv q' \<and> mq_contents q' = mq_contents q @ [v] \<and>
           qlength q' = qlength q"
proof -
  let ?q = "q\<lparr>rawData := (rawData q)[qwrite q := v]\<rparr>"
  note s = slot_set_next [OF assms, of v]
  have "length (mq_contents q) + 1 \<le> qlength q"
    using assms length_mq_contents_le [OF assms(1)] isFull_iff [OF assms(1)] by simp
  with push_ok [OF s(2), of 1] s mq_invD [OF assms(1)] show ?thesis
    by (auto simp: write_next_def ring_def next_slot_def)
qed

text \<open>\<open>item = q->get(); v = *item; q->pop()\<close>: access, read, delete.\<close>

definition read_front :: "'i MemQueue \<Rightarrow> ('i \<times> 'i MemQueue) option" where
  "read_front q = do { v \<leftarrow> slot_get q (get q); q1 \<leftarrow> pop q 1; Some (v, q1) }"

lemma read_front_ok:
  assumes "mq_inv q" "\<not> isEmpty q"
  shows "\<exists>q'. read_front q = Some (hd (mq_contents q), q') \<and> mq_inv q' \<and>
           mq_contents q' = tl (mq_contents q) \<and> qlength q' = qlength q"
  using pop_ok [OF assms(1), of 1] get_hd [OF assms]
  by (auto simp: read_front_def drop_Suc)

interpretation memq: bounded_fifo mq_inv mq_contents qlength isFull isEmpty write_next read_front
proof unfold_locales
  fix q :: "'a MemQueue" and a
  assume q: "mq_inv q"
  show "isFull q \<longleftrightarrow> length (mq_contents q) = qlength q" using q by (rule isFull_iff)
  show "length (mq_contents q) \<le> qlength q" using q by (rule length_mq_contents_le)
  show "isEmpty q \<longleftrightarrow> mq_contents q = []" using q by (rule isEmpty_iff)
  show "\<not> isFull q \<Longrightarrow> \<exists>q'. write_next q a = Some q' \<and> mq_inv q' \<and>
      mq_contents q' = mq_contents q @ [a] \<and> qlength q' = qlength q"
    using q by (rule write_next_ok)
  show "\<not> isEmpty q \<Longrightarrow> \<exists>q'. read_front q = Some (hd (mq_contents q), q') \<and> mq_inv q' \<and>
      mq_contents q' = tl (mq_contents q) \<and> qlength q' = qlength q"
    using q by (rule read_front_ok)
qed

section \<open>Properties\<close>

text \<open>
  C19. Used as its clients use it (no insertion when full, no removal when empty), a new queue of
  \<open>n\<close> slots never leaves its memory and behaves as a first-in first-out list of at most \<open>n\<close>
  items, for every sequence of insertions and removals.
\<close>

theorem queue_is_fifo:
  assumes "0 < n" "n < 2 ^ 31"
  shows "\<exists>q out. guarded_run isFull write_next isEmpty read_front (MemQueue_new n z) ops = Some (q, out) \<and>
    mq_inv q \<and> qlength q = n \<and> spec_run n [] ops = (mq_contents q, out)"
  using memq.guarded_run_refines [of "MemQueue_new n z" ops] MemQueue_new_inv [OF assms, of z]
  by (auto simp: MemQueue_new_def)

theorem queue_is_fifo_witness:
  "\<exists>q out. guarded_run isFull write_next isEmpty read_front (MemQueue_new 2 (0::nat)) [Enq 7, Enq 8, Enq 9, Deq] = Some (q, out) \<and>
    mq_inv q \<and> qlength q = 2 \<and> mq_contents q = [8] \<and> out = [7]"
  using queue_is_fifo [of 2 "0 :: nat" "[Enq 7, Enq 8, Enq 9, Deq]"] by auto

text \<open>
  A block of \<open>n\<close> items put into the free slots of a queue, which may wrap around the end of
  the memory, is appended to its contents in order, and removing as many items as the queue then
  holds gives the old items followed by the block.
\<close>

theorem push_pop_items:
  assumes "mq_inv q" "length (mq_contents q) + n \<le> qlength q" "n \<le> length item"
    and "length buf = length (mq_contents q) + n"
  shows "\<exists>q1 q2. push_items q item n = Some q1 \<and> mq_inv q1 \<and> mq_contents q1 = mq_contents q @ take n item \<and>
    pop_items q1 buf (length buf) = Some (q2, mq_contents q @ take n item) \<and> mq_inv q2 \<and> mq_contents q2 = []"
proof -
  obtain q1 where q1: "push_items q item n = Some q1" "mq_inv q1" "mq_contents q1 = mq_contents q @ take n item"
    using push_items_ok [OF assms(1-3)] by blast
  have len: "length (mq_contents q1) = length buf" using q1(3) assms(3,4) by simp
  then have c: "clip q1 (length buf) = length buf" by (simp add: clip_def)
  obtain q2 out where q2: "pop_items q1 buf (length buf) = Some (q2, out)" "mq_inv q2"
      "mq_contents q2 = drop (length buf) (mq_contents q1)"
      "take (length buf) out = take (length buf) (mq_contents q1)" "drop (length buf) out = drop (length buf) buf"
    using pop_items_ok [OF q1(2), of "length buf" buf] c by auto
  have "out = take (length buf) out @ drop (length buf) out" by simp
  then have "out = mq_contents q1" using q2(4,5) len by simp
  then show ?thesis using q1 q2(1-3) len by auto
qed

theorem push_pop_items_witness:
  "\<exists>q1 q2. push_items (MemQueue_new 3 (0::nat)) [5, 6, 7] 1 = Some q1 \<and>
    pop_items q1 [0] 1 = Some (q2, [5]) \<and> mq_contents q2 = []"
  using push_pop_items [of "MemQueue_new 3 (0::nat)" 1 "[5, 6, 7]" "[0]"] MemQueue_new_inv [of 3 "0::nat"]
  by (auto simp: MemQueue_new_def)

end
