(* ===== verification/MLPG.thy ===== *)
theory MLPG
  imports Constants
begin

text \<open>
  Maximum likelihood parameter generation: \<open>HTS_finv\<close> and the \<open>HTS_PStream_*\<close> functions of
  \<open>mage/src/hts.cpp\<close>. The record \<open>PStream\<close> has the fields of \<open>HTS_PStream\<close> and of its matrices
  \<open>sm\<close> that these functions use; an array is the map from its indices to its items, doubles are
  real numbers, and a loop is a fold over the values of its counter. The indices the loops use
  are below \<open>plength\<close> for a frame and below \<open>pwidth\<close> for a band of \<open>wuw\<close>.

  The lemmas show that the banded factorisation and the two substitutions solve the linear
  system they are given, and that this system is the normal equations
  \<open>W' U\<^sup>-\<^sup>1 W c = W' U\<^sup>-\<^sup>1 \<mu>\<close> of the windows, so that the trajectory minimises the weighted
  distance to the means.
\<close>

section \<open>Definitions\<close>

definition INFTY :: real where "INFTY = 10 ^ 38"
definition INFTY2 :: real where "INFTY2 = 10 ^ 19"
definition INVINF2 :: real where "INVINF2 = 1 / 10 ^ 19"

definition HTS_finv :: "real \<Rightarrow> real" where
  "HTS_finv x =
     (if x \<ge> INFTY2 then 0
      else if x \<le> - INFTY2 then 0
      else if x \<le> INVINF2 \<and> x \<ge> 0 then INFTY
      else if x \<ge> - INVINF2 \<and> x < 0 then - INFTY
      else 1 / x)"

record PStream =
  plength :: nat
  pwidth :: nat
  win_size :: nat
  win_l_width :: "nat \<Rightarrow> int"
  win_r_width :: "nat \<Rightarrow> int"
  win_coefficient :: "nat \<Rightarrow> int \<Rightarrow> real"
  static_length :: nat
  sm_mean :: "nat \<Rightarrow> nat \<Rightarrow> real"
  sm_ivar :: "nat \<Rightarrow> nat \<Rightarrow> real"
  sm_wum :: "nat \<Rightarrow> real"
  sm_wuw :: "nat \<Rightarrow> nat \<Rightarrow> real"
  sm_g :: "nat \<Rightarrow> real"
  par :: "nat \<Rightarrow> nat \<Rightarrow> real"
  gv_mean :: "nat \<Rightarrow> real"
  gv_vari :: "nat \<Rightarrow> real"
  gv_switch :: "nat \<Rightarrow> bool"
  gv_length :: nat

text \<open>The contribution of window \<open>i\<close> at distance \<open>j\<close> to row \<open>t\<close>: \<open>wum[t]\<close> and the row \<open>wuw[t]\<close>.\<close>

definition calc_term :: "PStream \<Rightarrow> nat \<Rightarrow> nat \<Rightarrow> nat \<Rightarrow> int \<Rightarrow> real \<times> (nat \<Rightarrow> real) \<Rightarrow> real \<times> (nat \<Rightarrow> real)" where
  "calc_term pst m t i j = (\<lambda>(wum, row).
     if 0 \<le> int t + j \<and> int t + j < int (plength pst) \<and> win_coefficient pst i (- j) \<noteq> 0
     then (let u = nat (int t + j); x = i * static_length pst + m;
               wu = win_coefficient pst i (- j) * sm_ivar pst u x
           in (wum + wu * sm_mean pst u x,
               fold (\<lambda>k row. if int k - j \<le> win_r_width pst i \<and> win_coefficient pst i (int k - j) \<noteq> 0
                       then row(k := row k + wu * win_coefficient pst i (int k - j)) else row)
                 [0..<min (pwidth pst) (plength pst - t)] row))
     else (wum, row))"

definition calc_row :: "PStream \<Rightarrow> nat \<Rightarrow> nat \<Rightarrow> real \<times> (nat \<Rightarrow> real)" where
  "calc_row pst m t =
     fold (\<lambda>i acc. fold (calc_term pst m t i) [win_l_width pst i..win_r_width pst i] acc)
       [0..<win_size pst]
       (0, fold (\<lambda>i row. row(i := 0)) [0..<pwidth pst] (sm_wuw pst t))"

definition calc_wuw_and_wum :: "nat \<Rightarrow> PStream \<Rightarrow> PStream" where
  "calc_wuw_and_wum m pst =
     fold (\<lambda>t pst. let (wum, row) = calc_row pst m t
                   in pst\<lparr>sm_wum := (sm_wum pst)(t := wum), sm_wuw := (sm_wuw pst)(t := row)\<rparr>)
       [0..<plength pst] pst"

text \<open>One turn of the outer loop of the factorisation, on the matrix \<open>wuw\<close> of the given width.\<close>

definition ldl_diag :: "nat \<Rightarrow> nat \<Rightarrow> (nat \<Rightarrow> nat \<Rightarrow> real) \<Rightarrow> real" where
  "ldl_diag width t w =
     fold (\<lambda>i a. a - w (t - i) i * w (t - i) i * w (t - i) 0) [1..<min width (t + 1)] (w t 0)"

definition ldl_off :: "nat \<Rightarrow> nat \<Rightarrow> nat \<Rightarrow> (nat \<Rightarrow> nat \<Rightarrow> real) \<Rightarrow> real" where
  "ldl_off width t i w =
     fold (\<lambda>j a. a - w (t - j) j * w (t - j) (i + j) * w (t - j) 0) [1..<min (width - i) (t + 1)] (w t i)
     / w t 0"

definition ldl_step :: "nat \<Rightarrow> nat \<Rightarrow> (nat \<Rightarrow> nat \<Rightarrow> real) \<Rightarrow> (nat \<Rightarrow> nat \<Rightarrow> real)" where
  "ldl_step width t w =
     fold (\<lambda>i w. w(t := (w t)(i := ldl_off width t i w))) [1..<width]
       (w(t := (w t)(0 := ldl_diag width t w)))"

definition ldl_factorization :: "PStream \<Rightarrow> PStream" where
  "ldl_factorization pst =
     pst\<lparr>sm_wuw := fold (ldl_step (pwidth pst)) [0..<plength pst] (sm_wuw pst)\<rparr>"

definition forward_step :: "nat \<Rightarrow> (nat \<Rightarrow> nat \<Rightarrow> real) \<Rightarrow> (nat \<Rightarrow> real) \<Rightarrow> nat \<Rightarrow> (nat \<Rightarrow> real) \<Rightarrow> (nat \<Rightarrow> real)" where
  "forward_step width w wum t g =
     g(t := fold (\<lambda>i a. a - w (t - i) i * g (t - i)) [1..<min width (t + 1)] (wum t))"

definition forward_substitution :: "PStream \<Rightarrow> PStream" where
  "forward_substitution pst =
     pst\<lparr>sm_g := fold (forward_step (pwidth pst) (sm_wuw pst) (sm_wum pst)) [0..<plength pst] (sm_g pst)\<rparr>"

definition backward_step :: "nat \<Rightarrow> nat \<Rightarrow> (nat \<Rightarrow> nat \<Rightarrow> real) \<Rightarrow> (nat \<Rightarrow> real) \<Rightarrow> nat \<Rightarrow>
    nat \<Rightarrow> (nat \<Rightarrow> nat \<Rightarrow> real) \<Rightarrow> (nat \<Rightarrow> nat \<Rightarrow> real)" where
  "backward_step width len w g m t p =
     p(t := (p t)(m :=
       fold (\<lambda>i a. a - w t i * p (t + i) m) [1..<min width (len - t)] (g t / w t 0)))"

definition backward_substitution :: "nat \<Rightarrow> PStream \<Rightarrow> PStream" where
  "backward_substitution m pst =
     pst\<lparr>par := fold (backward_step (pwidth pst) (plength pst) (sm_wuw pst) (sm_g pst) m)
           (rev [0..<plength pst]) (par pst)\<rparr>"

section \<open>Global variance\<close>

definition STEPINIT :: real where "STEPINIT = 1 / 10"
definition STEPDEC :: real where "STEPDEC = 1 / 2"
definition STEPINC :: real where "STEPINC = 12 / 10"
definition LZERO :: real where "LZERO = - (10 ^ 10)"
definition W1 :: real where "W1 = 1"
definition W2 :: real where "W2 = 1"
definition GV_MAX_ITERATION :: nat where "GV_MAX_ITERATION = 5"

definition calc_gv :: "PStream \<Rightarrow> nat \<Rightarrow> real \<times> real" where
  "calc_gv pst m =
     (let mean = fold (\<lambda>t s. if gv_switch pst t then s + par pst t m else s) [0..<plength pst] 0
                 / real (gv_length pst);
          vari = fold (\<lambda>t s. if gv_switch pst t then s + (par pst t m - mean) * (par pst t m - mean) else s)
                   [0..<plength pst] 0 / real (gv_length pst)
      in (mean, vari))"

definition conv_gv :: "nat \<Rightarrow> PStream \<Rightarrow> PStream" where
  "conv_gv m pst =
     (let (mean, vari) = calc_gv pst m; ratio = sqrt (gv_mean pst m / vari)
      in pst\<lparr>par := fold (\<lambda>t p. if gv_switch pst t then p(t := (p t)(m := ratio * (p t m - mean) + mean)) else p)
               [0..<plength pst] (par pst)\<rparr>)"

definition derivative_g :: "PStream \<Rightarrow> nat \<Rightarrow> nat \<Rightarrow> real" where
  "derivative_g pst m t =
     fold (\<lambda>i a.
        let a = (if t + i < plength pst then a + sm_wuw pst t i * par pst (t + i) m else a)
        in if t + 1 > i then a + sm_wuw pst (t - i) i * par pst (t - i) m else a)
       [1..<pwidth pst] (sm_wuw pst t 0 * par pst t m)"

definition calc_derivative :: "nat \<Rightarrow> PStream \<Rightarrow> real \<times> PStream" where
  "calc_derivative m pst =
     (let (mean, vari) = calc_gv pst m;
          len = real (plength pst);
          w = 1 / (real (win_size pst) * len);
          gvobj = - (1 / 2) * W2 * vari * gv_vari pst m * (vari - 2 * gv_mean pst m);
          dv = - 2 * gv_vari pst m * (vari - gv_mean pst m) / len;
          g1 = fold (\<lambda>t g. g(t := derivative_g pst m t)) [0..<plength pst] (sm_g pst);
          (hmmobj, g2) = fold (\<lambda>t (hmmobj, g).
             (let h = - W1 * w * sm_wuw pst t (1 - 1) -
                      W2 * 2 / (len * len) * ((len - 1) * gv_vari pst m * (vari - gv_mean pst m) +
                        2 * gv_vari pst m * (par pst t m - mean) * (par pst t m - mean));
                  d = (if gv_switch pst t
                       then 1 / h * (W1 * w * (- g t + sm_wum pst t) + W2 * dv * (par pst t m - mean))
                       else 1 / h * (W1 * w * (- g t + sm_wum pst t)))
              in (hmmobj + W1 * w * par pst t m * (sm_wum pst t - 1 / 2 * g t), g(t := d))))
             [0..<plength pst] (0, g1)
      in (- (hmmobj + gvobj), pst\<lparr>sm_g := g2\<rparr>))"

definition gv_iteration :: "nat \<Rightarrow> real \<times> real \<times> PStream \<Rightarrow> real \<times> real \<times> PStream" where
  "gv_iteration m = (\<lambda>(step, prev, pst).
     let (obj, pst) = calc_derivative m pst;
         step = (if obj > prev then step * STEPDEC else step);
         step = (if obj < prev then step * STEPINC else step)
     in (step, obj, pst\<lparr>par := fold (\<lambda>t p. p(t := (p t)(m := p t m + step * sm_g pst t))) [0..<plength pst] (par pst)\<rparr>))"

definition gv_parmgen :: "nat \<Rightarrow> PStream \<Rightarrow> PStream" where
  "gv_parmgen m pst =
     (if gv_length pst = 0 then pst
      else let pst = conv_gv m pst
           in if GV_MAX_ITERATION > 0
              then (let pst = calc_wuw_and_wum m pst;
                        (_, _, pst) = (gv_iteration m ^^ GV_MAX_ITERATION) (STEPINIT, - LZERO, pst)
                    in pst)
              else pst)"

definition mlpg_column :: "nat \<Rightarrow> PStream \<Rightarrow> PStream" where
  "mlpg_column m pst =
     (let pst = backward_substitution m (forward_substitution (ldl_factorization (calc_wuw_and_wum m pst)))
      in if gv_length pst > 0 then gv_parmgen m pst else pst)"

definition HTS_PStream_mlpg :: "PStream \<Rightarrow> PStream" where
  "HTS_PStream_mlpg pst =
     (if plength pst = 0 then pst else fold mlpg_column [0..<static_length pst] pst)"

section \<open>Lemmas: the factorisation\<close>

lemma fold_minus: "fold (\<lambda>i a. a - f i) [m..<n] a = a - (\<Sum>i = m..<n. f i :: real)"
  by (induction n) (auto simp: le_Suc_eq)

lemma fold_plus: "fold (\<lambda>i a. a + f i) [m..<n] a = a + (\<Sum>i = m..<n. f i :: real)"
  by (induction n) (auto simp: le_Suc_eq)

lemma ldl_diag_sum:
  "ldl_diag width t w = w t 0 - (\<Sum>i = 1..<min width (t + 1). w (t - i) i * w (t - i) i * w (t - i) 0)"
  unfolding ldl_diag_def by (rule fold_minus)

lemma ldl_off_sum:
  "ldl_off width t i w =
   (w t i - (\<Sum>j = 1..<min (width - i) (t + 1). w (t - j) j * w (t - j) (i + j) * w (t - j) 0)) / w t 0"
  unfolding ldl_off_def fold_minus ..

lemma ldl_step_partial:
  fixes w :: "nat \<Rightarrow> nat \<Rightarrow> real" and t width :: nat
  defines "F n \<equiv> fold (\<lambda>i w. w(t := (w t)(i := ldl_off width t i w))) [1..<n]
       (w(t := (w t)(0 := ldl_diag width t w)))"
  shows "(s \<noteq> t \<longrightarrow> F n s = w s) \<and> F n t 0 = ldl_diag width t w \<and>
    (\<forall>i \<ge> 1. F n t i = (if i < n then (w t i - (\<Sum>j = 1..<min (width - i) (t + 1).
       w (t - j) j * w (t - j) (i + j) * w (t - j) 0)) / ldl_diag width t w else w t i))"
proof (induction n arbitrary: s)
  case 0
  show ?case by (simp add: F_def)
next
  case (Suc n)
  show ?case
  proof (cases "n = 0")
    case True
    then show ?thesis by (simp add: F_def)
  next
    case False
    then have F: "F (Suc n) = (F n)(t := (F n t)(n := ldl_off width t n (F n)))" by (simp add: F_def)
    have "(\<Sum>j = 1..<min (width - n) (t + 1). F n (t - j) j * F n (t - j) (n + j) * F n (t - j) 0) =
        (\<Sum>j = 1..<min (width - n) (t + 1). w (t - j) j * w (t - j) (n + j) * w (t - j) 0)"
      using Suc by (intro sum.cong) auto
    then show ?thesis using Suc False unfolding F ldl_off_sum by auto
  qed
qed

lemma ldl_step_rows:
  shows "s \<noteq> t \<Longrightarrow> ldl_step width t w s = w s"
    and "ldl_step width t w t 0 = ldl_diag width t w"
    and "1 \<le> i \<Longrightarrow> i < width \<Longrightarrow> ldl_step width t w t i =
      (w t i - (\<Sum>j = 1..<min (width - i) (t + 1). w (t - j) j * w (t - j) (i + j) * w (t - j) 0))
      / ldl_diag width t w"
  using ldl_step_partial [where t = t and width = width and w = w and n = width] unfolding ldl_step_def by auto

text \<open>Row \<open>t\<close> of the result is made in turn \<open>t\<close> and not changed later.\<close>

definition ldl :: "nat \<Rightarrow> (nat \<Rightarrow> nat \<Rightarrow> real) \<Rightarrow> nat \<Rightarrow> nat \<Rightarrow> nat \<Rightarrow> real" where
  "ldl width w n = fold (ldl_step width) [0..<n] w"

lemma ldl_Suc: "ldl width w (Suc n) = ldl_step width n (ldl width w n)"
  by (simp add: ldl_def)

lemma ldl_untouched: "n \<le> s \<Longrightarrow> ldl width w n s = w s"
proof (induction n)
  case (Suc n)
  then show ?case by (simp add: ldl_Suc ldl_step_rows(1))
qed (simp add: ldl_def)

lemma ldl_final: "s < n \<Longrightarrow> ldl width w n s = ldl width w (Suc s) s"
proof (induction n)
  case (Suc n)
  then show ?case by (cases "s = n") (auto simp: ldl_Suc [of _ _ n] ldl_step_rows(1))
qed simp

lemma ldl_equations:
  assumes "t < n"
  shows "ldl width w n t 0 = w t 0 -
      (\<Sum>i = 1..<min width (t + 1). ldl width w n (t - i) i * ldl width w n (t - i) i * ldl width w n (t - i) 0)"
    and "1 \<le> i \<Longrightarrow> i < width \<Longrightarrow> ldl width w n t i * ldl width w n t 0 =
      (if ldl width w n t 0 = 0 then 0 else w t i -
      (\<Sum>j = 1..<min (width - i) (t + 1). ldl width w n (t - j) j * ldl width w n (t - j) (i + j) * ldl width w n (t - j) 0))"
proof -
  let ?P = "ldl width w t"
  have row: "ldl width w n t = ldl_step width t ?P t"
    using ldl_final [OF assms] by (simp add: ldl_Suc)
  have w: "?P t = w t" by (simp add: ldl_untouched)
  have prev: "?P (t - i) = ldl width w n (t - i)" if "1 \<le> i" "i < t + 1" for i
  proof -
    have "t - i < t" "t - i < n" using that assms by auto
    then show ?thesis using ldl_final [of "t - i" t] ldl_final [of "t - i" n] by simp
  qed
  have "ldl_diag width t ?P = w t 0 - (\<Sum>i = 1..<min width (t + 1).
      ldl width w n (t - i) i * ldl width w n (t - i) i * ldl width w n (t - i) 0)"
    unfolding ldl_diag_sum w by (simp add: prev)
  then show d: "ldl width w n t 0 = w t 0 -
      (\<Sum>i = 1..<min width (t + 1). ldl width w n (t - i) i * ldl width w n (t - i) i * ldl width w n (t - i) 0)"
    by (simp add: row ldl_step_rows(2))
  assume i: "1 \<le> i" "i < width"
  have "(\<Sum>j = 1..<min (width - i) (t + 1). ?P (t - j) j * ?P (t - j) (i + j) * ?P (t - j) 0) =
      (\<Sum>j = 1..<min (width - i) (t + 1). ldl width w n (t - j) j * ldl width w n (t - j) (i + j) * ldl width w n (t - j) 0)"
    by (simp add: prev)
  then show "ldl width w n t i * ldl width w n t 0 =
      (if ldl width w n t 0 = 0 then 0 else w t i -
      (\<Sum>j = 1..<min (width - i) (t + 1). ldl width w n (t - j) j * ldl width w n (t - j) (i + j) * ldl width w n (t - j) 0))"
    unfolding row ldl_step_rows(3) [OF i] ldl_step_rows(2) w by simp
qed

section \<open>Lemmas: the matrices\<close>

text \<open>The unit lower triangular factor, and the symmetric band matrix, as functions of indices.\<close>

definition lo :: "nat \<Rightarrow> (nat \<Rightarrow> nat \<Rightarrow> real) \<Rightarrow> nat \<Rightarrow> nat \<Rightarrow> real" where
  "lo width v s r = (if s = r then 1 else if r < s \<and> s - r < width then v r (s - r) else 0)"

definition band :: "nat \<Rightarrow> (nat \<Rightarrow> nat \<Rightarrow> real) \<Rightarrow> nat \<Rightarrow> nat \<Rightarrow> real" where
  "band width w t s = (if max t s - min t s < width then w (min t s) (max t s - min t s) else 0)"

lemma band_commute: "band width w t s = band width w s t"
  by (simp add: band_def max.commute min.commute)

lemma sum_below: "(\<Sum>r<(t::nat). f r) = (\<Sum>j = 1..<t + 1. f (t - j) :: real)"
  by (rule sum.reindex_bij_witness [where i = "\<lambda>j. t - j" and j = "\<lambda>r. t - r"]) auto

lemma sum_above: "(t::nat) < n \<Longrightarrow> (\<Sum>s = t + 1..<n. f s) = (\<Sum>i = 1..<n - t. f (t + i) :: real)"
  by (rule sum.reindex_bij_witness [where i = "\<lambda>i. t + i" and j = "\<lambda>s. s - t"]) auto

lemma sum_split3:
  "(t::nat) < n \<Longrightarrow> (\<Sum>r<n. f r) = (\<Sum>r<t. f r) + f t + (\<Sum>r = t + 1..<n. f r :: real)"
proof -
  assume "t < n"
  then have "{..<n} = {..<t} \<union> {t} \<union> {t + 1..<n}" by auto
  moreover have "sum f ({..<t} \<union> {Suc t..<n}) = sum f {..<t} + sum f {Suc t..<n}"
    by (rule sum.union_disjoint) auto
  ultimately show ?thesis by simp
qed

lemma sum_restrict:
  "(\<And>j::nat. j \<in> {1..<n} \<Longrightarrow> k \<le> j \<Longrightarrow> f j = 0) \<Longrightarrow> (\<Sum>j = 1..<n. f j) = (\<Sum>j = 1..<min k n. f j :: real)"
  by (rule sum.mono_neutral_right) auto

text \<open>A row of the lower factor times a vector, and a column.\<close>

lemma lo_row:
  assumes "t < n"
  shows "(\<Sum>r<n. lo width v t r * f r) = f t + (\<Sum>i = 1..<min width (t + 1). v (t - i) i * f (t - i))"
proof -
  have "(\<Sum>r<t. lo width v t r * f r) = (\<Sum>i = 1..<t + 1. lo width v t (t - i) * f (t - i))"
    by (rule sum_below)
  also have "\<dots> = (\<Sum>i = 1..<min width (t + 1). lo width v t (t - i) * f (t - i))"
    by (rule sum_restrict) (auto simp: lo_def)
  also have "\<dots> = (\<Sum>i = 1..<min width (t + 1). v (t - i) i * f (t - i))"
    by (rule sum.cong) (auto simp: lo_def)
  finally show ?thesis using sum_split3 [OF assms, of "\<lambda>r. lo width v t r * f r"]
    by (simp add: lo_def)
qed

lemma lo_column:
  assumes "t < n"
  shows "(\<Sum>s<n. lo width v s t * f s) = f t + (\<Sum>i = 1..<min width (n - t). v t i * f (t + i))"
proof -
  have "(\<Sum>s = t + 1..<n. lo width v s t * f s) = (\<Sum>i = 1..<n - t. lo width v (t + i) t * f (t + i))"
    by (rule sum_above [OF assms])
  also have "\<dots> = (\<Sum>i = 1..<min width (n - t). lo width v (t + i) t * f (t + i))"
    by (rule sum_restrict) (auto simp: lo_def)
  also have "\<dots> = (\<Sum>i = 1..<min width (n - t). v t i * f (t + i))"
    by (rule sum.cong) (auto simp: lo_def)
  finally show ?thesis using sum_split3 [OF assms, of "\<lambda>s. lo width v s t * f s"]
    by (simp add: lo_def)
qed

text \<open>The product of the factors is the matrix.\<close>

lemma ldl_product_upper:
  assumes "t < n" "t \<le> s" "0 < width" and nz: "t < s \<Longrightarrow> ldl width w n t 0 \<noteq> 0"
  defines "v \<equiv> ldl width w n"
  shows "(\<Sum>r<n. lo width v t r * (v r 0 * lo width v s r)) = band width w t s"
proof (cases "s = t")
  case True
  have "(\<Sum>r<n. lo width v t r * (v r 0 * lo width v t r)) =
      v t 0 * lo width v t t + (\<Sum>i = 1..<min width (t + 1). v (t - i) i * (v (t - i) 0 * lo width v t (t - i)))"
    by (rule lo_row [OF assms(1)])
  also have "(\<Sum>i = 1..<min width (t + 1). v (t - i) i * (v (t - i) 0 * lo width v t (t - i))) =
      (\<Sum>i = 1..<min width (t + 1). v (t - i) i * v (t - i) i * v (t - i) 0)"
    by (rule sum.cong) (auto simp: lo_def)
  finally show ?thesis
    using ldl_equations(1) [OF assms(1), of width w] True assms(3) by (simp add: v_def lo_def band_def)
next
  case False
  define i where "i = s - t"
  have i: "1 \<le> i" "s = t + i" using False assms(2) by (auto simp: i_def)
  have s: "(\<Sum>r<n. lo width v t r * (v r 0 * lo width v s r)) =
      v t 0 * lo width v s t + (\<Sum>j = 1..<min width (t + 1). v (t - j) j * (v (t - j) 0 * lo width v s (t - j)))"
    by (rule lo_row [OF assms(1)])
  have lo: "lo width v s (t - j) = (if i + j < width then v (t - j) (i + j) else 0)"
    if "j \<le> t" for j
    using that i by (auto simp: lo_def)
  have "(\<Sum>j = 1..<min width (t + 1). v (t - j) j * (v (t - j) 0 * lo width v s (t - j))) =
      (\<Sum>j = 1..<min (width - i) (t + 1). v (t - j) j * v (t - j) (i + j) * v (t - j) 0)"
    by (rule sum.mono_neutral_cong_right) (auto simp: lo)
  with s i ldl_equations(2) [OF assms(1) i(1), of width w] nz show ?thesis
    by (auto simp: v_def lo_def band_def mult.commute)
qed

lemma ldl_product:
  assumes "t < n" "s < n" "0 < width" and nz: "\<And>r. Suc r < n \<Longrightarrow> ldl width w n r 0 \<noteq> 0"
  shows "(\<Sum>r<n. lo width (ldl width w n) t r * (ldl width w n r 0 * lo width (ldl width w n) s r)) =
    band width w t s"
proof (cases "t \<le> s")
  case True
  then show ?thesis using ldl_product_upper [OF assms(1) True assms(3), of w] nz assms by simp
next
  case False
  then show ?thesis
    using ldl_product_upper [OF assms(2) _ assms(3), of t w] nz assms band_commute [of width w t s]
    by (simp add: mult.left_commute mult.commute)
qed

section \<open>Lemmas: the substitutions\<close>

text \<open>
  A loop that assigns the items of an array in some order, each from items that are not assigned
  later, ends in a fixed point of its assignments.
\<close>

lemma fold_update_other: "t \<notin> set ts \<Longrightarrow> fold (\<lambda>t f. f(t := h t f)) ts f t = f t"
  by (induction ts arbitrary: f) auto

lemma fold_update_fixpoint:
  assumes "distinct ts" "t \<in> set ts"
    and dep: "\<And>us vs f f'. ts = us @ t # vs \<Longrightarrow> (\<And>u. u \<notin> set (t # vs) \<Longrightarrow> f u = f' u) \<Longrightarrow> h t f = h t f'"
  shows "fold (\<lambda>t f. f(t := h t f)) ts f0 t = h t (fold (\<lambda>t f. f(t := h t f)) ts f0)"
proof -
  let ?F = "\<lambda>ts. fold (\<lambda>t f. f(t := h t f)) ts"
  obtain us vs where ts: "ts = us @ t # vs" using assms(2) by (meson split_list)
  then have nt: "t \<notin> set vs" using assms(1) by simp
  have F: "?F ts f0 = ?F vs ((?F us f0)(t := h t (?F us f0)))" using ts by simp
  have "h t (?F us f0) = h t (?F ts f0)"
    by (rule dep [OF ts]) (simp add: F fold_update_other)
  moreover have "?F ts f0 t = h t (?F us f0)"
    unfolding F by (simp add: fold_update_other [OF nt])
  ultimately show ?thesis by simp
qed

lemma forward_eq:
  fixes v :: "nat \<Rightarrow> nat \<Rightarrow> real" and b g0 :: "nat \<Rightarrow> real" and width :: nat
  assumes "t < n"
  defines "g \<equiv> fold (forward_step width v b) [0..<n] g0"
  shows "b t = (\<Sum>r<n. lo width v t r * g r)"
proof -
  let ?h = "\<lambda>t g. fold (\<lambda>i a. a - v (t - i) i * g (t - i)) [1..<min width (t + 1)] (b t)"
  have step: "forward_step width v b = (\<lambda>t g. g(t := ?h t g))"
    by (simp add: forward_step_def fun_eq_iff)
  have "g t = ?h t g"
    unfolding g_def step
  proof (rule fold_update_fixpoint)
    fix us vs f f'
    assume ts: "[0..<n] = us @ t # vs" and f: "\<And>u. u \<notin> set (t # vs) \<Longrightarrow> f u = (f' u :: real)"
    have "u \<notin> set (t # vs)" if "u < t" for u
    proof -
      have "sorted (us @ t # vs)" using ts [symmetric] by simp
      then show ?thesis using that by (auto simp: sorted_append)
    qed
    then have "f u = f' u" if "u < t" for u using that f by blast
    then show "?h t f = ?h t f'" unfolding fold_minus by simp
  qed (use assms(1) in auto)
  then show ?thesis unfolding lo_row [OF assms(1)] fold_minus by simp
qed

lemma backward_column:
  "(\<lambda>t. fold (backward_step width n v g m) ts p t m) =
   fold (\<lambda>t x. x(t := fold (\<lambda>i a. a - v t i * x (t + i)) [1..<min width (n - t)] (g t / v t 0))) ts (\<lambda>t. p t m)"
proof (induction ts arbitrary: p)
  case (Cons t ts)
  show ?case unfolding fold_Cons comp_def Cons.IH
    by (rule arg_cong [where f = "fold _ ts"]) (auto simp: backward_step_def fun_eq_iff)
qed simp

lemma backward_other: "k \<noteq> m \<Longrightarrow> fold (backward_step width n v g m) ts p t k = p t k"
  by (induction ts arbitrary: p) (auto simp: backward_step_def)

lemma backward_eq:
  fixes v p :: "nat \<Rightarrow> nat \<Rightarrow> real" and g :: "nat \<Rightarrow> real" and width m :: nat
  assumes "t < n" "v t 0 \<noteq> 0"
  defines "x \<equiv> \<lambda>t. fold (backward_step width n v g m) (rev [0..<n]) p t m"
  shows "g t = v t 0 * (\<Sum>s<n. lo width v s t * x s)"
proof -
  let ?h = "\<lambda>t x. fold (\<lambda>i a. a - v t i * x (t + i)) [1..<min width (n - t)] (g t / v t 0)"
  have "x t = ?h t x"
    unfolding x_def backward_column
  proof (rule fold_update_fixpoint)
    fix us vs f f'
    assume ts: "rev [0..<n] = us @ t # vs" and f: "\<And>u. u \<notin> set (t # vs) \<Longrightarrow> f u = (f' u :: real)"
    then have ts': "[0..<n] = rev vs @ t # rev us" by (simp add: rev_swap)
    have "u \<notin> set (t # vs)" if "t < u" for u
    proof -
      have "sorted (rev vs @ t # rev us)" using ts' [symmetric] by simp
      then show ?thesis using that by (auto simp: sorted_append)
    qed
    then have "f (t + i) = f' (t + i)" if "1 \<le> i" for i using that f by simp
    then show "?h t f = ?h t f'" unfolding fold_minus by simp
  qed (use assms(1) in auto)
  then have "x t + (\<Sum>i = 1..<min width (n - t). v t i * x (t + i)) = g t / v t 0"
    unfolding fold_minus by simp
  then show ?thesis unfolding lo_column [OF assms(1)] using assms(2) by simp
qed

text \<open>The three steps solve the system.\<close>

lemma solve_ok:
  fixes w p :: "nat \<Rightarrow> nat \<Rightarrow> real" and b g0 :: "nat \<Rightarrow> real" and width n m :: nat
  defines "v \<equiv> ldl width w n"
  defines "g \<equiv> fold (forward_step width v b) [0..<n] g0"
  defines "x \<equiv> \<lambda>t. fold (backward_step width n v g m) (rev [0..<n]) p t m"
  assumes "t < n" "0 < width" and nz: "\<And>r. r < n \<Longrightarrow> v r 0 \<noteq> 0"
  shows "(\<Sum>s<n. band width w t s * x s) = b t"
proof -
  have "b t = (\<Sum>r<n. lo width v t r * g r)"
    unfolding g_def by (rule forward_eq [OF assms(4)])
  also have "\<dots> = (\<Sum>r<n. lo width v t r * (v r 0 * (\<Sum>s<n. lo width v s r * x s)))"
    using backward_eq [of _ n v g width m p] nz by (simp add: x_def)
  also have "\<dots> = (\<Sum>r<n. \<Sum>s<n. lo width v t r * (v r 0 * lo width v s r) * x s)"
    by (simp add: sum_distrib_left mult.assoc)
  also have "\<dots> = (\<Sum>s<n. (\<Sum>r<n. lo width v t r * (v r 0 * lo width v s r)) * x s)"
    by (subst sum.swap) (simp add: sum_distrib_right)
  also have "\<dots> = (\<Sum>s<n. band width w t s * x s)"
    using ldl_product [OF assms(4) _ assms(5), of _ w] nz by (simp add: v_def)
  finally show ?thesis ..
qed

section \<open>Lemmas: the pivots of a positive definite matrix\<close>

definition quad :: "nat \<Rightarrow> (nat \<Rightarrow> nat \<Rightarrow> real) \<Rightarrow> (nat \<Rightarrow> real) \<Rightarrow> real" where
  "quad n A x = (\<Sum>t<n. \<Sum>s<n. x t * A t s * x s)"

lemma ldl_quad:
  fixes w :: "nat \<Rightarrow> nat \<Rightarrow> real" and width n :: nat
  defines "v \<equiv> ldl width w n"
  assumes "0 < width" and nz: "\<And>r. Suc r < n \<Longrightarrow> v r 0 \<noteq> 0"
  shows "quad n (band width w) x = (\<Sum>r<n. v r 0 * (\<Sum>s<n. lo width v s r * x s)\<^sup>2)"
proof -
  have "quad n (band width w) x =
      (\<Sum>t<n. \<Sum>s<n. x t * (\<Sum>r<n. lo width v t r * (v r 0 * lo width v s r)) * x s)"
    using ldl_product [OF _ _ assms(2), of _ n _ w] nz by (simp add: quad_def v_def)
  also have "\<dots> = (\<Sum>t<n. \<Sum>s<n. \<Sum>r<n. v r 0 * ((lo width v t r * x t) * (lo width v s r * x s)))"
    by (simp add: sum_distrib_left sum_distrib_right mult.assoc mult.left_commute)
  also have "\<dots> = (\<Sum>t<n. \<Sum>r<n. \<Sum>s<n. v r 0 * ((lo width v t r * x t) * (lo width v s r * x s)))"
    by (intro sum.cong refl sum.swap)
  also have "\<dots> = (\<Sum>r<n. \<Sum>t<n. \<Sum>s<n. v r 0 * ((lo width v t r * x t) * (lo width v s r * x s)))"
    by (rule sum.swap)
  also have "\<dots> = (\<Sum>r<n. v r 0 * (\<Sum>s<n. lo width v s r * x s)\<^sup>2)"
    unfolding power2_eq_square sum_product unfolding sum_distrib_left ..
  finally show ?thesis .
qed

lemma unit_column:
  fixes v :: "nat \<Rightarrow> nat \<Rightarrow> real" and width t :: nat
  shows "\<exists>x. x t = 1 \<and> (\<forall>r < Suc t. (\<Sum>s<Suc t. lo width v s r * x s) = (if r = t then 1 else 0))"
proof -
  define v' where "v' = (\<lambda>r i. if i = 0 then 1 else v r i)"
  have lo: "lo width v' = lo width v" by (auto simp: lo_def v'_def fun_eq_iff)
  define g :: "nat \<Rightarrow> real" where "g r = (if r = t then 1 else 0)" for r
  define x where "x = (\<lambda>s. fold (backward_step width (Suc t) v' g 0) (rev [0..<Suc t]) (\<lambda>_ _. 0) s 0)"
  have eq: "(\<Sum>s<Suc t. lo width v s r * x s) = g r" if "r < Suc t" for r
    using backward_eq [of r "Suc t" v' g width 0 "\<lambda>_ _. 0"] that unfolding lo x_def by (simp add: v'_def)
  have "(\<Sum>s<Suc t. lo width v s t * x s) = x t"
    using lo_column [of t "Suc t" width v x] by (simp del: sum.lessThan_Suc)
  with eq [of t] have "x t = 1" by (simp add: g_def)
  with eq show ?thesis by (auto simp: g_def)
qed

lemma ldl_prefix: "r < k \<Longrightarrow> k \<le> n \<Longrightarrow> ldl width w n r = ldl width w k r"
  using ldl_final [of r n] ldl_final [of r k] by simp

lemma pivots_positive:
  assumes "0 < width"
    and pd: "\<And>k x. k \<le> n \<Longrightarrow> (\<exists>t < k. x t \<noteq> 0) \<Longrightarrow> 0 < quad k (band width w) x"
  shows "t < n \<Longrightarrow> 0 < ldl width w n t 0"
proof (induction t rule: less_induct)
  case (less t)
  let ?v = "ldl width w (Suc t)"
  have nz: "?v r 0 \<noteq> 0" if "Suc r < Suc t" for r
    using less.IH [of r] that less.prems ldl_prefix [of r "Suc t" n] by simp
  obtain x where x: "x t = 1" "\<And>r. r < Suc t \<Longrightarrow> (\<Sum>s<Suc t. lo width ?v s r * x s) = (if r = t then 1 else 0)"
    using unit_column [of t width ?v] by blast
  have "0 < quad (Suc t) (band width w) x"
    using pd [of "Suc t" x] less.prems x(1) by (metis Suc_leI lessI zero_neq_one)
  also have "quad (Suc t) (band width w) x = (\<Sum>r<Suc t. ?v r 0 * (\<Sum>s<Suc t. lo width ?v s r * x s)\<^sup>2)"
    by (rule ldl_quad [OF assms(1)]) (use nz in simp)
  also have "\<dots> = (\<Sum>r<Suc t. ?v r 0 * (if r = t then 1 else 0)\<^sup>2)"
    by (rule sum.cong) (use x(2) in auto)
  also have "\<dots> = ?v t 0" by simp
  finally show ?case using ldl_prefix [of t "Suc t" n] less.prems by simp
qed

section \<open>Lemmas: the system\<close>

lemma fold_row: "fold (\<lambda>k row. if P k then row(k := row k + f k) else row) [0..<n] row k =
   (if k < n \<and> P k then row k + (f k :: real) else row k)"
  by (induction n) auto

lemma fold_zero: "fold (\<lambda>i row. row(i := 0)) [0..<n] row k = (if k < n then 0 else row k :: real)"
  by (induction n) auto

text \<open>What window \<open>i\<close> at distance \<open>j\<close> adds to \<open>wum[t]\<close> and to \<open>wuw[t][k]\<close>.\<close>

definition term_wum :: "PStream \<Rightarrow> nat \<Rightarrow> nat \<Rightarrow> nat \<Rightarrow> int \<Rightarrow> real" where
  "term_wum pst m t i j =
     (if 0 \<le> int t + j \<and> int t + j < int (plength pst)
      then win_coefficient pst i (- j) * sm_ivar pst (nat (int t + j)) (i * static_length pst + m) *
           sm_mean pst (nat (int t + j)) (i * static_length pst + m) else 0)"

definition term_wuw :: "PStream \<Rightarrow> nat \<Rightarrow> nat \<Rightarrow> nat \<Rightarrow> int \<Rightarrow> nat \<Rightarrow> real" where
  "term_wuw pst m t i j k =
     (if 0 \<le> int t + j \<and> int t + j < int (plength pst) \<and> k < min (pwidth pst) (plength pst - t) \<and>
         int k - j \<le> win_r_width pst i
      then win_coefficient pst i (- j) * sm_ivar pst (nat (int t + j)) (i * static_length pst + m) *
           win_coefficient pst i (int k - j) else 0)"

lemma calc_term_add:
  "calc_term pst m t i j (a, row) = (a + term_wum pst m t i j, \<lambda>k. row k + term_wuw pst m t i j k)"
  by (auto simp: calc_term_def term_wum_def term_wuw_def Let_def fold_row fun_eq_iff)

lemma fold_add_pair:
  assumes "\<And>x a r. x \<in> set xs \<Longrightarrow> f x (a, r) = (a + p x, \<lambda>k. r k + (q x k :: real))"
  shows "fold f xs (a :: real, r) = (a + sum_list (map p xs), \<lambda>k. r k + sum_list (map (\<lambda>x. q x k) xs))"
  using assms by (induction xs arbitrary: a r) (auto simp: add.assoc)

lemma sum_list_upto: "sum_list (map f [l..r]) = (\<Sum>j = l..r. f j :: real)"
  by (simp add: sum_list_distinct_conv_sum_set)

lemma sum_list_upt0: "sum_list (map f [0..<n]) = (\<Sum>i<n. f i :: real)"
  by (simp add: sum_list_distinct_conv_sum_set atLeast0LessThan)

lemma calc_row_sum:
  "calc_row pst m t =
   (\<Sum>i<win_size pst. \<Sum>j = win_l_width pst i..win_r_width pst i. term_wum pst m t i j,
    \<lambda>k. (if k < pwidth pst then 0 else sm_wuw pst t k) +
      (\<Sum>i<win_size pst. \<Sum>j = win_l_width pst i..win_r_width pst i. term_wuw pst m t i j k))"
proof -
  have inner: "fold (calc_term pst m t i) [win_l_width pst i..win_r_width pst i] (a, r) =
      (a + (\<Sum>j = win_l_width pst i..win_r_width pst i. term_wum pst m t i j),
       \<lambda>k. r k + (\<Sum>j = win_l_width pst i..win_r_width pst i. term_wuw pst m t i j k))" for i a r
    using fold_add_pair [of "[win_l_width pst i..win_r_width pst i]" "calc_term pst m t i"
        "term_wum pst m t i" "term_wuw pst m t i" a r]
    by (simp add: calc_term_add sum_list_upto)
  show ?thesis
    unfolding calc_row_def
    by (subst fold_add_pair [where p = "\<lambda>i. \<Sum>j = win_l_width pst i..win_r_width pst i. term_wum pst m t i j"
          and q = "\<lambda>i k. \<Sum>j = win_l_width pst i..win_r_width pst i. term_wuw pst m t i j k"])
       (simp_all add: inner sum_list_upt0 fold_zero)
qed

text \<open>The fields that are not work space.\<close>

lemma term_work [simp]:
  "term_wum (pst\<lparr>sm_wum := x, sm_wuw := y\<rparr>) = term_wum pst"
  "term_wuw (pst\<lparr>sm_wum := x, sm_wuw := y\<rparr>) = term_wuw pst"
  by (simp_all add: fun_eq_iff term_wum_def term_wuw_def)

lemma calc_row_cong:
  "y t = sm_wuw pst t \<Longrightarrow> calc_row (pst\<lparr>sm_wum := x, sm_wuw := y\<rparr>) m t = calc_row pst m t"
  by (simp add: calc_row_sum cong: if_cong)

lemma calc_rows_fold:
  fixes f :: "nat \<Rightarrow> PStream \<Rightarrow> PStream" and m :: nat
  defines "f \<equiv> \<lambda>t pst. let (wum, row) = calc_row pst m t
                   in pst\<lparr>sm_wum := (sm_wum pst)(t := wum), sm_wuw := (sm_wuw pst)(t := row)\<rparr>"
  shows "fold f [0..<n] pst =
     pst\<lparr>sm_wum := \<lambda>t. if t < n then fst (calc_row pst m t) else sm_wum pst t,
         sm_wuw := \<lambda>t. if t < n then snd (calc_row pst m t) else sm_wuw pst t\<rparr>"
proof (induction n)
  case (Suc n)
  let ?p = "pst\<lparr>sm_wum := \<lambda>t. if t < n then fst (calc_row pst m t) else sm_wum pst t,
       sm_wuw := \<lambda>t. if t < n then snd (calc_row pst m t) else sm_wuw pst t\<rparr>"
  have "fold f [0..<Suc n] pst = f n ?p" using Suc by simp
  also have "\<dots> = ?p\<lparr>sm_wum := (sm_wum ?p)(n := fst (calc_row ?p m n)),
      sm_wuw := (sm_wuw ?p)(n := snd (calc_row ?p m n))\<rparr>"
    by (simp add: f_def case_prod_beta Let_def)
  also have "calc_row ?p m n = calc_row pst m n" by (rule calc_row_cong) simp
  also have "(sm_wum ?p)(n := fst (calc_row pst m n)) =
      (\<lambda>t. if t < Suc n then fst (calc_row pst m t) else sm_wum pst t)"
    by (auto simp: fun_eq_iff less_Suc_eq)
  also have "(sm_wuw ?p)(n := snd (calc_row pst m n)) =
      (\<lambda>t. if t < Suc n then snd (calc_row pst m t) else sm_wuw pst t)"
    by (auto simp: fun_eq_iff less_Suc_eq)
  finally show ?case by simp
qed (simp add: f_def)

lemmas calc_wuw_and_wum_eq = calc_wuw_and_wum_def [unfolded calc_rows_fold]

text \<open>The window matrix: row \<open>(i, u)\<close> gives feature \<open>i\<close> of frame \<open>u\<close> from the static values.\<close>

definition Wm :: "PStream \<Rightarrow> nat \<Rightarrow> nat \<Rightarrow> nat \<Rightarrow> real" where
  "Wm pst i u s =
     (if win_l_width pst i \<le> int s - int u \<and> int s - int u \<le> win_r_width pst i
      then win_coefficient pst i (int s - int u) else 0)"

definition feature :: "PStream \<Rightarrow> nat \<Rightarrow> nat \<Rightarrow> nat" where
  "feature pst m i = i * static_length pst + m"

text \<open>The windows are symmetric intervals that the band holds.\<close>

definition windows_ok :: "PStream \<Rightarrow> bool" where
  "windows_ok pst \<longleftrightarrow> 0 < pwidth pst \<and> (\<forall>i < win_size pst.
     0 \<le> win_r_width pst i \<and> win_l_width pst i = - win_r_width pst i \<and>
     2 * win_r_width pst i < int (pwidth pst))"

lemma sum_window:
  fixes f :: "nat \<Rightarrow> real"
  shows "(\<Sum>j = l..r. if 0 \<le> int t + j \<and> int t + j < int n then f (nat (int t + j)) else 0) =
    (\<Sum>u<n. if l \<le> int u - int t \<and> int u - int t \<le> r then f u else 0)"
proof -
  have "(\<Sum>j = l..r. if 0 \<le> int t + j \<and> int t + j < int n then f (nat (int t + j)) else 0) =
      (\<Sum>j | j \<in> {l..r} \<and> (0 \<le> int t + j \<and> int t + j < int n). f (nat (int t + j)))"
    by (rule sum.inter_filter [symmetric]) simp
  also have "\<dots> = (\<Sum>u | u \<in> {..<n} \<and> (l \<le> int u - int t \<and> int u - int t \<le> r). f u)"
    by (rule sum.reindex_bij_witness [where i = "\<lambda>u. int u - int t" and j = "\<lambda>j. nat (int t + j)"]) auto
  also have "\<dots> = (\<Sum>u<n. if l \<le> int u - int t \<and> int u - int t \<le> r then f u else 0)"
    by (rule sum.inter_filter) simp
  finally show ?thesis .
qed

lemma wum_window:
  assumes "windows_ok pst" "i < win_size pst"
  shows "(\<Sum>j = win_l_width pst i..win_r_width pst i. term_wum pst m t i j) =
    (\<Sum>u<plength pst. Wm pst i u t * sm_ivar pst u (feature pst m i) * sm_mean pst u (feature pst m i))"
proof -
  have sym: "win_l_width pst i = - win_r_width pst i" using assms by (simp add: windows_ok_def)
  define f where "f u = win_coefficient pst i (int t - int u) * sm_ivar pst u (feature pst m i) *
    sm_mean pst u (feature pst m i)" for u
  have "(\<Sum>j = win_l_width pst i..win_r_width pst i. term_wum pst m t i j) =
      (\<Sum>j = win_l_width pst i..win_r_width pst i.
        if 0 \<le> int t + j \<and> int t + j < int (plength pst) then f (nat (int t + j)) else 0)"
    by (rule sum.cong) (auto simp: term_wum_def f_def feature_def)
  also have "\<dots> = (\<Sum>u<plength pst. if win_l_width pst i \<le> int u - int t \<and> int u - int t \<le> win_r_width pst i
      then f u else 0)" by (rule sum_window)
  also have "\<dots> = (\<Sum>u<plength pst. Wm pst i u t * sm_ivar pst u (feature pst m i) * sm_mean pst u (feature pst m i))"
    by (rule sum.cong) (auto simp: Wm_def f_def sym)
  finally show ?thesis .
qed

lemma wuw_window:
  assumes "windows_ok pst" "i < win_size pst" "t \<le> s" "s < plength pst"
  shows "(if s - t < pwidth pst then \<Sum>j = win_l_width pst i..win_r_width pst i. term_wuw pst m t i j (s - t) else 0) =
    (\<Sum>u<plength pst. Wm pst i u t * sm_ivar pst u (feature pst m i) * Wm pst i u s)"
proof (cases "s - t < pwidth pst")
  case True
  have sym: "win_l_width pst i = - win_r_width pst i" using assms by (simp add: windows_ok_def)
  define f where "f u = (if int s - int u \<le> win_r_width pst i
    then win_coefficient pst i (int t - int u) * sm_ivar pst u (feature pst m i) *
      win_coefficient pst i (int s - int u) else 0)" for u
  have "(\<Sum>j = win_l_width pst i..win_r_width pst i. term_wuw pst m t i j (s - t)) =
      (\<Sum>j = win_l_width pst i..win_r_width pst i.
        if 0 \<le> int t + j \<and> int t + j < int (plength pst) then f (nat (int t + j)) else 0)"
    using True assms(3,4) by (intro sum.cong) (auto simp: term_wuw_def f_def feature_def of_nat_diff algebra_simps)
  also have "\<dots> = (\<Sum>u<plength pst. if win_l_width pst i \<le> int u - int t \<and> int u - int t \<le> win_r_width pst i
      then f u else 0)" by (rule sum_window)
  also have "\<dots> = (\<Sum>u<plength pst. Wm pst i u t * sm_ivar pst u (feature pst m i) * Wm pst i u s)"
    using assms(3) by (intro sum.cong) (auto simp: Wm_def f_def sym)
  finally show ?thesis using True by simp
next
  case False
  have "Wm pst i u t * sm_ivar pst u (feature pst m i) * Wm pst i u s = 0" for u
  proof -
    have "2 * win_r_width pst i < int s - int t" "win_l_width pst i = - win_r_width pst i"
      using assms False by (auto simp: windows_ok_def of_nat_diff)
    then show ?thesis by (auto simp: Wm_def)
  qed
  then show ?thesis unfolding if_not_P [OF False] by (intro sum.neutral [symmetric]) blast
qed

definition rows :: "PStream \<Rightarrow> (nat \<times> nat) set" where
  "rows pst = {..<win_size pst} \<times> {..<plength pst}"

lemma sum_rows: "(\<Sum>(i, u) \<in> rows pst. f i u) = (\<Sum>i<win_size pst. \<Sum>u<plength pst. f i u :: real)"
  by (simp add: rows_def sum.cartesian_product)

lemma calc_system:
  assumes "windows_ok pst" "t < plength pst" "s < plength pst"
  shows "sm_wum (calc_wuw_and_wum m pst) t =
      (\<Sum>(i, u) \<in> rows pst. Wm pst i u t * sm_ivar pst u (feature pst m i) * sm_mean pst u (feature pst m i))"
    and "band (pwidth pst) (sm_wuw (calc_wuw_and_wum m pst)) t s =
      (\<Sum>(i, u) \<in> rows pst. Wm pst i u t * sm_ivar pst u (feature pst m i) * Wm pst i u s)"
proof -
  show "sm_wum (calc_wuw_and_wum m pst) t =
      (\<Sum>(i, u) \<in> rows pst. Wm pst i u t * sm_ivar pst u (feature pst m i) * sm_mean pst u (feature pst m i))"
    using assms wum_window [OF assms(1)] by (simp add: calc_wuw_and_wum_eq calc_row_sum sum_rows)
  have up: "band (pwidth pst) (sm_wuw (calc_wuw_and_wum m pst)) t s =
      (\<Sum>(i, u) \<in> rows pst. Wm pst i u t * sm_ivar pst u (feature pst m i) * Wm pst i u s)"
    if "t \<le> s" "s < plength pst" for t s
    unfolding sum_rows using that
    by (simp add: wuw_window [OF assms(1), symmetric] band_def calc_wuw_and_wum_eq calc_row_sum)
  show "band (pwidth pst) (sm_wuw (calc_wuw_and_wum m pst)) t s =
      (\<Sum>(i, u) \<in> rows pst. Wm pst i u t * sm_ivar pst u (feature pst m i) * Wm pst i u s)"
  proof (cases "t \<le> s")
    case False
    then have "band (pwidth pst) (sm_wuw (calc_wuw_and_wum m pst)) t s =
        (\<Sum>(i, u) \<in> rows pst. Wm pst i u s * sm_ivar pst u (feature pst m i) * Wm pst i u t)"
      using up [of s t] assms by (simp add: band_commute)
    then show ?thesis by (simp add: mult.commute mult.left_commute)
  qed (use up assms in simp)
qed

section \<open>Lemmas: weighted least squares\<close>

lemma normal_equations_minimise:
  fixes W :: "'p \<Rightarrow> nat \<Rightarrow> real" and a mu :: "'p \<Rightarrow> real" and x c :: "nat \<Rightarrow> real"
  assumes nonneg: "\<And>p. p \<in> I \<Longrightarrow> 0 \<le> a p"
    and normal: "\<And>t. t < n \<Longrightarrow> (\<Sum>p\<in>I. W p t * a p * ((\<Sum>s<n. W p s * x s) - mu p)) = 0"
  shows "(\<Sum>p\<in>I. a p * ((\<Sum>s<n. W p s * x s) - mu p)\<^sup>2) \<le> (\<Sum>p\<in>I. a p * ((\<Sum>s<n. W p s * c s) - mu p)\<^sup>2)"
proof -
  define e where "e p = (\<Sum>s<n. W p s * x s) - mu p" for p
  define d where "d p = (\<Sum>s<n. W p s * (c s - x s))" for p
  have c: "(\<Sum>s<n. W p s * c s) - mu p = e p + d p" for p
    by (simp add: e_def d_def right_diff_distrib sum_subtractf)
  have "(\<Sum>p\<in>I. a p * e p * d p) = (\<Sum>p\<in>I. \<Sum>s<n. (c s - x s) * (W p s * a p * e p))"
    by (simp add: d_def sum_distrib_left mult.assoc mult.left_commute mult.commute)
  also have "\<dots> = (\<Sum>s<n. (c s - x s) * (\<Sum>p\<in>I. W p s * a p * e p))"
    by (subst sum.swap) (simp add: sum_distrib_left)
  also have "\<dots> = 0" using normal by (simp add: e_def)
  finally have cross: "(\<Sum>p\<in>I. a p * e p * d p) = 0" .
  have "(\<Sum>p\<in>I. a p * (e p + d p)\<^sup>2) = (\<Sum>p\<in>I. a p * (e p)\<^sup>2 + a p * (d p)\<^sup>2 + 2 * (a p * e p * d p))"
    by (simp add: power2_sum algebra_simps)
  also have "\<dots> = (\<Sum>p\<in>I. a p * (e p)\<^sup>2) + (\<Sum>p\<in>I. a p * (d p)\<^sup>2)"
    using cross by (simp add: sum.distrib flip: sum_distrib_left)
  moreover have "0 \<le> (\<Sum>p\<in>I. a p * (d p)\<^sup>2)" using nonneg by (intro sum_nonneg) simp
  ultimately have "(\<Sum>p\<in>I. a p * (e p)\<^sup>2) \<le> (\<Sum>p\<in>I. a p * (e p + d p)\<^sup>2)" by simp
  then show ?thesis unfolding c unfolding e_def .
qed

text \<open>The objective: the weighted squared distance between the features of a trajectory and the means.\<close>

definition objective :: "PStream \<Rightarrow> nat \<Rightarrow> (nat \<Rightarrow> real) \<Rightarrow> real" where
  "objective pst m c = (\<Sum>(i, u) \<in> rows pst. sm_ivar pst u (feature pst m i) *
     ((\<Sum>s<plength pst. Wm pst i u s * c s) - sm_mean pst u (feature pst m i))\<^sup>2)"

text \<open>
  The first window is the static one, its inverse variances are positive, and the others are not
  negative.
\<close>

definition input_ok :: "PStream \<Rightarrow> nat \<Rightarrow> bool" where
  "input_ok pst m \<longleftrightarrow> windows_ok pst \<and> 0 < win_size pst \<and> win_r_width pst 0 = 0 \<and>
     win_coefficient pst 0 0 \<noteq> 0 \<and>
     (\<forall>u < plength pst. 0 < sm_ivar pst u (feature pst m 0)) \<and>
     (\<forall>i < win_size pst. \<forall>u < plength pst. 0 \<le> sm_ivar pst u (feature pst m i))"

lemma quad_windows:
  assumes "windows_ok pst" "k \<le> plength pst"
  shows "quad k (band (pwidth pst) (sm_wuw (calc_wuw_and_wum m pst))) x =
    (\<Sum>(i, u) \<in> rows pst. sm_ivar pst u (feature pst m i) * (\<Sum>s<k. Wm pst i u s * x s)\<^sup>2)"
proof -
  let ?a = "\<lambda>p. sm_ivar pst (snd p) (feature pst m (fst p))"
  let ?W = "\<lambda>p. Wm pst (fst p) (snd p)"
  have "quad k (band (pwidth pst) (sm_wuw (calc_wuw_and_wum m pst))) x =
      (\<Sum>t<k. \<Sum>s<k. x t * (\<Sum>p \<in> rows pst. ?W p t * ?a p * ?W p s) * x s)"
    using assms by (simp add: quad_def calc_system case_prod_beta)
  also have "\<dots> = (\<Sum>t<k. \<Sum>s<k. \<Sum>p \<in> rows pst. ?a p * ((?W p t * x t) * (?W p s * x s)))"
    by (simp add: sum_distrib_left sum_distrib_right mult.assoc mult.left_commute)
  also have "\<dots> = (\<Sum>t<k. \<Sum>p \<in> rows pst. \<Sum>s<k. ?a p * ((?W p t * x t) * (?W p s * x s)))"
    by (intro sum.cong refl sum.swap)
  also have "\<dots> = (\<Sum>p \<in> rows pst. \<Sum>t<k. \<Sum>s<k. ?a p * ((?W p t * x t) * (?W p s * x s)))"
    by (rule sum.swap)
  also have "\<dots> = (\<Sum>p \<in> rows pst. ?a p * (\<Sum>s<k. ?W p s * x s)\<^sup>2)"
    unfolding power2_eq_square sum_product unfolding sum_distrib_left ..
  finally show ?thesis by (simp add: case_prod_beta)
qed

lemma system_positive:
  assumes "input_ok pst m" "k \<le> plength pst" "t < k" "x t \<noteq> 0"
  shows "0 < quad k (band (pwidth pst) (sm_wuw (calc_wuw_and_wum m pst))) x"
proof -
  note ok = assms(1) [unfolded input_ok_def]
  let ?f = "\<lambda>(i, u). sm_ivar pst u (feature pst m i) * (\<Sum>s<k. Wm pst i u s * x s)\<^sup>2"
  have l0: "win_l_width pst 0 = 0" using ok by (simp add: windows_ok_def)
  have "(\<Sum>s<k. Wm pst 0 t s * x s) = (\<Sum>s<k. if s = t then win_coefficient pst 0 0 * x t else 0)"
    using ok l0 by (intro sum.cong) (auto simp: Wm_def)
  then have "(\<Sum>s<k. Wm pst 0 t s * x s) = win_coefficient pst 0 0 * x t"
    using assms(3) by simp
  then have "0 < ?f (0, t)" using ok assms(2,3,4) by simp
  moreover have "(0, t) \<in> rows pst" "finite (rows pst)" using ok assms(2,3) by (auto simp: rows_def)
  moreover have "0 \<le> ?f p" if "p \<in> rows pst" for p using that ok by (auto simp: rows_def)
  ultimately have "0 < sum ?f (rows pst)" by (intro sum_pos2 [of _ "(0, t)"]) auto
  then show ?thesis using quad_windows [OF _ assms(2)] ok by simp
qed

section \<open>Lemmas: a column\<close>

lemma mlpg_column_eq:
  assumes "gv_length pst = 0"
  shows "\<exists>g. mlpg_column m pst = pst\<lparr>
    sm_wum := sm_wum (calc_wuw_and_wum m pst),
    sm_wuw := ldl (pwidth pst) (sm_wuw (calc_wuw_and_wum m pst)) (plength pst),
    sm_g := g,
    par := fold (backward_step (pwidth pst) (plength pst)
       (ldl (pwidth pst) (sm_wuw (calc_wuw_and_wum m pst)) (plength pst)) g m) (rev [0..<plength pst]) (par pst)\<rparr> \<and>
    g = fold (forward_step (pwidth pst) (ldl (pwidth pst) (sm_wuw (calc_wuw_and_wum m pst)) (plength pst))
       (sm_wum (calc_wuw_and_wum m pst))) [0..<plength pst] (sm_g pst)"
  using assms
  by (simp add: mlpg_column_def Let_def backward_substitution_def forward_substitution_def
      ldl_factorization_def calc_wuw_and_wum_eq ldl_def)

lemma mlpg_column_solves:
  assumes "input_ok pst m" "gv_length pst = 0" "t < plength pst"
  shows "(\<Sum>s<plength pst. band (pwidth pst) (sm_wuw (calc_wuw_and_wum m pst)) t s * par (mlpg_column m pst) s m) =
    sm_wum (calc_wuw_and_wum m pst) t"
proof -
  let ?w = "sm_wuw (calc_wuw_and_wum m pst)"
  have width: "0 < pwidth pst" using assms(1) by (simp add: input_ok_def windows_ok_def)
  have pos: "0 < ldl (pwidth pst) ?w (plength pst) r 0" if "r < plength pst" for r
    using pivots_positive [OF width _ that] system_positive [OF assms(1)] by blast
  obtain g where "mlpg_column m pst = pst\<lparr>
    sm_wum := sm_wum (calc_wuw_and_wum m pst), sm_wuw := ldl (pwidth pst) ?w (plength pst), sm_g := g,
    par := fold (backward_step (pwidth pst) (plength pst) (ldl (pwidth pst) ?w (plength pst)) g m)
      (rev [0..<plength pst]) (par pst)\<rparr>"
    "g = fold (forward_step (pwidth pst) (ldl (pwidth pst) ?w (plength pst))
       (sm_wum (calc_wuw_and_wum m pst))) [0..<plength pst] (sm_g pst)"
    using mlpg_column_eq [OF assms(2), of m] by blast
  then show ?thesis
    using solve_ok [OF assms(3) width, of ?w "sm_wum (calc_wuw_and_wum m pst)" "sm_g pst" m "par pst"] pos
    by (simp add: less_imp_neq [symmetric] order_less_imp_not_eq2)
qed

lemma mlpg_column_minimises:
  assumes "input_ok pst m" "gv_length pst = 0"
  shows "objective pst m (\<lambda>t. par (mlpg_column m pst) t m) \<le> objective pst m c"
proof -
  let ?x = "\<lambda>t. par (mlpg_column m pst) t m"
  let ?a = "\<lambda>p. sm_ivar pst (snd p) (feature pst m (fst p))"
  let ?mu = "\<lambda>p. sm_mean pst (snd p) (feature pst m (fst p))"
  let ?W = "\<lambda>p. Wm pst (fst p) (snd p)"
  have win: "windows_ok pst" using assms(1) by (simp add: input_ok_def)
  have "(\<Sum>p \<in> rows pst. ?W p t * ?a p * ((\<Sum>s<plength pst. ?W p s * ?x s) - ?mu p)) = 0"
    if t: "t < plength pst" for t
  proof -
    have "(\<Sum>p \<in> rows pst. ?W p t * ?a p * (\<Sum>s<plength pst. ?W p s * ?x s)) =
        (\<Sum>p \<in> rows pst. \<Sum>s<plength pst. ?W p t * ?a p * ?W p s * ?x s)"
      by (simp add: sum_distrib_left mult.assoc)
    also have "\<dots> = (\<Sum>s<plength pst. (\<Sum>p \<in> rows pst. ?W p t * ?a p * ?W p s) * ?x s)"
      by (subst sum.swap) (simp add: sum_distrib_right)
    also have "\<dots> = (\<Sum>s<plength pst. band (pwidth pst) (sm_wuw (calc_wuw_and_wum m pst)) t s * ?x s)"
      using calc_system(2) [OF win t] by (simp add: case_prod_beta)
    also have "\<dots> = (\<Sum>p \<in> rows pst. ?W p t * ?a p * ?mu p)"
      using mlpg_column_solves [OF assms t] calc_system(1) [OF win t t] by (simp add: case_prod_beta)
    finally show ?thesis by (simp add: right_diff_distrib sum_subtractf)
  qed
  moreover have "0 \<le> ?a p" if "p \<in> rows pst" for p using that assms(1) by (auto simp: rows_def input_ok_def)
  ultimately show ?thesis
    using normal_equations_minimise [of "rows pst" ?a "plength pst" ?W ?x ?mu c]
    by (simp add: objective_def case_prod_beta)
qed

section \<open>Lemmas: all columns\<close>

text \<open>A column changes the work space and its own column of the result.\<close>

definition same_input :: "PStream \<Rightarrow> PStream \<Rightarrow> bool" where
  "same_input pst pst' \<longleftrightarrow> (\<exists>wum wuw g p. pst' = pst\<lparr>sm_wum := wum, sm_wuw := wuw, sm_g := g, par := p\<rparr>)"

lemma same_input_refl [simp]: "same_input pst pst"
  unfolding same_input_def
  by (rule exI [of _ "sm_wum pst"], rule exI [of _ "sm_wuw pst"], rule exI [of _ "sm_g pst"],
      rule exI [of _ "par pst"]) simp

lemma same_input_fields:
  assumes "same_input pst pst'"
  shows "plength pst' = plength pst" "gv_length pst' = gv_length pst" "static_length pst' = static_length pst"
    and "input_ok pst' m = input_ok pst m" "objective pst' m = objective pst m"
  using assms
  by (auto simp: same_input_def input_ok_def windows_ok_def feature_def objective_def fun_eq_iff rows_def Wm_def
      cong: if_cong)

lemma mlpg_column_frame:
  assumes "gv_length pst = 0"
  shows "same_input pst (mlpg_column m pst)" and "k \<noteq> m \<Longrightarrow> par (mlpg_column m pst) t k = par pst t k"
proof -
  obtain wum wuw g where eq: "mlpg_column m pst = pst\<lparr>sm_wum := wum, sm_wuw := wuw, sm_g := g,
      par := fold (backward_step (pwidth pst) (plength pst) wuw g m) (rev [0..<plength pst]) (par pst)\<rparr>"
    using mlpg_column_eq [OF assms, of m] by blast
  then show "same_input pst (mlpg_column m pst)" unfolding same_input_def by blast
  show "k \<noteq> m \<Longrightarrow> par (mlpg_column m pst) t k = par pst t k"
    unfolding eq by (simp add: backward_other)
qed

lemma same_input_trans: "same_input p q \<Longrightarrow> same_input q r \<Longrightarrow> same_input p r"
  unfolding same_input_def by clarify (simp, blast)

lemma mlpg_columns:
  assumes "gv_length pst = 0"
  shows "same_input pst (fold mlpg_column [0..<n] pst) \<and>
    (m < n \<longrightarrow> (\<exists>q. same_input pst q \<and>
      (\<forall>t. par (fold mlpg_column [0..<n] pst) t m = par (mlpg_column m q) t m)))"
proof (induction n)
  case (Suc n)
  let ?q = "fold mlpg_column [0..<n] pst"
  have gv: "gv_length ?q = 0" using Suc assms same_input_fields(2) by metis
  have "same_input pst (mlpg_column n ?q)"
    using Suc mlpg_column_frame(1) [OF gv] same_input_trans by blast
  moreover have "\<exists>q. same_input pst q \<and> (\<forall>t. par (mlpg_column n ?q) t m = par (mlpg_column m q) t m)"
    if "m < Suc n"
  proof (cases "m = n")
    case False
    with that Suc obtain q where "same_input pst q" "\<forall>t. par ?q t m = par (mlpg_column m q) t m" by auto
    with mlpg_column_frame(2) [OF gv False] show ?thesis by auto
  qed (use Suc in blast)
  ultimately show ?case by simp
qed simp

lemma mlpg_minimises:
  assumes "gv_length pst = 0" "m < static_length pst" "input_ok pst m"
  shows "objective pst m (\<lambda>t. par (HTS_PStream_mlpg pst) t m) \<le> objective pst m c"
proof (cases "plength pst = 0")
  case True
  then show ?thesis by (simp add: objective_def rows_def)
next
  case False
  obtain q where q: "same_input pst q"
    "\<And>t. par (fold mlpg_column [0..<static_length pst] pst) t m = par (mlpg_column m q) t m"
    using mlpg_columns [OF assms(1), of "static_length pst" m] assms(2) by blast
  note f = same_input_fields [OF q(1)]
  show ?thesis
    using mlpg_column_minimises [of q m c] f assms False q(2) by (simp add: HTS_PStream_mlpg_def)
qed

section \<open>Lemmas: global variance\<close>

lemma fold_sum_if:
  "fold (\<lambda>t s. if P t then s + f t else s) [0..<n] a = a + (\<Sum>t<n. if P t then f t else 0 :: real)"
  by (induction n) auto

lemma conv_fold:
  "fold (\<lambda>t p. if P t then p(t := (p t)(m := h (p t m))) else p) [0..<n] p t =
   (if t < n \<and> P t then (p t)(m := h (p t m)) else p t)"
  by (induction n) auto

text \<open>
  With every frame switched on, the scaling gives the column the mean it had and the global
  variance of the voice.
\<close>

lemma conv_gv_variance:
  assumes "0 < plength pst" "gv_length pst = plength pst" "\<And>t. t < plength pst \<Longrightarrow> gv_switch pst t"
    and "calc_gv pst m = (mean, vari)" "0 < vari" "0 \<le> gv_mean pst m"
  shows "calc_gv (conv_gv m pst) m = (mean, gv_mean pst m)"
proof -
  let ?n = "plength pst"
  define r where "r = sqrt (gv_mean pst m / vari)"
  define x where "x t = par pst t m" for t
  have mean: "mean = (\<Sum>t<?n. x t) / real ?n" and vari: "vari = (\<Sum>t<?n. (x t - mean) * (x t - mean)) / real ?n"
    using assms(2-4) by (auto simp: calc_gv_def fold_sum_if Let_def x_def)
  have y: "par (conv_gv m pst) t m = r * (x t - mean) + mean" if "t < ?n" for t
    using that assms(3,4)
    by (simp add: conv_gv_def Let_def r_def x_def
        conv_fold [where h = "\<lambda>y. sqrt (gv_mean pst m / vari) * (y - mean) + mean"])
  have zero: "(\<Sum>t<?n. x t - mean) = 0"
    using assms(1) mean by (simp add: sum_subtractf)
  have "(\<Sum>t<?n. r * (x t - mean) + mean) = real ?n * mean"
    using zero by (simp add: sum.distrib flip: sum_distrib_left)
  then have m': "(\<Sum>t<?n. r * (x t - mean) + mean) / real ?n = mean" using assms(1) by simp
  have "(\<Sum>t<?n. (r * (x t - mean)) * (r * (x t - mean))) / real ?n = r * r * vari"
    unfolding vari by (simp add: sum_distrib_left mult.assoc mult.left_commute)
  also have "\<dots> = gv_mean pst m" using assms(5,6) by (simp add: r_def)
  finally have v': "(\<Sum>t<?n. (r * (x t - mean)) * (r * (x t - mean))) / real ?n = gv_mean pst m" .
  have fields: "plength (conv_gv m pst) = ?n" "gv_length (conv_gv m pst) = ?n" "gv_switch (conv_gv m pst) = gv_switch pst"
    using assms(2) by (auto simp: conv_gv_def case_prod_beta Let_def)
  have s1: "(\<Sum>t<?n. if gv_switch pst t then par (conv_gv m pst) t m else 0) = (\<Sum>t<?n. r * (x t - mean) + mean)"
    using assms(3) y by (intro sum.cong) auto
  have s2: "(\<Sum>t<?n. if gv_switch pst t then (par (conv_gv m pst) t m - mean) * (par (conv_gv m pst) t m - mean) else 0) =
      (\<Sum>t<?n. (r * (x t - mean)) * (r * (x t - mean)))"
    using assms(3) y by (intro sum.cong) auto
  show ?thesis
    unfolding calc_gv_def fold_sum_if Let_def fields by (simp only: add_0 s1 m' s2 v')
qed

section \<open>Properties\<close>

text \<open>
  C2. Without global variance, \<open>HTS_PStream_mlpg\<close> computes for every coefficient the trajectory
  of maximum likelihood: no other trajectory has a smaller weighted squared distance between its
  features, through all windows, and the means.
\<close>

theorem mlpg_optimal:
  assumes "gv_length pst = 0" "m < static_length pst" "input_ok pst m"
  shows "\<forall>c. objective pst m (\<lambda>t. par (HTS_PStream_mlpg pst) t m) \<le> objective pst m c"
  using mlpg_minimises [OF assms] by blast

definition two_frames :: PStream where
  "two_frames = \<lparr>plength = 2, pwidth = 1, win_size = 1, win_l_width = (\<lambda>i. 0), win_r_width = (\<lambda>i. 0),
     win_coefficient = (\<lambda>i j. 1), static_length = 1, sm_mean = (\<lambda>t i. real t), sm_ivar = (\<lambda>t i. 2),
     sm_wum = (\<lambda>t. 0), sm_wuw = (\<lambda>t i. 0), sm_g = (\<lambda>t. 0), par = (\<lambda>t i. real t), gv_mean = (\<lambda>i. 4), gv_vari = (\<lambda>i. 1),
     gv_switch = (\<lambda>t. True), gv_length = 0\<rparr>"

theorem mlpg_optimal_witness:
  "objective two_frames 0 (\<lambda>t. par (HTS_PStream_mlpg two_frames) t 0) \<le> objective two_frames 0 (\<lambda>t. 5)"
  using mlpg_optimal [of two_frames 0] by (simp add: two_frames_def input_ok_def windows_ok_def)

text \<open>
  Factorisation, forward and backward substitution solve the symmetric banded system: when
  no pivot is zero, the column \<open>m\<close> of the result times the matrix \<open>wuw\<close> is \<open>wum\<close>.
\<close>

theorem substitution_solves:
  assumes "0 < pwidth pst" "\<forall>t < plength pst. sm_wuw (ldl_factorization pst) t 0 \<noteq> 0"
  shows "\<forall>t < plength pst. (\<Sum>s<plength pst. band (pwidth pst) (sm_wuw pst) t s *
      par (backward_substitution m (forward_substitution (ldl_factorization pst))) s m) = sm_wum pst t"
proof (intro allI impI)
  fix t assume t: "t < plength pst"
  have nz: "ldl (pwidth pst) (sm_wuw pst) (plength pst) r 0 \<noteq> 0" if "r < plength pst" for r
    using assms(2) that by (simp add: ldl_factorization_def ldl_def)
  show "(\<Sum>s<plength pst. band (pwidth pst) (sm_wuw pst) t s *
      par (backward_substitution m (forward_substitution (ldl_factorization pst))) s m) = sm_wum pst t"
    using solve_ok [OF t assms(1) nz, of "sm_wum pst" "sm_g pst" m "par pst"]
    by (simp add: backward_substitution_def forward_substitution_def ldl_factorization_def ldl_def)
qed

theorem substitution_solves_witness:
  "par (backward_substitution 0 (forward_substitution (ldl_factorization
     (two_frames\<lparr>plength := 1, sm_wuw := \<lambda>t i. 4, sm_wum := \<lambda>t. 8\<rparr>)))) 0 0 = 2"
  using substitution_solves [of "two_frames\<lparr>plength := 1, sm_wuw := \<lambda>t i. 4, sm_wum := \<lambda>t. 8\<rparr>" 0]
  by (simp add: two_frames_def ldl_factorization_def ldl_step_def ldl_diag_def band_def)

text \<open>
  When every frame counts for the global variance, \<open>HTS_PStream_conv_gv\<close> keeps the mean of a
  trajectory and gives it exactly the variance that the global variance model asks for.
\<close>

theorem conv_gv_sets_variance:
  assumes "0 < plength pst" "gv_length pst = plength pst" "\<forall>t < plength pst. gv_switch pst t"
    and "calc_gv pst m = (mean, vari)" "0 < vari" "0 \<le> gv_mean pst m"
  shows "calc_gv (conv_gv m pst) m = (mean, gv_mean pst m)"
  using assms by (intro conv_gv_variance) auto

theorem conv_gv_sets_variance_witness:
  "calc_gv (conv_gv 0 (two_frames\<lparr>gv_length := 2\<rparr>)) 0 = (1 / 2, 4)"
  using conv_gv_sets_variance [of "two_frames\<lparr>gv_length := 2\<rparr>" 0 "1 / 2" "1 / 4"]
  by (simp add: two_frames_def calc_gv_def eval_nat_numeral)

end
