(* ===== verification/Vocoder.thy ===== *)
theory Vocoder
  imports Constants
begin

text \<open>
  \<open>MAGE::Vocoder\<close> (\<open>mage/src/Vocoder.cpp\<close>, \<open>Vocoder.h\<close>) and \<open>MathFunctions.cpp\<close>: the source
  and filter synthesiser that turns a frame of parameters into samples.

  Doubles are real numbers. The one array \<open>c\<close> that the constructor allocates is the field
  \<open>vc\<close>; the pointers \<open>cc\<close>, \<open>inc\<close> and \<open>d\<close> into it are the offsets \<open>m + 1\<close>, \<open>2 (m + 1)\<close> and
  \<open>3 (m + 1)\<close>, and a pointer argument of a filter function is an offset. \<open>None\<close> is undefined
  behaviour: an access outside an array, the use of a member that was never assigned, an \<open>int\<close>
  that overflows, and an operation whose double result is not a finite number. The period of
  pitch 0 is infinite and is the value \<open>None\<close> of \<open>vt0\<close>. The value of \<open>rand()\<close> is an argument.
\<close>

section \<open>\<open>MathFunctions.cpp\<close>\<close>

definition Random :: "nat \<Rightarrow> nat \<Rightarrow> real \<Rightarrow> real \<Rightarrow> real" where
  "Random RAND_MAX rand x y =
     (if x = y then x
      else let high = max x y; low = min x y
           in low + (high - low) * real rand / (real RAND_MAX + 1))"

fun Energy :: "real list \<Rightarrow> nat \<Rightarrow> real option" where
  "Energy x 0 = Some 0"
| "Energy x (Suc k) = do { s \<leftarrow> Energy x k; v \<leftarrow> arr_get x k; Some (s + v * v) }"

lemma Random_range:
  "rand \<le> RAND_MAX \<Longrightarrow> x < y \<Longrightarrow> x \<le> Random RAND_MAX rand x y \<and> Random RAND_MAX rand x y < y"
proof -
  assume r: "rand \<le> RAND_MAX" and xy: "x < y"
  let ?q = "real rand / (real RAND_MAX + 1)"
  have q: "0 \<le> ?q" "?q < 1" using r by simp_all
  have "(y - x) * ?q < (y - x) * 1" using xy q(2) by (intro mult_strict_left_mono) simp_all
  moreover have "0 \<le> (y - x) * ?q" using xy q(1) by simp
  ultimately show ?thesis using xy by (simp add: Random_def max_def min_def)
qed

section \<open>State\<close>

record Vocoder =
  valpha :: real
  vgamma :: "real option"
  vaction :: int
  vvoiced :: bool
  vf0 :: real
  vt0 :: "real option"
  vvolume :: real
  vc :: "real list"
  vm :: int
  vfprd :: int
  viprd :: int
  vstage :: int
  vpd :: int
  vcsize :: int
  vngain :: bool
  flagFirstPush :: bool
  vcount :: int
  actionValue :: "real option"
  nOfPopSinceLastPush :: int
  padesptk :: "real list"

definition period :: "real \<Rightarrow> real option" where
  "period f0 = (if f0 = 0 then None else Some (real_of_int defaultSamplingRate / f0))"

definition lpadesptk :: "real list" where
  "lpadesptk =
     [1,
      1, 0, 1, 0,
      0, 1, 0, 0,
      0, 1, 4999273 / 10 ^ 7, 1067005 / 10 ^ 7,
      1170221 / 10 ^ 8, 5656279 / 10 ^ 10, 1, 4999391 / 10 ^ 7,
      1107098 / 10 ^ 7, 1369984 / 10 ^ 8, 9564853 / 10 ^ 10, 3041721 / 10 ^ 11]"

definition buffer_size :: "int \<Rightarrow> int \<Rightarrow> int \<Rightarrow> int" where
  "buffer_size m stage pd =
     (if stage \<noteq> 0 then m + m + m + 3 + (m + 1) * stage
      else 3 * (m + 1) + 3 * (pd + 1) + pd * (m + 2))"

definition Vocoder_new :: "int \<Rightarrow> real \<Rightarrow> int \<Rightarrow> int \<Rightarrow> int \<Rightarrow> int \<Rightarrow> bool \<Rightarrow> Vocoder" where
  "Vocoder_new am aalpha afprd aiprd astage apd angain =
     \<lparr>valpha = aalpha,
      vgamma = (if astage \<noteq> 0 then Some (-1 / real_of_int astage) else None),
      vaction = noaction, vvoiced = False,
      vf0 = real_of_int defaultPitch, vt0 = period (real_of_int defaultPitch), vvolume = 1,
      vc = replicate (nat (buffer_size am astage apd)) 0,
      vm = am, vfprd = afprd, viprd = aiprd, vstage = astage, vpd = apd,
      vcsize = buffer_size am astage apd, vngain = angain, flagFirstPush = True, vcount = 0,
      actionValue = None, nOfPopSinceLastPush = 0, padesptk = lpadesptk\<rparr>"

text \<open>The default arguments of the constructor.\<close>

definition default_vocoder :: Vocoder where
  "default_vocoder =
     Vocoder_new (int nOfMGCs - 1) defaultAlpha defaultFrameRate defaultInterpFrameRate
       defaultGamma defaultPadeOrder False"

section \<open>Accessors\<close>

definition getGamma :: "Vocoder \<Rightarrow> real \<times> Vocoder" where
  "getGamma v = (real_of_int (vstage v), v\<lparr>vgamma := Some (real_of_int (vstage v))\<rparr>)"

definition setAlpha :: "real \<Rightarrow> Vocoder \<Rightarrow> Vocoder" where
  "setAlpha a v = v\<lparr>valpha := a\<rparr>"

definition setGamma :: "real \<Rightarrow> Vocoder \<Rightarrow> Vocoder option" where
  "setGamma g v = do { s \<leftarrow> to_int g; Some (v\<lparr>vstage := s\<rparr>) }"

definition setVolume :: "real \<Rightarrow> Vocoder \<Rightarrow> Vocoder" where
  "setVolume x v = v\<lparr>vvolume := x\<rparr>"

definition setPadeOrder :: "real \<Rightarrow> Vocoder \<Rightarrow> Vocoder option" where
  "setPadeOrder x v = do { p \<leftarrow> to_int x; Some (v\<lparr>vpd := p\<rparr>) }"

definition setVoiced :: "bool \<Rightarrow> Vocoder \<Rightarrow> Vocoder" where
  "setVoiced b v = v\<lparr>vvoiced := b\<rparr>"

definition vready :: "Vocoder \<Rightarrow> bool" where
  "vready v = (\<not> flagFirstPush v)"

definition setPitch :: "real \<Rightarrow> int \<Rightarrow> bool \<Rightarrow> Vocoder \<Rightarrow> Vocoder" where
  "setPitch pitch act forceVoiced v =
     (let f0 = (if act = overwrite then pitch
                else if act = shift then vf0 v + pitch
                else if act = scale then vf0 v * pitch
                else if act = synthetic \<or> act = noaction then vf0 v
                else pitch);
          f0 = (if f0 < 0 then real_of_int defaultPitch else f0);
          v = v\<lparr>vf0 := f0, vaction := act, actionValue := Some pitch, vt0 := period f0\<rparr>
      in if forceVoiced then v\<lparr>vvoiced := True\<rparr> else v)"

definition vreset :: "Vocoder \<Rightarrow> Vocoder" where
  "vreset v =
     v\<lparr>vc := replicate (nat (vcsize v)) 0 @ drop (nat (vcsize v)) (vc v),
       vf0 := real_of_int defaultPitch, vt0 := period (real_of_int defaultPitch),
       vaction := noaction, valpha := defaultAlpha, vgamma := Some (real_of_int defaultGamma),
       vstage := defaultGamma, vpd := defaultPadeOrder, vvolume := real_of_int defaultVolume,
       flagFirstPush := True\<rparr>"

section \<open>Excitation\<close>

definition excite :: "real \<Rightarrow> Vocoder \<Rightarrow> (real \<times> Vocoder) option" where
  "excite noise v =
     (if vvoiced v
      then (if vcount v \<le> 0
            then do { t \<leftarrow> vt0 v; k \<leftarrow> to_int t; Some (sqrt t, v\<lparr>vcount := k\<rparr>) }
            else Some (0, v\<lparr>vcount := vcount v - 1\<rparr>))
      else Some (noise, v\<lparr>vcount := 0\<rparr>))"

section \<open>The functions of SPTK\<close>

text \<open>
  \<open>movem a b nitem\<close> copies upwards or downwards, whichever is right when the two overlap (items
  instead of bytes, which the sizes of the items make the same).
\<close>

definition copy_item :: "int \<Rightarrow> int \<Rightarrow> real list \<Rightarrow> int \<Rightarrow> real list option" where
  "copy_item a b mem i = do { v \<leftarrow> get_at mem (a + i); set_at mem (b + i) v }"

definition movem :: "int \<Rightarrow> int \<Rightarrow> int \<Rightarrow> real list \<Rightarrow> real list option" where
  "movem a b nitem mem =
     (if a > b then foldM (copy_item a b) mem [0..nitem - 1]
      else foldM (copy_item a b) mem (rev [0..nitem - 1]))"

definition mc2b :: "real list \<Rightarrow> int \<Rightarrow> int \<Rightarrow> real \<Rightarrow> real list \<Rightarrow> real list option" where
  "mc2b mc b m a mem = do {
     v \<leftarrow> get_at mc m;
     mem \<leftarrow> set_at mem (b + m) v;
     foldM (\<lambda>mem i. do { v \<leftarrow> get_at mc i; w \<leftarrow> get_at mem (b + i + 1); set_at mem (b + i) (v - a * w) })
       mem (rev [0..m - 1]) }"

definition gnorm :: "int \<Rightarrow> int \<Rightarrow> int \<Rightarrow> real \<Rightarrow> real list \<Rightarrow> real list option" where
  "gnorm c1 c2 m g mem =
     (if g \<noteq> 0 then do {
        v \<leftarrow> get_at mem c1;
        let k = 1 + g * v;
        mem \<leftarrow> foldM (\<lambda>mem i. do { w \<leftarrow> get_at mem (c1 + i);
                  if k = 0 then None else set_at mem (c2 + i) (w / k) }) mem (rev [1..m]);
        if k \<le> 0 then None else set_at mem c2 (k powr (1 / g)) }
      else do {
        mem \<leftarrow> movem (c1 + 1) (c2 + 1) m mem;
        v \<leftarrow> get_at mem c1;
        set_at mem c2 (exp v) })"

text \<open>
  The bodies of the loops that the two filters share: an accumulation over the delay line at
  \<open>d\<close> with coefficients from \<open>b\<close>, and the shift of the delay line by one item.
\<close>

definition fir_step :: "real \<Rightarrow> int \<Rightarrow> int \<Rightarrow> real \<times> real list \<Rightarrow> int \<Rightarrow> (real \<times> real list) option" where
  "fir_step a b d = (\<lambda>(y, mem) i. do {
     di \<leftarrow> get_at mem (d + i); dn \<leftarrow> get_at mem (d + i + 1); dp \<leftarrow> get_at mem (d + i - 1);
     mem \<leftarrow> set_at mem (d + i) (di + a * (dn - dp));
     bi \<leftarrow> get_at mem (b + i);
     Some (y + (di + a * (dn - dp)) * bi, mem) })"

definition shift_step :: "int \<Rightarrow> real list \<Rightarrow> int \<Rightarrow> real list option" where
  "shift_step d mem i = do { v \<leftarrow> get_at mem (d + i - 1); set_at mem (d + i) v }"

definition mglsadff :: "real \<Rightarrow> int \<Rightarrow> int \<Rightarrow> real \<Rightarrow> int \<Rightarrow> real list \<Rightarrow> (real \<times> real list) option" where
  "mglsadff x b m a d mem = do {
     d0 \<leftarrow> get_at mem d;
     b1 \<leftarrow> get_at mem (b + 1);
     (y, mem) \<leftarrow> foldM (fir_step a (b + 1) d) (d0 * b1, mem) [1..m - 1];
     let x = x - y;
     mem \<leftarrow> foldM (shift_step d) mem (rev [1..m]);
     d0 \<leftarrow> get_at mem d;
     mem \<leftarrow> set_at mem d (a * d0 + (1 - a * a) * x);
     Some (x, mem) }"

definition mglsadf :: "real \<Rightarrow> int \<Rightarrow> int \<Rightarrow> real \<Rightarrow> int \<Rightarrow> int \<Rightarrow> real list \<Rightarrow> (real \<times> real list) option" where
  "mglsadf x b m a n d mem =
     foldM (\<lambda>(x, mem) i. mglsadff x b m a (d + i * (m + 1)) mem) (x, mem) [0..n - 1]"

definition mlsafir :: "real \<Rightarrow> int \<Rightarrow> int \<Rightarrow> real \<Rightarrow> int \<Rightarrow> real list \<Rightarrow> (real \<times> real list) option" where
  "mlsafir x b m a d mem = do {
     mem \<leftarrow> set_at mem d x;
     d0 \<leftarrow> get_at mem d;
     d1 \<leftarrow> get_at mem (d + 1);
     mem \<leftarrow> set_at mem (d + 1) ((1 - a * a) * d0 + a * d1);
     (y, mem) \<leftarrow> foldM (fir_step a b d) (0, mem) [2..m];
     mem \<leftarrow> foldM (shift_step d) mem (rev [2..m + 1]);
     Some (y, mem) }"

definition mlsadf1_step :: "real list \<Rightarrow> int \<Rightarrow> int \<Rightarrow> real \<Rightarrow> int \<Rightarrow> int \<Rightarrow> real \<times> real \<times> real list \<Rightarrow> int \<Rightarrow>
    (real \<times> real \<times> real list) option" where
  "mlsadf1_step pade pp b a pd d = (\<lambda>(x, out, mem) i. do {
     let pt = d + (pd + 1);
     p \<leftarrow> get_at mem (pt + i - 1); di \<leftarrow> get_at mem (d + i);
     mem \<leftarrow> set_at mem (d + i) ((1 - a * a) * p + a * di);
     di \<leftarrow> get_at mem (d + i); b1 \<leftarrow> get_at mem (b + 1);
     mem \<leftarrow> set_at mem (pt + i) (di * b1);
     q \<leftarrow> get_at pade (pp + i);
     let v = di * b1 * q;
     Some (x + (if odd i then v else - v), out + v, mem) })"

definition mlsadf1 :: "real list \<Rightarrow> int \<Rightarrow> real \<Rightarrow> int \<Rightarrow> int \<Rightarrow> real \<Rightarrow> int \<Rightarrow> int \<Rightarrow> real list \<Rightarrow>
    (real \<times> real list) option" where
  "mlsadf1 pade pp x b m a pd d mem = do {
     (x, out, mem) \<leftarrow> foldM (mlsadf1_step pade pp b a pd d) (x, 0, mem) (rev [1..pd]);
     mem \<leftarrow> set_at mem (d + (pd + 1)) x;
     Some (out + x, mem) }"

definition mlsadf2_step :: "real list \<Rightarrow> int \<Rightarrow> int \<Rightarrow> int \<Rightarrow> real \<Rightarrow> int \<Rightarrow> int \<Rightarrow> real \<times> real \<times> real list \<Rightarrow> int \<Rightarrow>
    (real \<times> real \<times> real list) option" where
  "mlsadf2_step pade pp b m a pd d = (\<lambda>(x, out, mem) i. do {
     let pt = d + pd * (m + 2);
     p \<leftarrow> get_at mem (pt + i - 1);
     (y, mem) \<leftarrow> mlsafir p b m a (d + (i - 1) * (m + 2)) mem;
     mem \<leftarrow> set_at mem (pt + i) y;
     q \<leftarrow> get_at pade (pp + i);
     let v = y * q;
     Some (x + (if odd i then v else - v), out + v, mem) })"

definition mlsadf2 :: "real list \<Rightarrow> int \<Rightarrow> real \<Rightarrow> int \<Rightarrow> int \<Rightarrow> real \<Rightarrow> int \<Rightarrow> int \<Rightarrow> real list \<Rightarrow>
    (real \<times> real list) option" where
  "mlsadf2 pade pp x b m a pd d mem = do {
     (x, out, mem) \<leftarrow> foldM (mlsadf2_step pade pp b m a pd d) (x, 0, mem) (rev [1..pd]);
     mem \<leftarrow> set_at mem (d + pd * (m + 2)) x;
     Some (out + x, mem) }"

definition mlsadf :: "real list \<Rightarrow> real \<Rightarrow> int \<Rightarrow> int \<Rightarrow> real \<Rightarrow> int \<Rightarrow> int \<Rightarrow> real list \<Rightarrow>
    (real \<times> real list) option" where
  "mlsadf pade x b m a pd d mem = do {
     let pp = c_quot (pd * (pd + 1)) 2;
     (x, mem) \<leftarrow> mlsadf1 pade pp x b m a pd d mem;
     mlsadf2 pade pp x b m a pd (d + 2 * (pd + 1)) mem }"

section \<open>Frames and samples\<close>

record Frame =
  fstreams :: "real list list"
  fvoiced :: bool

text \<open>\<open>gnorm\<close>, the logarithm of the gain and the scaling by \<open>gamma\<close>, for the filter at offset \<open>p\<close>.\<close>

definition mgc_gain :: "int \<Rightarrow> Vocoder \<Rightarrow> real list \<Rightarrow> real list option" where
  "mgc_gain p v mem =
     (if vstage v \<noteq> 0 then do {
        g \<leftarrow> vgamma v;
        mem \<leftarrow> gnorm p p (vm v) g mem;
        k \<leftarrow> get_at mem p;
        mem \<leftarrow> (if 0 < k then set_at mem p (ln k) else None);
        foldM (\<lambda>mem i. do { x \<leftarrow> get_at mem (p + i); set_at mem (p + i) (x * g) }) mem [1..vm v] }
      else Some mem)"

definition set_increments :: "Vocoder \<Rightarrow> real list \<Rightarrow> real list option" where
  "set_increments v mem =
     foldM (\<lambda>mem i. do {
         x \<leftarrow> get_at mem (vm v + 1 + i); y \<leftarrow> get_at mem i;
         if vfprd v = 0 then None
         else set_at mem (2 * (vm v + 1) + i) ((x - y) * real_of_int (viprd v) / real_of_int (vfprd v)) })
       mem [0..vm v]"

definition frame_pitch :: "Vocoder \<Rightarrow> real \<Rightarrow> real option" where
  "frame_pitch v lf0 =
     (if vaction v = overwrite then actionValue v
      else if vaction v = shift then do { x \<leftarrow> actionValue v; Some (lf0 + x) }
      else if vaction v = scale then do { x \<leftarrow> actionValue v; Some (lf0 * x) }
      else Some lf0)"

definition prepare :: "real list list \<Rightarrow> bool \<Rightarrow> bool \<Rightarrow> Vocoder \<Rightarrow> Vocoder option" where
  "prepare frame voiced ignoreVoicing v = do {
     mgc \<leftarrow> arr_get frame mgcStreamIndex;
     mem \<leftarrow> (if \<not> flagFirstPush v then do {
               mem \<leftarrow> movem (vm v + 1) 0 (vm v + 1) (vc v);
               mem \<leftarrow> mc2b mgc (vm v + 1) (vm v) (valpha v) mem;
               mgc_gain (vm v + 1) v mem }
             else do {
               mem \<leftarrow> mc2b mgc 0 (vm v) (valpha v) (vc v);
               mem \<leftarrow> mgc_gain 0 v mem;
               foldM (copy_item 0 (vm v + 1)) mem [0..vm v] });
     mem \<leftarrow> set_increments v mem;
     lf0s \<leftarrow> arr_get frame lf0StreamIndex;
     lf0 \<leftarrow> arr_get lf0s 0;
     f0 \<leftarrow> frame_pitch v lf0;
     let f0 = (if f0 < 0 then real_of_int defaultPitch else f0);
     Some (v\<lparr>vc := mem, flagFirstPush := False, vf0 := f0, vt0 := period f0,
             vvoiced := (if ignoreVoicing then vvoiced v else voiced), nOfPopSinceLastPush := 0\<rparr>) }"

definition push_frame :: "Frame \<Rightarrow> bool \<Rightarrow> Vocoder \<Rightarrow> Vocoder option" where
  "push_frame frame ignoreVoicing v = prepare (fstreams frame) (fvoiced frame) ignoreVoicing v"

definition interpolate :: "Vocoder \<Rightarrow> real list \<Rightarrow> real list option" where
  "interpolate v mem =
     (if viprd v = 0 then None
      else if nOfPopSinceLastPush v < c_quot (vfprd v) (viprd v)
      then foldM (\<lambda>mem i. do { x \<leftarrow> get_at mem i; dx \<leftarrow> get_at mem (2 * (vm v + 1) + i);
                    set_at mem i (x + dx) }) mem [0..vm v]
      else Some mem)"

text \<open>The gain and the filter of \<open>pop\<close>.\<close>

definition apply_gain :: "Vocoder \<Rightarrow> real \<Rightarrow> real \<Rightarrow> real" where
  "apply_gain v c0 x = (if \<not> vngain v then x * exp c0 else x * c0)"

definition apply_filter :: "Vocoder \<Rightarrow> real \<Rightarrow> (real \<times> real list) option" where
  "apply_filter v x =
     (if vstage v \<noteq> 0
      then mglsadf x 0 (vm v) (valpha v) (vstage v) (3 * (vm v + 1)) (vc v)
      else mlsadf (padesptk v) x 0 (vm v) (valpha v) (vpd v) (3 * (vm v + 1)) (vc v))"

definition vpop :: "real \<Rightarrow> Vocoder \<Rightarrow> (real \<times> Vocoder) option" where
  "vpop noise v = do {
     (x, v) \<leftarrow> excite noise v;
     c0 \<leftarrow> get_at (vc v) 0;
     (x, mem) \<leftarrow> apply_filter v (apply_gain v c0 x);
     mem \<leftarrow> interpolate v mem;
     k \<leftarrow> c_int (nOfPopSinceLastPush v + 1);
     Some (if vvolume v \<ge> 0 then vvolume v * x else x, v\<lparr>vc := mem, nOfPopSinceLastPush := k\<rparr>) }"

section \<open>Lemmas: the filters stay in the buffer and keep the coefficients\<close>

lemma keeps_get: "keeps k mem mem' \<Longrightarrow> 0 \<le> i \<Longrightarrow> i < int (length mem) \<Longrightarrow> \<exists>x. get_at mem' i = Some x"
  by (simp add: keeps_length)

lemma keeps_set:
  "keeps k mem mem' \<Longrightarrow> k \<le> i \<Longrightarrow> 0 \<le> i \<Longrightarrow> i < int (length mem) \<Longrightarrow>
   \<exists>mem''. set_at mem' i x = Some mem'' \<and> keeps k mem mem''"
  by (simp add: keeps_length keeps_update)

lemma shift_line_ok:
  assumes "keeps k mem mem'" "k \<le> d" "0 \<le> d" "d + hi < int (length mem)" "1 \<le> lo"
  shows "\<exists>mem''. foldM (shift_step d) mem' (rev [lo..hi]) = Some mem'' \<and> keeps k mem mem''"
proof (rule foldM_inv [where P = "keeps k mem"])
  fix s i assume "i \<in> set (rev [lo..hi])" and s: "keeps k mem s"
  then have i: "lo \<le> i" "i \<le> hi" by auto
  show "\<exists>s'. shift_step d s i = Some s' \<and> keeps k mem s'"
    using keeps_get [OF s, of "d + i - 1"] keeps_set [OF s, of "d + i"] assms i
    by (auto simp: shift_step_def)
qed (rule assms(1))

lemma fir_loop_ok:
  assumes "keeps k mem mem'" "k \<le> d" "0 \<le> d" "d + hi < int (length mem)" "1 \<le> lo"
    and "0 \<le> b" "b + hi \<le> int (length mem)"
  shows "\<exists>y mem''. foldM (fir_step a b d) (y0, mem') [lo..hi - 1] = Some (y, mem'') \<and> keeps k mem mem''"
proof -
  have "\<exists>s'. foldM (fir_step a b d) (y0, mem') [lo..hi - 1] = Some s' \<and> (keeps k mem \<circ> snd) s'"
  proof (rule foldM_inv [where P = "keeps k mem \<circ> snd"])
    fix s :: "real \<times> real list" and i assume "i \<in> set [lo..hi - 1]" and s: "(keeps k mem \<circ> snd) s"
    then have i: "lo \<le> i" "i \<le> hi - 1" by auto
    obtain y m1 where s1: "s = (y, m1)" "keeps k mem m1" using s by (cases s) auto
    then have "length m1 = length mem" by (simp add: keeps_length)
    with i s1 assms show "\<exists>s'. fir_step a b d s i = Some s' \<and> (keeps k mem \<circ> snd) s'"
      by (auto simp: keeps_update fir_step_def)
  qed (simp add: assms(1))
  then show ?thesis by auto
qed

lemma mglsadff_ok:
  assumes "keeps k mem mem'" "k \<le> d" "0 \<le> d" "0 \<le> m" "d + m < int (length mem)" "0 \<le> b"
    and "b + m < int (length mem)" "b + 1 < int (length mem)"
  shows "\<exists>y mem''. mglsadff x b m a d mem' = Some (y, mem'') \<and> keeps k mem mem''"
proof -
  have len: "length mem' = length mem" using assms(1) by (rule keeps_length)
  obtain y m1 where m1: "foldM (fir_step a (b + 1) d) (mem' ! nat d * mem' ! nat (b + 1), mem') [1..m - 1] = Some (y, m1)"
      "keeps k mem m1"
    using fir_loop_ok [OF assms(1,2,3,5), of 1 "b + 1" a
        "mem' ! nat d * mem' ! nat (b + 1)"] assms by auto
  obtain m2 where m2: "foldM (shift_step d) m1 (rev [1..m])
    = Some m2" "keeps k mem m2"
    using shift_line_ok [OF m1(2) assms(2,3,5), of 1] by auto
  then have "length m2 = length mem" by (simp add: keeps_length)
  with m1 m2 len assms show ?thesis by (simp add: mglsadff_def keeps_update Let_def)
qed

lemma mglsadf_ok:
  assumes "keeps k mem mem'" "k \<le> d" "0 \<le> d" "0 \<le> m" "d + n * (m + 1) \<le> int (length mem)" "0 \<le> b"
    and "b + m < int (length mem)" "b + 1 < int (length mem)"
  shows "\<exists>y mem''. mglsadf x b m a n d mem' = Some (y, mem'') \<and> keeps k mem mem''"
proof -
  have "\<exists>s. mglsadf x b m a n d mem' = Some s \<and> (keeps k mem \<circ> snd) s"
    unfolding mglsadf_def
  proof (rule foldM_inv [where P = "keeps k mem \<circ> snd"])
    fix s :: "real \<times> real list" and i assume "i \<in> set [0..n - 1]" and s: "(keeps k mem \<circ> snd) s"
    then have i: "0 \<le> i" "i + 1 \<le> n" by auto
    have "(i + 1) * (m + 1) \<le> n * (m + 1)" using i assms(4) by (intro mult_right_mono) auto
    then have "d + i * (m + 1) + m < int (length mem)" using assms(5) by (simp add: algebra_simps)
    moreover have "0 \<le> i * (m + 1)" using i assms(4) by simp
    ultimately show "\<exists>s'. (case s of (x, mem) \<Rightarrow> \<lambda>i. mglsadff x b m a (d + i * (m + 1)) mem) i = Some s' \<and>
        (keeps k mem \<circ> snd) s'"
      using mglsadff_ok [of k mem "snd s" "d + i * (m + 1)" m b] s assms by (cases s) fastforce
  qed (simp add: assms(1))
  then show ?thesis by auto
qed

lemma mlsafir_ok:
  assumes "keeps k mem mem'" "k \<le> d" "0 \<le> d" "0 \<le> m" "d + m + 1 < int (length mem)" "0 \<le> b"
    and "b + m + 1 < int (length mem)"
  shows "\<exists>y mem''. mlsafir x b m a d mem' = Some (y, mem'') \<and> keeps k mem mem''"
proof -
  obtain m0 where m0: "set_at mem' d x = Some m0" "keeps k mem m0"
    using keeps_set [OF assms(1), of d] assms by auto
  define v where "v = (1 - a * a) * m0 ! nat d + a * m0 ! nat (d + 1)"
  obtain m1 where m1: "set_at m0 (d + 1) v = Some m1" "keeps k mem m1"
    using keeps_set [OF m0(2), of "d + 1"] assms by auto
  obtain y m2 where m2: "foldM (fir_step a b d) (0, m1) [2..m] = Some (y, m2)" "keeps k mem m2"
    using fir_loop_ok [OF m1(2) assms(2,3), of "m + 1" 2 b a 0] assms by auto
  obtain m3 where m3: "foldM (shift_step d) m2 (rev [2..m + 1])
    = Some m3" "keeps k mem m3"
    using shift_line_ok [OF m2(2) assms(2,3), of "m + 1" 2] assms(5) by auto
  have "get_at m0 d = Some (m0 ! nat d)" "get_at m0 (d + 1) = Some (m0 ! nat (d + 1))"
    using m0(2) assms by (auto simp: keeps_length)
  with m0 m1 m2 m3 show ?thesis by (simp add: mlsafir_def v_def)
qed

text \<open>The table of Pade coefficients has an entry for every order up to 5.\<close>

lemma pade_index:
  assumes "0 \<le> pd" "pd \<le> 5" "i \<in> set [1..pd]"
  shows "0 \<le> c_quot (pd * (pd + 1)) 2 + i" "c_quot (pd * (pd + 1)) 2 + i < 21"
proof -
  have "pd \<in> {0, 1, 2, 3, 4, 5}" using assms(1,2) by auto
  with assms(3) show "0 \<le> c_quot (pd * (pd + 1)) 2 + i" "c_quot (pd * (pd + 1)) 2 + i < 21"
    by auto
qed

lemma mlsadf1_ok:
  assumes "keeps k mem mem'" "k \<le> d" "0 \<le> d" "0 \<le> pd" "d + 2 * (pd + 1) \<le> int (length mem)"
    and "0 \<le> b" "b + 1 < int (length mem)"
    and pp: "\<And>i. i \<in> set [1..pd] \<Longrightarrow> 0 \<le> pp + i \<and> pp + i < int (length pade)"
  shows "\<exists>y mem''. mlsadf1 pade pp x b m a pd d mem' = Some (y, mem'') \<and> keeps k mem mem''"
proof -
  let ?P = "\<lambda>(x :: real, y :: real, m1). keeps k mem m1"
  have "\<exists>s. foldM (mlsadf1_step pade pp b a pd d) (x, 0, mem') (rev [1..pd]) = Some s \<and> ?P s"
  proof (rule foldM_inv [where P = ?P])
    fix s i assume i: "i \<in> set (rev [1..pd])" and s: "?P s"
    obtain x y m1 where s1: "s = (x, y, m1)" "keeps k mem m1" using s by (cases s) auto
    then have "length m1 = length mem" by (simp add: keeps_length)
    with i s1 assms pp [of i] show "\<exists>s'. mlsadf1_step pade pp b a pd d s i = Some s' \<and> ?P s'"
      by (auto simp: mlsadf1_step_def Let_def keeps_update)
  qed (simp add: assms(1))
  then obtain x1 y m1 where f: "foldM (mlsadf1_step pade pp b a pd d) (x, 0, mem') (rev [1..pd]) = Some (x1, y, m1)"
    and m1: "keeps k mem m1" by auto
  obtain m2 where "set_at m1 (d + (pd + 1)) x1 = Some m2" "keeps k mem m2"
    using keeps_set [OF m1, of "d + (pd + 1)"] assms by auto
  with f show ?thesis by (simp add: mlsadf1_def)
qed

lemma mlsadf2_ok:
  assumes "keeps k mem mem'" "k \<le> d" "0 \<le> d" "0 \<le> pd" "0 \<le> m"
    and d: "d + pd * (m + 2) + pd < int (length mem)"
    and "0 \<le> b" "b + m + 1 < int (length mem)"
    and pp: "\<And>i. i \<in> set [1..pd] \<Longrightarrow> 0 \<le> pp + i \<and> pp + i < int (length pade)"
  shows "\<exists>y mem''. mlsadf2 pade pp x b m a pd d mem' = Some (y, mem'') \<and> keeps k mem mem''"
proof -
  let ?P = "\<lambda>(x :: real, y :: real, m1). keeps k mem m1"
  let ?pt = "d + pd * (m + 2)"
  have pt: "d \<le> ?pt" using assms(4,5) by simp
  have "\<exists>s. foldM (mlsadf2_step pade pp b m a pd d) (x, 0, mem') (rev [1..pd]) = Some s \<and> ?P s"
  proof (rule foldM_inv [where P = ?P])
    fix s i assume "i \<in> set (rev [1..pd])" and s: "?P s"
    then have i: "1 \<le> i" "i \<le> pd" "i \<in> set [1..pd]" by auto
    obtain x y m1 where s1: "s = (x, y, m1)" "keeps k mem m1" using s by (cases s) auto
    have "(i - 1) * (m + 2) + (m + 2) \<le> pd * (m + 2)"
      using mult_right_mono [of i pd "m + 2"] i assms(5) by (simp add: algebra_simps)
    then have "d + (i - 1) * (m + 2) + m + 1 < int (length mem)" "0 \<le> (i - 1) * (m + 2)"
      using d i assms(4,5) by simp_all
    then obtain z m2 where m2: "mlsafir (m1 ! nat (?pt + i - 1)) b m a (d + (i - 1) * (m + 2)) m1 = Some (z, m2)"
        "keeps k mem m2"
      using mlsafir_ok [OF s1(2), of "d + (i - 1) * (m + 2)" m b "m1 ! nat (?pt + i - 1)" a] assms by auto
    obtain m3 where "set_at m2 (?pt + i) z = Some m3" "keeps k mem m3"
      using keeps_set [OF m2(2), of "?pt + i"] assms i pt by auto
    moreover have "get_at m1 (?pt + i - 1) = Some (m1 ! nat (?pt + i - 1))"
      using s1(2) d i pt assms(3) by (simp add: keeps_length)
    ultimately show "\<exists>s'. mlsadf2_step pade pp b m a pd d s i = Some s' \<and> ?P s'"
      using pp [OF i(3)] s1(1) m2(1) by (simp add: mlsadf2_step_def Let_def)
  qed (simp add: assms(1))
  then obtain x1 y m1 where f: "foldM (mlsadf2_step pade pp b m a pd d) (x, 0, mem') (rev [1..pd]) = Some (x1, y, m1)"
    and m1: "keeps k mem m1" by auto
  obtain m2 where "set_at m1 ?pt x1 = Some m2" "keeps k mem m2"
    using keeps_set [OF m1, of ?pt] assms pt by auto
  with f show ?thesis by (simp add: mlsadf2_def)
qed

lemma mlsadf_ok:
  assumes "0 \<le> d" "0 \<le> pd" "pd \<le> 5" "0 \<le> m" "length pade = 21" "0 \<le> b"
    and d: "d + 3 * (pd + 1) + pd * (m + 2) \<le> int (length mem)"
    and b: "b + m + 1 < int (length mem)"
  shows "\<exists>y mem'. mlsadf pade x b m a pd d mem = Some (y, mem') \<and> keeps d mem mem'"
proof -
  let ?pp = "c_quot (pd * (pd + 1)) 2"
  have pp: "0 \<le> ?pp + i \<and> ?pp + i < int (length pade)" if "i \<in> set [1..pd]" for i
    using pade_index [OF assms(2,3) that] assms(5) by simp
  have "0 \<le> pd * (m + 2)" using assms(2,4) by simp
  then have d1: "d + 2 * (pd + 1) \<le> int (length mem)" using d assms(2) by simp
  obtain y m1 where "mlsadf1 pade ?pp x b m a pd d mem = Some (y, m1)" "keeps d mem m1"
    using mlsadf1_ok [of d mem mem d pd b ?pp pade x m a, OF _ _ assms(1,2) d1 assms(6) _ pp] assms(4) b
    by auto
  moreover from this(2) obtain z m2 where "mlsadf2 pade ?pp y b m a pd (d + 2 * (pd + 1)) m1 = Some (z, m2)"
      "keeps d mem m2"
    using mlsadf2_ok [of d mem m1 "d + 2 * (pd + 1)" pd m b ?pp pade y a] pp assms
    by (auto simp: algebra_simps)
  ultimately show ?thesis by (simp add: mlsadf_def)
qed

section \<open>Lemmas: block move and frequency transformation\<close>

text \<open>The result of \<open>movem\<close> is that of a copy through a temporary array.\<close>

definition moved :: "int \<Rightarrow> int \<Rightarrow> int \<Rightarrow> real list \<Rightarrow> real list" where
  "moved a b n mem = map (\<lambda>j. if b \<le> int j \<and> int j < b + n then mem ! nat (a + (int j - b)) else mem ! j)
     [0..<length mem]"

lemma length_moved [simp]: "length (moved a b n mem) = length mem"
  by (simp add: moved_def)

lemma nth_moved: "j < length mem \<Longrightarrow>
   moved a b n mem ! j = (if b \<le> int j \<and> int j < b + n then mem ! nat (a + (int j - b)) else mem ! j)"
  by (simp add: moved_def)

lemma moved_0 [simp]: "moved a b 0 mem = mem"
  by (rule nth_equalityI) (simp_all add: nth_moved)

lemma movem_up:
  assumes "b < a" "0 \<le> b" "a + int n \<le> int (length mem)"
  shows "foldM (copy_item a b) mem [0..int n - 1] = Some (moved a b (int n) mem)"
  using assms(3)
proof (induction n)
  case (Suc n)
  have up: "[0..int (Suc n) - 1] = [0..int n - 1] @ [int n]"
    using upto_rec2 [of 0 "int n"] by simp
  have "(moved a b (int n) mem)[nat (b + int n) := moved a b (int n) mem ! nat (a + int n)] =
      moved a b (int (Suc n)) mem"
    using Suc.prems assms(1,2)
    by (intro nth_equalityI) (auto simp: nth_moved nth_list_update split: if_splits)
  moreover have "copy_item a b (moved a b (int n) mem) (int n) =
      Some ((moved a b (int n) mem)[nat (b + int n) := moved a b (int n) mem ! nat (a + int n)])"
    using Suc.prems assms(1,2) by (simp add: copy_item_def)
  ultimately show ?case
    unfolding up using Suc by (simp del: of_nat_Suc)
qed simp

text \<open>Downwards, the items from \<open>k\<close> on have been copied.\<close>

lemma movem_down:
  assumes "a \<le> b" "0 \<le> a" "b + n \<le> int (length mem)" "0 \<le> n"
  shows "foldM (copy_item a b) mem (rev [0..n - 1]) = Some (moved a b n mem)"
proof -
  have "foldM (copy_item a b) mem (rev [n - int j..n - 1]) =
      Some (moved (a + (n - int j)) (b + (n - int j)) (int j) mem)" if "int j \<le> n" for j
    using that
  proof (induction j)
    case (Suc j)
    let ?i = "n - int (Suc j)"
    have dn: "[?i..n - 1] = ?i # [n - int j..n - 1]"
      using upto_rec1 [of ?i "n - 1"] Suc.prems by simp
    let ?m = "moved (a + (n - int j)) (b + (n - int j)) (int j) mem"
    have "?m[nat (b + ?i) := ?m ! nat (a + ?i)] = moved (a + ?i) (b + ?i) (int (Suc j)) mem"
      using Suc.prems assms by (intro nth_equalityI) (auto simp: nth_moved nth_list_update)
    moreover have "copy_item a b ?m ?i = Some (?m[nat (b + ?i) := ?m ! nat (a + ?i)])"
      using Suc.prems assms by (simp add: copy_item_def)
    ultimately show ?case
      unfolding dn using Suc by (simp del: of_nat_Suc)
  qed (simp add: assms)
  from this [of "nat n"] show ?thesis using assms(4) by simp
qed

lemma movem_ok:
  assumes "0 \<le> a" "0 \<le> b" "0 \<le> n" "a + n \<le> int (length mem)" "b + n \<le> int (length mem)"
  shows "movem a b n mem = Some (moved a b n mem)"
  using movem_up [of b a "nat n" mem] movem_down [of a b n mem] assms
  by (simp add: movem_def)

text \<open>\<open>mc2b\<close> on lists.\<close>

fun warp :: "real \<Rightarrow> real list \<Rightarrow> real list" where
  "warp a [] = []"
| "warp a [x] = [x]"
| "warp a (x # y # xs) = (x - a * hd (warp a (y # xs))) # warp a (y # xs)"

lemma length_warp [simp]: "length (warp a xs) = length xs"
  by (induction a xs rule: warp.induct) auto

lemma warp_Cons: "xs \<noteq> [] \<Longrightarrow> warp a (x # xs) = (x - a * hd (warp a xs)) # warp a xs"
  by (cases xs) auto

text \<open>The inverse transformation, \<open>mc[i] = b[i] + a * b[i + 1]\<close>.\<close>

lemma warp_inverse:
  "Suc i < length xs \<Longrightarrow> warp a xs ! i + a * warp a xs ! Suc i = xs ! i"
proof (induction a xs arbitrary: i rule: warp.induct)
  case (3 a x y xs)
  have "warp a (y # xs) \<noteq> []" using length_warp [of a "y # xs"] by (metis length_0_conv list.distinct(1))
  then show ?case using 3 by (cases i) (auto simp: hd_conv_nth)
qed auto

lemma warp_last: "xs \<noteq> [] \<Longrightarrow> warp a xs ! (length xs - 1) = last xs"
  by (induction a xs rule: warp.induct) auto

text \<open>An array with the items from index \<open>p\<close> on replaced by those of a list.\<close>

definition patch :: "real list \<Rightarrow> nat \<Rightarrow> real list \<Rightarrow> real list" where
  "patch mem p xs = take p mem @ xs @ drop (p + length xs) mem"

lemma length_patch: "p + length xs \<le> length mem \<Longrightarrow> length (patch mem p xs) = length mem"
  by (simp add: patch_def)

lemma nth_patch: "p + length xs \<le> length mem \<Longrightarrow> j < length mem \<Longrightarrow>
   patch mem p xs ! j = (if p \<le> j \<and> j < p + length xs then xs ! (j - p) else mem ! j)"
  by (auto simp: patch_def nth_append)

lemma patch_hd: "p + length xs \<le> length mem \<Longrightarrow> xs \<noteq> [] \<Longrightarrow> patch mem p xs ! p = hd xs"
  by (cases xs) (auto simp: nth_patch)

lemma patch_Cons:
  assumes "Suc p + length xs \<le> length mem"
  shows "(patch mem (Suc p) xs)[p := x] = patch mem p (x # xs)"
  using assms
  by (intro nth_equalityI) (auto simp: length_patch nth_patch nth_list_update nth_Cons')

lemma mc2b_ok:
  assumes "m < length mc" "b + m < length mem"
  shows "mc2b mc (int b) (int m) a mem = Some (patch mem b (warp a (take (Suc m) mc)))"
proof -
  let ?f = "\<lambda>mem i. do { v \<leftarrow> get_at mc i; w \<leftarrow> get_at mem (int b + i + 1); set_at mem (int b + i) (v - a * w) }"
  let ?s = "\<lambda>j. warp a (drop j (take (Suc m) mc))"
  have start: "mem[b + m := mc ! m] = patch mem (b + m) (?s m)"
  proof -
    have "drop m (take (Suc m) mc) = [mc ! m]" using assms(1) by (simp add: take_Suc_conv_app_nth)
    then show ?thesis using assms(2) patch_Cons [of "b + m" "[]" mem "mc ! m"] by (simp add: patch_def)
  qed
  have "foldM ?f (mem[b + m := mc ! m]) (rev [int m - int k..int m - 1]) =
      Some (patch mem (b + (m - k)) (?s (m - k)))" if "k \<le> m" for k
    using that
  proof (induction k)
    case (Suc k)
    define j where "j = m - Suc k"
    have j: "m - k = Suc j" "int m - int (Suc k) = int j" "int m - int k = int j + 1" "m - Suc k = j" "j < m"
      using Suc.prems by (auto simp: j_def)
    have dn: "[int j..int m - 1] = int j # [int j + 1..int m - 1]"
      using upto_rec1 [of "int j" "int m - 1"] j(5) by simp
    have ne: "drop (Suc j) (take (Suc m) mc) \<noteq> []" using j(5) assms(1) by simp
    have "drop j (take (Suc m) mc) = mc ! j # drop (Suc j) (take (Suc m) mc)"
      using j(5) assms(1) Cons_nth_drop_Suc [of j "take (Suc m) mc"] by simp
    then have s: "?s j = (mc ! j - a * hd (?s (Suc j))) # ?s (Suc j)"
      using warp_Cons [OF ne] by simp
    have len: "Suc (b + j) + length (?s (Suc j)) \<le> length mem" "?s (Suc j) \<noteq> []"
      "b + j < length mem" "b + Suc j < length mem"
      using j(5) assms ne length_warp [of a "drop (Suc j) (take (Suc m) mc)"] by (auto simp del: length_warp)
    let ?m = "patch mem (Suc (b + j)) (?s (Suc j))"
    have "?m ! Suc (b + j) = hd (?s (Suc j))" using patch_hd [OF len(1,2)] .
    moreover have "get_at ?m (int b + int j + 1) = Some (?m ! Suc (b + j))"
      using len by (simp add: get_at_def length_patch nat_add_distrib)
    moreover have "set_at ?m (int b + int j) x = Some (?m[b + j := x])" for x
      using len by (simp add: set_at_def length_patch nat_add_distrib)
    moreover have "get_at mc (int j) = Some (mc ! j)" using j(5) assms(1) by simp
    ultimately have "?f ?m (int j) = Some (patch mem (b + j) (?s j))"
      by (simp add: s patch_Cons [OF len(1)])
    then show ?case
      unfolding j(2,4) dn using Suc.IH Suc.prems unfolding j(1) j(3) by simp
  qed (simp add: start)
  from this [of m] show ?thesis
    using assms by (simp add: mc2b_def nat_add_distrib set_at_def)
qed

section \<open>Lemmas: pushing a frame\<close>

text \<open>
  The well-formed synthesisers: the buffer is the one the constructor made for the filter in
  use, the pitch is not negative, and the members that are read have been set.
\<close>

definition filter_fits :: "Vocoder \<Rightarrow> bool" where
  "filter_fits v \<longleftrightarrow>
     (if vstage v \<noteq> 0 then 3 * (vm v + 1) + vstage v * (vm v + 1) \<le> vcsize v
      else 0 \<le> vpd v \<and> vpd v \<le> 5 \<and> 3 * (vm v + 1) + 3 * (vpd v + 1) + vpd v * (vm v + 2) \<le> vcsize v)"

definition voc_inv :: "Vocoder \<Rightarrow> bool" where
  "voc_inv v \<longleftrightarrow> 0 \<le> vm v \<and> vm v < int maxStreamLen \<and> int (length (vc v)) = vcsize v \<and>
     3 * (vm v + 1) + 3 \<le> vcsize v \<and> length (padesptk v) = 21 \<and> 0 < viprd v \<and> 0 < vfprd v \<and>
     0 \<le> vf0 v \<and> vt0 v = period (vf0 v) \<and> 0 \<le> nOfPopSinceLastPush v \<and>
     (vaction v \<in> {overwrite, shift, scale} \<longrightarrow> actionValue v \<noteq> None)"

definition frame_ok :: "real list list \<Rightarrow> bool" where
  "frame_ok frame \<longleftrightarrow> length frame = nOfStreams \<and> (\<forall>row \<in> set frame. length row = maxStreamLen)"

text \<open>A loop that fills the items from \<open>p\<close> on, each from items not yet written.\<close>

lemma foldM_fill:
  fixes mem :: "real list"
  assumes "p + n \<le> length mem"
    and f: "\<And>mem' i. i < n \<Longrightarrow> length mem' = length mem \<Longrightarrow>
      (\<And>j. j < length mem \<Longrightarrow> \<not> (p \<le> j \<and> j < p + i) \<Longrightarrow> mem' ! j = mem ! j) \<Longrightarrow>
      f mem' (int i) = Some (mem'[p + i := g i])"
  shows "foldM f mem [0..int n - 1] = Some (patch mem p (map g [0..<n]))"
proof -
  have "foldM f mem [0..int k - 1] = Some (patch mem p (map g [0..<k]))" if "k \<le> n" for k
    using that
  proof (induction k)
    case (Suc k)
    have up: "[0..int (Suc k) - 1] = [0..int k - 1] @ [int k]"
      using upto_rec2 [of 0 "int k"] by simp
    let ?m = "patch mem p (map g [0..<k])"
    have "f ?m (int k) = Some (?m[p + k := g k])"
      using Suc.prems assms(1) by (intro f) (auto simp: length_patch nth_patch)
    moreover have "?m[p + k := g k] = patch mem p (map g [0..<Suc k])"
      using Suc.prems assms(1)
      by (intro nth_equalityI) (auto simp: length_patch nth_patch nth_list_update nth_append)
    ultimately show ?case unfolding up using Suc by simp
  qed (simp add: patch_def)
  then show ?thesis by simp
qed

lemma set_increments_ok:
  assumes "vm v = int m" "vfprd v \<noteq> 0" "3 * (m + 1) \<le> length mem"
  shows "set_increments v mem = Some (patch mem (2 * (m + 1)) (map (\<lambda>i.
     (mem ! (m + 1 + i) - mem ! i) * real_of_int (viprd v) / real_of_int (vfprd v)) [0..<m + 1]))"
proof -
  have "foldM (\<lambda>mem i. do {
         x \<leftarrow> get_at mem (vm v + 1 + i); y \<leftarrow> get_at mem i;
         if vfprd v = 0 then None
         else set_at mem (2 * (vm v + 1) + i) ((x - y) * real_of_int (viprd v) / real_of_int (vfprd v)) })
       mem [0..int (m + 1) - 1] = Some (patch mem (2 * (m + 1)) (map (\<lambda>i.
     (mem ! (m + 1 + i) - mem ! i) * real_of_int (viprd v) / real_of_int (vfprd v)) [0..<m + 1]))"
    using assms by (intro foldM_fill) (auto simp: get_at_def set_at_def nat_add_distrib nat_mult_distrib)
  then show ?thesis using assms(1) by (simp add: set_increments_def)
qed

lemma voc_invD:
  assumes "voc_inv v"
  obtains m where "vm v = int m" "m < maxStreamLen" "3 * (m + 1) + 3 \<le> length (vc v)"
proof (rule that [of "nat (vm v)"])
qed (use assms in \<open>auto simp: voc_inv_def\<close>)

text \<open>The coefficients in use, those to reach, and the step between two samples.\<close>

definition cur_c :: "Vocoder \<Rightarrow> nat \<Rightarrow> real" where
  "cur_c v i = vc v ! i"

definition next_c :: "Vocoder \<Rightarrow> nat \<Rightarrow> real" where
  "next_c v i = vc v ! (nat (vm v) + 1 + i)"

definition inc_c :: "Vocoder \<Rightarrow> nat \<Rightarrow> real" where
  "inc_c v i = vc v ! (2 * (nat (vm v) + 1) + i)"

lemmas coefs = cur_c_def next_c_def inc_c_def

text \<open>What \<open>prepare\<close> makes of the buffer when the filter is MLSA.\<close>

definition prepared :: "real list \<Rightarrow> Vocoder \<Rightarrow> nat \<Rightarrow> real list" where
  "prepared mgc v m =
     (let target = warp (valpha v) (take (Suc m) mgc);
          mem = (if flagFirstPush v then patch (patch (vc v) 0 target) (m + 1) target
                 else patch (moved (int m + 1) 0 (int m + 1) (vc v)) (m + 1) target)
      in patch mem (2 * (m + 1)) (map (\<lambda>i.
           (mem ! (m + 1 + i) - mem ! i) * real_of_int (viprd v) / real_of_int (vfprd v)) [0..<m + 1]))"

lemma prepare_mem:
  assumes "voc_inv v" "vstage v = 0" "vm v = int m" "frame_ok frame"
  shows "prepare frame b ig v = do {
      f0 \<leftarrow> frame_pitch v (frame ! lf0StreamIndex ! 0);
      let f0 = (if f0 < 0 then real_of_int defaultPitch else f0);
      Some (v\<lparr>vc := prepared (frame ! mgcStreamIndex) v m, flagFirstPush := False, vf0 := f0,
              vt0 := period f0, vvoiced := (if ig then vvoiced v else b), nOfPopSinceLastPush := 0\<rparr>) }"
proof -
  let ?mgc = "frame ! mgcStreamIndex"
  let ?w = "warp (valpha v) (take (Suc m) ?mgc)"
  have len: "length frame = 3" "length ?mgc = maxStreamLen" "length (frame ! lf0StreamIndex) = maxStreamLen"
    using assms(4) by (auto simp: frame_ok_def size_consts)
  have m: "m < maxStreamLen" "3 * (m + 1) + 3 \<le> length (vc v)" "vfprd v \<noteq> 0"
    using assms(1,3) by (auto simp: voc_inv_def)
  have w: "length ?w = Suc m" using len m by simp
  have idx: "mgcStreamIndex < 3" "lf0StreamIndex < 3" "0 < maxStreamLen" by (simp_all add: size_consts)
  have first: "foldM (copy_item 0 (int m + 1)) (patch (vc v) 0 ?w) [0..int (m + 1) - 1] =
      Some (patch (patch (vc v) 0 ?w) (m + 1) (map (\<lambda>i. patch (vc v) 0 ?w ! i) [0..<m + 1]))"
    using m w by (intro foldM_fill)
      (auto simp: copy_item_def get_at_def set_at_def length_patch nat_add_distrib)
  have "map (\<lambda>i. patch (vc v) 0 ?w ! i) [0..<m + 1] = ?w"
    using w m by (intro nth_equalityI) (auto simp: nth_patch simp del: upt_Suc)
  with first have first': "foldM (copy_item 0 (int m + 1)) (patch (vc v) 0 ?w) [0..int m] =
      Some (patch (patch (vc v) 0 ?w) (m + 1) ?w)" by simp
  have b0: "mc2b ?mgc 0 (int m) (valpha v) (vc v) = Some (patch (vc v) 0 ?w)"
    using mc2b_ok [of m ?mgc 0 "vc v" "valpha v"] len m by simp
  have mv: "movem (int m + 1) 0 (int m + 1) (vc v) = Some (moved (int m + 1) 0 (int m + 1) (vc v))"
    using m by (intro movem_ok) auto
  have b1: "mc2b ?mgc (int m + 1) (int m) (valpha v) (moved (int m + 1) 0 (int m + 1) (vc v)) =
      Some (patch (moved (int m + 1) 0 (int m + 1) (vc v)) (m + 1) ?w)"
    using mc2b_ok [of m ?mgc "m + 1" "moved (int m + 1) 0 (int m + 1) (vc v)" "valpha v"] len m
    by (simp add: add.commute)
  let ?mem = "if flagFirstPush v then patch (patch (vc v) 0 ?w) (m + 1) ?w
                 else patch (moved (int m + 1) 0 (int m + 1) (vc v)) (m + 1) ?w"
  have "length ?mem = length (vc v)" using m w by (simp add: length_patch)
  then have inc: "set_increments v ?mem = Some (prepared ?mgc v m)"
    using set_increments_ok [OF assms(3) m(3), of ?mem] m(2) by (simp add: prepared_def Let_def)
  have "(if \<not> flagFirstPush v then do {
               mem \<leftarrow> movem (vm v + 1) 0 (vm v + 1) (vc v);
               mem \<leftarrow> mc2b ?mgc (vm v + 1) (vm v) (valpha v) mem;
               mgc_gain (vm v + 1) v mem }
             else do {
               mem \<leftarrow> mc2b ?mgc 0 (vm v) (valpha v) (vc v);
               mem \<leftarrow> mgc_gain 0 v mem;
               foldM (copy_item 0 (vm v + 1)) mem [0..vm v] }) = Some ?mem"
    using b0 b1 mv first' assms(2,3) by (simp add: mgc_gain_def)
  then show ?thesis
    using len idx inc by (simp add: prepare_def)
qed

lemma prepared_coefs:
  assumes "voc_inv v" "vm v = int m" "length mgc = maxStreamLen" "i \<le> m"
  shows "length (prepared mgc v m) = length (vc v)"
    and "prepared mgc v m ! (m + 1 + i) = warp (valpha v) (take (Suc m) mgc) ! i"
    and "prepared mgc v m ! i = (if flagFirstPush v then warp (valpha v) (take (Suc m) mgc) ! i
           else vc v ! (m + 1 + i))"
    and "prepared mgc v m ! (2 * (m + 1) + i) =
      (prepared mgc v m ! (m + 1 + i) - prepared mgc v m ! i) * real_of_int (viprd v) / real_of_int (vfprd v)"
proof -
  have m: "m < maxStreamLen" "3 * (m + 1) + 3 \<le> length (vc v)"
    using assms(1,2) by (auto simp: voc_inv_def)
  have w: "length (warp (valpha v) (take (Suc m) mgc)) = Suc m" using assms(3) m by simp
  note s = prepared_def Let_def length_patch nth_patch nth_moved w
  show "length (prepared mgc v m) = length (vc v)" using m w by (simp add: s)
  show "prepared mgc v m ! (m + 1 + i) = warp (valpha v) (take (Suc m) mgc) ! i"
    using m assms(4) w by (simp add: s)
  show "prepared mgc v m ! i = (if flagFirstPush v then warp (valpha v) (take (Suc m) mgc) ! i
           else vc v ! (m + 1 + i))"
    using m assms(4) w by (auto simp: s nat_add_distrib)
  show "prepared mgc v m ! (2 * (m + 1) + i) =
      (prepared mgc v m ! (m + 1 + i) - prepared mgc v m ! i) * real_of_int (viprd v) / real_of_int (vfprd v)"
    using m assms(4) w by (simp add: s del: upt_Suc)
qed

lemma frame_pitch_ok: "voc_inv v \<Longrightarrow> \<exists>f. frame_pitch v x = Some f"
  by (cases "actionValue v") (auto simp: frame_pitch_def voc_inv_def)

lemma prepare_ok:
  assumes "voc_inv v" "vstage v = 0" "frame_ok frame"
  obtains v' where "prepare frame b ig v = Some v'" "voc_inv v'" "filter_fits v' = filter_fits v"
    and "vready v'" "vm v' = vm v" "vfprd v' = vfprd v" "viprd v' = viprd v" "vstage v' = 0"
    and "nOfPopSinceLastPush v' = 0" "vvoiced v' = (if ig then vvoiced v else b)"
    and "\<And>i. int i \<le> vm v \<Longrightarrow>
      next_c v' i = warp (valpha v) (take (Suc (nat (vm v))) (frame ! mgcStreamIndex)) ! i"
    and "\<And>i. int i \<le> vm v \<Longrightarrow> cur_c v' i = (if flagFirstPush v then next_c v' i else next_c v i)"
    and "\<And>i. int i \<le> vm v \<Longrightarrow>
      inc_c v' i = (next_c v' i - cur_c v' i) * real_of_int (viprd v) / real_of_int (vfprd v)"
proof -
  obtain m where m: "vm v = int m" "m < maxStreamLen" using voc_invD [OF assms(1)] by blast
  let ?mgc = "frame ! mgcStreamIndex"
  have len: "length ?mgc = maxStreamLen" using assms(3) by (auto simp: frame_ok_def size_consts)
  obtain f where f: "frame_pitch v (frame ! lf0StreamIndex ! 0) = Some f"
    using frame_pitch_ok [OF assms(1)] by blast
  define f0 where "f0 = (if f < 0 then real_of_int defaultPitch else f)"
  define v' where "v' = v\<lparr>vc := prepared ?mgc v m, flagFirstPush := False, vf0 := f0,
              vt0 := period f0, vvoiced := (if ig then vvoiced v else b), nOfPopSinceLastPush := 0\<rparr>"
  note pc = prepared_coefs [OF assms(1) m(1) len]
  have "prepare frame b ig v = Some v'"
    using prepare_mem [OF assms(1,2) m(1) assms(3)] f by (simp add: v'_def f0_def Let_def)
  moreover have "voc_inv v'"
    using assms(1) pc(1) [of 0] by (auto simp: voc_inv_def v'_def f0_def defaultPitch_def)
  ultimately show thesis
    using pc assms(2) m(1) by (intro that [of v']) (auto simp: v'_def coefs vready_def filter_fits_def)
qed

section \<open>Lemmas: making samples\<close>

lemma excite_ok:
  assumes "voc_inv v"
  shows "excite noise v \<noteq> None \<longleftrightarrow>
    \<not> vvoiced v \<or> 0 < vcount v \<or> real_of_int defaultSamplingRate / 2 ^ 31 < vf0 v"
proof (cases "vvoiced v \<and> vcount v \<le> 0")
  case True
  have f: "0 \<le> vf0 v" "vt0 v = period (vf0 v)" using assms by (simp_all add: voc_inv_def)
  show ?thesis
  proof (cases "vf0 v = 0")
    case True
    then show ?thesis using f \<open>vvoiced v \<and> vcount v \<le> 0\<close>
      by (simp add: excite_def period_def defaultSamplingRate_def)
  next
    case False
    then have pos: "0 < vf0 v" using f by simp
    have "\<lfloor>48000 / vf0 v\<rfloor> < 2 ^ 31 \<longleftrightarrow> 48000 / vf0 v < 2 ^ 31" by (simp add: floor_less_iff)
    also have "\<dots> \<longleftrightarrow> 48000 / 2 ^ 31 < vf0 v" using pos by (simp add: field_simps)
    finally show ?thesis
      using True False f pos
      by (simp add: excite_def period_def defaultSamplingRate_def to_int_def c_trunc_def)
         (smt (verit) zero_le_floor divide_nonneg_pos)
  qed
qed (auto simp: excite_def)

lemma excite_state:
  "excite noise v = Some (x, v') \<Longrightarrow> \<exists>k. v' = v\<lparr>vcount := k\<rparr>"
  by (auto simp: excite_def split: if_splits bind_splits)

lemma count_irrelevant [simp]:
  "voc_inv (v\<lparr>vcount := k\<rparr>) = voc_inv v"
  "apply_filter (v\<lparr>vcount := k\<rparr>) = apply_filter v"
  "apply_gain (v\<lparr>vcount := k\<rparr>) = apply_gain v"
  by (simp_all add: voc_inv_def apply_filter_def apply_gain_def fun_eq_iff)

lemma interpolate_ok:
  assumes "voc_inv v" "vm v = int m" "length mem = length (vc v)"
  shows "interpolate v mem = Some (
     if nOfPopSinceLastPush v < vfprd v div viprd v
     then patch mem 0 (map (\<lambda>i. mem ! i + mem ! (2 * (m + 1) + i)) [0..<m + 1]) else mem)"
proof -
  have m: "3 * (m + 1) + 3 \<le> length mem" "0 < viprd v" "0 < vfprd v"
    using assms by (auto simp: voc_inv_def)
  have "foldM (\<lambda>mem i. do { x \<leftarrow> get_at mem i; dx \<leftarrow> get_at mem (2 * (vm v + 1) + i);
                    set_at mem i (x + dx) }) mem [0..int (m + 1) - 1] =
      Some (patch mem 0 (map (\<lambda>i. mem ! i + mem ! (2 * (m + 1) + i)) [0..<m + 1]))"
    using m assms(2)
    by (intro foldM_fill) (auto simp: get_at_def set_at_def nat_add_distrib nat_mult_distrib)
  then show ?thesis using m assms(2) by (simp add: interpolate_def)
qed

lemma filter_ok:
  assumes "voc_inv v" "filter_fits v"
  shows "\<exists>y mem. apply_filter v x = Some (y, mem) \<and>
     keeps (3 * (vm v + 1)) (vc v) mem"
proof (cases "vstage v = 0")
  case True
  then show ?thesis
    using assms mlsadf_ok [of "3 * (vm v + 1)" "vpd v" "vm v" "padesptk v" 0 "vc v" x "valpha v"]
    by (simp add: voc_inv_def filter_fits_def apply_filter_def)
next
  case False
  then show ?thesis
    using assms mglsadf_ok [of "3 * (vm v + 1)" "vc v" "vc v" "3 * (vm v + 1)" "vm v" "vstage v" 0 x "valpha v"]
    by (simp add: voc_inv_def filter_fits_def apply_filter_def)
qed

text \<open>A sample moves the coefficients by one step, until the frame period is over.\<close>

lemma vpop_ok:
  assumes "voc_inv v" "filter_fits v" "excite noise v \<noteq> None" "nOfPopSinceLastPush v + 1 < 2 ^ 31"
  obtains x v' where "vpop noise v = Some (x, v')" "voc_inv v'" "filter_fits v' = filter_fits v"
    and "vm v' = vm v" "vfprd v' = vfprd v" "viprd v' = viprd v" "vf0 v' = vf0 v" "vvoiced v' = vvoiced v"
    and "nOfPopSinceLastPush v' = nOfPopSinceLastPush v + 1" "vready v' = vready v"
    and "\<And>i. int i \<le> vm v \<Longrightarrow> next_c v' i = next_c v i \<and> inc_c v' i = inc_c v i \<and>
      cur_c v' i = (if nOfPopSinceLastPush v < vfprd v div viprd v then cur_c v i + inc_c v i else cur_c v i)"
proof -
  obtain m where m: "vm v = int m" "m < maxStreamLen" "3 * (m + 1) + 3 \<le> length (vc v)"
    using voc_invD [OF assms(1)] by blast
  obtain x0 k where ex: "excite noise v = Some (x0, v\<lparr>vcount := k\<rparr>)"
    using assms(3) excite_state by (metis not_None_eq surj_pair)
  obtain y mem where fl: "apply_filter v (apply_gain v (vc v ! 0) x0) = Some (y, mem)"
    and kp: "keeps (3 * (vm v + 1)) (vc v) mem"
    using filter_ok [OF assms(1,2)] by blast
  have len: "length mem = length (vc v)" using kp by (rule keeps_length)
  define mem' where "mem' = (if nOfPopSinceLastPush v < vfprd v div viprd v
     then patch mem 0 (map (\<lambda>i. mem ! i + mem ! (2 * (m + 1) + i)) [0..<m + 1]) else mem)"
  have ip: "interpolate (v\<lparr>vcount := k\<rparr>) mem = Some mem'"
    using interpolate_ok [of "v\<lparr>vcount := k\<rparr>" m mem] assms(1) m(1) len by (simp add: mem'_def)
  define v' where "v' = v\<lparr>vc := mem', vcount := k, nOfPopSinceLastPush := nOfPopSinceLastPush v + 1\<rparr>"
  have len': "length mem' = length (vc v)" using len m(3) by (simp add: mem'_def length_patch)
  have nn: "0 \<le> nOfPopSinceLastPush v" using assms(1) by (simp add: voc_inv_def)
  have "get_at (vc v) 0 = Some (vc v ! 0)" using m(3) by (cases "vc v") auto
  then have "vpop noise v = Some (if vvolume v \<ge> 0 then vvolume v * y else y, v')"
    using ex fl ip assms(4) nn by (simp add: vpop_def v'_def)
  moreover have "voc_inv v'" using assms(1) len' by (auto simp: voc_inv_def v'_def)
  moreover have "next_c v' i = next_c v i \<and> inc_c v' i = inc_c v i \<and>
      cur_c v' i = (if nOfPopSinceLastPush v < vfprd v div viprd v then cur_c v i + inc_c v i else cur_c v i)"
    if "int i \<le> vm v" for i
    using that keeps_nth [OF kp] m len
    by (auto simp: coefs v'_def mem'_def nth_patch simp del: upt_Suc)
  ultimately show thesis
    by (intro that [of _ v']) (auto simp: v'_def filter_fits_def vready_def)
qed

fun vpops :: "real list \<Rightarrow> Vocoder \<Rightarrow> (real list \<times> Vocoder) option" where
  "vpops [] v = Some ([], v)"
| "vpops (noise # ns) v = do { (x, v) \<leftarrow> vpop noise v; (xs, v) \<leftarrow> vpops ns v; Some (x # xs, v) }"

lemma vpops_ok:
  assumes "voc_inv v" "filter_fits v" "real_of_int defaultSamplingRate / 2 ^ 31 < vf0 v"
    and "nOfPopSinceLastPush v + int (length ns) < 2 ^ 31"
  shows "\<exists>xs v'. vpops ns v = Some (xs, v') \<and> length xs = length ns \<and> voc_inv v' \<and> filter_fits v' \<and>
    (\<forall>i. int i \<le> vm v \<longrightarrow> next_c v' i = next_c v i \<and>
       cur_c v' i = cur_c v i + real (min (length ns)
         (nat (vfprd v div viprd v - nOfPopSinceLastPush v))) * inc_c v i)"
  using assms
proof (induction ns arbitrary: v)
  case (Cons n ns)
  have ex: "excite n v \<noteq> None" using excite_ok [OF Cons.prems(1)] Cons.prems(3) by blast
  have c: "nOfPopSinceLastPush v + 1 < 2 ^ 31" using Cons.prems(4) by simp
  from vpop_ok [OF Cons.prems(1,2) ex c] obtain x v1 where p: "vpop n v = Some (x, v1)"
    and v1: "voc_inv v1" "filter_fits v1 = filter_fits v" "vm v1 = vm v" "vfprd v1 = vfprd v"
      "viprd v1 = viprd v" "vf0 v1 = vf0 v" "nOfPopSinceLastPush v1 = nOfPopSinceLastPush v + 1"
    and cf: "\<And>i. int i \<le> vm v \<Longrightarrow> next_c v1 i = next_c v i \<and> inc_c v1 i = inc_c v i \<and>
      cur_c v1 i = (if nOfPopSinceLastPush v < vfprd v div viprd v then cur_c v i + inc_c v i else cur_c v i)"
    by metis
  obtain xs v' where r: "vpops ns v1 = Some (xs, v')" "length xs = length ns" "voc_inv v'" "filter_fits v'"
    and rf: "\<And>i. int i \<le> vm v \<Longrightarrow> next_c v' i = next_c v1 i \<and>
       cur_c v' i = cur_c v1 i + real (min (length ns)
         (nat (vfprd v div viprd v - nOfPopSinceLastPush v - 1))) * inc_c v1 i"
    using Cons.IH [of v1] v1 Cons.prems by (auto simp: algebra_simps)
  have "real (min (length (n # ns)) (nat (vfprd v div viprd v - nOfPopSinceLastPush v))) =
      (if nOfPopSinceLastPush v < vfprd v div viprd v then 1 else 0) +
      real (min (length ns) (nat (vfprd v div viprd v - nOfPopSinceLastPush v - 1)))"
    by (auto simp: min_def)
  then show ?case
    using p r rf cf by (auto simp: distrib_right)
qed simp

section \<open>Any sequence of calls\<close>

datatype vcall =
    Push Frame bool
  | Pop real
  | SetPitch real int bool
  | SetVolume real
  | SetAlpha real
  | SetVoiced bool
  | SetPadeOrder real
  | Reset

fun do_vcall :: "vcall \<Rightarrow> Vocoder \<Rightarrow> Vocoder option" where
  "do_vcall (Push f ig) v = push_frame f ig v"
| "do_vcall (Pop noise) v = map_option snd (vpop noise v)"
| "do_vcall (SetPitch p a b) v = Some (setPitch p a b v)"
| "do_vcall (SetVolume x) v = Some (setVolume x v)"
| "do_vcall (SetAlpha x) v = Some (setAlpha x v)"
| "do_vcall (SetVoiced b) v = Some (setVoiced b v)"
| "do_vcall (SetPadeOrder x) v = setPadeOrder x v"
| "do_vcall Reset v = Some (vreset v)"

text \<open>Frames have the size of the type \<open>Frame\<close>, and the Pade order is one the table has.\<close>

fun vcall_ok :: "vcall \<Rightarrow> bool" where
  "vcall_ok (Push f ig) \<longleftrightarrow> frame_ok (fstreams f)"
| "vcall_ok (SetPadeOrder x) \<longleftrightarrow> 0 \<le> x \<and> x < 6"
| "vcall_ok _ \<longleftrightarrow> True"

definition voc_ok :: "Vocoder \<Rightarrow> bool" where
  "voc_ok v \<longleftrightarrow> voc_inv v \<and> vstage v = 0 \<and> 0 \<le> vpd v \<and> vpd v \<le> 5 \<and> buffer_size (vm v) 0 5 \<le> vcsize v"

lemma voc_ok_fits: "voc_ok v \<Longrightarrow> voc_inv v \<and> filter_fits v \<and> vstage v = 0"
proof -
  assume v: "voc_ok v"
  then have "vpd v * (vm v + 2) \<le> 5 * (vm v + 2)"
    by (intro mult_right_mono) (auto simp: voc_ok_def voc_inv_def)
  with v show ?thesis by (auto simp: voc_ok_def filter_fits_def buffer_size_def)
qed

lemma default_vocoder_ok: "voc_ok default_vocoder"
  by (simp add: default_vocoder_def voc_ok_def voc_inv_def Vocoder_new_def buffer_size_def size_consts
      defaultGamma_def defaultPadeOrder_def defaultFrameRate_def defaultInterpFrameRate_def
      defaultPitch_def action_consts lpadesptk_def)

lemma vpop_SomeE:
  assumes "vpop noise v = Some (x, v')"
  obtains k mem j where "excite noise v \<noteq> None" "c_int (nOfPopSinceLastPush v + 1) = Some j"
    "v' = v\<lparr>vcount := k, vc := mem, nOfPopSinceLastPush := j\<rparr>"
proof -
  obtain x0 v1 where ex: "excite noise v = Some (x0, v1)"
    using assms by (auto simp: vpop_def bind_eq_Some_conv)
  then obtain k where v1: "v1 = v\<lparr>vcount := k\<rparr>" using excite_state by blast
  from assms obtain j mem where "c_int (nOfPopSinceLastPush v1 + 1) = Some j"
      "v' = v1\<lparr>vc := mem, nOfPopSinceLastPush := j\<rparr>"
    by (auto simp: vpop_def bind_eq_Some_conv ex)
  with ex v1 that show thesis by simp
qed

lemma vpop_frame:
  "vpop noise v = Some (x, v') \<Longrightarrow> vm v' = vm v \<and> vcsize v' = vcsize v \<and> vstage v' = vstage v \<and> vpd v' = vpd v"
  by (erule vpop_SomeE) simp

lemma vpop_guards:
  "vpop noise v = Some (x, v') \<Longrightarrow> excite noise v \<noteq> None \<and> nOfPopSinceLastPush v + 1 < 2 ^ 31"
  by (erule vpop_SomeE) (auto simp: c_int_def split: if_splits)

lemma prepare_frame:
  "prepare f b ig v = Some v' \<Longrightarrow> vm v' = vm v \<and> vcsize v' = vcsize v \<and> vstage v' = vstage v \<and> vpd v' = vpd v"
  by (auto simp: prepare_def Let_def bind_eq_Some_conv simp del: if_split)

lemma vpop_inv:
  assumes "voc_inv v" "filter_fits v" "vpop noise v = Some (x, v')"
  shows "voc_inv v'"
  using vpop_guards [OF assms(3)] vpop_ok [OF assms(1,2), of noise] assms(3)
  by (metis option.inject prod.inject)

lemma setPitch_inv: "voc_inv v \<Longrightarrow> voc_inv (setPitch p a b v)"
  by (auto simp: voc_inv_def setPitch_def Let_def defaultPitch_def)

lemma prepare_inv:
  assumes "voc_inv v" "vstage v = 0" "frame_ok f" "prepare f b ig v = Some v'"
  shows "voc_inv v'"
  using prepare_ok [OF assms(1-3), of b ig] assms(4) by (metis option.inject)

lemma setPitch_frame:
  "vm (setPitch p a b v) = vm v" "vcsize (setPitch p a b v) = vcsize v"
  "vstage (setPitch p a b v) = vstage v" "vpd (setPitch p a b v) = vpd v"
  by (simp_all add: setPitch_def Let_def)

lemma set_members_inv:
  "voc_inv v \<Longrightarrow> voc_inv (setVolume x v)" "voc_inv v \<Longrightarrow> voc_inv (setAlpha x v)"
  "voc_inv v \<Longrightarrow> voc_inv (setVoiced b v)" "voc_inv v \<Longrightarrow> voc_inv (v\<lparr>vpd := k\<rparr>)"
  by (simp_all add: voc_inv_def setVolume_def setAlpha_def setVoiced_def)

lemma vreset_inv:
  assumes "voc_inv v"
  shows "voc_inv (vreset v)"
proof -
  have "nat (vcsize v) = length (vc v)" using assms by (auto simp: voc_inv_def)
  with assms show ?thesis by (auto simp: voc_inv_def vreset_def defaultPitch_def action_consts)
qed

lemma setPadeOrder_range:
  assumes "setPadeOrder x v = Some v'" "0 \<le> x" "x < 6"
  shows "\<exists>k. v' = v\<lparr>vpd := k\<rparr> \<and> 0 \<le> k \<and> k \<le> 5"
  using assms floor_less_iff [of x 6]
  by (auto simp: setPadeOrder_def to_int_def c_trunc_def split: if_splits)

lemma vcall_keeps_ok:
  assumes "voc_ok v" "vcall_ok c" "do_vcall c v = Some v'"
  shows "voc_ok v'"
proof -
  note v = voc_ok_fits [OF assms(1)]
  have keep: "voc_ok v'" if "voc_inv v'" "vm v' = vm v" "vcsize v' = vcsize v" "vstage v' = vstage v" "vpd v' = vpd v"
    using that assms(1) by (simp add: voc_ok_def)
  show ?thesis
  proof (cases c)
    case (Push f ig)
    then have p: "prepare (fstreams f) (fvoiced f) ig v = Some v'" using assms(3) by (simp add: push_frame_def)
    then show ?thesis using prepare_inv [OF _ _ _ p] prepare_frame [OF p] v assms(2) Push by (intro keep) simp_all
  next
    case (Pop n)
    then obtain x where p: "vpop n v = Some (x, v')" using assms(3) by auto
    then show ?thesis using vpop_inv [OF _ _ p] vpop_frame [OF p] v by (intro keep) simp_all
  next
    case (SetPitch p a b)
    then show ?thesis using assms(3) setPitch_inv v by (intro keep) (auto simp: setPitch_frame)
  next
    case (SetPadeOrder x)
    then show ?thesis
      using setPadeOrder_range [of x v v'] assms set_members_inv(4) [of v] by (auto simp: voc_ok_def)
  next
    case Reset
    then show ?thesis
      using assms vreset_inv [of v] by (clarsimp simp: voc_ok_def vreset_def defaultGamma_def defaultPadeOrder_def)
  next
    case (SetVolume x)
    then show ?thesis using assms(3) set_members_inv v by (intro keep) (auto simp: setVolume_def)
  next
    case (SetAlpha x)
    then show ?thesis using assms(3) set_members_inv v by (intro keep) (auto simp: setAlpha_def)
  next
    case (SetVoiced x)
    then show ?thesis using assms(3) set_members_inv v by (intro keep) (auto simp: setVoiced_def)
  qed
qed

fun vcalls :: "vcall list \<Rightarrow> Vocoder \<Rightarrow> Vocoder option" where
  "vcalls [] v = Some v"
| "vcalls (c # cs) v = do { v \<leftarrow> do_vcall c v; vcalls cs v }"

lemma vcalls_keep_ok:
  "voc_ok v \<Longrightarrow> list_all vcall_ok cs \<Longrightarrow> vcalls cs v = Some v' \<Longrightarrow> voc_ok v'"
proof (induction cs arbitrary: v)
  case (Cons c cs)
  then show ?case by (auto split: bind_splits dest: vcall_keeps_ok)
qed simp

definition demo_frame :: Frame where
  "demo_frame = \<lparr>fstreams = [replicate maxStreamLen 0, replicate maxStreamLen 110, replicate maxStreamLen 0], fvoiced = True\<rparr>"

lemma demo_frame_ok: "frame_ok (fstreams demo_frame)"
  by (simp add: frame_ok_def demo_frame_def size_consts)

section \<open>Properties\<close>





text \<open>
  C22. When the frame period is a multiple of the interpolation period, the filter coefficients,
  which change by a constant step per sample, are exactly those of the pushed frame after one
  frame period, and then stay there.
\<close>

theorem interpolation_reaches_frame:
  assumes "voc_ok v" "frame_ok frame" "prepare frame b ig v = Some v1"
    and "real_of_int defaultSamplingRate / 2 ^ 31 < vf0 v1" "viprd v dvd vfprd v"
    and "nat (vfprd v div viprd v) \<le> length ns" "length ns < 2 ^ 31"
  shows "\<exists>xs v2. vpops ns v1 = Some (xs, v2) \<and> length xs = length ns \<and>
    (\<forall>i. int i \<le> vm v \<longrightarrow>
      cur_c v2 i = warp (valpha v) (take (Suc (nat (vm v))) (frame ! mgcStreamIndex)) ! i)"
proof -
  note v = voc_ok_fits [OF assms(1)]
  obtain v1 where p: "prepare frame b ig v = Some v1" and v1: "voc_inv v1" "filter_fits v1"
      "vm v1 = vm v" "vfprd v1 = vfprd v" "viprd v1 = viprd v" "nOfPopSinceLastPush v1 = 0"
    and nx: "\<And>i. int i \<le> vm v \<Longrightarrow>
      next_c v1 i = warp (valpha v) (take (Suc (nat (vm v))) (frame ! mgcStreamIndex)) ! i"
    and inc: "\<And>i. int i \<le> vm v \<Longrightarrow>
      inc_c v1 i = (next_c v1 i - cur_c v1 i) * real_of_int (viprd v) / real_of_int (vfprd v)"
    using prepare_ok [of v frame b ig] v assms(2) by metis
  have e: "v1 = v1'" if "prepare frame b ig v = Some v1'" for v1' using p that by simp
  obtain xs v2 where r: "vpops ns v1 = Some (xs, v2)" "length xs = length ns"
    and c: "\<And>i. int i \<le> vm v \<Longrightarrow> cur_c v2 i = cur_c v1 i + real (nat (vfprd v div viprd v)) * inc_c v1 i"
    using vpops_ok [OF v1(1,2), of ns] assms(3,4,6,7) e v1 by auto
  obtain q where q: "vfprd v = viprd v * q" using assms(5) by blast
  have pos: "0 < viprd v" "0 < vfprd v" using v by (auto simp: voc_inv_def)
  then have "0 < q" using q by (simp add: zero_less_mult_iff)
  then have k: "real (nat (vfprd v div viprd v)) * real_of_int (viprd v) / real_of_int (vfprd v) = 1"
    using q pos by simp
  have "cur_c v2 i = next_c v1 i" if "int i \<le> vm v" for i
  proof -
    have "real (nat (vfprd v div viprd v)) * inc_c v1 i =
        (next_c v1 i - cur_c v1 i) * (real (nat (vfprd v div viprd v)) * real_of_int (viprd v) / real_of_int (vfprd v))"
      using inc [OF that] by simp
    also have "\<dots> = next_c v1 i - cur_c v1 i" unfolding k by simp
    finally show ?thesis using c [OF that] by simp
  qed
  with nx r e [OF assms(3)] show ?thesis by auto
qed

theorem interpolation_reaches_frame_witness:
  "\<exists>v1 xs v2. prepare (fstreams demo_frame) True False default_vocoder = Some v1 \<and>
    vpops (replicate 240 0) v1 = Some (xs, v2) \<and> length xs = 240"
proof -
  have v: "voc_inv default_vocoder" "vstage default_vocoder = 0" using voc_ok_fits [OF default_vocoder_ok] by auto
  have dv: "vfprd default_vocoder = 240" "viprd default_vocoder = 1" "vaction default_vocoder = noaction"
    by (simp_all add: default_vocoder_def Vocoder_new_def defaultFrameRate_def defaultInterpFrameRate_def)
  obtain m where m: "vm default_vocoder = int m" using voc_invD [OF v(1)] by blast
  have "vf0 v1 = 110" if "prepare (fstreams demo_frame) True False default_vocoder = Some v1" for v1
    using that prepare_mem [OF v m demo_frame_ok, of True False] dv(3)
    by (simp add: frame_pitch_def action_consts demo_frame_def lf0StreamIndex_def size_consts Let_def)
  moreover obtain v1 where "prepare (fstreams demo_frame) True False default_vocoder = Some v1"
    using prepare_ok [OF v demo_frame_ok] by metis
  ultimately show ?thesis
    using interpolation_reaches_frame [OF default_vocoder_ok demo_frame_ok, of True False v1 "replicate 240 0"] dv
    by (simp add: defaultSamplingRate_def) blast
qed

text \<open>
  \<open>setPadeOrder\<close> accepts an order of 6, and the next \<open>pop\<close> then reads past the table of Pade
  coefficients.
\<close>

theorem pade_order_6_overruns:
  assumes "voc_inv v" "vstage v = 0" "setPadeOrder 6 v = Some v'"
  shows "vpop noise v' = None"
proof -
  have v': "v' = v\<lparr>vpd := 6\<rparr>" using assms(3) by (simp add: setPadeOrder_def to_int_def c_trunc_def)
  have "rev [1..6] = [6, 5, 4, 3, 2, 1 :: int]" by (simp add: upto.simps)
  moreover have "c_quot (6 * (6 + 1)) 2 = 21" by simp
  moreover have "length (padesptk v) = 21" using assms(1) by (simp add: voc_inv_def)
  ultimately have "mlsadf (padesptk v) x b m a 6 d mem = None" for x b m a d mem
    by (simp add: mlsadf_def mlsadf1_def mlsadf1_step_def Let_def split: bind_splits)
  then have "apply_filter (v'\<lparr>vcount := k\<rparr>) y = None" for k y
    using assms(2) by (simp add: v' apply_filter_def)
  moreover have "vpop noise v' \<noteq> Some (x, w)" for x w
  proof
    assume p: "vpop noise v' = Some (x, w)"
    obtain x0 v1 where ex: "excite noise v' = Some (x0, v1)"
      using p by (auto simp: vpop_def bind_eq_Some_conv)
    with p calculation excite_state [OF ex] show False by (auto simp: vpop_def bind_eq_Some_conv)
  qed
  ultimately show ?thesis by (metis not_None_eq surj_pair)
qed

theorem pade_order_6_overruns_witness:
  "\<exists>v'. setPadeOrder 6 default_vocoder = Some v' \<and> vpop 0 v' = None"
proof -
  have "setPadeOrder 6 default_vocoder = Some (default_vocoder\<lparr>vpd := 6\<rparr>)"
    by (simp add: setPadeOrder_def to_int_def c_trunc_def)
  with pade_order_6_overruns [of default_vocoder, OF _ _ this] voc_ok_fits [OF default_vocoder_ok] show ?thesis by auto
qed

text \<open>
  \<open>setGamma\<close> sets the number of stages but not \<open>gamma\<close>: on a default synthesiser, the next
  frame reads \<open>gamma\<close> without it ever having been set.
\<close>

theorem setGamma_uninitialised:
  assumes "setGamma g default_vocoder = Some v" "1 \<le> \<bar>g\<bar>"
  shows "prepare frame b ig v = None"
proof -
  have "c_trunc g \<noteq> 0" using assms(2) by (auto simp: c_trunc_def) linarith+
  moreover have "v = default_vocoder\<lparr>vstage := c_trunc g\<rparr>"
    using assms(1) by (auto simp: setGamma_def to_int_def split: bind_splits if_splits)
  moreover have "vgamma default_vocoder = None" "flagFirstPush default_vocoder"
    by (simp_all add: default_vocoder_def Vocoder_new_def defaultGamma_def)
  ultimately have "flagFirstPush v" "mgc_gain 0 v mem = None" for mem
    by (simp_all add: mgc_gain_def)
  then show ?thesis by (auto simp: prepare_def split: bind_splits)
qed

theorem setGamma_uninitialised_witness:
  "\<exists>v. setGamma 2 default_vocoder = Some v \<and> prepare (fstreams demo_frame) True False v = None"
proof -
  have "setGamma 2 default_vocoder = Some (default_vocoder\<lparr>vstage := 2\<rparr>)"
    by (simp add: setGamma_def to_int_def c_trunc_def)
  from setGamma_uninitialised [OF this] this show ?thesis by simp
qed

text \<open>
  \<open>movem\<close> copies a block correctly when source and destination overlap, in either direction:
  the result is that of a copy through a temporary array, and nothing else changes.
\<close>

theorem movem_is_memmove:
  assumes "0 \<le> a" "0 \<le> b" "0 \<le> n" "a + n \<le> int (length mem)" "b + n \<le> int (length mem)"
  shows "\<exists>mem'. movem a b n mem = Some mem' \<and> length mem' = length mem \<and>
    (\<forall>i. 0 \<le> i \<and> i < n \<longrightarrow> mem' ! nat (b + i) = mem ! nat (a + i)) \<and>
    (\<forall>j < length mem. int j < b \<or> b + n \<le> int j \<longrightarrow> mem' ! j = mem ! j)"
proof -
  have "moved a b n mem ! nat (b + i) = mem ! nat (a + i)" if "0 \<le> i" "i < n" for i
    using that assms nth_moved [of "nat (b + i)" mem a b n] by (simp add: moved_def)
  moreover have "moved a b n mem ! j = mem ! j" if "j < length mem" "int j < b \<or> b + n \<le> int j" for j
    using that by (auto simp: moved_def)
  ultimately show ?thesis using movem_ok [OF assms] by auto
qed

theorem movem_is_memmove_witness:
  "\<exists>mem'. movem 0 1 2 [7, 8, 9] = Some mem' \<and> mem' ! 1 = 7 \<and> mem' ! 2 = 8 \<and> mem' ! 0 = 7"
proof -
  from movem_is_memmove [of 0 1 2 "[7, 8, 9]"] obtain mem' where m: "movem 0 1 2 [7, 8, 9] = Some mem'"
    "\<forall>i. 0 \<le> i \<and> i < 2 \<longrightarrow> mem' ! nat (1 + i) = [7, 8, 9] ! nat (0 + i)" "mem' ! 0 = 7" by auto
  from m(2) [THEN spec, of 0] m(2) [THEN spec, of 1] m(1,3) show ?thesis by (simp add: numeral_2_eq_2)
qed

text \<open>
  \<open>mc2b\<close> turns mel-cepstral into filter coefficients: it writes the \<open>m + 1\<close> items from \<open>b\<close> on
  and nothing else, and the mel-cepstrum is recovered from them by \<open>mc[i] = b[i] + alpha * b[i + 1]\<close>.
\<close>

theorem mc2b_invertible:
  assumes "m < length mc" "b + m < length mem"
  shows "\<exists>mem'. mc2b mc (int b) (int m) a mem = Some mem' \<and> length mem' = length mem \<and>
    (\<forall>i < m. mem' ! (b + i) + a * mem' ! (b + Suc i) = mc ! i) \<and> mem' ! (b + m) = mc ! m \<and>
    (\<forall>j < length mem. j < b \<or> b + m < j \<longrightarrow> mem' ! j = mem ! j)"
proof -
  let ?w = "warp a (take (Suc m) mc)"
  have len: "length ?w = Suc m" "b + length ?w \<le> length mem" using assms by simp_all
  have nth: "patch mem b ?w ! (b + i) = ?w ! i" if "i \<le> m" for i
    using that assms nth_patch [of b ?w mem "b + i"] by simp
  have "patch mem b ?w ! (b + i) + a * patch mem b ?w ! (b + Suc i) = mc ! i" if "i < m" for i
    using that assms(1) nth [of i] nth [of "Suc i"] warp_inverse [of i "take (Suc m) mc" a] by simp
  moreover have "patch mem b ?w ! (b + m) = mc ! m"
    using nth [of m] warp_last [of "take (Suc m) mc" a] assms(1) by (simp add: last_conv_nth take_Suc_conv_app_nth)
  moreover have "patch mem b ?w ! j = mem ! j" if "j < length mem" "j < b \<or> b + m < j" for j
    using that assms nth_patch [of b ?w mem j] by auto
  ultimately show ?thesis using mc2b_ok [OF assms, of a] length_patch [OF len(2)] by simp
qed

theorem mc2b_invertible_witness:
  "\<exists>mem'. mc2b [5, 2] 0 1 3 [0, 0, 9] = Some mem' \<and> mem' ! 0 + 3 * mem' ! 1 = 5 \<and> mem' ! 2 = 9"
  using mc2b_invertible [of 1 "[5, 2]" 0 "[0, 0, 9]" 3] by auto

end
