(* ===== verification/ModelQueue.thy ===== *)
theory ModelQueue
  imports Model MemQueue MLPG Vocoder
begin

text \<open>
  \<open>MAGE::ModelQueue\<close> (\<open>mage/src/ModelQueue.cpp\<close>) and \<open>FrameQueue\<close>: the models of the labels in
  the window, the parameter trajectories that are made from them and the frames of the newest
  one.

  The arrays of \<open>ModelQueueMemory\<close> are maps from their indices, and the bounds they were
  allocated with (\<open>maxNumOfFrames\<close> frames, \<open>maxStreamLen\<close> coefficients, \<open>maxWindowWidth\<close> bands)
  are checked at every write; \<open>None\<close> is an access outside them. The three nested loops over the
  models of the window, their states and the frames of a state are the list \<open>visits\<close>.
  \<open>generate\<close> waits while the frame queue is full; the frames it makes are
  \<open>generate_frames\<close>, and their transfer through the queue is the step relation \<open>xfer\<close>, in which
  the other thread removes frames. \<open>mlsacheck\<close> of the SPTK library is a parameter.
\<close>

section \<open>Memory\<close>

definition maxWindowWidth :: nat where "maxWindowWidth = 50"
definition useLF0 :: bool where "useLF0 = True"
definition useMELF0 :: bool where "useMELF0 = False"

record ModelQueueMemory =
  mm_mean :: "nat \<Rightarrow> nat \<Rightarrow> nat \<Rightarrow> real"
  mm_ivar :: "nat \<Rightarrow> nat \<Rightarrow> nat \<Rightarrow> real"
  mm_par :: "nat \<Rightarrow> nat \<Rightarrow> nat \<Rightarrow> real"
  mm_gv_mean :: "nat \<Rightarrow> nat \<Rightarrow> real"
  mm_gv_vari :: "nat \<Rightarrow> nat \<Rightarrow> real"
  mm_gv_switch :: "nat \<Rightarrow> nat \<Rightarrow> bool"
  mm_g :: "nat \<Rightarrow> nat \<Rightarrow> real"
  mm_wum :: "nat \<Rightarrow> nat \<Rightarrow> real"
  mm_wuw :: "nat \<Rightarrow> nat \<Rightarrow> nat \<Rightarrow> real"
  voiced_unvoiced :: "nat \<Rightarrow> bool"

definition ModelQueueMemory_new :: ModelQueueMemory where
  "ModelQueueMemory_new =
     \<lparr>mm_mean = (\<lambda>_ _ _. 0), mm_ivar = (\<lambda>_ _ _. 0), mm_par = (\<lambda>_ _ _. 0),
      mm_gv_mean = (\<lambda>_ _. 0), mm_gv_vari = (\<lambda>_ _. 0), mm_gv_switch = (\<lambda>_ _. False),
      mm_g = (\<lambda>_ _. 0), mm_wum = (\<lambda>_ _. 0), mm_wuw = (\<lambda>_ _ _. 0), voiced_unvoiced = (\<lambda>_. False)\<rparr>"

section \<open>Walking the window\<close>

definition model_at :: "Model MemQueue \<Rightarrow> nat \<Rightarrow> Model option" where
  "model_at q w = (if qlength q = 0 then None else arr_get (rawData q) ((qread q + w) mod qlength q))"

definition window_models :: "Model MemQueue \<Rightarrow> nat \<Rightarrow> Model list option" where
  "window_models q n = traverse (model_at q) [0..<n]"

definition model_visits :: "Model \<Rightarrow> (Model \<times> State) list" where
  "model_visits m = concat (map (\<lambda>s. replicate (nat (sduration s)) (m, s)) (state m))"

definition visits :: "Model list \<Rightarrow> (Model \<times> State) list" where
  "visits ms = concat (map model_visits ms)"

definition voiced_state :: "Engine \<Rightarrow> State \<Rightarrow> bool option" where
  "voiced_state e s = do {
     row \<leftarrow> arr_get (streams s) lf0StreamIndex;
     d \<leftarrow> arr_get row 0;
     t \<leftarrow> arr_get (msd_threshold e) lf0StreamIndex;
     Some (msdFlag d > t) }"

definition set_voiced :: "Engine \<Rightarrow> (Model \<times> State) list \<Rightarrow> ModelQueueMemory \<Rightarrow> ModelQueueMemory option" where
  "set_voiced e vs mem =
     foldM (\<lambda>mem (frame, (m, s)). do {
         v \<leftarrow> voiced_state e s;
         if frame < maxNumOfFrames then Some (mem\<lparr>voiced_unvoiced := (voiced_unvoiced mem)(frame := v)\<rparr>) else None })
       mem (List.enumerate 0 vs)"

section \<open>\<open>optimizeParameters\<close>\<close>

text \<open>Whether the whole window \<open>k\<close> at a frame lies within the frames (for MSD, within voiced ones).\<close>

definition not_bound :: "bool \<Rightarrow> HTS_Stream \<Rightarrow> nat \<Rightarrow> nat \<Rightarrow> int \<Rightarrow> ModelQueueMemory \<Rightarrow> bool option" where
  "not_bound msd str k frame tdur mem = do {
     l \<leftarrow> arr_get (l_width (window str)) k;
     r \<leftarrow> arr_get (r_width (window str)) k;
     foldM (\<lambda>nb j.
         if \<not> nb then Some False
         else if int frame + j < 0 \<or> tdur \<le> int frame + j then Some False
         else if msd then (if int frame + j < int maxNumOfFrames
                           then Some (voiced_unvoiced mem (nat (int frame + j))) else None)
         else Some True)
       True [l..r] }"

definition write_feature :: "nat \<Rightarrow> nat \<Rightarrow> bool \<Rightarrow> nat \<Rightarrow> Model \<Rightarrow> State \<Rightarrow> nat \<Rightarrow> ModelQueueMemory \<Rightarrow>
    ModelQueueMemory option" where
  "write_feature i fr nb k mdl s m mem = do {
     row \<leftarrow> arr_get (streams s) i;
     d \<leftarrow> arr_get row m;
     s0 \<leftarrow> getState mdl 0;
     grow \<leftarrow> arr_get (gv_streams s0) i;
     gd \<leftarrow> arr_get grow m;
     if fr < maxNumOfFrames \<and> m < maxStreamLen
     then Some (mem\<lparr>
       mm_mean := (mm_mean mem)(i := (mm_mean mem i)(fr := (mm_mean mem i fr)(m := dmean d))),
       mm_ivar := (mm_ivar mem)(i := (mm_ivar mem i)(fr := (mm_ivar mem i fr)
                    (m := if nb \<or> k = 0 then HTS_finv (dvari d) else 0))),
       mm_gv_mean := (mm_gv_mean mem)(i := (mm_gv_mean mem i)(m := dmean gd)),
       mm_gv_vari := (mm_gv_vari mem)(i := (mm_gv_vari mem i)(m := dvari gd))\<rparr>)
     else None }"

definition write_gv_switch :: "nat \<Rightarrow> nat \<Rightarrow> State \<Rightarrow> ModelQueueMemory \<Rightarrow> ModelQueueMemory option" where
  "write_gv_switch i ix s mem = do {
     b \<leftarrow> arr_get (gv_switch_streams s) i;
     if ix < maxNumOfFrames * maxStreamLen
     then Some (mem\<lparr>mm_gv_switch := (mm_gv_switch mem)(i := (mm_gv_switch mem i)(ix := b))\<rparr>) else None }"

text \<open>One frame of stream \<open>i\<close>; \<open>fr\<close> is its row of the matrices.\<close>

definition write_frame :: "HTS_Stream \<Rightarrow> nat \<Rightarrow> int \<Rightarrow> nat \<Rightarrow> nat \<Rightarrow> Model \<times> State \<Rightarrow> ModelQueueMemory \<Rightarrow>
    ModelQueueMemory option" where
  "write_frame str i tdur frame fr = (\<lambda>(mdl, s) mem.
     foldM (\<lambda>mem k. do {
         nb \<leftarrow> not_bound (msd_flag str) str k frame tdur mem;
         let sl = vector_length str div wsize (window str);
         foldM (\<lambda>mem l. do {
             mem \<leftarrow> write_feature i fr nb k mdl s (sl * k + l) mem;
             if msd_flag str then Some mem
             else do { s0 \<leftarrow> getState mdl 0; write_gv_switch i (sl * k + l) s0 mem } })
           mem [0..<sl] })
       mem [0..<wsize (window str)])"

definition write_stream :: "HTS_Stream \<Rightarrow> nat \<Rightarrow> int \<Rightarrow> (Model \<times> State) list \<Rightarrow> ModelQueueMemory \<Rightarrow>
    (nat \<times> ModelQueueMemory) option" where
  "write_stream str i tdur vs mem =
     (if msd_flag str
      then foldM (\<lambda>(msd_frame, mem) (frame, v).
             if voiced_unvoiced mem frame then do {
               mem \<leftarrow> write_frame str i tdur frame msd_frame v mem;
               mem \<leftarrow> write_gv_switch i msd_frame (snd v) mem;
               Some (msd_frame + 1, mem) }
             else Some (msd_frame, mem))
           (0, mem) (List.enumerate 0 vs)
      else foldM (\<lambda>(n, mem) (frame, v). do {
               mem \<leftarrow> write_frame str i tdur frame frame v mem;
               Some (frame + 1, mem) })
           (0, mem) (List.enumerate 0 vs))"

text \<open>The struct handed to \<open>HTS_PStream_mlpg\<close>, whose arrays are those of the memory.\<close>

definition pstream_of :: "HTS_Stream \<Rightarrow> nat \<Rightarrow> nat \<Rightarrow> ModelQueueMemory \<Rightarrow> PStream" where
  "pstream_of str i len mem =
     \<lparr>plength = len, pwidth = max_width (window str) * 2 + 1, win_size = wsize (window str),
      win_l_width = (\<lambda>k. l_width (window str) ! k), win_r_width = (\<lambda>k. r_width (window str) ! k),
      win_coefficient = coefficient (window str),
      static_length = vector_length str div wsize (window str),
      sm_mean = mm_mean mem i, sm_ivar = mm_ivar mem i, sm_wum = mm_wum mem i, sm_wuw = mm_wuw mem i,
      sm_g = mm_g mem i, par = mm_par mem i, gv_mean = mm_gv_mean mem i, gv_vari = mm_gv_vari mem i,
      gv_switch = mm_gv_switch mem i, gv_length = (if use_gv str then len else 0)\<rparr>"

definition run_mlpg :: "HTS_Stream \<Rightarrow> nat \<Rightarrow> nat \<Rightarrow> ModelQueueMemory \<Rightarrow> ModelQueueMemory option" where
  "run_mlpg str i len mem =
     (if max_width (window str) * 2 + 1 \<le> maxWindowWidth
      then (let p = HTS_PStream_mlpg (pstream_of str i len mem)
            in Some (mem\<lparr>mm_wum := (mm_wum mem)(i := sm_wum p), mm_wuw := (mm_wuw mem)(i := sm_wuw p),
                         mm_g := (mm_g mem)(i := sm_g p), mm_par := (mm_par mem)(i := par p)\<rparr>))
      else None)"

definition optimize_stream :: "Engine \<Rightarrow> int \<Rightarrow> (Model \<times> State) list \<Rightarrow> ModelQueueMemory \<Rightarrow> nat \<Rightarrow>
    ModelQueueMemory option" where
  "optimize_stream e tdur vs mem i = do {
     str \<leftarrow> arr_get (estreams e) i;
     if wsize (window str) = 0 then None
     else do { (len, mem) \<leftarrow> write_stream str i tdur vs mem; run_mlpg str i len mem } }"

definition optimizeParameters :: "Model MemQueue \<Rightarrow> Engine \<Rightarrow> nat \<Rightarrow> nat \<Rightarrow> ModelQueueMemory \<Rightarrow>
    ModelQueueMemory option" where
  "optimizeParameters q e backup lookup mem = do {
     ms \<leftarrow> window_models q (backup + lookup + 1);
     let vs = visits ms;
     tdur \<leftarrow> c_int (sum_list (map getDuration ms));
     mem \<leftarrow> set_voiced e vs mem;
     foldM (optimize_stream e tdur vs) mem [0..<nOfStreams] }"

section \<open>\<open>generate\<close>\<close>

text \<open>The counters are \<open>unsigned int\<close>, and durations are converted to it.\<close>

text \<open>\<open>qStream[i]\<close>: how many rows of each stream the models already used take.\<close>

definition count_state :: "Engine \<Rightarrow> State \<Rightarrow> nat list \<Rightarrow> nat list option" where
  "count_state e s qs = do {
     v \<leftarrow> voiced_state e s;
     Some (map (\<lambda>i. if i \<noteq> lf0StreamIndex \<or> v then u32 (qs ! i + nat (sduration s mod 2 ^ 32)) else qs ! i) [0..<nOfStreams]) }"

definition backup_rows :: "Engine \<Rightarrow> Model list \<Rightarrow> nat list option" where
  "backup_rows e ms = foldM (\<lambda>qs s. count_state e s qs) (replicate nOfStreams 0) (concat (map state ms))"

definition copy_row :: "real list \<Rightarrow> nat \<Rightarrow> (nat \<Rightarrow> real) \<Rightarrow> real list option" where
  "copy_row row n f = (if n \<le> length row then Some (map f [0..<n] @ drop n row) else None)"

text \<open>One stream of one frame; the fields of the slot that are not assigned keep what they had.\<close>

definition frame_stream :: "(real list \<Rightarrow> nat \<Rightarrow> real list) \<Rightarrow> Engine \<Rightarrow> ModelQueueMemory \<Rightarrow> State \<Rightarrow>
    Frame \<times> nat list \<Rightarrow> nat \<Rightarrow> (Frame \<times> nat list) option" where
  "frame_stream mlsacheck e mem s = (\<lambda>(frame, qs) i. do {
     index \<leftarrow> arr_get qs i;
     row \<leftarrow> arr_get (fstreams frame) i;
     if i = lf0StreamIndex then do {
       v \<leftarrow> voiced_state e s;
       if v then
         (if index < maxNumOfFrames then do {
            let x = mm_par mem i index 0;
            row \<leftarrow> (if useLF0 then arr_set row 0 (exp x) else Some row);
            row \<leftarrow> (if useMELF0 then arr_set row 0 (700 * (exp (x / 1127) - 1)) else Some row);
            Some (frame\<lparr>fvoiced := True, fstreams := (fstreams frame)[i := row]\<rparr>, qs[i := u32 (index + 1)]) }
          else None)
       else do {
         row \<leftarrow> arr_set row 0 0;
         Some (frame\<lparr>fvoiced := False, fstreams := (fstreams frame)[i := row]\<rparr>, qs) } }
     else do {
       str \<leftarrow> arr_get (estreams e) i;
       if index < maxNumOfFrames then do {
         row \<leftarrow> copy_row row (vector_length str) (mm_par mem i index);
         let row = (if i = mgcStreamIndex then mlsacheck row index else row);
         Some (frame\<lparr>fstreams := (fstreams frame)[i := row]\<rparr>, qs[i := u32 (index + 1)]) }
       else None } })"

definition make_frame :: "(real list \<Rightarrow> nat \<Rightarrow> real list) \<Rightarrow> Engine \<Rightarrow> ModelQueueMemory \<Rightarrow> State \<Rightarrow>
    Frame \<Rightarrow> nat list \<Rightarrow> (Frame \<times> nat list) option" where
  "make_frame mlsacheck e mem s slot qs = foldM (frame_stream mlsacheck e mem s) (slot, qs) [0..<nOfStreams]"

definition generate_frames :: "(real list \<Rightarrow> nat \<Rightarrow> real list) \<Rightarrow> Engine \<Rightarrow> ModelQueueMemory \<Rightarrow> Frame list \<Rightarrow>
    State list \<Rightarrow> nat list \<Rightarrow> (Frame list \<times> nat list) option" where
  "generate_frames mlsacheck e mem slots ss qs =
     foldM (\<lambda>(fs, qs) s. do {
         slot \<leftarrow> arr_get slots (length fs);
         (f, qs) \<leftarrow> make_frame mlsacheck e mem s slot qs;
         Some (fs @ [f], qs) })
       ([], qs) ss"

definition generate :: "(real list \<Rightarrow> nat \<Rightarrow> real list) \<Rightarrow> Model MemQueue \<Rightarrow> Engine \<Rightarrow> nat \<Rightarrow> ModelQueueMemory \<Rightarrow>
    Frame list \<Rightarrow> Frame list option" where
  "generate mlsacheck q e backup mem slots = do {
     ms \<leftarrow> window_models q backup;
     qs \<leftarrow> backup_rows e ms;
     head \<leftarrow> model_at q backup;
     (fs, qs) \<leftarrow> generate_frames mlsacheck e mem slots
        (concat (map (\<lambda>s. replicate (nat (sduration s mod 2 ^ 32)) s) (state head))) qs;
     Some fs }"

section \<open>The frame queue between two threads\<close>

text \<open>
  The producer writes its next frame when the queue is not full and waits otherwise; the
  consumer removes the oldest frame when there is one.
\<close>

record xstate =
  todo :: "Frame list"
  fqueue :: "Frame MemQueue"
  done_frames :: "Frame list"

inductive xfer :: "xstate \<Rightarrow> xstate \<Rightarrow> bool" where
  produce: "todo s = f # fs \<Longrightarrow> \<not> isFull (fqueue s) \<Longrightarrow> write_next (fqueue s) f = Some q \<Longrightarrow>
    xfer s (s\<lparr>todo := fs, fqueue := q\<rparr>)"
| consume: "\<not> isEmpty (fqueue s) \<Longrightarrow> read_front (fqueue s) = Some (f, q) \<Longrightarrow>
    xfer s (s\<lparr>fqueue := q, done_frames := done_frames s @ [f]\<rparr>)"

inductive xfers :: "xstate \<Rightarrow> xstate \<Rightarrow> bool" where
  xfers_refl: "xfers s s"
| xfers_step: "xfers s t \<Longrightarrow> xfer t u \<Longrightarrow> xfers s u"

inductive_cases xferE: "xfer s t"

definition x_inv :: "Frame list \<Rightarrow> nat \<Rightarrow> xstate \<Rightarrow> bool" where
  "x_inv fs cap s \<longleftrightarrow> mq_inv (fqueue s) \<and> qlength (fqueue s) = cap \<and>
     done_frames s @ mq_contents (fqueue s) @ todo s = fs"

lemma xfer_inv: "xfer s t \<Longrightarrow> x_inv fs cap s \<Longrightarrow> x_inv fs cap t"
proof (induction rule: xfer.induct)
  case (produce s f fs' q)
  then show ?case using memq.enq_ok [of "fqueue s" f] by (auto simp: x_inv_def)
next
  case (consume s f q)
  then have "mq_contents (fqueue s) \<noteq> []" using memq.emp_iff by (auto simp: x_inv_def)
  then show ?case using consume memq.deq_ok [of "fqueue s"] by (fastforce simp: x_inv_def)
qed

lemma xfers_inv: "xfers s t \<Longrightarrow> x_inv fs cap s \<Longrightarrow> x_inv fs cap t"
  by (induction rule: xfers.induct) (auto dest: xfer_inv)

text \<open>Until all frames have arrived one of the two threads can move.\<close>

lemma xfer_progress:
  assumes "x_inv fs cap s" "0 < cap" "done_frames s \<noteq> fs"
  shows "\<exists>t. xfer s t"
proof (cases "isEmpty (fqueue s)")
  case True
  then have "mq_contents (fqueue s) = []" using assms(1) memq.emp_iff by (auto simp: x_inv_def)
  moreover from this assms have "\<not> isFull (fqueue s)" using memq.full_iff [of "fqueue s"] by (auto simp: x_inv_def)
  moreover obtain f gs where "todo s = f # gs"
    using assms calculation(1) by (cases "todo s") (auto simp: x_inv_def)
  ultimately show ?thesis
    using assms(1) memq.enq_ok [of "fqueue s" f] produce by (fastforce simp: x_inv_def)
next
  case False
  then show ?thesis
    using assms(1) memq.deq_ok [of "fqueue s"] consume by (fastforce simp: x_inv_def)
qed

text \<open>Every move brings the transfer closer to its end.\<close>

definition xmeasure :: "xstate \<Rightarrow> nat" where
  "xmeasure s = 2 * length (todo s) + length (mq_contents (fqueue s))"

lemma xfer_decreases: "xfer s t \<Longrightarrow> x_inv fs cap s \<Longrightarrow> xmeasure t < xmeasure s"
proof (induction rule: xfer.induct)
  case (produce s f fs' q)
  then show ?case using memq.enq_ok [of "fqueue s" f] by (auto simp: x_inv_def xmeasure_def)
next
  case (consume s f q)
  then have "mq_contents (fqueue s) \<noteq> []" using memq.emp_iff by (auto simp: x_inv_def)
  then show ?case using consume memq.deq_ok [of "fqueue s"]
    by (cases "mq_contents (fqueue s)") (fastforce simp: x_inv_def xmeasure_def)+
qed

lemma xfers_trans1: "xfer s t \<Longrightarrow> xfers t u \<Longrightarrow> xfers s u"
  by (rotate_tac, induction rule: xfers.induct) (auto intro: xfers.intros)

lemma xfer_completes:
  assumes "x_inv fs cap s" "0 < cap"
  shows "\<exists>t. xfers s t \<and> done_frames t = fs"
  using assms(1)
proof (induction "xmeasure s" arbitrary: s rule: less_induct)
  case less
  show ?case
  proof (cases "done_frames s = fs")
    case False
    then obtain u where u: "xfer s u" using xfer_progress [OF less.prems assms(2)] by blast
    then show ?thesis
      using less.hyps [OF xfer_decreases [OF u less.prems] xfer_inv [OF u less.prems]] xfers_trans1 by blast
  qed (blast intro: xfers_refl)
qed

section \<open>Lemmas: the window fits the memory\<close>

lemma foldM_enum:
  assumes "P 0 s" "\<And>i s. i < length vs \<Longrightarrow> P i s \<Longrightarrow> \<exists>s'. f s (i, vs ! i) = Some s' \<and> P (Suc i) s'"
  shows "\<exists>s'. foldM f s (List.enumerate 0 vs) = Some s' \<and> P (length vs) s'"
  using assms
proof (induction vs rule: rev_induct)
  case (snoc v vs)
  have "\<exists>s'. foldM f s (List.enumerate 0 vs) = Some s' \<and> P (length vs) s'"
  proof (rule snoc.IH)
    fix i s assume "i < length vs" "P i s"
    then show "\<exists>s'. f s (i, vs ! i) = Some s' \<and> P (Suc i) s'"
      using snoc.prems(2) [of i s] by (simp add: nth_append)
  qed (rule snoc.prems(1))
  then obtain s1 where "foldM f s (List.enumerate 0 vs) = Some s1" "P (length vs) s1" by blast
  then show ?case using snoc.prems(2) [of "length vs" s1] by (simp add: enumerate_append_eq)
qed simp

text \<open>The models that \<open>Mage\<close> puts in the queue.\<close>

definition queued_ok :: "Model \<Rightarrow> bool" where
  "queued_ok m \<longleftrightarrow> model_ok m \<and> duration_ok m \<and>
     (\<forall>s \<in> set (state m). length (gv_switch_streams s) = nOfStreams)"

definition windows_loaded :: "HTS_Stream \<Rightarrow> bool" where
  "windows_loaded str \<longleftrightarrow> 0 < wsize (window str) \<and> length (l_width (window str)) = wsize (window str) \<and>
     length (r_width (window str)) = wsize (window str) \<and> max_width (window str) * 2 + 1 \<le> maxWindowWidth"

definition engine_ok :: "Engine \<Rightarrow> bool" where
  "engine_ok e \<longleftrightarrow> voice_ok e \<and> (\<forall>str \<in> set (estreams e). windows_loaded str)"

lemma length_model_visits:
  assumes "duration_ok m"
  shows "int (length (model_visits m)) = mduration m"
proof -
  have "int (sum_list (map (\<lambda>s. nat (sduration s)) ss)) = total_duration ss"
    if "\<forall>s \<in> set ss. 0 \<le> sduration s" for ss
    using that by (induction ss) (auto simp: total_duration_def)
  then show ?thesis
    using assms by (simp add: model_visits_def length_concat comp_def duration_ok_def)
qed

lemma length_visits:
  assumes "\<forall>m \<in> set ms. queued_ok m"
  shows "int (length (visits ms)) = sum_list (map getDuration ms)"
    and "sum_list (map getDuration ms) \<le> int (length ms) * maxDuration"
proof -
  show "int (length (visits ms)) = sum_list (map getDuration ms)"
    using assms by (induction ms) (auto simp: visits_def queued_ok_def getDuration_def length_model_visits)
  show "sum_list (map getDuration ms) \<le> int (length ms) * maxDuration"
  proof -
    have "\<forall>m \<in> set ms. getDuration m \<le> maxDuration"
      using assms by (auto simp: queued_ok_def duration_ok_def getDuration_def)
    then show ?thesis by (induction ms) (auto simp: algebra_simps)
  qed
qed

lemma visits_members: "(m, s) \<in> set (visits ms) \<Longrightarrow> m \<in> set ms \<and> s \<in> set (state m)"
  by (auto simp: visits_def model_visits_def)

lemma stateD:
  assumes "queued_ok m" "s \<in> set (state m)" "i < nOfStreams" "j < maxStreamLen"
  shows "i < length (streams s)" "j < length (streams s ! i)" "i < length (gv_streams s)"
    "j < length (gv_streams s ! i)" "i < length (gv_switch_streams s)"
  using assms by (auto simp: queued_ok_def model_ok_def)

lemma voiced_state_ok:
  assumes "voice_ok e" "queued_ok m" "s \<in> set (state m)"
  shows "\<exists>v. voiced_state e s = Some v"
  using stateD [OF assms(2,3), of lf0StreamIndex 0] assms(1)
  by (simp add: voiced_state_def voice_ok_def size_consts)

lemma set_voiced_ok:
  assumes "voice_ok e" "\<forall>m \<in> set ms. queued_ok m" "length (visits ms) \<le> maxNumOfFrames"
  shows "\<exists>mem'. set_voiced e (visits ms) mem = Some mem'"
proof -
  have "\<exists>s'. set_voiced e (visits ms) mem = Some s' \<and> True"
    unfolding set_voiced_def
  proof (rule foldM_enum [where P = "\<lambda>_ _. True"])
    fix i and mem :: ModelQueueMemory assume i: "i < length (visits ms)"
    obtain m s where v: "visits ms ! i = (m, s)" by (cases "visits ms ! i")
    then have "m \<in> set ms" "s \<in> set (state m)" using visits_members nth_mem [OF i] by auto
    then obtain b where "voiced_state e s = Some b" using voiced_state_ok assms(1,2) by blast
    with v i assms(3) show "\<exists>mem'. (case (i, visits ms ! i) of (frame, m, s) \<Rightarrow> do {
         v \<leftarrow> voiced_state e s;
         if frame < maxNumOfFrames then Some (mem\<lparr>voiced_unvoiced := (voiced_unvoiced mem)(frame := v)\<rparr>) else None })
        = Some mem' \<and> True" by simp
  qed simp
  then show ?thesis by blast
qed

lemma not_bound_ok:
  assumes "windows_loaded str" "k < wsize (window str)" "tdur \<le> int maxNumOfFrames"
  shows "\<exists>b. not_bound msd str k frame tdur mem = Some b"
proof -
  have "\<exists>b. foldM (\<lambda>nb j.
         if \<not> nb then Some False
         else if int frame + j < 0 \<or> tdur \<le> int frame + j then Some False
         else if msd then (if int frame + j < int maxNumOfFrames
                           then Some (voiced_unvoiced mem (nat (int frame + j))) else None)
         else Some True) True js = Some b \<and> True" for js
    by (rule foldM_inv) (use assms(3) in auto)
  then show ?thesis using assms(1,2) by (simp add: not_bound_def windows_loaded_def)
qed

lemma foldM_upt:
  assumes "P 0 s" "\<And>i s. i < n \<Longrightarrow> P i s \<Longrightarrow> \<exists>s'. f s i = Some s' \<and> P (Suc i) s'"
  shows "\<exists>s'. foldM f s [0..<n] = Some s' \<and> P n s'"
  using assms by (induction n) fastforce+

text \<open>
  \<open>written str i fr s nbf n mem mem'\<close>: \<open>mem'\<close> is \<open>mem\<close> with the first \<open>n\<close> coefficients of row
  \<open>fr\<close> of stream \<open>i\<close> taken from the state \<open>s\<close>; \<open>nbf k\<close> says whether window \<open>k\<close> fits.
\<close>

definition row_ivar :: "HTS_Stream \<Rightarrow> nat \<Rightarrow> State \<Rightarrow> (nat \<Rightarrow> bool) \<Rightarrow> nat \<Rightarrow> real" where
  "row_ivar str i s nbf m =
     (let k = m div (vector_length str div wsize (window str))
      in if nbf k \<or> k = 0 then HTS_finv (dvari (streams s ! i ! m)) else 0)"

definition written :: "HTS_Stream \<Rightarrow> nat \<Rightarrow> nat \<Rightarrow> State \<Rightarrow> (nat \<Rightarrow> bool) \<Rightarrow> nat \<Rightarrow> ModelQueueMemory \<Rightarrow>
    ModelQueueMemory \<Rightarrow> bool" where
  "written str i fr s nbf n mem mem' \<longleftrightarrow>
     voiced_unvoiced mem' = voiced_unvoiced mem \<and> mm_par mem' = mm_par mem \<and>
     (\<forall>i' fr'. (i', fr') \<noteq> (i, fr) \<longrightarrow> mm_mean mem' i' fr' = mm_mean mem i' fr' \<and> mm_ivar mem' i' fr' = mm_ivar mem i' fr') \<and>
     (\<forall>m < n. mm_mean mem' i fr m = dmean (streams s ! i ! m) \<and> mm_ivar mem' i fr m = row_ivar str i s nbf m)"

lemma write_feature_ok:
  assumes "queued_ok mdl" "s \<in> set (state mdl)" "i < nOfStreams" "fr < maxNumOfFrames" "m < maxStreamLen"
    and "written str i fr s nbf m mem mem'" "k = m div (vector_length str div wsize (window str))"
  shows "\<exists>mem''. write_feature i fr (nbf k) k mdl s m mem' = Some mem'' \<and> written str i fr s nbf (Suc m) mem mem''"
proof -
  have st: "0 < length (state mdl)" using assms(1) by (simp add: queued_ok_def model_ok_def size_consts)
  then have "state mdl ! 0 \<in> set (state mdl)" by simp
  with st stateD [OF assms(1,2,3,5)] stateD [OF assms(1) _ assms(3,5), of "state mdl ! 0"] assms(4,5,6,7)
  show ?thesis
    by (auto simp: write_feature_def getState_def written_def row_ivar_def less_Suc_eq Let_def)
qed

lemma write_gv_switch_ok:
  assumes "i < length (gv_switch_streams s)" "ix < maxNumOfFrames * maxStreamLen"
    and "written str i fr s' nbf n mem mem'"
  shows "\<exists>mem''. write_gv_switch i ix s mem' = Some mem'' \<and> written str i fr s' nbf n mem mem''"
  using assms by (simp add: write_gv_switch_def written_def)

lemma not_bound_cong:
  "voiced_unvoiced mem' = voiced_unvoiced mem \<Longrightarrow> not_bound msd str k fr td mem' = not_bound msd str k fr td mem"
  by (simp only: not_bound_def)

lemma feature_index:
  fixes k l sl n :: nat
  assumes "k < n" "l < v div n"
  shows "(v div n) * k + l < v" "((v div n) * k + l) div (v div n) = k"
proof -
  have "(v div n) * k + l < (v div n) * Suc k" using assms(2) by simp
  also have "\<dots> \<le> (v div n) * n" using assms(1) by (intro mult_le_mono) auto
  also have "\<dots> \<le> v" by simp
  finally show "(v div n) * k + l < v" .
  show "((v div n) * k + l) div (v div n) = k" using assms(2) by simp
qed

lemma write_frame_ok:
  fixes mem :: ModelQueueMemory and frame :: nat
  assumes q: "queued_ok mdl" "s \<in> set (state mdl)" "i < nOfStreams" "fr < maxNumOfFrames"
    and str: "windows_loaded str" "vector_length str \<le> maxStreamLen" "tdur \<le> int maxNumOfFrames"
  defines "nbf \<equiv> \<lambda>k. the (not_bound (msd_flag str) str k frame tdur mem)"
  shows "\<exists>mem'. write_frame str i tdur frame fr (mdl, s) mem = Some mem' \<and>
    written str i fr s nbf ((vector_length str div wsize (window str)) * wsize (window str)) mem mem'"
proof -
  let ?n = "wsize (window str)"
  let ?sl = "vector_length str div ?n"
  let ?W = "written str i fr s nbf"
  have "?W 0 mem mem" by (simp add: written_def)
  moreover have "\<exists>mem'. (do {
         nb \<leftarrow> not_bound (msd_flag str) str k frame tdur m0;
         let sl = ?sl;
         foldM (\<lambda>mem l. do {
             mem \<leftarrow> write_feature i fr nb k mdl s (sl * k + l) mem;
             if msd_flag str then Some mem
             else do { s0 \<leftarrow> getState mdl 0; write_gv_switch i (sl * k + l) s0 mem } })
           m0 [0..<sl] }) = Some mem' \<and> ?W (?sl * Suc k) mem mem'"
    if k: "k < ?n" and m0: "?W (?sl * k) mem m0" for k m0
  proof -
    have nb: "not_bound (msd_flag str) str k frame tdur m0 = Some (nbf k)"
      using not_bound_ok [OF str(1) k str(3), of "msd_flag str" frame mem] m0 not_bound_cong [of m0 mem]
      by (auto simp: nbf_def written_def)
    have "\<exists>mem'. foldM (\<lambda>mem l. do {
             mem \<leftarrow> write_feature i fr (nbf k) k mdl s (?sl * k + l) mem;
             if msd_flag str then Some mem
             else do { s0 \<leftarrow> getState mdl 0; write_gv_switch i (?sl * k + l) s0 mem } })
           m0 [0..<?sl] = Some mem' \<and> ?W (?sl * k + ?sl) mem mem'"
    proof (rule foldM_upt [where P = "\<lambda>l. ?W (?sl * k + l) mem"])
      fix l m1 assume l: "l < ?sl" and m1: "?W (?sl * k + l) mem m1"
      note ix = feature_index [OF k l]
      have ml: "?sl * k + l < maxStreamLen" using ix(1) str(2) by simp
      obtain m2 where m2: "write_feature i fr (nbf k) k mdl s (?sl * k + l) m1 = Some m2"
          "?W (Suc (?sl * k + l)) mem m2"
        using write_feature_ok [OF q ml m1 ix(2) [symmetric]] by blast
      have st: "0 < length (state mdl)" using q(1) by (simp add: queued_ok_def model_ok_def size_consts)
      then have s0: "getState mdl 0 = Some (state mdl ! 0)" "state mdl ! 0 \<in> set (state mdl)"
        by (simp_all add: getState_def)
      have "?sl * k + l < maxNumOfFrames * maxStreamLen" using ml by (simp add: size_consts)
      then obtain m3 where "write_gv_switch i (?sl * k + l) (state mdl ! 0) m2 = Some m3"
          "?W (Suc (?sl * k + l)) mem m3"
        using write_gv_switch_ok [OF _ _ m2(2)] stateD(5) [OF q(1) s0(2) q(3), of 0] by (auto simp: size_consts)
      with m2 s0 show "\<exists>m'. (do {
             mem \<leftarrow> write_feature i fr (nbf k) k mdl s (?sl * k + l) m1;
             if msd_flag str then Some mem
             else do { s0 \<leftarrow> getState mdl 0; write_gv_switch i (?sl * k + l) s0 mem } }) = Some m' \<and>
          ?W (?sl * k + Suc l) mem m'" by simp
    qed (use m0 in simp)
    with nb show ?thesis by (simp add: Let_def add.commute)
  qed
  ultimately show ?thesis
    unfolding write_frame_def prod.case by (intro foldM_upt [where P = "\<lambda>k. ?W (?sl * k) mem"]) auto
qed

text \<open>The rows of a stream without MSD: one per frame.\<close>

definition nbf :: "HTS_Stream \<Rightarrow> int \<Rightarrow> ModelQueueMemory \<Rightarrow> nat \<Rightarrow> nat \<Rightarrow> bool" where
  "nbf str tdur mem frame k = the (not_bound (msd_flag str) str k frame tdur mem)"

definition rows_written :: "HTS_Stream \<Rightarrow> nat \<Rightarrow> int \<Rightarrow> (Model \<times> State) list \<Rightarrow> ModelQueueMemory \<Rightarrow>
    nat \<Rightarrow> ModelQueueMemory \<Rightarrow> bool" where
  "rows_written str i tdur vs mem n mem' \<longleftrightarrow>
     voiced_unvoiced mem' = voiced_unvoiced mem \<and> mm_par mem' = mm_par mem \<and>
     (\<forall>i'. i' \<noteq> i \<longrightarrow> mm_mean mem' i' = mm_mean mem i' \<and> mm_ivar mem' i' = mm_ivar mem i') \<and>
     (\<forall>fr < n. \<forall>m < (vector_length str div wsize (window str)) * wsize (window str).
        mm_mean mem' i fr m = dmean (streams (snd (vs ! fr)) ! i ! m) \<and>
        mm_ivar mem' i fr m = row_ivar str i (snd (vs ! fr)) (nbf str tdur mem fr) m)"

lemma nbf_eta: "nbf str td mem fr = (\<lambda>k. the (not_bound (msd_flag str) str k fr td mem))"
  by (rule ext) (simp add: nbf_def)

lemma nbf_cong: "voiced_unvoiced mem' = voiced_unvoiced mem \<Longrightarrow> nbf str td mem' = nbf str td mem"
  using not_bound_cong [of mem' mem] by (intro ext) (simp only: nbf_def)

lemma rows_written_step:
  assumes "rows_written str i tdur vs mem fr mem'" "fr < length vs"
    and "written str i fr (snd (vs ! fr)) (nbf str tdur mem' fr)
      ((vector_length str div wsize (window str)) * wsize (window str)) mem' mem''"
  shows "rows_written str i tdur vs mem (Suc fr) mem''"
proof -
  have "nbf str tdur mem' = nbf str tdur mem"
    using assms(1) by (intro nbf_cong) (simp add: rows_written_def)
  with assms(3) have "written str i fr (snd (vs ! fr)) (nbf str tdur mem fr)
      ((vector_length str div wsize (window str)) * wsize (window str)) mem' mem''" by simp
  then show ?thesis using assms(1) unfolding rows_written_def written_def less_Suc_eq
    by (intro conjI) (auto intro!: ext)
qed

definition others_same :: "nat \<Rightarrow> ModelQueueMemory \<Rightarrow> ModelQueueMemory \<Rightarrow> bool" where
  "others_same i mem mem' \<longleftrightarrow> voiced_unvoiced mem' = voiced_unvoiced mem \<and> mm_par mem' = mm_par mem \<and>
     (\<forall>i'. i' \<noteq> i \<longrightarrow> mm_mean mem' i' = mm_mean mem i' \<and> mm_ivar mem' i' = mm_ivar mem i')"

lemma written_others: "written str i fr s f n mem mem' \<Longrightarrow> others_same i mem mem'"
  by (auto simp: written_def others_same_def)

lemma write_stream_ok:
  assumes ms: "\<forall>m \<in> set ms. queued_ok m" and i: "i < nOfStreams"
    and str: "windows_loaded str" "vector_length str \<le> maxStreamLen" "tdur \<le> int maxNumOfFrames"
    and len: "length (visits ms) \<le> maxNumOfFrames"
  shows "\<exists>n mem'. write_stream str i tdur (visits ms) mem = Some (n, mem') \<and> n \<le> length (visits ms) \<and>
    others_same i mem mem' \<and>
    (\<not> msd_flag str \<longrightarrow> n = length (visits ms) \<and> rows_written str i tdur (visits ms) mem n mem')"
proof -
  let ?vs = "visits ms"
  have visit: "\<exists>m s. ?vs ! fr = (m, s) \<and> queued_ok m \<and> s \<in> set (state m)" if "fr < length ?vs" for fr
  proof -
    obtain m s where v: "?vs ! fr = (m, s)" by (cases "?vs ! fr")
    then have "(m, s) \<in> set ?vs" using nth_mem [OF that] by simp
    with visits_members ms v show ?thesis by blast
  qed
  show ?thesis
  proof (cases "msd_flag str")
    case False
    have "\<exists>r. write_stream str i tdur ?vs mem = Some r \<and>
        (fst r = length ?vs \<and> rows_written str i tdur ?vs mem (length ?vs) (snd r))"
      unfolding write_stream_def if_not_P [OF False]
    proof (rule foldM_enum [where P = "\<lambda>n r. fst r = n \<and> rows_written str i tdur ?vs mem n (snd r)"])
      fix fr and r :: "nat \<times> ModelQueueMemory"
      assume fr: "fr < length ?vs" and r: "fst r = fr \<and> rows_written str i tdur ?vs mem fr (snd r)"
      obtain m s where v: "?vs ! fr = (m, s)" "queued_ok m" "s \<in> set (state m)" using visit [OF fr] by blast
      obtain mem' where w: "write_frame str i tdur fr fr (m, s) (snd r) = Some mem'"
          "written str i fr s (nbf str tdur (snd r) fr)
            ((vector_length str div wsize (window str)) * wsize (window str)) (snd r) mem'"
        using write_frame_ok [OF v(2,3) i _ str, of fr fr "snd r"] fr len by (auto simp: nbf_eta)
      then have "rows_written str i tdur ?vs mem (Suc fr) mem'"
        using rows_written_step [OF conjunct2 [OF r] fr, of mem'] v(1) by simp
      with w v r show "\<exists>r'. (case r of (n, mem) \<Rightarrow> \<lambda>(frame, v). do {
               mem \<leftarrow> write_frame str i tdur frame frame v mem;
               Some (frame + 1, mem) }) (fr, ?vs ! fr) = Some r' \<and>
            (fst r' = Suc fr \<and> rows_written str i tdur ?vs mem (Suc fr) (snd r'))"
        by (cases r) simp
    qed (simp add: rows_written_def)
    with False show ?thesis by (auto simp: rows_written_def others_same_def)
  next
    case True
    have "\<exists>r. write_stream str i tdur ?vs mem = Some r \<and>
        (fst r \<le> length ?vs \<and> others_same i mem (snd r))"
      unfolding write_stream_def if_P [OF True]
    proof (rule foldM_enum [where P = "\<lambda>n r. fst r \<le> n \<and> others_same i mem (snd r)"])
      fix fr and r :: "nat \<times> ModelQueueMemory"
      assume fr: "fr < length ?vs" and r: "fst r \<le> fr \<and> others_same i mem (snd r)"
      obtain m s where v: "?vs ! fr = (m, s)" "queued_ok m" "s \<in> set (state m)" using visit [OF fr] by blast
      obtain mem' where w: "write_frame str i tdur fr (fst r) (m, s) (snd r) = Some mem'"
          "written str i (fst r) s (\<lambda>k. the (not_bound (msd_flag str) str k fr tdur (snd r)))
            ((vector_length str div wsize (window str)) * wsize (window str)) (snd r) mem'"
        using write_frame_ok [OF v(2,3) i _ str, of "fst r" fr "snd r"] fr len r by auto
      moreover obtain mem'' where "write_gv_switch i (fst r) s mem' = Some mem''"
          "others_same i (snd r) mem''"
        using write_gv_switch_ok [OF stateD(5) [OF v(2,3) i, of 0] _ w(2), of "fst r"] fr len r
        by (auto simp: size_consts dest: written_others)
      ultimately show "\<exists>r'. (case r of (msd_frame, mem) \<Rightarrow> \<lambda>(frame, v).
             if voiced_unvoiced mem frame then do {
               mem \<leftarrow> write_frame str i tdur frame msd_frame v mem;
               mem \<leftarrow> write_gv_switch i msd_frame (snd v) mem;
               Some (msd_frame + 1, mem) }
             else Some (msd_frame, mem)) (fr, ?vs ! fr) = Some r' \<and>
          (fst r' \<le> Suc fr \<and> others_same i mem (snd r'))"
        using v r by (cases r) (auto simp: others_same_def)
    qed (simp add: others_same_def)
    with True show ?thesis by auto
  qed
qed

lemma run_mlpg_ok:
  assumes "windows_loaded str"
  shows "\<exists>mem'. run_mlpg str i len mem = Some mem' \<and> voiced_unvoiced mem' = voiced_unvoiced mem \<and>
    mm_mean mem' = mm_mean mem \<and> mm_ivar mem' = mm_ivar mem \<and>
    mm_par mem' = (mm_par mem)(i := par (HTS_PStream_mlpg (pstream_of str i len mem)))"
  using assms by (simp add: run_mlpg_def windows_loaded_def Let_def)

text \<open>
  What a stream without MSD and without global variance is left with: a row of means and inverse
  variances per frame, and for every static coefficient the trajectory closest to them.
\<close>

definition stream_done :: "Engine \<Rightarrow> (Model \<times> State) list \<Rightarrow> ModelQueueMemory \<Rightarrow> nat \<Rightarrow> bool" where
  "stream_done e vs mem i \<longleftrightarrow>
     (let str = estreams e ! i; n = length vs; p = pstream_of str i n mem
      in \<not> msd_flag str \<longrightarrow> \<not> use_gv str \<longrightarrow>
        (\<forall>fr < n. \<forall>m < static_length p * win_size p.
           sm_mean p fr m = dmean (streams (snd (vs ! fr)) ! i ! m) \<and>
           sm_ivar p fr m = row_ivar str i (snd (vs ! fr)) (nbf str (int n) mem fr) m) \<and>
        (\<forall>m < static_length p. input_ok p m \<longrightarrow>
           (\<forall>c. objective p m (\<lambda>t. par p t m) \<le> objective p m c)))"

lemma pstream_sel:
  "sm_mean (pstream_of str i n mem) = mm_mean mem i" "sm_ivar (pstream_of str i n mem) = mm_ivar mem i"
  "par (pstream_of str i n mem) = mm_par mem i" "plength (pstream_of str i n mem) = n"
  "static_length (pstream_of str i n mem) = vector_length str div wsize (window str)"
  "win_size (pstream_of str i n mem) = wsize (window str)"
  "gv_length (pstream_of str i n mem) = (if use_gv str then n else 0)"
  by (simp_all add: pstream_of_def)

lemma objective_pstream:
  assumes "mm_mean mem' i = mm_mean mem i" "mm_ivar mem' i = mm_ivar mem i"
  shows "objective (pstream_of str i n mem') = objective (pstream_of str i n mem)"
    and "input_ok (pstream_of str i n mem') = input_ok (pstream_of str i n mem)"
  using assms
  by (auto simp: fun_eq_iff objective_def input_ok_def windows_ok_def pstream_of_def rows_def Wm_def feature_def
      cong: if_cong)

lemma stream_done_cong:
  assumes "stream_done e vs mem i" "voiced_unvoiced mem' = voiced_unvoiced mem"
    and "mm_mean mem' i = mm_mean mem i" "mm_ivar mem' i = mm_ivar mem i" "mm_par mem' i = mm_par mem i"
  shows "stream_done e vs mem' i"
  using assms(1) objective_pstream [OF assms(3,4)] nbf_cong [OF assms(2)] assms(3-5)
  by (simp add: stream_done_def Let_def pstream_sel)

lemma engine_okD:
  assumes "engine_ok e" "i < nOfStreams"
  shows "i < length (estreams e)" "windows_loaded (estreams e ! i)"
    "vector_length (estreams e ! i) \<le> maxStreamLen"
  using assms by (auto simp: engine_ok_def voice_ok_def)

lemma optimize_stream_ok:
  assumes "\<forall>m \<in> set ms. queued_ok m" "engine_ok e" "i < nOfStreams"
    and "length (visits ms) \<le> maxNumOfFrames"
    and prev: "\<forall>k < i. stream_done e (visits ms) mem k"
  shows "\<exists>mem'. optimize_stream e (int (length (visits ms))) (visits ms) mem i = Some mem' \<and>
    (\<forall>k < Suc i. stream_done e (visits ms) mem' k)"
proof -
  let ?str = "estreams e ! i" and ?vs = "visits ms"
  note str = engine_okD [OF assms(2,3)]
  obtain n mem1 where w: "write_stream ?str i (int (length ?vs)) ?vs mem = Some (n, mem1)"
      "others_same i mem mem1"
      "\<not> msd_flag ?str \<Longrightarrow> n = length ?vs \<and> rows_written ?str i (int (length ?vs)) ?vs mem n mem1"
    using write_stream_ok [OF assms(1,3) str(2,3) _ assms(4), of "int (length ?vs)" mem] assms(4) by auto
  obtain mem' where r: "run_mlpg ?str i n mem1 = Some mem'" "voiced_unvoiced mem' = voiced_unvoiced mem1"
      "mm_mean mem' = mm_mean mem1" "mm_ivar mem' = mm_ivar mem1"
      "mm_par mem' = (mm_par mem1)(i := par (HTS_PStream_mlpg (pstream_of ?str i n mem1)))"
    using run_mlpg_ok [OF str(2)] by blast
  have "stream_done e ?vs mem' k" if "k < i" for k
  proof (rule stream_done_cong)
    show "stream_done e ?vs mem k" using prev that by blast
    show "voiced_unvoiced mem' = voiced_unvoiced mem" using w(2) r(2) by (simp add: others_same_def)
    show "mm_mean mem' k = mm_mean mem k" "mm_ivar mem' k = mm_ivar mem k"
      using w(2) that unfolding r(3,4) by (simp_all add: others_same_def)
    show "mm_par mem' k = mm_par mem k" using w(2) that unfolding r(5) by (simp add: others_same_def)
  qed
  moreover have "stream_done e ?vs mem' i"
  proof -
    have vu: "voiced_unvoiced mem' = voiced_unvoiced mem" using r(2) w(2) by (simp add: others_same_def)
    have mi: "objective (pstream_of ?str i n mem') = objective (pstream_of ?str i n mem1)"
        "input_ok (pstream_of ?str i n mem') = input_ok (pstream_of ?str i n mem1)"
      using objective_pstream [of mem' i mem1] r(3,4) by simp_all
    have sl: "static_length (pstream_of ?str i n mem1) = static_length (pstream_of ?str i n mem')"
      by (simp add: pstream_sel)
    have pr: "par (pstream_of ?str i n mem') = par (HTS_PStream_mlpg (pstream_of ?str i n mem1))"
      using r(5) by (simp add: pstream_sel)
    have "objective (pstream_of ?str i n mem') m (\<lambda>t. par (pstream_of ?str i n mem') t m) \<le>
        objective (pstream_of ?str i n mem') m c"
      if "\<not> use_gv ?str" "m < static_length (pstream_of ?str i n mem')" "input_ok (pstream_of ?str i n mem') m" for m c
      unfolding mi(1) pr using that mi(2) sl
      by (intro mlpg_minimises) (auto simp: pstream_sel)
    moreover have "sm_mean (pstream_of ?str i n mem') = mm_mean mem1 i" "sm_ivar (pstream_of ?str i n mem') = mm_ivar mem1 i"
      "static_length (pstream_of ?str i n mem') = vector_length ?str div wsize (window ?str)"
      "win_size (pstream_of ?str i n mem') = wsize (window ?str)"
      using r(3,4) by (simp_all add: pstream_sel)
    ultimately show ?thesis
      using w(3) nbf_cong [OF vu] by (auto simp: stream_done_def Let_def rows_written_def)
  qed
  ultimately show ?thesis
    using w(1) r(1) str(1,2) by (auto simp: optimize_stream_def windows_loaded_def less_Suc_eq)
qed

lemma window_models_ok:
  assumes "mq_inv q" "n \<le> length (mq_contents q)"
  shows "window_models q n = Some (take n (mq_contents q))"
proof -
  have n: "0 < qlength q" "length (rawData q) = qlength q" "n \<le> getNumOfItems q"
    using mq_invD [OF assms(1)] assms by (auto simp: length_mq_contents)
  have "model_at q w = Some (mq_contents q ! w)" if "w < n" for w
    using that assms(2) n mq_invD [OF assms(1)]
    by (simp add: model_at_def mq_contents_def length_mq_contents)
  then show ?thesis
    using assms(2) by (simp add: window_models_def traverse_Some_iff)
qed

lemma optimizeParameters_ok:
  assumes "mq_inv q" "bk + lk + 1 \<le> length (mq_contents q)" "engine_ok e"
    and "\<forall>m \<in> set (mq_contents q). queued_ok m"
    and "bk + lk \<le> nOfBackup + nOfLookup"
  shows "\<exists>mem'. optimizeParameters q e bk lk mem = Some mem' \<and>
    (\<forall>i < nOfStreams. stream_done e (visits (take (bk + lk + 1) (mq_contents q))) mem' i)"
proof -
  let ?ms = "take (bk + lk + 1) (mq_contents q)"
  have ms: "\<forall>m \<in> set ?ms. queued_ok m" using assms(4) by (meson in_set_takeD)
  note lv = length_visits [OF ms]
  have "length ?ms \<le> 3" using assms(5) by (simp add: size_consts)
  then have fits: "length (visits ?ms) \<le> maxNumOfFrames" using lv by (simp add: size_consts)
  then have c: "c_int (sum_list (map getDuration ?ms)) = Some (int (length (visits ?ms)))"
    using lv(1) by (simp add: c_int_def size_consts)
  obtain mem1 where m1: "set_voiced e (visits ?ms) mem = Some mem1"
    using set_voiced_ok [OF _ ms fits, of e mem] assms(3) by (auto simp: engine_ok_def)
  have "\<exists>mem'. foldM (optimize_stream e (int (length (visits ?ms))) (visits ?ms)) mem1 [0..<nOfStreams] = Some mem' \<and>
      (\<forall>i < nOfStreams. stream_done e (visits ?ms) mem' i)"
    by (rule foldM_upt) (use optimize_stream_ok [OF ms assms(3) _ fits] in auto)
  then show ?thesis
    using window_models_ok [OF assms(1,2)] c m1 by (simp add: optimizeParameters_def Let_def)
qed

section \<open>Lemmas: the frames\<close>

lemma length3E: "length xs = 3 \<Longrightarrow> (\<And>a b c. xs = [a, b, c] \<Longrightarrow> P) \<Longrightarrow> P"
  by (auto simp: length_Suc_conv eval_nat_numeral)

text \<open>
  One frame: the spectral and filter rows are copied from the trajectories at the counters of
  their streams, the pitch is that of the voiced trajectory or 0.
\<close>

lemma make_frame_ok:
  assumes slot: "frame_ok (fstreams slot)" and e: "engine_ok e" and v: "voiced_state e s = Some v"
    and mls: "\<And>row ix. length (mlsacheck row ix) = length row"
    and qs: "a < maxNumOfFrames" "b < maxNumOfFrames" "c < maxNumOfFrames"
  shows "\<exists>f. make_frame mlsacheck e mem s slot [a, b, c] = Some (f, [a + 1, if v then b + 1 else b, c + 1]) \<and>
    frame_ok (fstreams f) \<and> fvoiced f = v \<and>
    fstreams f ! lf0StreamIndex ! 0 = (if v then exp (mm_par mem lf0StreamIndex b 0) else 0) \<and>
    fstreams f ! mgcStreamIndex = mlsacheck
      (map (mm_par mem mgcStreamIndex a) [0..<vector_length (estreams e ! mgcStreamIndex)] @
       drop (vector_length (estreams e ! mgcStreamIndex)) (fstreams slot ! mgcStreamIndex)) a \<and>
    fstreams f ! lpfStreamIndex =
      map (mm_par mem lpfStreamIndex c) [0..<vector_length (estreams e ! lpfStreamIndex)] @
      drop (vector_length (estreams e ! lpfStreamIndex)) (fstreams slot ! lpfStreamIndex)"
proof -
  have l3: "length (fstreams slot) = 3" using slot by (simp add: frame_ok_def size_consts)
  then obtain r0 r1 r2 where rs: "fstreams slot = [r0, r1, r2]" by (rule length3E)
  then have len: "length r0 = 105" "length r1 = 105" "length r2 = 105"
    using slot by (simp_all add: frame_ok_def size_consts)
  have vl: "0 < length (estreams e)" "2 < length (estreams e)"
    "vector_length (estreams e ! 0) \<le> 105" "vector_length (estreams e ! 2) \<le> 105"
    using engine_okD [OF e, of 0] engine_okD [OF e, of 2] by (simp_all add: size_consts)
  have up: "[0..<nOfStreams] = [0, 1, 2]" by (simp add: nOfStreams_def upt_rec)
  have u: "u32 (x + 1) = x + 1" if "x < maxNumOfFrames" for x
    using that by (simp add: u32_def size_consts)
  show ?thesis
    unfolding make_frame_def up
    using rs len vl v qs u [OF qs(1)] u [OF qs(2)] u [OF qs(3)] mls
    by (cases v) (auto simp: frame_stream_def copy_row_def useLF0_def useMELF0_def mgcStreamIndex_def
        lf0StreamIndex_def lpfStreamIndex_def frame_ok_def maxStreamLen_def nOfDers_def nOfMGCs_def
        nOfStreams_def Let_def nth_Cons')
qed

text \<open>Counting the rows of the models already used does not wrap around.\<close>

definition state_frames :: "State list \<Rightarrow> nat" where
  "state_frames ss = sum_list (map (\<lambda>s. nat (sduration s)) ss)"

lemma count_states_ok:
  assumes "\<forall>s \<in> set ss. 0 \<le> sduration s \<and> (\<exists>v. voiced_state e s = Some v)"
    and "a + state_frames ss < 2 ^ 31" "b \<le> a"
  shows "\<exists>b'. foldM (\<lambda>qs s. count_state e s qs) [a, b, a] ss = Some [a + state_frames ss, b', a + state_frames ss] \<and>
    b' \<le> a + state_frames ss"
  using assms
proof (induction ss arbitrary: a b)
  case (Cons s ss)
  obtain v where v: "voiced_state e s = Some v" using Cons.prems(1) by auto
  let ?d = "nat (sduration s)"
  have d: "?d < 2 ^ 31" "a + ?d < 2 ^ 31" using Cons.prems(2) by (simp_all add: state_frames_def)
  then have m: "sduration s mod 4294967296 = sduration s" using Cons.prems(1) by simp
  have up: "[0..<nOfStreams] = [0, 1, 2]" by (simp add: nOfStreams_def upt_rec)
  have u: "u32 (a + ?d) = a + ?d" "u32 (b + ?d) = b + ?d" using d Cons.prems(3) by (simp_all add: u32_def)
  have c: "count_state e s [a, b, a] = Some [a + ?d, if v then b + ?d else b, a + ?d]"
    using u by (auto simp: count_state_def v up m lf0StreamIndex_def)
  have "\<exists>b'. foldM (\<lambda>qs s. count_state e s qs) [a + ?d, if v then b + ?d else b, a + ?d] ss =
      Some [a + ?d + state_frames ss, b', a + ?d + state_frames ss] \<and> b' \<le> a + ?d + state_frames ss"
    using Cons.prems by (intro Cons.IH) (auto simp: state_frames_def)
  then show ?case using c by (auto simp: state_frames_def add.assoc)
qed (simp add: state_frames_def)

lemma state_frames_model:
  "duration_ok m \<Longrightarrow> int (state_frames (state m)) = mduration m"
  using length_model_visits [of m] by (simp add: model_visits_def length_concat comp_def state_frames_def)

lemma state_frames_concat:
  "\<forall>m \<in> set ms. queued_ok m \<Longrightarrow> state_frames (concat (map state ms)) = length (visits ms)"
  by (induction ms)
    (auto simp: state_frames_def visits_def model_visits_def length_concat comp_def)

lemma generate_frames_ok:
  assumes "\<forall>s \<in> set ss. \<exists>v. voiced_state e s = Some v"
    and e: "engine_ok e" and mls: "\<And>row ix. length (mlsacheck row ix) = length row"
    and "length ss \<le> length slots" and slots: "\<forall>f \<in> set slots. frame_ok (fstreams f)"
    and "a + length ss \<le> maxNumOfFrames" and fits: "b \<le> a"
  shows "\<exists>fs b'. generate_frames mlsacheck e mem slots ss [a, b, a] = Some (fs, [a + length ss, b', a + length ss]) \<and>
    b' \<le> a + length ss \<and> length fs = length ss \<and>
    (\<forall>j < length ss. frame_ok (fstreams (fs ! j)) \<and> Some (fvoiced (fs ! j)) = voiced_state e (ss ! j) \<and>
       take (vector_length (estreams e ! lpfStreamIndex)) (fstreams (fs ! j) ! lpfStreamIndex) =
       map (mm_par mem lpfStreamIndex (a + j)) [0..<vector_length (estreams e ! lpfStreamIndex)])"
  using assms(1,4,6)
proof (induction ss rule: rev_induct)
  case Nil
  show ?case using fits by (simp add: generate_frames_def)
next
  case (snoc s ss)
  then obtain fs b' where ih: "generate_frames mlsacheck e mem slots ss [a, b, a] = Some (fs, [a + length ss, b', a + length ss])"
      "b' \<le> a + length ss" "length fs = length ss"
      "\<forall>j < length ss. frame_ok (fstreams (fs ! j)) \<and> Some (fvoiced (fs ! j)) = voiced_state e (ss ! j) \<and>
         take (vector_length (estreams e ! lpfStreamIndex)) (fstreams (fs ! j) ! lpfStreamIndex) =
         map (mm_par mem lpfStreamIndex (a + j)) [0..<vector_length (estreams e ! lpfStreamIndex)]"
    by auto
  obtain v where v: "voiced_state e s = Some v" using snoc.prems(1) by auto
  have sl: "frame_ok (fstreams (slots ! length ss))" "length ss < length slots" using snoc.prems(2) slots by auto
  obtain f where f: "make_frame mlsacheck e mem s (slots ! length ss) [a + length ss, b', a + length ss] =
      Some (f, [a + length ss + 1, if v then b' + 1 else b', a + length ss + 1])" "frame_ok (fstreams f)" "fvoiced f = v"
    "fstreams f ! lpfStreamIndex =
    map (mm_par mem lpfStreamIndex (a + length ss)) [0..<vector_length (estreams e ! lpfStreamIndex)] @
    drop (vector_length (estreams e ! lpfStreamIndex)) (fstreams (slots ! length ss) ! lpfStreamIndex)"
    using make_frame_ok [OF sl(1) e v, where a = "a + length ss" and b = b' and c = "a + length ss"
        and mem = mem and mlsacheck = mlsacheck] mls ih(2) snoc.prems(3) by auto
  have "generate_frames mlsacheck e mem slots (ss @ [s]) [a, b, a] =
      Some (fs @ [f], [a + length ss + 1, if v then b' + 1 else b', a + length ss + 1])"
    using ih(1,3) f(1) sl(2) by (simp add: generate_frames_def)
  moreover have "(if v then b' + 1 else b') \<le> a + length ss + 1" using ih(2) by simp
  ultimately show ?case
    using ih(3,4) f(2-4) v by (auto simp: nth_append less_Suc_eq)
qed

lemma state_duration_le:
  assumes "duration_ok m" "s \<in> set (state m)"
  shows "sduration s \<le> mduration m"
proof -
  have "sduration s \<le> sum_list (map sduration (state m))"
    using assms by (intro member_le_sum_list) (auto simp: duration_ok_def)
  then show ?thesis using assms(1) by (simp add: duration_ok_def total_duration_def)
qed

lemma generate_ok:
  assumes "mq_inv q" "bk + 1 \<le> length (mq_contents q)" "engine_ok e"
    and ok: "\<forall>m \<in> set (mq_contents q). queued_ok m"
    and bk: "bk \<le> nOfBackup" and mls: "\<And>row ix. length (mlsacheck row ix) = length row"
    and slots: "nat (mduration (mq_contents q ! bk)) \<le> length slots" "\<forall>f \<in> set slots. frame_ok (fstreams f)"
  shows "\<exists>fs. generate mlsacheck q e bk mem slots = Some fs \<and>
    int (length fs) = mduration (mq_contents q ! bk) \<and> (\<forall>f \<in> set fs. frame_ok (fstreams f)) \<and>
    (\<forall>j < length fs. take (vector_length (estreams e ! lpfStreamIndex)) (fstreams (fs ! j) ! lpfStreamIndex) =
       map (mm_par mem lpfStreamIndex (length (visits (take bk (mq_contents q))) + j))
         [0..<vector_length (estreams e ! lpfStreamIndex)])"
proof -
  let ?ms = "take bk (mq_contents q)" and ?hd = "mq_contents q ! bk"
  have ms: "\<forall>m \<in> set ?ms. queued_ok m" using ok by (meson in_set_takeD)
  have hd: "queued_ok ?hd" using ok assms(2) by simp
  have voice: "voice_ok e" using assms(3) by (simp add: engine_ok_def)
  have dur: "0 \<le> sduration s" "\<exists>v. voiced_state e s = Some v" if "m \<in> set (mq_contents q)" "s \<in> set (state m)" for m s
    using that ok voiced_state_ok [OF voice, of m s] by (auto simp: queued_ok_def duration_ok_def)
  note lv = length_visits [OF ms]
  have off: "length (visits ?ms) \<le> 340" using lv assms(2) bk by (simp add: size_consts)
  have rep: "replicate nOfStreams 0 = [0, 0, 0 :: nat]" by (simp add: nOfStreams_def eval_nat_numeral)
  have "\<forall>s \<in> set (concat (map state ?ms)). 0 \<le> sduration s \<and> (\<exists>v. voiced_state e s = Some v)"
  proof
    fix s assume "s \<in> set (concat (map state ?ms))"
    then obtain m where "m \<in> set ?ms" "s \<in> set (state m)" by auto
    with dur [OF in_set_takeD] show "0 \<le> sduration s \<and> (\<exists>v. voiced_state e s = Some v)" by blast
  qed
  then obtain b where b: "backup_rows e ?ms = Some [length (visits ?ms), b, length (visits ?ms)]" "b \<le> length (visits ?ms)"
    using count_states_ok [of "concat (map state ?ms)" e 0 0] off
    unfolding backup_rows_def rep state_frames_concat [OF ms] by auto
  let ?ss = "concat (map (\<lambda>s. replicate (nat (sduration s mod 2 ^ 32)) s) (state ?hd))"
  have hd_in: "?hd \<in> set (mq_contents q)" using assms(2) by simp
  have bound: "sduration s mod 4294967296 = sduration s" if "s \<in> set (state ?hd)" for s
  proof -
    have "sduration s \<le> mduration ?hd" using hd that by (intro state_duration_le) (simp add: queued_ok_def)
    then show ?thesis using hd dur(1) [OF hd_in that] by (simp add: queued_ok_def duration_ok_def size_consts)
  qed
  have lss: "length ?ss = state_frames (state ?hd)"
    using bound by (simp add: length_concat comp_def state_frames_def cong: map_cong)
  have md: "int (length ?ss) = mduration ?hd" "length ?ss \<le> 170"
    using lss state_frames_model [of ?hd] hd by (auto simp: queued_ok_def duration_ok_def size_consts)
  have at: "model_at q bk = Some ?hd"
    using window_models_ok [OF assms(1), of "bk + 1"] assms(2)
    by (simp add: window_models_def traverse_Some_iff del: upt_Suc)
  obtain fs b' where g: "generate_frames mlsacheck e mem slots ?ss [length (visits ?ms), b, length (visits ?ms)] =
      Some (fs, [length (visits ?ms) + length ?ss, b', length (visits ?ms) + length ?ss])" "length fs = length ?ss"
    "\<forall>j < length ?ss. frame_ok (fstreams (fs ! j)) \<and> Some (fvoiced (fs ! j)) = voiced_state e (?ss ! j) \<and>
       take (vector_length (estreams e ! lpfStreamIndex)) (fstreams (fs ! j) ! lpfStreamIndex) =
       map (mm_par mem lpfStreamIndex (length (visits ?ms) + j)) [0..<vector_length (estreams e ! lpfStreamIndex)]"
  proof -
    have "\<forall>s \<in> set ?ss. \<exists>v. voiced_state e s = Some v" using dur(2) [OF hd_in] by auto
    moreover have "length ?ss \<le> length slots" using slots(1) md(1) by linarith
    moreover have "length (visits ?ms) + length ?ss \<le> maxNumOfFrames" using off md(2) by (simp add: maxNumOfFrames_def)
    ultimately show thesis
      using generate_frames_ok [where mlsacheck = mlsacheck and ss = ?ss and b = b and mem = mem]
        assms(3) mls slots(2) b(2) that by blast
  qed
  have "generate mlsacheck q e bk mem slots = Some fs"
    using window_models_ok [OF assms(1), of bk] assms(2) b(1) at g(1) by (simp add: generate_def)
  then show ?thesis using g md by (auto simp: in_set_conv_nth)
qed

section \<open>Properties\<close>


lemma still_voice_engine: "engine_ok still_voice"
  using still_voice_ok(1) by (auto simp: engine_ok_def windows_loaded_def) (auto simp: still_voice_def maxWindowWidth_def)

lemma Model_new_queued: "queued_ok Model_new"
  using slot_ok_model_ok [OF Model_new_ok]
  by (auto simp: queued_ok_def duration_ok_def total_duration_def Model_new_def State_zero_def size_consts sum_list_replicate)

definition one_model :: "Model MemQueue" where
  "one_model = (MemQueue_new maxModelQueueLen Model_new)\<lparr>qwrite := 1, nOfItems := 1\<rparr>"

lemma one_model_ok: "mq_inv one_model" "mq_contents one_model = [Model_new]"
  by (simp_all add: one_model_def MemQueue_new_def mq_inv_def mq_contents_def size_consts ring_def)





definition start_transfer :: "Frame list \<Rightarrow> xstate" where
  "start_transfer fs = \<lparr>todo = fs, fqueue = MemQueue_new 1 \<lparr>fstreams = [], fvoiced = False\<rparr>, done_frames = []\<rparr>"




end
