(* ===== verification/LabelQueue.thy ===== *)
theory LabelQueue
  imports Label
begin

text \<open>
  \<open>MAGE::LabelQueue\<close> (\<open>mage/src/LabelQueue.h\<close>, \<open>LabelQueue.cpp\<close>): the queue of labels that
  wait to be synthesised, a ring over a \<open>vector<Label>\<close>. \<open>None\<close> is an access past the vector
  or a division by its size zero. \<open>nOfLabels\<close> is unsigned, so its decrement wraps around.
  The interpretation \<open>labelq\<close> makes the queue a \<open>bounded_fifo\<close>.
\<close>

record LabelQueue =
  lqueue :: "Label list"
  lread :: nat
  lwrite :: nat
  nOfLabels :: nat

definition LabelQueue_new :: "nat \<Rightarrow> LabelQueue" where
  "LabelQueue_new n = \<lparr>lqueue = replicate n Label_new, lread = 0, lwrite = 0, nOfLabels = 0\<rparr>"

definition advance_write :: "LabelQueue \<Rightarrow> LabelQueue option" where
  "advance_write q =
     (if length (lqueue q) = 0 then None
      else Some (q\<lparr>lwrite := u32 (lwrite q + 1) mod length (lqueue q),
                   nOfLabels := u32 (nOfLabels q + 1)\<rparr>))"

definition push_label :: "LabelQueue \<Rightarrow> Label \<Rightarrow> LabelQueue option" where
  "push_label q label =
     do { v \<leftarrow> arr_set (lqueue q) (lwrite q) label; advance_write (q\<lparr>lqueue := v\<rparr>) }"

definition push_next :: "LabelQueue \<Rightarrow> LabelQueue option" where
  "push_next q = advance_write q"

definition pop_next :: "LabelQueue \<Rightarrow> LabelQueue option" where
  "pop_next q =
     (if length (lqueue q) = 0 then None
      else Some (q\<lparr>lread := u32 (lread q + 1) mod length (lqueue q),
                   nOfLabels := u32_sub (nOfLabels q) 1\<rparr>))"

definition get_label :: "LabelQueue \<Rightarrow> Label option" where
  "get_label q = arr_get (lqueue q) (lread q)"

definition pop_label :: "LabelQueue \<Rightarrow> (Label \<times> LabelQueue) option" where
  "pop_label q = do { l \<leftarrow> arr_get (lqueue q) (lread q); q' \<leftarrow> pop_next q; Some (l, q') }"

definition get_ptr :: "LabelQueue \<Rightarrow> nat" where "get_ptr q = lread q"
definition next_ptr :: "LabelQueue \<Rightarrow> nat" where "next_ptr q = lwrite q"

definition lisEmpty :: "LabelQueue \<Rightarrow> bool" where
  "lisEmpty q = (nOfLabels q \<le> 0)"

definition lisFull :: "LabelQueue \<Rightarrow> bool" where
  "lisFull q = (nOfLabels q \<ge> length (lqueue q))"

definition size_labels :: "LabelQueue \<Rightarrow> nat" where
  "size_labels q = nOfLabels q"

definition clear_labels :: "LabelQueue \<Rightarrow> (string \<times> LabelQueue) option" where
  "clear_labels q =
     do { l \<leftarrow> arr_get (lqueue q) (lread q);
          Some (getQuery l, q\<lparr>nOfLabels := 0, lread := 0, lwrite := 0\<rparr>) }"

section \<open>Invariant and abstraction\<close>

definition labels :: "LabelQueue \<Rightarrow> Label list" where
  "labels q = ring (lqueue q) (length (lqueue q)) (lread q) (nOfLabels q)"

definition lcapacity :: "LabelQueue \<Rightarrow> nat" where
  "lcapacity q = length (lqueue q)"

definition lq_inv :: "LabelQueue \<Rightarrow> bool" where
  "lq_inv q \<longleftrightarrow> 0 < length (lqueue q) \<and> length (lqueue q) < 2 ^ 31 \<and>
     lread q < length (lqueue q) \<and> nOfLabels q \<le> length (lqueue q) \<and>
     lwrite q = (lread q + nOfLabels q) mod length (lqueue q)"

lemma lq_invD:
  assumes "lq_inv q"
  shows "0 < length (lqueue q)" "length (lqueue q) < 2 ^ 31" "lread q < length (lqueue q)"
    "nOfLabels q \<le> length (lqueue q)"
    "lwrite q = (lread q + nOfLabels q) mod length (lqueue q)" "lwrite q < length (lqueue q)"
  using assms by (auto simp: lq_inv_def)

lemma length_labels [simp]: "length (labels q) = nOfLabels q"
  by (simp add: labels_def)

lemma LabelQueue_new_inv:
  "0 < n \<Longrightarrow> n < 2 ^ 31 \<Longrightarrow> lq_inv (LabelQueue_new n) \<and> labels (LabelQueue_new n) = []"
  by (simp add: LabelQueue_new_def lq_inv_def labels_def)

lemma lisEmpty_iff: "lisEmpty q \<longleftrightarrow> labels q = []"
  by (simp add: lisEmpty_def flip: length_0_conv)

lemma lisFull_iff: "lq_inv q \<Longrightarrow> lisFull q \<longleftrightarrow> length (labels q) = lcapacity q"
  by (auto simp: lisFull_def lcapacity_def lq_inv_def)

lemma push_label_ok:
  assumes "lq_inv q" "\<not> lisFull q"
  shows "\<exists>q'. push_label q l = Some q' \<and> lq_inv q' \<and> labels q' = labels q @ [l] \<and>
           lcapacity q' = lcapacity q"
proof -
  note inv = lq_invD [OF assms(1)]
  let ?n = "length (lqueue q)"
  have room: "nOfLabels q < ?n" using assms(2) by (simp add: lisFull_def)
  have u: "u32 (lwrite q + 1) = lwrite q + 1" "u32 (nOfLabels q + 1) = nOfLabels q + 1"
    using inv(2,4,6) by (auto intro: u32_add_id [of _ "?n"] simp: u32_def)
  let ?q' = "q\<lparr>lqueue := (lqueue q)[lwrite q := l], lwrite := (lwrite q + 1) mod ?n,
               nOfLabels := nOfLabels q + 1\<rparr>"
  have eq: "push_label q l = Some ?q'"
    using inv(1,6) u by (simp add: push_label_def advance_write_def)
  have "(lwrite q + 1) mod ?n = (lread q + (nOfLabels q + 1)) mod ?n"
    unfolding inv(5) by (simp add: mod_simps)
  then have "lq_inv ?q'" using inv(1-4) room by (simp add: lq_inv_def)
  moreover have "labels ?q' = labels q @ [l]"
    using room inv(1,5) by (simp add: labels_def ring_Suc ring_update_outside)
  ultimately show ?thesis using eq by (simp add: lcapacity_def)
qed

lemma pop_next_ok:
  assumes "lq_inv q" "\<not> lisEmpty q"
  shows "\<exists>q'. pop_next q = Some q' \<and> lq_inv q' \<and> labels q' = tl (labels q) \<and> lcapacity q' = lcapacity q"
proof -
  note inv = lq_invD [OF assms(1)]
  let ?n = "length (lqueue q)"
  have pos: "0 < nOfLabels q" using assms(2) by (simp add: lisEmpty_def)
  have u: "u32 (lread q + 1) = lread q + 1" using inv by (intro u32_add_id [of _ "?n"]) auto
  have v: "u32_sub (nOfLabels q) 1 = nOfLabels q - 1" using pos inv by simp
  let ?q' = "q\<lparr>lread := (lread q + 1) mod ?n, nOfLabels := nOfLabels q - 1\<rparr>"
  have eq: "pop_next q = Some ?q'" using inv(1) unfolding pop_next_def u v by simp
  have "((lread q + 1) mod ?n + (nOfLabels q - 1)) mod ?n = lwrite q"
    using pos ring_write_index [of 1 "nOfLabels q" "lread q" ?n] inv(5) by simp
  then have "lq_inv ?q'" using inv by (simp add: lq_inv_def)
  moreover have "labels ?q' = tl (labels q)"
    using pos ring_drop [of 1 "nOfLabels q" "lqueue q" ?n "lread q"]
    by (simp add: labels_def drop_Suc ring_mod)
  ultimately show ?thesis using eq by (simp add: lcapacity_def)
qed

lemma pop_label_ok:
  assumes "lq_inv q" "\<not> lisEmpty q"
  shows "\<exists>q'. pop_label q = Some (hd (labels q), q') \<and> lq_inv q' \<and> labels q' = tl (labels q) \<and>
           lcapacity q' = lcapacity q"
proof -
  note inv = lq_invD [OF assms(1)]
  have "hd (labels q) = lqueue q ! lread q"
    using assms(2) inv by (simp add: labels_def ring_hd lisEmpty_def)
  with pop_next_ok [OF assms] inv show ?thesis by (auto simp: pop_label_def)
qed

interpretation labelq: bounded_fifo lq_inv labels lcapacity lisFull lisEmpty push_label pop_label
proof unfold_locales
  fix q :: LabelQueue and a
  assume q: "lq_inv q"
  show "lisFull q \<longleftrightarrow> length (labels q) = lcapacity q" using q by (rule lisFull_iff)
  show "length (labels q) \<le> lcapacity q" using q by (simp add: lq_inv_def lcapacity_def)
  show "lisEmpty q \<longleftrightarrow> labels q = []" by (rule lisEmpty_iff)
  show "\<not> lisFull q \<Longrightarrow> \<exists>q'. push_label q a = Some q' \<and> lq_inv q' \<and>
      labels q' = labels q @ [a] \<and> lcapacity q' = lcapacity q" using q by (rule push_label_ok)
  show "\<not> lisEmpty q \<Longrightarrow> \<exists>q'. pop_label q = Some (hd (labels q), q') \<and> lq_inv q' \<and>
      labels q' = tl (labels q) \<and> lcapacity q' = lcapacity q" using q by (rule pop_label_ok)
qed

lemma clear_labels_ok:
  assumes "lq_inv q"
  shows "\<exists>s q'. clear_labels q = Some (s, q') \<and> lq_inv q' \<and> labels q' = [] \<and> lcapacity q' = lcapacity q \<and>
           (\<not> lisEmpty q \<longrightarrow> s = getQuery (hd (labels q)))"
  using lq_invD [OF assms]
  by (auto simp: clear_labels_def lq_inv_def labels_def lcapacity_def ring_hd lisEmpty_def)

section \<open>Properties\<close>

text \<open>
  C31. Guarded by \<open>isFull\<close> and \<open>isEmpty\<close>, as in \<open>Mage::pushLabel\<close> and \<open>Mage::popLabel\<close>, a new
  label queue of \<open>n\<close> slots behaves as a first-in first-out list of at most \<open>n\<close> labels.
\<close>

theorem label_queue_is_fifo:
  assumes "0 < n" "n < 2 ^ 31"
  shows "\<exists>q out. guarded_run lisFull push_label lisEmpty pop_label (LabelQueue_new n) ops = Some (q, out) \<and>
    lq_inv q \<and> lcapacity q = n \<and> spec_run n [] ops = (labels q, out)"
  using labelq.guarded_run_refines [of "LabelQueue_new n" ops] LabelQueue_new_inv [OF assms]
  by (auto simp: LabelQueue_new_def lcapacity_def)

theorem label_queue_is_fifo_witness:
  "\<exists>q out. guarded_run lisFull push_label lisEmpty pop_label (LabelQueue_new 1)
      [Enq Label_new, Enq (setBegin Label_new 3), Deq] = Some (q, out) \<and> labels q = [] \<and> out = [Label_new]"
  using label_queue_is_fifo [of 1 "[Enq Label_new, Enq (setBegin Label_new 3), Deq]"] by auto

text \<open>
  \<open>clear\<close> empties the queue in any well-formed state, keeps its capacity, and returns the
  query of the oldest label when there is one.
\<close>

theorem clear_empties:
  assumes "lq_inv q"
  shows "\<exists>s q'. clear_labels q = Some (s, q') \<and> lq_inv q' \<and> labels q' = [] \<and> lcapacity q' = lcapacity q \<and>
    (\<forall>l ls. labels q = l # ls \<longrightarrow> s = getQuery l)"
proof -
  from clear_labels_ok [OF assms] obtain s q' where "clear_labels q = Some (s, q')" "lq_inv q'" "labels q' = []"
    "lcapacity q' = lcapacity q" "\<not> lisEmpty q \<longrightarrow> s = getQuery (hd (labels q))" by blast
  then show ?thesis by (auto simp: lisEmpty_iff)
qed

theorem clear_empties_witness:
  "\<exists>s q'. clear_labels (LabelQueue_new 4) = Some (s, q') \<and> labels q' = []"
  using clear_empties [of "LabelQueue_new 4"] LabelQueue_new_inv [of 4] by auto

text \<open>
  Without the guard, a removal from an empty queue wraps the unsigned count around: the queue
  then reports that it is full and that it is not empty.
\<close>

theorem pop_empty_wraps:
  assumes "lq_inv q" "lisEmpty q"
  shows "\<exists>q'. pop_next q = Some q' \<and> nOfLabels q' = 2 ^ 32 - 1 \<and> lisFull q' \<and> \<not> lisEmpty q'"
  using assms lq_invD(1,2) [OF assms(1)]
  by (auto simp: pop_next_def lisEmpty_def lisFull_def u32_sub_def)

theorem pop_empty_wraps_witness:
  "\<exists>q'. pop_next (LabelQueue_new 4) = Some q' \<and> nOfLabels q' = 2 ^ 32 - 1 \<and> lisFull q' \<and> \<not> lisEmpty q'"
  using pop_empty_wraps [of "LabelQueue_new 4"] LabelQueue_new_inv [of 4]
  by (simp add: LabelQueue_new_def lisEmpty_def)

end
