(* ===== verification/Engine_Options.thy ===== *)
theory Engine_Options
  imports Constants
begin

text \<open>
  \<open>MAGE::Engine::load\<close> and \<open>GetNumInterp\<close> (\<open>mage/src/hts.cpp\<close>): the command line of a voice
  and the calls it makes to the hts\_engine library.

  \<open>argv\<close> is the list of the arguments that exist; reading a further one is \<open>OutOfBounds\<close>, as
  is storing more file names than an array was allocated for. \<open>Error( 1, ... )\<close> prints and
  exits with code 1, \<open>Usage()\<close> prints and exits with code 0. The loop \<open>while( --argc )\<close>
  counts \<open>argc\<close> down while the pointer \<open>argv\<close> moves up, so the two are separate here. The
  calls of the library are recorded as a list of \<open>hts_call\<close> in the order the code makes them;
  output files (\<open>-o\<close>) are opened and closed again without being written, and only their
  argument is consumed here (opening is taken to succeed). \<open>SetWeights i r b\<close> stands for the
  calls that set the weight \<open>r\<close> of speaker \<open>i\<close> for the durations, for streams 0 and 1 and, when
  \<open>b\<close>, for stream 2. The values of \<open>atoi\<close> and \<open>atof\<close> are those of the C library.
\<close>

section \<open>Results and reading arguments\<close>

datatype load_err = OutOfBounds | Exit int

type_synonym 'a res = "load_err + 'a"

definition arg :: "string list \<Rightarrow> nat \<Rightarrow> string res" where
  "arg argv p = (if p < length argv then Inr (argv ! p) else Inl OutOfBounds)"

definition char_at :: "string \<Rightarrow> nat \<Rightarrow> char" where
  "char_at s i = (if i < length s then s ! i else NUL)"

definition atoi :: "string \<Rightarrow> int" where
  "atoi str =
     (let (neg, s) = skip_sign (dropWhile isspace str);
          n = int (digits_val 10 (takeWhile (isdigit_in 10) s))
      in if neg then - n else n)"

section \<open>\<open>GetNumInterp\<close>\<close>

text \<open>The pointer is incremented before it is read: the argument at index 0 is not looked at.\<close>

function num_interp_loop :: "string list \<Rightarrow> int \<Rightarrow> nat \<Rightarrow> int \<Rightarrow> int res" where
  "num_interp_loop argv argc p num_interp =
     (if argc - 1 = 0 then Inr num_interp
      else if length argv \<le> Suc p then Inl OutOfBounds
      else if char_at (argv ! Suc p) 0 = CHR ''-'' \<and> char_at (argv ! Suc p) 1 = CHR ''i''
      then (if length argv \<le> Suc (Suc p) then Inl OutOfBounds
            else num_interp_loop argv (argc - 2) (Suc (Suc p))
              (if atoi (argv ! Suc (Suc p)) < 1 then 1 else atoi (argv ! Suc (Suc p))))
      else num_interp_loop argv (argc - 1) (Suc p) num_interp)"
  by pat_completeness auto
termination
  by (relation "measure (\<lambda>(argv, argc, p, n). length argv - p)") auto

declare num_interp_loop.simps [simp del]

definition GetNumInterp :: "int \<Rightarrow> string list \<Rightarrow> int res" where
  "GetNumInterp argc argv = num_interp_loop argv argc 0 1"

section \<open>The options\<close>

record options =
  fn_ts_dur :: "string list"
  fn_ts_mgc :: "string list"
  fn_ts_lf0 :: "string list"
  fn_ts_lpf :: "string list"
  fn_ms_dur :: "string list"
  fn_ms_mgc :: "string list"
  fn_ms_lf0 :: "string list"
  fn_ms_lpf :: "string list"
  fn_ws_mgc :: "string list"
  fn_ws_lf0 :: "string list"
  fn_ws_lpf :: "string list"
  fn_ts_gvm :: "string list"
  fn_ts_gvl :: "string list"
  fn_ts_gvf :: "string list"
  fn_ms_gvm :: "string list"
  fn_ms_gvl :: "string list"
  fn_ms_gvf :: "string list"
  fn_gv_switch :: "string option"
  rate_interp :: "real list"
  o_sampling_rate :: int
  o_fperiod :: int
  o_alpha :: real
  o_stage :: int
  o_beta :: real
  audio_buff_size :: int
  uv_threshold :: real
  gv_weight_mgc :: real
  gv_weight_lf0 :: real
  gv_weight_lpf :: real
  half_tone :: real
  phoneme_alignment :: bool
  speech_speed :: real
  use_log_gain :: bool
  labfn :: "string option"

definition default_options :: "nat \<Rightarrow> options" where
  "default_options num_interp =
     \<lparr>fn_ts_dur = [], fn_ts_mgc = [], fn_ts_lf0 = [], fn_ts_lpf = [],
      fn_ms_dur = [], fn_ms_mgc = [], fn_ms_lf0 = [], fn_ms_lpf = [],
      fn_ws_mgc = [], fn_ws_lf0 = [], fn_ws_lpf = [],
      fn_ts_gvm = [], fn_ts_gvl = [], fn_ts_gvf = [],
      fn_ms_gvm = [], fn_ms_gvl = [], fn_ms_gvf = [],
      fn_gv_switch = None, rate_interp = replicate num_interp 1,
      o_sampling_rate = 16000, o_fperiod = 80, o_alpha = 42 / 100, o_stage = 0, o_beta = 0,
      audio_buff_size = 1600, uv_threshold = 1 / 2,
      gv_weight_mgc = 1, gv_weight_lf0 = 1, gv_weight_lpf = 1,
      half_tone = 0, phoneme_alignment = False, speech_speed = 1, use_log_gain = False,
      labfn = None\<rparr>"

text \<open>\<open>fn[num++] = *++argv\<close> into an array allocated for \<open>cap\<close> names.\<close>

definition add_name :: "nat \<Rightarrow> string list \<Rightarrow> string \<Rightarrow> string list res" where
  "add_name cap names v = (if length names < cap then Inr (names @ [v]) else Inl OutOfBounds)"

definition opt_tree :: "nat \<Rightarrow> char \<Rightarrow> string \<Rightarrow> options \<Rightarrow> options res" where
  "opt_tree cap c v s =
     (if c = CHR ''d'' then res_bind (add_name cap (fn_ts_dur s) v) (\<lambda>x. Inr (s\<lparr>fn_ts_dur := x\<rparr>))
      else if c = CHR ''m'' then res_bind (add_name cap (fn_ts_mgc s) v) (\<lambda>x. Inr (s\<lparr>fn_ts_mgc := x\<rparr>))
      else if c = CHR ''f'' \<or> c = CHR ''p'' then res_bind (add_name cap (fn_ts_lf0 s) v) (\<lambda>x. Inr (s\<lparr>fn_ts_lf0 := x\<rparr>))
      else if c = CHR ''l'' then res_bind (add_name cap (fn_ts_lpf s) v) (\<lambda>x. Inr (s\<lparr>fn_ts_lpf := x\<rparr>))
      else Inl (Exit 1))"

definition opt_model :: "nat \<Rightarrow> char \<Rightarrow> string \<Rightarrow> options \<Rightarrow> options res" where
  "opt_model cap c v s =
     (if c = CHR ''d'' then res_bind (add_name cap (fn_ms_dur s) v) (\<lambda>x. Inr (s\<lparr>fn_ms_dur := x\<rparr>))
      else if c = CHR ''m'' then res_bind (add_name cap (fn_ms_mgc s) v) (\<lambda>x. Inr (s\<lparr>fn_ms_mgc := x\<rparr>))
      else if c = CHR ''f'' \<or> c = CHR ''p'' then res_bind (add_name cap (fn_ms_lf0 s) v) (\<lambda>x. Inr (s\<lparr>fn_ms_lf0 := x\<rparr>))
      else if c = CHR ''l'' then res_bind (add_name cap (fn_ms_lpf s) v) (\<lambda>x. Inr (s\<lparr>fn_ms_lpf := x\<rparr>))
      else Inl (Exit 1))"

definition opt_window :: "nat \<Rightarrow> char \<Rightarrow> string \<Rightarrow> options \<Rightarrow> options res" where
  "opt_window cap c v s =
     (if c = CHR ''m'' then res_bind (add_name cap (fn_ws_mgc s) v) (\<lambda>x. Inr (s\<lparr>fn_ws_mgc := x\<rparr>))
      else if c = CHR ''f'' \<or> c = CHR ''p'' then res_bind (add_name cap (fn_ws_lf0 s) v) (\<lambda>x. Inr (s\<lparr>fn_ws_lf0 := x\<rparr>))
      else if c = CHR ''l'' then res_bind (add_name cap (fn_ws_lpf s) v) (\<lambda>x. Inr (s\<lparr>fn_ws_lpf := x\<rparr>))
      else Inl (Exit 1))"

definition opt_output :: "char \<Rightarrow> options \<Rightarrow> options res" where
  "opt_output c s = (if c \<in> set ''wrdmfplt'' then Inr s else Inl (Exit 1))"

definition opt_half_tone :: "char \<Rightarrow> string \<Rightarrow> options \<Rightarrow> options res" where
  "opt_half_tone c v s =
     (if c = CHR ''m''
      then (let f = atof v;
                f = (if f < -24 then -24 else f);
                f = (if f > 24 then 24 else f)
            in Inr (s\<lparr>half_tone := f\<rparr>))
      else Inl (Exit 1))"

definition opt_gv_tree :: "nat \<Rightarrow> char \<Rightarrow> string \<Rightarrow> options \<Rightarrow> options res" where
  "opt_gv_tree cap c v s =
     (if c = CHR ''m'' then res_bind (add_name cap (fn_ts_gvm s) v) (\<lambda>x. Inr (s\<lparr>fn_ts_gvm := x\<rparr>))
      else if c = CHR ''f'' \<or> c = CHR ''p'' then res_bind (add_name cap (fn_ts_gvl s) v) (\<lambda>x. Inr (s\<lparr>fn_ts_gvl := x\<rparr>))
      else if c = CHR ''l'' then res_bind (add_name cap (fn_ts_gvf s) v) (\<lambda>x. Inr (s\<lparr>fn_ts_gvf := x\<rparr>))
      else Inl (Exit 1))"

definition opt_gv_model :: "nat \<Rightarrow> char \<Rightarrow> string \<Rightarrow> options \<Rightarrow> options res" where
  "opt_gv_model cap c v s =
     (if c = CHR ''m'' then res_bind (add_name cap (fn_ms_gvm s) v) (\<lambda>x. Inr (s\<lparr>fn_ms_gvm := x\<rparr>))
      else if c = CHR ''f'' \<or> c = CHR ''p'' then res_bind (add_name cap (fn_ms_gvl s) v) (\<lambda>x. Inr (s\<lparr>fn_ms_gvl := x\<rparr>))
      else if c = CHR ''l'' then res_bind (add_name cap (fn_ms_gvf s) v) (\<lambda>x. Inr (s\<lparr>fn_ms_gvf := x\<rparr>))
      else Inl (Exit 1))"

definition opt_gv_weight :: "char \<Rightarrow> string \<Rightarrow> options \<Rightarrow> options res" where
  "opt_gv_weight c v s =
     (if c = CHR ''m'' then Inr (s\<lparr>gv_weight_mgc := atof v\<rparr>)
      else if c = CHR ''f'' \<or> c = CHR ''p'' then Inr (s\<lparr>gv_weight_lf0 := atof v\<rparr>)
      else if c = CHR ''l'' then Inr (s\<lparr>gv_weight_lpf := atof v\<rparr>)
      else Inl (Exit 1))"

text \<open>
  An option with one argument \<open>v\<close>: \<open>o\<close> is its first letter and \<open>c\<close> its second. \<open>ncap\<close> is the
  number of speakers, the size of the arrays of trees and models; \<open>wcap\<close> is \<open>argc\<close>, the size
  of the arrays of windows.
\<close>

definition valued_option :: "nat \<Rightarrow> nat \<Rightarrow> char \<Rightarrow> char \<Rightarrow> string \<Rightarrow> options \<Rightarrow> options res" where
  "valued_option ncap wcap o1 c v s =
     (if o1 = CHR ''t'' then opt_tree ncap c v s
      else if o1 = CHR ''m'' then opt_model ncap c v s
      else if o1 = CHR ''d'' then opt_window wcap c v s
      else if o1 = CHR ''o'' then opt_output c s
      else if o1 = CHR ''s'' then Inr (s\<lparr>o_sampling_rate := atoi v\<rparr>)
      else if o1 = CHR ''p'' then Inr (s\<lparr>o_fperiod := atoi v\<rparr>)
      else if o1 = CHR ''a'' then Inr (s\<lparr>o_alpha := atof v\<rparr>)
      else if o1 = CHR ''g'' then Inr (s\<lparr>o_stage := atoi v\<rparr>)
      else if o1 = CHR ''b'' then Inr (s\<lparr>o_beta := atof v\<rparr>)
      else if o1 = CHR ''r'' then Inr (s\<lparr>speech_speed := atof v\<rparr>)
      else if o1 = CHR ''f'' then opt_half_tone c v s
      else if o1 = CHR ''u'' then Inr (s\<lparr>uv_threshold := atof v\<rparr>)
      else if o1 = CHR ''e'' then opt_gv_tree ncap c v s
      else if o1 = CHR ''c'' then opt_gv_model ncap c v s
      else if o1 = CHR ''j'' then opt_gv_weight c v s
      else if o1 = CHR ''k'' then Inr (s\<lparr>fn_gv_switch := Some v\<rparr>)
      else if o1 = CHR ''z'' then Inr (s\<lparr>audio_buff_size := atoi v\<rparr>)
      else Inl (Exit 1))"

text \<open>
  One turn of the loop, at the argument \<open>argv ! p\<close>: the new options, how far the pointer moves
  (\<open>argv++\<close> included) and how much \<open>argc\<close> is decremented in the body. An option whose second
  letter is wrong exits before its argument is read.
\<close>

definition valued_letters :: string where
  "valued_letters = ''tmdospagbrfuecjkz''"

definition second_letters :: "char \<Rightarrow> string option" where
  "second_letters o1 =
     (if o1 = CHR ''t'' \<or> o1 = CHR ''m'' then Some ''dmfpl''
      else if o1 = CHR ''d'' \<or> o1 = CHR ''e'' \<or> o1 = CHR ''c'' \<or> o1 = CHR ''j'' then Some ''mfpl''
      else if o1 = CHR ''o'' then Some ''wrdmfplt''
      else if o1 = CHR ''f'' then Some ''m'' else None)"

definition parse_one :: "nat \<Rightarrow> nat \<Rightarrow> string list \<Rightarrow> nat \<Rightarrow> options \<Rightarrow> (options \<times> nat \<times> nat) res" where
  "parse_one ncap wcap argv p s =
     res_bind (arg argv p) (\<lambda>a.
       if char_at a 0 = CHR ''-'' then
         (let o1 = char_at a 1; c = char_at a 2 in
          if o1 = CHR ''v'' then
            (if c = CHR ''p'' then Inr (s\<lparr>phoneme_alignment := True\<rparr>, 1, 0) else Inl (Exit 1))
          else if o1 = CHR ''h'' then Inl (Exit 0)
          else if o1 = CHR ''l'' then Inr (s\<lparr>use_log_gain := True\<rparr>, 1, 0)
          else if o1 = CHR ''i'' then
            (if p + 1 + ncap < length argv
             then Inr (s\<lparr>rate_interp := map (\<lambda>i. atof (argv ! (p + 2 + i))) [0..<ncap]\<rparr>, ncap + 2, ncap + 1)
             else Inl OutOfBounds)
          else if o1 \<in> set valued_letters then
            (case second_letters o1 of
               Some cs \<Rightarrow>
                 (if c \<in> set cs
                  then res_bind (arg argv (p + 1)) (\<lambda>v.
                    res_bind (valued_option ncap wcap o1 c v s) (\<lambda>s'. Inr (s', 2, 1)))
                  else Inl (Exit 1))
             | None \<Rightarrow>
                 res_bind (arg argv (p + 1)) (\<lambda>v.
                   res_bind (valued_option ncap wcap o1 c v s) (\<lambda>s'. Inr (s', 2, 1))))
          else Inl (Exit 1))
       else Inr (s\<lparr>labfn := Some a\<rparr>, 1, 0))"

lemma parse_one_advances: "parse_one n w argv p s = Inr (s', d, k) \<Longrightarrow> 0 < d \<and> p < length argv"
  by (auto simp: parse_one_def res_bind_Inr_iff arg_def Let_def split: if_splits option.splits)

text \<open>\<open>while( --argc )\<close>; \<open>argc\<close> is the value before the decrement.\<close>

function parse_loop :: "nat \<Rightarrow> nat \<Rightarrow> string list \<Rightarrow> int \<Rightarrow> nat \<Rightarrow> options \<Rightarrow> options res" where
  "parse_loop ncap wcap argv argc p s =
     (if argc - 1 = 0 then Inr s
      else (case parse_one ncap wcap argv p s of
              Inl e \<Rightarrow> Inl e
            | Inr (s', d, k) \<Rightarrow> parse_loop ncap wcap argv (argc - 1 - int k) (p + d) s'))"
  by pat_completeness auto
termination
  by (relation "measure (\<lambda>(ncap, wcap, argv, argc, p, s). length argv - p)")
     (auto dest!: parse_one_advances)

declare parse_loop.simps [simp del]

section \<open>The calls of the library\<close>

datatype hts_call =
    Initialize nat
  | LoadDuration "string list" "string list" nat
  | LoadParameter "string list" "string list" "string list" nat bool nat nat
  | LoadGV "string list" "string list option" nat nat
  | LoadGVSwitch string
  | SetGlobals int int real int bool real int real real real
  | SetGVWeightLPF real
  | SetWeights nat real bool
  | SetGVWeights nat nat real

definition has_lpf :: "options \<Rightarrow> bool" where
  "has_lpf s \<longleftrightarrow> fn_ms_lpf s \<noteq> [] \<or> fn_ts_lpf s \<noteq> []"

definition counts_ok :: "nat \<Rightarrow> options \<Rightarrow> bool" where
  "counts_ok n s \<longleftrightarrow> n = length (fn_ts_dur s) \<and> n = length (fn_ts_mgc s) \<and> n = length (fn_ts_lf0 s) \<and>
     n = length (fn_ms_dur s) \<and> n = length (fn_ms_mgc s) \<and> n = length (fn_ms_lf0 s) \<and>
     (has_lpf s \<longrightarrow> n = length (fn_ms_lpf s) \<and> n = length (fn_ts_lpf s))"

text \<open>The stream index of the third \<open>LoadGV\<close> is the one written in the code.\<close>

definition gv_calls :: "nat \<Rightarrow> options \<Rightarrow> hts_call list" where
  "gv_calls n s =
     (if n = length (fn_ms_gvm s)
      then (if length (fn_ms_gvm s) = length (fn_ts_gvm s)
            then [LoadGV (fn_ms_gvm s) (Some (fn_ts_gvm s)) 0 n]
            else [LoadGV (fn_ms_gvm s) None 0 n]) else []) @
     (if n = length (fn_ms_gvl s)
      then (if length (fn_ms_gvl s) = length (fn_ts_gvl s)
            then [LoadGV (fn_ms_gvl s) (Some (fn_ts_gvl s)) 1 n]
            else [LoadGV (fn_ms_gvl s) None 1 n]) else []) @
     (if n = length (fn_ms_gvf s) \<and> has_lpf s
      then (if length (fn_ms_gvf s) = length (fn_ts_gvf s)
            then [LoadGV (fn_ms_gvf s) (Some (fn_ts_gvf s)) 0 n]
            else [LoadGV (fn_ms_gvf s) None 2 n]) else [])"

definition weight_calls :: "nat \<Rightarrow> options \<Rightarrow> hts_call list" where
  "weight_calls n s =
     map (\<lambda>i. SetWeights i (rate_interp s ! i) (has_lpf s)) [0..<n] @
     (if n = length (fn_ms_gvm s) then map (\<lambda>i. SetGVWeights 0 i (rate_interp s ! i)) [0..<n] else []) @
     (if n = length (fn_ms_gvl s) then map (\<lambda>i. SetGVWeights 1 i (rate_interp s ! i)) [0..<n] else []) @
     (if n = length (fn_ms_gvf s) \<and> has_lpf s
      then map (\<lambda>i. SetGVWeights 2 i (rate_interp s ! i)) [0..<n] else [])"

definition load_calls :: "nat \<Rightarrow> options \<Rightarrow> hts_call list" where
  "load_calls n s =
     [Initialize (if has_lpf s then 3 else 2),
      LoadDuration (fn_ms_dur s) (fn_ts_dur s) n,
      LoadParameter (fn_ms_mgc s) (fn_ts_mgc s) (fn_ws_mgc s) 0 False (length (fn_ws_mgc s)) n,
      LoadParameter (fn_ms_lf0 s) (fn_ts_lf0 s) (fn_ws_lf0 s) 1 True (length (fn_ws_lf0 s)) n] @
     (if has_lpf s
      then [LoadParameter (fn_ms_lpf s) (fn_ts_lpf s) (fn_ws_lpf s) 2 False (length (fn_ws_lpf s)) n]
      else []) @
     gv_calls n s @
     (case fn_gv_switch s of Some f \<Rightarrow> [LoadGVSwitch f] | None \<Rightarrow> []) @
     [SetGlobals (o_sampling_rate s) (o_fperiod s) (o_alpha s) (o_stage s) (use_log_gain s)
        (o_beta s) (audio_buff_size s) (uv_threshold s) (gv_weight_mgc s) (gv_weight_lf0 s)] @
     (if has_lpf s then [SetGVWeightLPF (gv_weight_lpf s)] else []) @
     weight_calls n s"

definition load :: "int \<Rightarrow> string list \<Rightarrow> (options \<times> hts_call list) res" where
  "load argc argv =
     (if argc = 1 then Inl (Exit 0)
      else res_bind (GetNumInterp argc argv) (\<lambda>ni.
        let n = nat ni in
        res_bind (parse_loop n (nat argc) argv argc 0 (default_options n)) (\<lambda>s.
          if counts_ok n s then Inr (s, load_calls n s) else Inl (Exit 1))))"

section \<open>Lemmas: the arrays are not overrun\<close>

definition options_within :: "nat \<Rightarrow> nat \<Rightarrow> options \<Rightarrow> bool" where
  "options_within n w s \<longleftrightarrow>
     (\<forall>xs \<in> {fn_ts_dur s, fn_ts_mgc s, fn_ts_lf0 s, fn_ts_lpf s, fn_ms_dur s, fn_ms_mgc s, fn_ms_lf0 s,
        fn_ms_lpf s, fn_ts_gvm s, fn_ts_gvl s, fn_ts_gvf s, fn_ms_gvm s, fn_ms_gvl s, fn_ms_gvf s}.
        length xs \<le> n) \<and>
     (\<forall>xs \<in> {fn_ws_mgc s, fn_ws_lf0 s, fn_ws_lpf s}. length xs \<le> w) \<and>
     length (rate_interp s) = n \<and> -24 \<le> half_tone s \<and> half_tone s \<le> 24"

lemma add_name_Inr: "add_name cap xs v = Inr ys \<Longrightarrow> length ys \<le> cap"
  by (auto simp: add_name_def split: if_splits)

text \<open>Each assignment keeps the bounds of the other fields.\<close>

lemma within_names [simp]:
  assumes "options_within n w s"
  shows "length x \<le> n \<Longrightarrow> options_within n w (s\<lparr>fn_ts_dur := x\<rparr>)"
    and "length x \<le> n \<Longrightarrow> options_within n w (s\<lparr>fn_ts_mgc := x\<rparr>)"
    and "length x \<le> n \<Longrightarrow> options_within n w (s\<lparr>fn_ts_lf0 := x\<rparr>)"
    and "length x \<le> n \<Longrightarrow> options_within n w (s\<lparr>fn_ts_lpf := x\<rparr>)"
    and "length x \<le> n \<Longrightarrow> options_within n w (s\<lparr>fn_ms_dur := x\<rparr>)"
    and "length x \<le> n \<Longrightarrow> options_within n w (s\<lparr>fn_ms_mgc := x\<rparr>)"
    and "length x \<le> n \<Longrightarrow> options_within n w (s\<lparr>fn_ms_lf0 := x\<rparr>)"
    and "length x \<le> n \<Longrightarrow> options_within n w (s\<lparr>fn_ms_lpf := x\<rparr>)"
    and "length x \<le> w \<Longrightarrow> options_within n w (s\<lparr>fn_ws_mgc := x\<rparr>)"
    and "length x \<le> w \<Longrightarrow> options_within n w (s\<lparr>fn_ws_lf0 := x\<rparr>)"
    and "length x \<le> w \<Longrightarrow> options_within n w (s\<lparr>fn_ws_lpf := x\<rparr>)"
    and "length x \<le> n \<Longrightarrow> options_within n w (s\<lparr>fn_ts_gvm := x\<rparr>)"
    and "length x \<le> n \<Longrightarrow> options_within n w (s\<lparr>fn_ts_gvl := x\<rparr>)"
    and "length x \<le> n \<Longrightarrow> options_within n w (s\<lparr>fn_ts_gvf := x\<rparr>)"
    and "length x \<le> n \<Longrightarrow> options_within n w (s\<lparr>fn_ms_gvm := x\<rparr>)"
    and "length x \<le> n \<Longrightarrow> options_within n w (s\<lparr>fn_ms_gvl := x\<rparr>)"
    and "length x \<le> n \<Longrightarrow> options_within n w (s\<lparr>fn_ms_gvf := x\<rparr>)"
    and "length r = n \<Longrightarrow> options_within n w (s\<lparr>rate_interp := r\<rparr>)"
    and "-24 \<le> h \<Longrightarrow> h \<le> 24 \<Longrightarrow> options_within n w (s\<lparr>half_tone := h\<rparr>)"
  using assms by (simp_all add: options_within_def)

lemma within_values [simp]:
  assumes "options_within n w s"
  shows "options_within n w (s\<lparr>fn_gv_switch := f\<rparr>)"
    and "options_within n w (s\<lparr>o_sampling_rate := i\<rparr>)"
    and "options_within n w (s\<lparr>o_fperiod := i\<rparr>)"
    and "options_within n w (s\<lparr>o_alpha := r\<rparr>)"
    and "options_within n w (s\<lparr>o_stage := i\<rparr>)"
    and "options_within n w (s\<lparr>o_beta := r\<rparr>)"
    and "options_within n w (s\<lparr>audio_buff_size := i\<rparr>)"
    and "options_within n w (s\<lparr>uv_threshold := r\<rparr>)"
    and "options_within n w (s\<lparr>gv_weight_mgc := r\<rparr>)"
    and "options_within n w (s\<lparr>gv_weight_lf0 := r\<rparr>)"
    and "options_within n w (s\<lparr>gv_weight_lpf := r\<rparr>)"
    and "options_within n w (s\<lparr>phoneme_alignment := b\<rparr>)"
    and "options_within n w (s\<lparr>speech_speed := r\<rparr>)"
    and "options_within n w (s\<lparr>use_log_gain := b\<rparr>)"
    and "options_within n w (s\<lparr>labfn := f\<rparr>)"
  using assms by (simp_all add: options_within_def)

text \<open>
  \<open>res_ok P r\<close>: when \<open>r\<close> is not an error its value has \<open>P\<close>. The rules follow the shape of the
  definitions, so that one \<open>intro\<close> walks through every branch.
\<close>

definition res_ok :: "('a \<Rightarrow> bool) \<Rightarrow> 'a res \<Rightarrow> bool" where
  "res_ok P r \<longleftrightarrow> (\<forall>x. r = Inr x \<longrightarrow> P x)"

lemma res_ok_if: "res_ok P x \<Longrightarrow> res_ok P y \<Longrightarrow> res_ok P (if b then x else y)"
  by simp

lemma res_ok_Inl: "res_ok P (Inl e)"
  by (simp add: res_ok_def)

lemma res_ok_Inr: "P x \<Longrightarrow> res_ok P (Inr x)"
  by (simp add: res_ok_def)

lemma res_ok_bind: "res_ok Q r \<Longrightarrow> (\<And>x. Q x \<Longrightarrow> res_ok P (f x)) \<Longrightarrow> res_ok P (res_bind r f)"
  by (cases r) (auto simp: res_ok_def)

lemma res_ok_arg: "res_ok (\<lambda>_. True) (arg argv p)"
  by (simp add: res_ok_def)

lemma res_ok_name: "res_ok (\<lambda>x. length x \<le> cap) (add_name cap xs v)"
  by (auto simp: res_ok_def dest: add_name_Inr)

lemma res_ok_option_case:
  "res_ok P x \<Longrightarrow> (\<And>cs. res_ok P (f cs)) \<Longrightarrow> res_ok P (case o1 of None \<Rightarrow> x | Some cs \<Rightarrow> f cs)"
  by (simp split: option.splits)

lemmas res_ok_rules = res_ok_if res_ok_Inl res_ok_Inr res_ok_bind [OF res_ok_name]
  res_ok_bind [OF res_ok_arg] res_ok_option_case

lemma opt_within:
  assumes "options_within n w s"
  shows "res_ok (options_within n w) (opt_tree n c v s)"
    and "res_ok (options_within n w) (opt_model n c v s)"
    and "res_ok (options_within n w) (opt_window w c v s)"
    and "res_ok (options_within n w) (opt_gv_tree n c v s)"
    and "res_ok (options_within n w) (opt_gv_model n c v s)"
    and "res_ok (options_within n w) (opt_output c s)"
    and "res_ok (options_within n w) (opt_half_tone c v s)"
    and "res_ok (options_within n w) (opt_gv_weight c v s)"
  unfolding opt_tree_def opt_model_def opt_window_def opt_gv_tree_def opt_gv_model_def
    opt_output_def opt_half_tone_def opt_gv_weight_def Let_def
  by (intro res_ok_rules; simp add: assms)+

lemma valued_option_within:
  assumes "options_within n w s"
  shows "res_ok (options_within n w) (valued_option n w o1 c v s)"
  unfolding valued_option_def
  by (intro res_ok_rules opt_within assms; simp add: assms)

lemma parse_one_within:
  assumes "options_within n w s"
  shows "res_ok (\<lambda>(s', d, k). options_within n w s') (parse_one n w argv p s)"
  unfolding parse_one_def Let_def
  by (intro res_ok_rules res_ok_bind [OF valued_option_within [OF assms]]; simp add: assms)

lemma parse_loop_within:
  "options_within n w s \<Longrightarrow> parse_loop n w argv argc p s = Inr s' \<Longrightarrow> options_within n w s'"
proof (induction n w argv argc p s rule: parse_loop.induct)
  case (1 n w argv argc p s)
  show ?case
  proof (cases "argc - 1 = 0")
    case True
    with "1.prems" show ?thesis by (simp add: parse_loop.simps [of n w argv argc])
  next
    case False
    then obtain s1 d k where one: "parse_one n w argv p s = Inr (s1, d, k)"
      and rest: "parse_loop n w argv (argc - 1 - int k) (p + d) s1 = Inr s'"
      using "1.prems"(2) by (auto simp: parse_loop.simps [of n w argv argc] split: sum.splits)
    from "1.IH" [OF False one refl refl] parse_one_within [OF "1.prems"(1), of argv p] one rest
    show ?thesis by (simp add: res_ok_def)
  qed
qed

lemma default_options_within: "options_within n w (default_options n)"
  by (simp add: options_within_def default_options_def)

section \<open>Lemmas: a command line of option and value pairs\<close>

definition valued_arg :: "string \<Rightarrow> bool" where
  "valued_arg a \<longleftrightarrow> char_at a 0 = CHR ''-'' \<and> char_at a 1 \<in> set valued_letters \<and>
     (case second_letters (char_at a 1) of Some cs \<Rightarrow> char_at a 2 \<in> set cs | None \<Rightarrow> True)"

fun run_pairs :: "nat \<Rightarrow> nat \<Rightarrow> (string \<times> string) list \<Rightarrow> options \<Rightarrow> options res" where
  "run_pairs n w [] s = Inr s"
| "run_pairs n w ((a, v) # ps) s =
     res_bind (valued_option n w (char_at a 1) (char_at a 2) v s) (run_pairs n w ps)"

definition flat :: "(string \<times> string) list \<Rightarrow> string list" where
  "flat ps = concat (map (\<lambda>(a, v). [a, v]) ps)"

lemma flat_simps [simp]: "flat [] = []" "flat ((a, v) # ps) = a # v # flat ps"
  by (simp_all add: flat_def)

lemma length_flat: "length (flat ps) = 2 * length ps"
  by (induction ps) auto

lemma parse_one_pair:
  assumes "valued_arg a"
  shows "parse_one n w (pre @ a # v # rest) (length pre) s =
    res_bind (valued_option n w (char_at a 1) (char_at a 2) v s) (\<lambda>s'. Inr (s', 2, 1))"
proof -
  have o1: "char_at a 1 \<noteq> CHR ''v''" "char_at a 1 \<noteq> CHR ''h''" "char_at a 1 \<noteq> CHR ''l''"
    "char_at a 1 \<noteq> CHR ''i''"
    using assms by (auto simp: valued_arg_def valued_letters_def)
  have "arg (pre @ a # v # rest) (length pre) = Inr a" "arg (pre @ a # v # rest) (length pre + 1) = Inr v"
    by (simp_all add: arg_def nth_append)
  with assms o1 show ?thesis
    by (auto simp: parse_one_def valued_arg_def Let_def split: option.splits)
qed

text \<open>The pairs are parsed one after the other; what \<open>argc\<close> is left with decides the rest.\<close>

lemma parse_loop_pairs:
  assumes "\<forall>(a, v) \<in> set ps. valued_arg a" "0 \<le> argc"
  shows "parse_loop n w (pre @ flat ps @ rest) (2 * int (length ps) + argc) (length pre) s =
    res_bind (run_pairs n w ps s)
      (\<lambda>s'. parse_loop n w (pre @ flat ps @ rest) argc (length pre + 2 * length ps) s')"
  using assms(1)
proof (induction ps arbitrary: pre s)
  case (Cons x ps)
  obtain a v where x: "x = (a, v)" by (cases x)
  then have va: "valued_arg a" using Cons.prems by auto
  let ?argv = "pre @ a # v # flat ps @ rest"
  have "parse_loop n w ?argv (2 * int (length (x # ps)) + argc) (length pre) s =
    res_bind (valued_option n w (char_at a 1) (char_at a 2) v s)
      (\<lambda>s'. parse_loop n w ?argv (2 * int (length ps) + argc) (length pre + 2) s')"
    using assms(2) parse_one_pair [OF va, of n w pre v "flat ps @ rest" s]
    by (cases "valued_option n w (char_at a 1) (char_at a 2) v s")
      (simp_all add: parse_loop.simps [of n w ?argv "2 + 2 * int (length ps) + argc"])
  then show ?case
    using Cons.IH [of "pre @ [a, v]"] Cons.prems
    by (cases "valued_option n w (char_at a 1) (char_at a 2) v s") (simp_all add: x)
qed simp

text \<open>Without a \<open>-i\<close> option there is one speaker.\<close>

definition is_i_option :: "string \<Rightarrow> bool" where
  "is_i_option a \<longleftrightarrow> char_at a 0 = CHR ''-'' \<and> char_at a 1 = CHR ''i''"

lemma num_interp_loop_no_i:
  assumes "\<forall>a \<in> set argv. \<not> is_i_option a"
  shows "p + Suc m \<le> length argv \<Longrightarrow> num_interp_loop argv (1 + int m) p k = Inr k"
proof (induction m arbitrary: p)
  case 0
  show ?case by (simp add: num_interp_loop.simps)
next
  case (Suc m)
  then have "argv ! Suc p \<in> set argv" by simp
  with assms have "\<not> is_i_option (argv ! Suc p)" by blast
  with Suc show ?case
    by (auto simp: num_interp_loop.simps [of argv "2 + int m"] is_i_option_def)
qed

lemma GetNumInterp_no_i:
  assumes "\<forall>a \<in> set argv. \<not> is_i_option a" "argv \<noteq> []"
  shows "GetNumInterp (int (length argv)) argv = Inr 1"
proof -
  obtain m where "length argv = Suc m" using assms(2) by (cases argv) auto
  then show ?thesis
    using num_interp_loop_no_i [OF assms(1), of 0 m 1] by (simp add: GetNumInterp_def)
qed

lemma parse_loop_past_end: "parse_loop n w argv 0 (length argv) s = Inl OutOfBounds"
  by (simp add: parse_loop.simps [of n w argv 0] parse_one_def arg_def)

lemma load_pairs_fail:
  assumes "\<forall>(a, v) \<in> set ps. valued_arg a" "ps \<noteq> []"
  shows "load (int (length (flat ps))) (flat ps) \<noteq> Inr r"
proof -
  have "parse_loop n w (flat ps) (int (length (flat ps))) 0 s \<noteq> Inr s'" for n w s s'
    using parse_loop_pairs [OF assms(1), of 0 n w "[]" "[]" s] parse_loop_past_end [of n w "flat ps"]
    by (cases "run_pairs n w ps s") (simp_all add: length_flat)
  then show ?thesis
    using assms(2) by (auto simp: load_def res_bind_Inr_iff Let_def split: if_splits)
qed

lemma load_pairs_parse:
  assumes "\<forall>(a, v) \<in> set ps. valued_arg a" "ps \<noteq> []"
    and "\<forall>a \<in> set (flat ps @ [x]). \<not> is_i_option a"
  shows "load (int (length (flat ps @ [x]))) (flat ps @ [x]) =
    res_bind (run_pairs 1 (length (flat ps @ [x])) ps (default_options 1))
      (\<lambda>s. if counts_ok 1 s then Inr (s, load_calls 1 s) else Inl (Exit 1))"
proof -
  let ?argv = "flat ps @ [x]"
  have "parse_loop n w ?argv (int (length ?argv)) 0 s = run_pairs n w ps s" for n w s
    using parse_loop_pairs [OF assms(1), of 1 n w "[]" "[x]" s]
    by (cases "run_pairs n w ps s")
      (simp_all add: length_flat add.commute parse_loop.simps [of n w ?argv 1])
  moreover have "GetNumInterp (int (length ?argv)) ?argv = Inr 1"
    using assms(3) by (intro GetNumInterp_no_i) auto
  moreover have "length ?argv \<noteq> 1" using assms(2) by (cases ps) auto
  ultimately show ?thesis by (simp add: load_def del: length_append cong: if_cong)
qed

section \<open>Properties\<close>

text \<open>
  A command line of options with one value each, of the length that \<open>argc\<close> gives, is never
  loaded: \<open>while( --argc )\<close> skips zero and the parser leaves \<open>argv\<close>.
\<close>

theorem load_even_fails:
  assumes "\<forall>(a, v) \<in> set ps. valued_arg a" "ps \<noteq> []"
  shows "load (int (length (flat ps))) (flat ps) \<noteq> Inr r"
  by (rule load_pairs_fail [OF assms])

theorem load_even_fails_witness:
  "\<forall>r. load 4 [''-s'', ''48000'', ''-p'', ''240''] \<noteq> Inr r"
  using load_even_fails [of "[(''-s'', ''48000''), (''-p'', ''240'')]"]
  by (simp add: valued_arg_def char_at_def valued_letters_def second_letters_def)

text \<open>
  C29. With one more word after such options (the label file that the engine does not use), the
  parser, for all its moving of \<open>argc\<close> and \<open>argv\<close>, reads the options in order and one by one,
  and the voice is loaded when the numbers of trees and models are right.
\<close>

theorem load_odd_parses:
  assumes "\<forall>(a, v) \<in> set ps. valued_arg a" "ps \<noteq> []"
    and "\<forall>a \<in> set (flat ps @ [x]). \<not> is_i_option a"
  shows "load (int (length (flat ps @ [x]))) (flat ps @ [x]) =
    res_bind (run_pairs 1 (length (flat ps @ [x])) ps (default_options 1))
      (\<lambda>s. if counts_ok 1 s then Inr (s, load_calls 1 s) else Inl (Exit 1))"
  by (rule load_pairs_parse [OF assms])

theorem load_odd_parses_witness:
  "load 3 [''-s'', ''48000'', ''x.lab''] = Inl (Exit 1)"
  using load_odd_parses [of "[(''-s'', ''48000'')]" "''x.lab''"]
  by (simp add: valued_arg_def char_at_def valued_letters_def second_letters_def is_i_option_def valued_option_def
      counts_ok_def default_options_def)


end
