(* ===== verification/Mage.thy ===== *)
theory Mage
  imports ModelQueue LabelQueue Engine_Options "HOL-Library.Char_ord" "HOL-Library.List_Lexorder"
begin

text \<open>
  \<open>MAGE::Mage\<close> (\<open>mage/src/mage.cpp\<close>, \<open>mage.h\<close>): the controller that owns the queues, the
  vocoder and the voices. The record has the fields of the class. The map of voices is the list
  of its entries in the order of the keys, as \<open>std::map\<close> iterates; an entry has the voice's
  interpolation weights (one per stream and one for the durations) and its \<open>Engine\<close>. \<open>model\<close>
  is a slot of the model queue. \<open>interpolationWeights\<close> is \<open>None\<close> before its first assignment;
  \<open>updateFunction\<close> is only read after an assignment (\<open>act_duration\<close> without an action does not
  read it) and starts with zeros here.

  What the library makes of the calls of \<open>Engine::load\<close> is the parameter \<open>mk_engine\<close>. \<open>None\<close> is
  undefined behaviour, here also the use of the entry that \<open>engine[defaultEngine]\<close> creates when
  the name is not in the map. \<open>run\<close> returns the frames that \<open>generate\<close> writes to the frame
  queue beside the new state; their transfer is the relation \<open>xfer\<close>.
\<close>

section \<open>State\<close>

record Mage =
  labelQueue :: LabelQueue
  modelQueue :: "Model MemQueue"
  queueMemory :: ModelQueueMemory
  frameQueue :: "Frame MemQueue"
  defaultEngine :: string
  interpolationFlag :: bool
  engine :: "(string \<times> real list \<times> Engine) list"
  model :: nat
  hopLen :: int
  sampleCount :: int
  vocoder :: Vocoder
  label :: Label
  labelSpeed :: real
  flag :: bool
  action :: int
  updateFunction :: "real list"
  interpolationWeights :: "real list option"
  flagReady :: bool

definition Frame_zero :: Frame where
  "Frame_zero = \<lparr>fstreams = replicate nOfStreams (replicate maxStreamLen 0), fvoiced = False\<rparr>"

definition init :: Mage where
  "init =
     \<lparr>labelQueue = LabelQueue_new maxLabelQueueLen, modelQueue = MemQueue_new maxModelQueueLen Model_new,
      queueMemory = ModelQueueMemory_new, frameQueue = MemQueue_new maxFrameQueueLen Frame_zero,
      defaultEngine = '''', interpolationFlag = False, engine = [], model = 0,
      hopLen = defaultFrameRate, sampleCount = 0, vocoder = default_vocoder, label = Label_new,
      labelSpeed = 1, flag = True, action = noaction, updateFunction = replicate nOfStates 0,
      interpolationWeights = None, flagReady = False\<rparr>"

section \<open>Controls of the vocoder\<close>

definition mage_setSpeed :: "real \<Rightarrow> int \<Rightarrow> Mage \<Rightarrow> Mage option" where
  "mage_setSpeed sp act m = do {
     h \<leftarrow> (if act = overwrite then to_int sp
          else if act = shift then to_int (real_of_int (hopLen m) + sp)
          else if act = scale then to_int (real_of_int (hopLen m) * sp)
          else Some defaultFrameRate);
     let h = (if h < 1 then 1 else h);
     let h = (if h > defaultFrameRate * 20 then defaultFrameRate * 20 else h);
     Some (m\<lparr>hopLen := h\<rparr>) }"

definition mage_setPitch :: "real \<Rightarrow> int \<Rightarrow> Mage \<Rightarrow> Mage" where
  "mage_setPitch pitch act m = m\<lparr>vocoder := setPitch pitch act False (vocoder m)\<rparr>"

definition mage_setVolume :: "real \<Rightarrow> Mage \<Rightarrow> Mage" where
  "mage_setVolume x m = m\<lparr>vocoder := setVolume x (vocoder m)\<rparr>"

definition mage_setAlpha :: "real \<Rightarrow> Mage \<Rightarrow> Mage" where
  "mage_setAlpha x m = m\<lparr>vocoder := setAlpha x (vocoder m)\<rparr>"

definition mage_setGamma :: "real \<Rightarrow> Mage \<Rightarrow> Mage option" where
  "mage_setGamma x m = do { v \<leftarrow> setGamma x (vocoder m); Some (m\<lparr>vocoder := v\<rparr>) }"

definition setPOrder :: "real \<Rightarrow> Mage \<Rightarrow> Mage option" where
  "setPOrder x m = do { v \<leftarrow> setPadeOrder x (vocoder m); Some (m\<lparr>vocoder := v\<rparr>) }"

definition mage_setDuration :: "real list \<Rightarrow> int \<Rightarrow> Mage \<Rightarrow> Mage option" where
  "mage_setDuration f act m =
     (if nOfStates \<le> length f then Some (m\<lparr>action := act, updateFunction := take nOfStates f\<rparr>) else None)"

definition resetVocoder :: "Mage \<Rightarrow> Mage" where
  "resetVocoder m = m\<lparr>vocoder := vreset (vocoder m)\<rparr>"

section \<open>Samples\<close>

definition popSamples :: "real \<Rightarrow> Mage \<Rightarrow> (real \<times> Mage) option" where
  "popSamples noise m =
     (if vready (vocoder m) then do {
        (x, v) \<leftarrow> vpop noise (vocoder m);
        let sample = 1 / 2 * x / 32768;
        Some (if sample > 1 then 1 else if sample < -1 then -1 else sample, m\<lparr>vocoder := v\<rparr>) }
      else Some (0, m))"

definition updateSamples :: "Mage \<Rightarrow> Mage option" where
  "updateSamples m =
     (if sampleCount m \<ge> hopLen m - 1 then do {
        m \<leftarrow> (if \<not> isEmpty (frameQueue m) then do {
                f \<leftarrow> slot_get (frameQueue m) (get (frameQueue m));
                v \<leftarrow> push_frame f False (vocoder m);
                q \<leftarrow> pop (frameQueue m) 1;
                Some (m\<lparr>vocoder := v, frameQueue := q\<rparr>) }
              else Some m);
        Some (m\<lparr>sampleCount := 0\<rparr>) }
      else Some (m\<lparr>sampleCount := sampleCount m + 1\<rparr>))"

section \<open>Labels\<close>

definition popLabel :: "Mage \<Rightarrow> (bool \<times> Mage) option" where
  "popLabel m =
     (if \<not> lisEmpty (labelQueue m) then do {
        (l, q) \<leftarrow> pop_label (labelQueue m);
        Some (True, m\<lparr>labelQueue := q, label := Label.setSpeed l (labelSpeed m)\<rparr>) }
      else Some (False, m))"

definition pushLabel :: "Label \<Rightarrow> Mage \<Rightarrow> Mage option" where
  "pushLabel l m =
     (if \<not> lisFull (labelQueue m) then do { q \<leftarrow> push_label (labelQueue m) l; Some (m\<lparr>labelQueue := q\<rparr>) }
      else Some m)"

definition clearLabels :: "Mage \<Rightarrow> (string \<times> Mage) option" where
  "clearLabels m = do { (s, q) \<leftarrow> clear_labels (labelQueue m); Some (s, m\<lparr>labelQueue := q\<rparr>) }"

section \<open>Voices\<close>

text \<open>Insertion into the sorted list of entries, which replaces an entry with the same key.\<close>

fun put_engine :: "string \<Rightarrow> real list \<times> Engine \<Rightarrow> (string \<times> real list \<times> Engine) list \<Rightarrow>
    (string \<times> real list \<times> Engine) list" where
  "put_engine k v [] = [(k, v)]"
| "put_engine k v ((k', v') # es) =
     (if k < k' then (k, v) # (k', v') # es
      else if k = k' then (k, v) # es
      else (k', v') # put_engine k v es)"

definition setDefaultEngine :: "string \<Rightarrow> Mage \<Rightarrow> Mage" where
  "setDefaultEngine name m =
     (if map_of (engine m) name \<noteq> None then m\<lparr>defaultEngine := name\<rparr> else m)"

definition addEngine :: "(hts_call list \<Rightarrow> Engine) \<Rightarrow> string \<Rightarrow> int \<Rightarrow> string list \<Rightarrow> Mage \<Rightarrow> Mage res" where
  "addEngine mk_engine name argc argv m =
     (if map_of (engine m) name \<noteq> None then Inr m
      else res_bind (load argc argv) (\<lambda>(s, calls).
        let m = m\<lparr>engine := put_engine name
                    (replicate (nOfStreams + 1) defaultInterpolationWeight, mk_engine calls) (engine m)\<rparr>
        in Inr (if defaultEngine m = '''' then m\<lparr>defaultEngine := name, flagReady := True\<rparr> else m)))"

definition removeEngine :: "string \<Rightarrow> Mage \<Rightarrow> Mage" where
  "removeEngine name m =
     (if map_of (engine m) name \<noteq> None
      then (let es = filter (\<lambda>(k, v). k \<noteq> name) (engine m); m = m\<lparr>engine := es\<rparr>
            in case es of
                 [] \<Rightarrow> m\<lparr>defaultEngine := '''', flagReady := False\<rparr>
               | (k, v) # _ \<Rightarrow> if defaultEngine m = name then m\<lparr>defaultEngine := k, flagReady := True\<rparr> else m)
      else m)"

definition checkReady :: "Mage \<Rightarrow> Mage" where
  "checkReady m =
     (let m = m\<lparr>flagReady := False\<rparr>
      in if engine m = [] then m
         else if defaultEngine m = '''' then m
         else m\<lparr>flagReady := True\<rparr>)"

definition resetInterpolationWeights :: "Mage \<Rightarrow> Mage" where
  "resetInterpolationWeights m =
     m\<lparr>engine := map (\<lambda>(k, w, e). (k, map (\<lambda>i. if i < nOfStreams + 1 then 0 else w ! i) [0..<length w], e)) (engine m)\<rparr>"

text \<open>Each entry of the argument that names a voice replaces that voice's weights.\<close>

definition setInterpolationFunctions :: "(string \<times> real list) list \<Rightarrow> Mage \<Rightarrow> Mage option" where
  "setInterpolationFunctions fs m =
     foldM (\<lambda>m (name, w).
         case map_of (engine m) name of
           None \<Rightarrow> Some m
         | Some (w0, e) \<Rightarrow>
             if nOfStreams + 1 \<le> length w
             then Some (m\<lparr>engine := put_engine name (take (nOfStreams + 1) w @ drop (nOfStreams + 1) w0, e) (engine m)\<rparr>)
             else None)
       m fs"

text \<open>The sums of the absolute weights of a stream over all voices, then the division by them.\<close>

definition weight_sums :: "(string \<times> real list \<times> Engine) list \<Rightarrow> real list" where
  "weight_sums es = map (\<lambda>i. sum_list (map (\<lambda>(k, w, e). \<bar>w ! i\<bar>) es)) [0..<nOfStreams + 1]"

definition checkInterpolationFunctions :: "Mage \<Rightarrow> Mage option" where
  "checkInterpolationFunctions m =
     (if list_all (\<lambda>(k, w, e). nOfStreams + 1 \<le> length w) (engine m)
      then (let s = weight_sums (engine m)
            in Some (m\<lparr>interpolationWeights := Some s,
                       engine := map (\<lambda>(k, w, e). (k, map (\<lambda>i. if i < nOfStreams + 1 \<and> s ! i \<noteq> 0
                          then w ! i / s ! i else w ! i) [0..<length w], e)) (engine m)\<rparr>))
      else None)"

text \<open>\<open>reset\<close> reads \<open>interpolationWeights\<close> before it computes them.\<close>

definition reset_weights :: "Mage \<Rightarrow> Mage option" where
  "reset_weights m =
     (if engine m = [] then Some m
      else do {
        s \<leftarrow> interpolationWeights m;
        Some (m\<lparr>engine := map (\<lambda>(k, w, e). (k, map (\<lambda>i. if i < nOfStreams + 1 \<and> s ! i \<noteq> 0
           then defaultInterpolationWeight else w ! i) [0..<length w], e)) (engine m)\<rparr>) })"

definition reset :: "Mage \<Rightarrow> Mage option" where
  "reset m = do {
     let m = resetVocoder (m\<lparr>flag := True, labelSpeed := 1, sampleCount := 0, action := noaction,
                   hopLen := defaultFrameRate, interpolationFlag := False\<rparr>);
     m \<leftarrow> reset_weights m;
     checkInterpolationFunctions m }"

section \<open>The configuration file\<close>

text \<open>The words of the lines, at most \<open>maxNumOfArguments\<close> of them and each shorter than its buffer.\<close>

fun split_words :: "string \<Rightarrow> string \<Rightarrow> string list" where
  "split_words acc [] = [rev acc]"
| "split_words acc (c # cs) = (if c = CHR '' '' then rev acc # split_words [] cs else split_words (c # acc) cs)"

definition config_words :: "string list \<Rightarrow> string list" where
  "config_words lines = filter (\<lambda>s. c_str s \<noteq> []) (concat (map (split_words []) lines))"

definition parseConfigFile :: "string list option \<Rightarrow> string list option" where
  "parseConfigFile file =
     (case file of
        None \<Rightarrow> Some []
      | Some lines \<Rightarrow>
          (let ws = config_words lines
           in if length ws \<le> maxNumOfArguments then traverse strcpy ws else None))"

text \<open>
  \<open>addEngine\<close> with a configuration file, and the three constructors. A file that is not open gives
  no arguments and no voice; \<open>argc\<close> is the number of words.
\<close>

definition addEngine_conf :: "(hts_call list \<Rightarrow> Engine) \<Rightarrow> string \<Rightarrow> string list option \<Rightarrow> Mage \<Rightarrow> Mage res" where
  "addEngine_conf mk_engine name file m =
     (case parseConfigFile file of
        None \<Rightarrow> Inl OutOfBounds
      | Some ws \<Rightarrow> if length ws > 0 then addEngine mk_engine name (int (length ws)) ws m else Inr m)"

definition Mage_of_args :: "(hts_call list \<Rightarrow> Engine) \<Rightarrow> string \<Rightarrow> int \<Rightarrow> string list \<Rightarrow> Mage res" where
  "Mage_of_args mk_engine name argc argv = addEngine mk_engine name argc argv init"

definition Mage_of_conf :: "(hts_call list \<Rightarrow> Engine) \<Rightarrow> string \<Rightarrow> string list option \<Rightarrow> Mage res" where
  "Mage_of_conf mk_engine name file = addEngine_conf mk_engine name file init"

section \<open>From a label to frames\<close>

definition default_engine :: "Mage \<Rightarrow> (real list \<times> Engine) option" where
  "default_engine m = map_of (engine m) (defaultEngine m)"

definition prepareModel :: "Mage \<Rightarrow> Mage option" where
  "prepareModel m = do {
     (w, e) \<leftarrow> default_engine m;
     mdl \<leftarrow> slot_get (modelQueue m) (next_slot (modelQueue m));
     let (mdl', e') = checkInterpolationWeights mdl e False;
     q \<leftarrow> slot_set (modelQueue m) (next_slot (modelQueue m)) mdl';
     Some (m\<lparr>model := next_slot (modelQueue m), modelQueue := q,
             engine := put_engine (defaultEngine m) (w, e') (engine m)\<rparr>) }"

definition with_model :: "(Model \<Rightarrow> Model option) \<Rightarrow> Mage \<Rightarrow> Mage option" where
  "with_model f m = do {
     mdl \<leftarrow> slot_get (modelQueue m) (model m);
     mdl \<leftarrow> f mdl;
     q \<leftarrow> slot_set (modelQueue m) (model m) mdl;
     Some (m\<lparr>modelQueue := q\<rparr>) }"

definition mage_computeDuration :: "Mage \<Rightarrow> Mage option" where
  "mage_computeDuration m = do {
     m \<leftarrow> with_model (\<lambda>mdl. do {
         let mdl = initDuration mdl;
         mdl \<leftarrow> (if \<not> interpolationFlag m
                then do { (w, e) \<leftarrow> default_engine m; computeDuration mdl e (label m) None }
                else foldM (\<lambda>mdl (k, w, e). computeDuration mdl e (label m) (Some w)) mdl (engine m));
         updateDuration mdl (Some (updateFunction m)) (action m) }) m;
     Some (m\<lparr>action := noaction\<rparr>) }"

definition mage_computeParameters :: "Mage \<Rightarrow> Mage option" where
  "mage_computeParameters m = do {
     m \<leftarrow> with_model (\<lambda>mdl. do {
         let mdl = initParameters mdl;
         if \<not> interpolationFlag m
         then do {
           (w, e) \<leftarrow> default_engine m;
           mdl \<leftarrow> computeParameters mdl e (label m) None;
           computeGlobalVariances mdl e (label m) }
         else foldM (\<lambda>mdl (k, w, e). do {
             mdl \<leftarrow> computeParameters mdl e (label m) (Some w);
             computeGlobalVariances mdl e (label m) }) mdl (engine m) }) m;
     q \<leftarrow> push (modelQueue m) 1;
     Some (m\<lparr>modelQueue := q\<rparr>) }"

text \<open>The slots of the frame queue in the order in which \<open>generate\<close> writes them.\<close>

definition frame_slots :: "Frame MemQueue \<Rightarrow> Frame list" where
  "frame_slots q = ring (rawData q) (qlength q) (qwrite q) (qlength q)"

definition mage_optimizeParameters :: "(real list \<Rightarrow> nat \<Rightarrow> real list) \<Rightarrow> Mage \<Rightarrow> (Mage \<times> Frame list) option" where
  "mage_optimizeParameters mlsacheck m =
     (let n = getNumOfItems (modelQueue m)
      in if n > nOfLookup + nOfBackup
         then do {
           let m = m\<lparr>flag := False\<rparr>;
           (w, e) \<leftarrow> default_engine m;
           mem \<leftarrow> optimizeParameters (modelQueue m) e nOfBackup nOfLookup (queueMemory m);
           fs \<leftarrow> generate mlsacheck (modelQueue m) e nOfBackup mem (frame_slots (frameQueue m));
           q \<leftarrow> pop (modelQueue m) 1;
           Some (m\<lparr>queueMemory := mem, modelQueue := q\<rparr>, fs) }
         else if n > nOfLookup \<and> flag m
         then do {
           (w, e) \<leftarrow> default_engine m;
           mem \<leftarrow> optimizeParameters (modelQueue m) e (n - nOfLookup - 1) nOfLookup (queueMemory m);
           fs \<leftarrow> generate mlsacheck (modelQueue m) e (n - nOfLookup - 1) mem (frame_slots (frameQueue m));
           Some (m\<lparr>queueMemory := mem\<rparr>, fs) }
         else Some (m, []))"

definition run :: "(real list \<Rightarrow> nat \<Rightarrow> real list) \<Rightarrow> Mage \<Rightarrow> (Mage \<times> Frame list) option" where
  "run mlsacheck m = do {
     (popped, m) \<leftarrow> popLabel m;
     if popped then do {
       m \<leftarrow> prepareModel m;
       m \<leftarrow> mage_computeDuration m;
       m \<leftarrow> mage_computeParameters m;
       mage_optimizeParameters mlsacheck m }
     else Some (m, []) }"

section \<open>Lemmas: the voices\<close>

lemma map_of_put_engine [simp]: "map_of (put_engine k v es) = (map_of es)(k \<mapsto> v)"
  by (induction k v es rule: put_engine.induct) (auto simp: fun_eq_iff)

lemma keys_put_engine: "set (map fst (put_engine k v es)) = insert k (set (map fst es))"
  by (induction k v es rule: put_engine.induct) auto

lemma sorted_put_engine:
  "sorted_wrt (<) (map fst es) \<Longrightarrow> sorted_wrt (<) (map fst (put_engine k v es))"
proof (induction k v es rule: put_engine.induct)
  case (2 k v k' v' es)
  have "set (map fst (put_engine k v es)) = insert k (set (map fst es))" by (rule keys_put_engine)
  then show ?case using 2 by (auto dest: less_trans)
qed simp

text \<open>
  The voices are sorted by name; a default voice, when there is one, is in the map, and the
  ready flag is only set when it is.
\<close>

definition voices_inv :: "Mage \<Rightarrow> bool" where
  "voices_inv m \<longleftrightarrow> sorted_wrt (<) (map fst (engine m)) \<and>
     (defaultEngine m \<noteq> '''' \<longrightarrow> default_engine m \<noteq> None) \<and>
     (flagReady m \<longrightarrow> default_engine m \<noteq> None)"

datatype voice_op = Add string int "string list" | Remove string | SetDefault string | CheckReady

fun do_voice_op :: "(hts_call list \<Rightarrow> Engine) \<Rightarrow> voice_op \<Rightarrow> Mage \<Rightarrow> Mage res" where
  "do_voice_op mk (Add name argc argv) m = addEngine mk name argc argv m"
| "do_voice_op mk (Remove name) m = Inr (removeEngine name m)"
| "do_voice_op mk (SetDefault name) m = Inr (setDefaultEngine name m)"
| "do_voice_op mk CheckReady m = Inr (checkReady m)"

fun voice_ops :: "(hts_call list \<Rightarrow> Engine) \<Rightarrow> voice_op list \<Rightarrow> Mage \<Rightarrow> Mage res" where
  "voice_ops mk [] m = Inr m"
| "voice_ops mk (x # xs) m = res_bind (do_voice_op mk x m) (voice_ops mk xs)"

lemma addEngine_inv: "voices_inv m \<Longrightarrow> res_ok voices_inv (addEngine mk name argc argv m)"
  unfolding res_ok_def addEngine_def
  by (auto simp: voices_inv_def default_engine_def res_bind_Inr_iff Let_def sorted_put_engine split: if_splits)

lemma sorted_filter_keys:
  "sorted_wrt (<) (map fst es) \<Longrightarrow> sorted_wrt (<) (map fst (filter P es))"
  by (induction es) auto

lemma map_of_filter_key: "k \<noteq> name \<Longrightarrow> map_of (filter (\<lambda>(k, v). k \<noteq> name) es) k = map_of es k"
  by (induction es) auto

lemma removeEngine_inv: "voices_inv m \<Longrightarrow> voices_inv (removeEngine name m)"
proof -
  assume m: "voices_inv m"
  let ?es = "filter (\<lambda>(k, v). k \<noteq> name) (engine m)"
  have other: "map_of ?es k = map_of (engine m) k" if "k \<noteq> name" for k
    using that by (rule map_of_filter_key)
  have s: "sorted_wrt (<) (map fst ?es)" using m by (simp add: voices_inv_def sorted_filter_keys)
  show ?thesis
  proof (cases ?es)
    case Nil
    then show ?thesis using m by (auto simp: removeEngine_def voices_inv_def default_engine_def)
  next
    case (Cons p rest)
    then show ?thesis
      using m s other [of "defaultEngine m"] unfolding removeEngine_def Let_def voices_inv_def default_engine_def
      by (cases p) (auto simp: Cons)
  qed
qed

lemma voice_op_inv: "voices_inv m \<Longrightarrow> res_ok voices_inv (do_voice_op mk x m)"
proof (cases x)
  case (SetDefault name)
  assume "voices_inv m"
  then show ?thesis
    using SetDefault by (auto simp: res_ok_def setDefaultEngine_def voices_inv_def default_engine_def)
next
  case CheckReady
  assume "voices_inv m"
  then show ?thesis
    using CheckReady by (auto simp: res_ok_def checkReady_def voices_inv_def default_engine_def Let_def)
qed (auto simp: addEngine_inv res_ok_Inr removeEngine_inv)

lemma voice_ops_inv: "voices_inv m \<Longrightarrow> res_ok voices_inv (voice_ops mk xs m)"
proof (induction xs arbitrary: m)
  case (Cons x xs)
  then show ?case by (auto intro: res_ok_bind [OF voice_op_inv])
qed (simp add: res_ok_Inr)

lemma init_voices: "voices_inv init"
  by (simp add: voices_inv_def init_def)

section \<open>Lemmas: interpolation weights\<close>

definition weights_ok :: "Mage \<Rightarrow> bool" where
  "weights_ok m \<longleftrightarrow> (\<forall>(k, w, e) \<in> set (engine m). length w = nOfStreams + 1)"

lemma nth_weight_sums: "i < nOfStreams + 1 \<Longrightarrow> weight_sums es ! i = (\<Sum>(k, w, e)\<leftarrow>es. \<bar>w ! i\<bar>)"
  by (simp add: weight_sums_def del: upt_Suc)

lemma sum_list_scale_abs:
  "0 < (s::real) \<Longrightarrow> sum_list (map (\<lambda>x. \<bar>f x / s\<bar>) xs) = sum_list (map (\<lambda>x. \<bar>f x\<bar>) xs) / s"
  by (induction xs) (auto simp: add_divide_distrib abs_divide)

lemma checkInterpolationFunctions_ok:
  assumes "weights_ok m"
  shows "\<exists>m'. checkInterpolationFunctions m = Some m' \<and> weights_ok m' \<and>
    (\<forall>i < nOfStreams + 1. weight_sums (engine m) ! i \<noteq> 0 \<longrightarrow> weight_sums (engine m') ! i = 1)"
proof -
  let ?s = "weight_sums (engine m)"
  let ?g = "\<lambda>(k :: string, w, e :: Engine). (k, map (\<lambda>i. if i < nOfStreams + 1 \<and> ?s ! i \<noteq> 0
      then w ! i / ?s ! i else w ! i) [0..<length w], e)"
  define m' where "m' = m\<lparr>interpolationWeights := Some ?s, engine := map ?g (engine m)\<rparr>"
  have ok: "list_all (\<lambda>(k, w, e). nOfStreams + 1 \<le> length w) (engine m)"
    using assms by (auto simp: weights_ok_def list_all_iff)
  then have eq: "checkInterpolationFunctions m = Some m'"
    by (simp add: checkInterpolationFunctions_def m'_def Let_def)
  have "weight_sums (engine m') ! i = 1" if i: "i < nOfStreams + 1" and nz: "?s ! i \<noteq> 0" for i
  proof -
    have "weight_sums (engine m') ! i = (\<Sum>(k, w, e)\<leftarrow>engine m. \<bar>w ! i / ?s ! i\<bar>)"
    proof -
      have "(\<Sum>p\<leftarrow>engine m. \<bar>fst (snd (?g p)) ! i\<bar>) = (\<Sum>p\<leftarrow>engine m. \<bar>fst (snd p) ! i / ?s ! i\<bar>)"
      proof (rule arg_cong [where f = sum_list], rule map_cong [OF refl])
        fix p assume p: "p \<in> set (engine m)"
        obtain k w e where "p = (k, w, e)" by (cases p)
        moreover from this p have "length w = nOfStreams + 1" using assms by (auto simp: weights_ok_def)
        ultimately show "\<bar>fst (snd (?g p)) ! i\<bar> = \<bar>fst (snd p) ! i / ?s ! i\<bar>"
          using i nz by (simp del: upt_Suc)
      qed
      then show ?thesis unfolding nth_weight_sums [OF i] by (simp add: m'_def comp_def case_prod_beta')
    qed
    moreover have "0 < ?s ! i"
    proof -
      have "0 \<le> (\<Sum>(k, w, e)\<leftarrow>engine m. \<bar>w ! i\<bar>)" by (rule sum_list_nonneg) auto
      with nz show ?thesis unfolding nth_weight_sums [OF i] by linarith
    qed
    ultimately show ?thesis
      using sum_list_scale_abs [of "?s ! i" "\<lambda>p. fst (snd p) ! i" "engine m"] nth_weight_sums [OF i, of "engine m"]
      by (simp add: case_prod_beta')
  qed
  moreover have "weights_ok m'" using assms by (auto simp: weights_ok_def m'_def)
  ultimately show ?thesis using eq by blast
qed

section \<open>Lemmas: from a label to frames\<close>

lemma queued_ok_slot: "queued_ok m \<longleftrightarrow> slot_ok m \<and> duration_ok m"
  by (auto simp: queued_ok_def slot_ok_def shape_ok_def model_ok_state_ok)

text \<open>
  Between two calls of \<open>run\<close> at most \<open>nOfBackup + nOfLookup\<close> models are in the queue, so that
  there is room for the next one although the code does not ask.
\<close>

definition mage_inv :: "Mage \<Rightarrow> bool" where
  "mage_inv m \<longleftrightarrow> mq_inv (modelQueue m) \<and> qlength (modelQueue m) = maxModelQueueLen \<and>
     (\<forall>x \<in> set (rawData (modelQueue m)). slot_ok x) \<and> (\<forall>x \<in> set (mq_contents (modelQueue m)). queued_ok x) \<and>
     length (mq_contents (modelQueue m)) \<le> nOfBackup + nOfLookup \<and>
     mq_inv (frameQueue m) \<and> qlength (frameQueue m) = maxFrameQueueLen \<and>
     (\<forall>f \<in> set (rawData (frameQueue m)). frame_ok (fstreams f)) \<and>
     lq_inv (labelQueue m) \<and> length (updateFunction m) = nOfStates \<and> \<not> interpolationFlag m"

text \<open>While a model is made: the queue has room, and the slot after its items is the model.\<close>

definition making :: "Model list \<Rightarrow> Model \<Rightarrow> Mage \<Rightarrow> bool" where
  "making cs mdl m \<longleftrightarrow> mq_inv (modelQueue m) \<and> qlength (modelQueue m) = maxModelQueueLen \<and>
     (\<forall>x \<in> set (rawData (modelQueue m)). slot_ok x) \<and> mq_contents (modelQueue m) = cs \<and>
     length cs \<le> nOfBackup + nOfLookup \<and> model m = next_slot (modelQueue m) \<and>
     rawData (modelQueue m) ! model m = mdl"

lemma making_slot:
  assumes "making cs mdl m" "slot_ok mdl'"
  shows "slot_get (modelQueue m) (model m) = Some mdl"
    and "\<exists>q. slot_set (modelQueue m) (model m) mdl' = Some q \<and> making cs mdl' (m\<lparr>modelQueue := q\<rparr>)"
proof -
  let ?q = "modelQueue m"
  have inv: "mq_inv ?q" and w: "model m = qwrite ?q" using assms(1) by (auto simp: making_def next_slot_def)
  note i = mq_invD [OF inv]
  have nf: "\<not> isFull ?q" using assms(1) isFull_iff [OF inv] by (auto simp: making_def size_consts)
  show "slot_get ?q (model m) = Some mdl" using assms(1) i w by (auto simp: making_def slot_get_def)
  let ?q' = "?q\<lparr>rawData := (rawData ?q)[qwrite ?q := mdl']\<rparr>"
  have "set ((rawData ?q)[qwrite ?q := mdl']) \<subseteq> insert mdl' (set (rawData ?q))" by (rule set_update_subset_insert)
  then have "making cs mdl' (m\<lparr>modelQueue := ?q'\<rparr>)"
    using assms slot_set_next [OF inv nf, of mdl'] i w by (auto simp: making_def next_slot_def)
  then show "\<exists>q. slot_set ?q (model m) mdl' = Some q \<and> making cs mdl' (m\<lparr>modelQueue := q\<rparr>)"
    using slot_set_next(1) [OF inv nf, of mdl'] w by (simp add: next_slot_def)
qed

lemma with_model_ok:
  assumes "making cs mdl m" "f mdl = Some mdl'" "slot_ok mdl'"
  shows "\<exists>q. with_model f m = Some (m\<lparr>modelQueue := q\<rparr>) \<and> making cs mdl' (m\<lparr>modelQueue := q\<rparr>)"
  using making_slot [OF assms(1,3)] assms(2) by (auto simp: with_model_def)

lemma with_model_SomeD:
  assumes "making cs mdl m" "with_model f m = Some m'"
  shows "\<exists>mdl' q. f mdl = Some mdl' \<and> slot_set (modelQueue m) (model m) mdl' = Some q \<and> m' = m\<lparr>modelQueue := q\<rparr>"
  using assms(2) making_slot(1) [OF assms(1) Model_new_ok] by (auto simp: with_model_def bind_eq_Some_conv)

lemma engine_ok_checked: "engine_ok (snd (checkInterpolationWeights mdl e b)) = engine_ok e" if "engine_ok e"
  using that by (auto simp: checkInterpolationWeights_def engine_ok_def voice_ok_def)

lemma checked_slot: "slot_ok (fst (checkInterpolationWeights mdl e b)) = slot_ok mdl"
  by (simp add: checkInterpolationWeights_def slot_ok_def)

lemma prepareModel_ok:
  assumes "mage_inv m" "default_engine m = Some (w, e)" "engine_ok e"
  shows "\<exists>mdl q e' es. prepareModel m = Some (m\<lparr>model := next_slot (modelQueue m), modelQueue := q, engine := es\<rparr>) \<and>
    making (mq_contents (modelQueue m)) mdl (m\<lparr>model := next_slot (modelQueue m), modelQueue := q, engine := es\<rparr>) \<and>
    slot_ok mdl \<and> map_of es (defaultEngine m) = Some (w, e') \<and> engine_ok e' \<and>
    get_duration e' = get_duration e \<and> duration_iw e' \<in> {duration_iw e, normalise (duration_iw e)}"
proof -
  let ?q = "modelQueue m"
  let ?m = "m\<lparr>model := next_slot ?q\<rparr>"
  define mdl where "mdl = rawData ?q ! next_slot ?q"
  have "next_slot ?q < length (rawData ?q)"
    using assms(1) mq_invD [of ?q] by (auto simp: mage_inv_def next_slot_def)
  then have mk: "making (mq_contents ?q) mdl ?m" and ok: "slot_ok mdl"
    using assms(1) by (auto simp: mage_inv_def making_def mdl_def)
  obtain mdl' e' where c: "checkInterpolationWeights mdl e False = (mdl', e')" by fastforce
  have ok': "slot_ok mdl'" "engine_ok e'"
    using checked_slot [of mdl e False] engine_ok_checked [OF assms(3), of mdl False] ok assms(3) c by auto
  obtain q where q: "slot_set ?q (next_slot ?q) mdl' = Some q" "making (mq_contents ?q) mdl' (?m\<lparr>modelQueue := q\<rparr>)"
    using making_slot(2) [OF mk ok'(1)] by auto
  let ?es = "put_engine (defaultEngine m) (w, e') (engine m)"
  have "prepareModel m = Some (m\<lparr>model := next_slot ?q, modelQueue := q, engine := ?es\<rparr>)"
    using assms(2) making_slot(1) [OF mk ok'(1)] c q(1) by (simp add: prepareModel_def)
  moreover have "making (mq_contents ?q) mdl' (m\<lparr>model := next_slot ?q, modelQueue := q, engine := ?es\<rparr>)"
    using q(2) by (auto simp: making_def)
  moreover have "get_duration e' = get_duration e" "duration_iw e' \<in> {duration_iw e, normalise (duration_iw e)}"
    using c by (auto simp: checkInterpolationWeights_def split: if_splits)
  ultimately show ?thesis using ok' by fastforce
qed

lemma compute_durations_ok:
  assumes "making cs mdl m" "slot_ok mdl" "\<not> interpolationFlag m" "mage_computeDuration m = Some m'"
  shows "\<exists>mdl' q. m' = m\<lparr>modelQueue := q, action := noaction\<rparr> \<and> making cs mdl' m' \<and> queued_ok mdl'"
proof -
  obtain m1 where wm: "with_model (\<lambda>mdl. do {
         let mdl = initDuration mdl;
         mdl \<leftarrow> (if \<not> interpolationFlag m
                then do { (w, e) \<leftarrow> default_engine m; computeDuration mdl e (label m) None }
                else foldM (\<lambda>mdl (k, w, e). computeDuration mdl e (label m) (Some w)) mdl (engine m));
         updateDuration mdl (Some (updateFunction m)) (action m) }) m = Some m1"
    and m': "m' = m1\<lparr>action := noaction\<rparr>"
    using assms(4) by (auto simp: mage_computeDuration_def bind_eq_Some_conv)
  obtain mdl' q where f: "(do {
         let mdl = initDuration mdl;
         mdl \<leftarrow> (if \<not> interpolationFlag m
                then do { (w, e) \<leftarrow> default_engine m; computeDuration mdl e (label m) None }
                else foldM (\<lambda>mdl (k, w, e). computeDuration mdl e (label m) (Some w)) mdl (engine m));
         updateDuration mdl (Some (updateFunction m)) (action m) }) = Some mdl'"
    and q: "slot_set (modelQueue m) (model m) mdl' = Some q" "m1 = m\<lparr>modelQueue := q\<rparr>"
    using with_model_SomeD [OF assms(1) wm] by blast
  obtain e mdl1 where "computeDuration (initDuration mdl) e (label m) None = Some mdl1"
      and u: "updateDuration mdl1 (Some (updateFunction m)) (action m) = Some mdl'"
    using f assms(3) by (auto simp: bind_eq_Some_conv Let_def)
  then have "slot_ok mdl1" using computeDuration_slot initDuration_slot [OF assms(2)] by blast
  then have ok: "slot_ok mdl'" "duration_ok mdl'" using updateDuration_slot [OF u] updateDuration_ok [OF u] by auto
  have "making cs mdl' (m\<lparr>modelQueue := q\<rparr>)" using making_slot(2) [OF assms(1) ok(1)] q(1) by auto
  then show ?thesis using ok m' q(2) by (auto simp: queued_ok_slot making_def)
qed

lemma compute_parameters_ok:
  assumes "making cs mdl m" "queued_ok mdl" "\<not> interpolationFlag m"
    and "default_engine m = Some (w, e)" "engine_ok e" "length (c_str (getQuery (label m))) < maxStrLen"
  shows "\<exists>mdl' q. mage_computeParameters m = Some (m\<lparr>modelQueue := q\<rparr>) \<and> mq_inv q \<and>
    qlength q = maxModelQueueLen \<and> (\<forall>x \<in> set (rawData q). slot_ok x) \<and>
    mq_contents q = cs @ [mdl'] \<and> queued_ok mdl' \<and> mduration mdl' = mduration mdl"
proof -
  have v: "voice_ok e" using assms(5) by (simp add: engine_ok_def)
  let ?i = "initParameters mdl"
  have "model_ok ?i" "duration_ok ?i" using assms(2) by (simp_all add: initParameters_keeps queued_ok_def)
  then obtain mdl1 where m1: "computeParameters ?i e (label m) None = Some mdl1" "model_ok mdl1"
    using computeParameters_ok [OF v _ assms(6), of ?i None] by auto
  then obtain mdl' where m2: "computeGlobalVariances mdl1 e (label m) = Some mdl'" "model_ok mdl'"
    using computeGlobalVariances_ok [OF v _ assms(6)] by blast
  note k1 = computeParameters_keeps [OF m1(1)] and k2 = computeGlobalVariances_keeps [OF m2(1)]
  have "duration_ok mdl'" using \<open>duration_ok ?i\<close> duration_ok_cong [OF k1] duration_ok_cong [OF k2(1,2)] by simp
  then have ok: "queued_ok mdl'" using m2(2) k2(3) by (simp add: queued_ok_def)
  have dur: "mduration mdl' = mduration mdl" using k1(2) k2(2) by (simp add: initParameters_def)
  let ?f = "\<lambda>mdl. do {
         let mdl = initParameters mdl;
         if \<not> interpolationFlag m
         then do {
           (w, e) \<leftarrow> default_engine m;
           mdl \<leftarrow> computeParameters mdl e (label m) None;
           computeGlobalVariances mdl e (label m) }
         else foldM (\<lambda>mdl (k, w, e). do {
             mdl \<leftarrow> computeParameters mdl e (label m) (Some w);
             computeGlobalVariances mdl e (label m) }) mdl (engine m) }"
  have f: "?f mdl = Some mdl'" using m1(1) m2(1) assms(3,4) by (simp add: Let_def)
  have sl: "slot_ok mdl'" using ok by (simp add: queued_ok_slot)
  obtain q where q: "with_model ?f m = Some (m\<lparr>modelQueue := q\<rparr>)" "making cs mdl' (m\<lparr>modelQueue := q\<rparr>)"
    using with_model_ok [where f = ?f, OF assms(1) f sl] by blast
  have inv: "mq_inv q" "mq_contents q = cs" "length cs + 1 \<le> qlength q"
    using q(2) by (auto simp: making_def size_consts)
  obtain q' where q': "push q 1 = Some q'" "mq_inv q'" "qlength q' = qlength q"
      "mq_contents q' = mq_contents q @ ring (rawData q) (qlength q) (next_slot q) 1"
    using push_ok [OF inv(1), of 1] inv by auto
  have raw: "rawData q' = rawData q" using q'(1) by (auto simp: push_def split: if_splits)
  have "ring (rawData q) (qlength q) (next_slot q) 1 = [mdl']"
    using q(2) mq_invD [OF inv(1)] by (auto simp: making_def ring_def next_slot_def)
  then have "mq_contents q' = cs @ [mdl']" using q'(4) inv(2) by simp
  moreover have "mage_computeParameters m = Some (m\<lparr>modelQueue := q'\<rparr>)"
    using q(1) q'(1) by (simp add: mage_computeParameters_def)
  moreover have "qlength q' = maxModelQueueLen" "\<forall>x \<in> set (rawData q'). slot_ok x"
    using q'(3) raw q(2) by (auto simp: making_def)
  ultimately show ?thesis using ok dur q'(2) by blast
qed

lemma frame_slots_ok:
  assumes "mq_inv q" "\<forall>f \<in> set (rawData q). frame_ok (fstreams f)"
  shows "length (frame_slots q) = qlength q" "\<forall>f \<in> set (frame_slots q). frame_ok (fstreams f)"
  using assms mq_invD [OF assms(1)] by (auto simp: frame_slots_def ring_def)

lemma optimize_generate_ok:
  assumes "mq_inv q" "mq_contents q = ms" "bk + nOfLookup + 1 = length ms" "bk \<le> nOfBackup" "engine_ok e"
    and "\<forall>x \<in> set ms. queued_ok x" "\<And>row ix. length (mlsacheck row ix) = length row"
    and "mq_inv fq" "qlength fq = maxFrameQueueLen" "\<forall>f \<in> set (rawData fq). frame_ok (fstreams f)"
  shows "\<exists>mem' fs. optimizeParameters q e bk nOfLookup mem = Some mem' \<and>
    generate mlsacheck q e bk mem' (frame_slots fq) = Some fs \<and>
    int (length fs) = mduration (last ms) \<and> (\<forall>f \<in> set fs. frame_ok (fstreams f))"
proof -
  obtain mem' where o: "optimizeParameters q e bk nOfLookup mem = Some mem'"
    using optimizeParameters_ok [OF assms(1), of bk nOfLookup e mem] assms by auto
  have l: "last ms = ms ! bk" using assms(3) last_conv_nth [of ms] by (cases ms) (auto simp: nOfLookup_def)
  have "queued_ok (ms ! bk)" using assms(3,6) by (simp add: nOfLookup_def)
  then have "mduration (ms ! bk) \<le> 170" by (simp add: queued_ok_def duration_ok_def size_consts)
  then have sl: "nat (mduration (mq_contents q ! bk)) \<le> length (frame_slots fq)"
    using frame_slots_ok(1) [OF assms(8,10)] assms(2,9) by (simp add: size_consts)
  have ok: "bk + 1 \<le> length (mq_contents q)" "\<forall>m \<in> set (mq_contents q). queued_ok m"
    using assms(2,3,6) by (simp_all add: nOfLookup_def)
  show ?thesis
    using o generate_ok [where mem = mem' and mlsacheck = mlsacheck, OF assms(1) ok(1) assms(5) ok(2) assms(4) _ sl
        frame_slots_ok(2) [OF assms(8,10)]] assms(7) l assms(2) by auto
qed

lemma popLabel_ok:
  assumes "lq_inv (labelQueue m)" "\<not> lisEmpty (labelQueue m)"
  shows "\<exists>q. popLabel m = Some (True, m\<lparr>labelQueue := q,
      label := Label.setSpeed (hd (labels (labelQueue m))) (labelSpeed m)\<rparr>) \<and> lq_inv q \<and>
    labels q = tl (labels (labelQueue m)) \<and> lcapacity q = lcapacity (labelQueue m)"
  using labelq.deq_ok [OF assms] assms(2) by (auto simp: popLabel_def)

lemma run_tail_ok:
  assumes "mage_inv m" "mq_inv q" "qlength q = maxModelQueueLen" "\<forall>x \<in> set (rawData q). slot_ok x"
    and "mq_contents q = mq_contents (modelQueue m) @ [mdl]" "queued_ok mdl"
    and "frameQueue m' = frameQueue m" "lq_inv (labelQueue m')" "length (updateFunction m') = nOfStates"
    and "\<not> interpolationFlag m'" "modelQueue m' = q" "default_engine m' = Some (w, e)" "engine_ok e"
    and mls: "\<And>row ix. length (mlsacheck row ix) = length row"
  shows "\<exists>m'' fs. mage_optimizeParameters mlsacheck m' = Some (m'', fs) \<and> mage_inv m'' \<and>
    (\<forall>f \<in> set fs. frame_ok (fstreams f)) \<and>
    (length (mq_contents (modelQueue m)) = nOfBackup + nOfLookup \<or> flag m' \<longrightarrow> int (length fs) = mduration mdl)"
proof -
  let ?ms = "mq_contents q"
  have inv: "mq_inv (frameQueue m)" "qlength (frameQueue m) = maxFrameQueueLen"
      "\<forall>f \<in> set (rawData (frameQueue m)). frame_ok (fstreams f)"
      "length (mq_contents (modelQueue m)) \<le> 2" "\<forall>x \<in> set ?ms. queued_ok x"
    using assms(1,5,6) by (auto simp: mage_inv_def size_consts)
  have n: "getNumOfItems q = length ?ms" by (simp add: length_mq_contents)
  have len: "length ?ms = Suc (length (mq_contents (modelQueue m)))" using assms(5) by simp
  have last: "last ?ms = mdl" using assms(5) by simp
  note og = optimize_generate_ok [OF assms(2) refl _ _ assms(13) inv(5) mls inv(1-3)]
  show ?thesis
  proof (cases "length ?ms > nOfLookup + nOfBackup")
    case True
    then have bk: "nOfBackup + nOfLookup + 1 = length ?ms" using len inv(4) by (simp add: size_consts)
    obtain mem' fs where r: "optimizeParameters q e nOfBackup nOfLookup (queueMemory m') = Some mem'"
        "generate mlsacheck q e nOfBackup mem' (frame_slots (frameQueue m)) = Some fs"
        "int (length fs) = mduration mdl" "\<forall>f \<in> set fs. frame_ok (fstreams f)"
      using og [OF bk order_refl] last by fastforce
    obtain q' where q': "pop q 1 = Some q'" "mq_inv q'" "qlength q' = qlength q" "rawData q' = rawData q"
        "mq_contents q' = drop 1 ?ms"
      using pop_ok [OF assms(2), of 1] by blast
    let ?m = "m'\<lparr>flag := False, queueMemory := mem', modelQueue := q'\<rparr>"
    have "mage_optimizeParameters mlsacheck m' = Some (?m, fs)"
      using True r(1,2) q'(1) assms(7,11,12) n
      by (simp add: mage_optimizeParameters_def default_engine_def)
    moreover have "mage_inv ?m"
      using q' inv assms bk by (auto simp: mage_inv_def size_consts dest: in_set_dropD)
    ultimately show ?thesis using r by blast
  next
    case False
    then have le: "length ?ms \<le> nOfBackup + nOfLookup" by simp
    have inv': "mage_inv (m'\<lparr>queueMemory := mem'\<rparr>)" for mem'
      using inv assms le by (auto simp: mage_inv_def)
    show ?thesis
    proof (cases "flag m'")
      case True
      have bk: "length ?ms - nOfLookup - 1 + nOfLookup + 1 = length ?ms" "length ?ms - nOfLookup - 1 \<le> nOfBackup"
        using len le by (simp_all add: size_consts)
      obtain mem' fs where r: "optimizeParameters q e (length ?ms - nOfLookup - 1) nOfLookup (queueMemory m') = Some mem'"
          "generate mlsacheck q e (length ?ms - nOfLookup - 1) mem' (frame_slots (frameQueue m)) = Some fs"
          "int (length fs) = mduration mdl" "\<forall>f \<in> set fs. frame_ok (fstreams f)"
        using og [OF bk] last by fastforce
      have "mage_optimizeParameters mlsacheck m' = Some (m'\<lparr>queueMemory := mem'\<rparr>, fs)"
        using True False r(1,2) assms(7,11,12) n len
        by (simp add: mage_optimizeParameters_def default_engine_def nOfLookup_def)
      then show ?thesis using r inv' by blast
    next
      case nf: False
      have "mage_optimizeParameters mlsacheck m' = Some (m', [])"
        using nf False assms(11) n by (simp add: mage_optimizeParameters_def)
      moreover have "mage_inv m'" using inv' [of "queueMemory m'"] by simp
      moreover have "length (mq_contents (modelQueue m)) \<noteq> nOfBackup + nOfLookup" using False len by auto
      ultimately show ?thesis using nf by auto
    qed
  qed
qed

lemma run_ok:
  assumes "mage_inv m" "\<not> lisEmpty (labelQueue m)" "default_engine m = Some (w, e)" "engine_ok e"
    and "length (c_str (getQuery (hd (labels (labelQueue m))))) < maxStrLen"
    and "popLabel m = Some (True, m1)" "prepareModel m1 = Some m2" "mage_computeDuration m2 = Some m3"
    and mls: "\<And>row ix. length (mlsacheck row ix) = length row"
  shows "\<exists>m' fs mdl. run mlsacheck m = Some (m', fs) \<and> mage_inv m' \<and>
    slot_get (modelQueue m3) (model m3) = Some mdl \<and> queued_ok mdl \<and>
    (\<forall>f \<in> set fs. frame_ok (fstreams f)) \<and> labels (labelQueue m') = tl (labels (labelQueue m)) \<and>
    (length (mq_contents (modelQueue m)) = nOfBackup + nOfLookup \<or> flag m \<longrightarrow> int (length fs) = mduration mdl)"
proof -
  have lq: "lq_inv (labelQueue m)" using assms(1) by (simp add: mage_inv_def)
  obtain lq' where m1: "m1 = m\<lparr>labelQueue := lq', label := Label.setSpeed (hd (labels (labelQueue m))) (labelSpeed m)\<rparr>"
      "lq_inv lq'" "labels lq' = tl (labels (labelQueue m))"
    using popLabel_ok [OF lq assms(2)] assms(6) by auto
  have i1: "mage_inv m1" "default_engine m1 = Some (w, e)"
    using assms(1,3) m1 by (simp_all add: mage_inv_def default_engine_def)
  obtain mdl q e' es where m2: "m2 = m1\<lparr>model := next_slot (modelQueue m1), modelQueue := q, engine := es\<rparr>"
      "making (mq_contents (modelQueue m1)) mdl m2" "slot_ok mdl" "map_of es (defaultEngine m1) = Some (w, e')" "engine_ok e'"
    using prepareModel_ok [OF i1 assms(4)] assms(7) by auto
  have ni: "\<not> interpolationFlag m2" using i1(1) m2(1) by (simp add: mage_inv_def)
  obtain mdl' q' where m3: "m3 = m2\<lparr>modelQueue := q', action := noaction\<rparr>"
      "making (mq_contents (modelQueue m1)) mdl' m3" "queued_ok mdl'"
    using compute_durations_ok [OF m2(2,3) ni assms(8)] by blast
  have d3: "default_engine m3 = Some (w, e')" using m2 m3(1) by (simp add: default_engine_def)
  have lb: "length (c_str (getQuery (label m3))) < maxStrLen"
    using assms(5) m1(1) m2(1) m3(1) by (simp add: Label.setSpeed_def getQuery_def)
  have n3: "\<not> interpolationFlag m3" using ni m3(1) by simp
  obtain mdl'' q4 where m4: "mage_computeParameters m3 = Some (m3\<lparr>modelQueue := q4\<rparr>)" "mq_inv q4"
      "qlength q4 = maxModelQueueLen" "\<forall>x \<in> set (rawData q4). slot_ok x"
      "mq_contents q4 = mq_contents (modelQueue m1) @ [mdl'']" "queued_ok mdl''" "mduration mdl'' = mduration mdl'"
    using compute_parameters_ok [OF m3(2,3) n3 d3 m2(5) lb] by blast
  let ?m4 = "m3\<lparr>modelQueue := q4\<rparr>"
  have same: "frameQueue ?m4 = frameQueue m" "labelQueue ?m4 = lq'" "updateFunction ?m4 = updateFunction m"
      "\<not> interpolationFlag ?m4" "default_engine ?m4 = Some (w, e')" "flag ?m4 = flag m" "modelQueue m1 = modelQueue m"
    using m1(1) m2(1) m3(1) d3 n3 by (simp_all add: default_engine_def)
  obtain m' fs where o: "mage_optimizeParameters mlsacheck ?m4 = Some (m', fs)" "mage_inv m'"
      "\<forall>f \<in> set fs. frame_ok (fstreams f)"
      "length (mq_contents (modelQueue m)) = nOfBackup + nOfLookup \<or> flag ?m4 \<longrightarrow> int (length fs) = mduration mdl''"
    using run_tail_ok [where m = m and m' = ?m4 and q = q4 and mdl = mdl'' and w = w and e = e' and mlsacheck = mlsacheck]
      assms(1) m4 m2(5) same m1(2) mls by (auto simp: mage_inv_def)
  have lbl: "labelQueue m' = lq'"
    using o(1) same(2) by (auto simp: mage_optimizeParameters_def Let_def bind_eq_Some_conv split: if_splits)
  have "run mlsacheck m = Some (m', fs)"
    using assms(6-8) m4(1) o(1) by (simp add: run_def)
  moreover have "slot_get (modelQueue m3) (model m3) = Some mdl'"
    using making_slot(1) [OF m3(2) Model_new_ok] .
  ultimately show ?thesis using o m4(7) m3(3) lbl m1(3) same(6) by auto
qed

lemma init_inv: "mage_inv init"
  using MemQueue_new_inv [of maxModelQueueLen Model_new] MemQueue_new_inv [of maxFrameQueueLen Frame_zero]
    LabelQueue_new_inv [of maxLabelQueueLen]
  by (auto simp: mage_inv_def init_def MemQueue_new_def Model_new_ok frame_ok_def Frame_zero_def size_consts)

section \<open>Lemmas: a label without times\<close>

lemma sum_list_le:
  fixes xs :: "int list"
  shows "(\<And>x. x \<in> set xs \<Longrightarrow> x \<le> k) \<Longrightarrow> sum_list xs \<le> int (length xs) * k"
  by (induction xs) (auto simp: algebra_simps intro: add_mono)

lemma natural_duration_step:
  assumes "making cs mdl m" "slot_ok mdl" "\<not> interpolationFlag m" "default_engine m = Some (w, e)"
    and "durations_ok e" "action m = noaction" "length (updateFunction m) = nOfStates"
    and "\<not> isDurationForced (label m)" "getSpeed (label m) = 1" "length (c_str (getQuery (label m))) < maxStrLen"
  shows "\<exists>m' mdl'. mage_computeDuration m = Some m' \<and> slot_get (modelQueue m') (model m') = Some mdl' \<and>
    (sum_list (natural_durations e (c_str (getQuery (label m)))) \<le> maxDuration \<longrightarrow>
      mduration mdl' = sum_list (natural_durations e (c_str (getQuery (label m)))))"
proof -
  let ?ds = "natural_durations e (c_str (getQuery (label m)))"
  let ?f = "\<lambda>mdl. do {
         let mdl = initDuration mdl;
         mdl \<leftarrow> (if \<not> interpolationFlag m
                then do { (w, e) \<leftarrow> default_engine m; computeDuration mdl e (label m) None }
                else foldM (\<lambda>mdl (k, w, e). computeDuration mdl e (label m) (Some w)) mdl (engine m));
         updateDuration mdl (Some (updateFunction m)) (action m) }"
  have "length (state (initDuration mdl)) = nOfStates" "\<forall>s \<in> set (state (initDuration mdl)). sduration s = 0"
    using assms(2) by (auto simp: initDuration_def slot_ok_def)
  from computeDuration_natural [OF assms(5,8,9,10) this] obtain mdl1 where
    c: "computeDuration (initDuration mdl) e (label m) None = Some mdl1" "map sduration (state mdl1) = ?ds" by blast
  note nb = natural_durations_bounds [OF assms(5)]
  have tot: "total_duration (state mdl1) = sum_list ?ds" by (simp add: total_duration_def c(2))
  have "sum_list ?ds \<le> int (length ?ds) * 100001" using nb(2) by (intro sum_list_le) auto
  then have le: "total_duration (state mdl1) \<le> 12632256" using nb(1) tot by (simp add: size_consts)
  have "0 \<le> d" if "d \<in> set (map sduration (state mdl1))" for d
    using that nb(2) [of d] unfolding c(2) by fastforce
  then have nn: "\<forall>s \<in> set (state mdl1). 0 \<le> sduration s" by simp
  have "length (state mdl1) = nOfStates" using nb(1) arg_cong [OF c(2), of length] by simp
  then have "length (state mdl1) \<le> length (updateFunction m)" using assms(7) by simp
  from updateDuration_noaction [OF this nn le] obtain mdl' where
    u: "updateDuration mdl1 (Some (updateFunction m)) noaction = Some mdl'"
      "total_duration (state mdl1) \<le> maxDuration \<longrightarrow> state mdl' = state mdl1" by blast
  have dur: "sum_list ?ds \<le> maxDuration \<longrightarrow> mduration mdl' = sum_list ?ds"
    using updateDuration_ok [OF u(1)] u(2) tot by (auto simp: duration_ok_def)
  have f: "?f mdl = Some mdl'" using c(1) u(1) assms(3,4,6) by (simp add: Let_def)
  have ok: "slot_ok mdl'"
    using updateDuration_slot [OF u(1)] computeDuration_slot [OF c(1)] initDuration_slot [OF assms(2)] by simp
  obtain q where q: "with_model ?f m = Some (m\<lparr>modelQueue := q\<rparr>)" "making cs mdl' (m\<lparr>modelQueue := q\<rparr>)"
    using with_model_ok [where f = ?f, OF assms(1) f ok] by blast
  have "mage_computeDuration m = Some (m\<lparr>modelQueue := q, action := noaction\<rparr>)"
    using q(1) by (simp add: mage_computeDuration_def)
  moreover have "slot_get q (model m) = Some mdl'" using making_slot(1) [OF q(2) ok] by simp
  ultimately show ?thesis using dur by auto
qed

text \<open>
  The labels that \<open>run\<close> always completes: no times of their own, speed 1, no pending action on
  the durations, and a voice whose tables are as the code relies on them.
\<close>

definition plain_label :: "Mage \<Rightarrow> Engine \<Rightarrow> Label \<Rightarrow> bool" where
  "plain_label m e l \<longleftrightarrow> \<not> isDurationForced l \<and> labelSpeed m = 1 \<and> action m = noaction \<and>
     length (c_str (getQuery l)) < maxStrLen \<and> engine_ok e \<and> durations_ok e \<and>
     normalise (duration_iw e) = duration_iw e"

lemma run_plain:
  assumes "mage_inv m" "labels (labelQueue m) = l # ls" "default_engine m = Some (w, e)" "plain_label m e l"
    and mls: "\<And>row ix. length (mlsacheck row ix) = length row"
  shows "\<exists>m' fs. run mlsacheck m = Some (m', fs) \<and> mage_inv m' \<and> labels (labelQueue m') = ls \<and>
    (\<forall>f \<in> set fs. frame_ok (fstreams f)) \<and>
    (length (mq_contents (modelQueue m)) = nOfBackup + nOfLookup \<or> flag m \<longrightarrow>
     sum_list (natural_durations e (c_str (getQuery l))) \<le> maxDuration \<longrightarrow>
     int (length fs) = sum_list (natural_durations e (c_str (getQuery l))))"
proof -
  note pl = assms(4) [unfolded plain_label_def]
  have lq: "lq_inv (labelQueue m)" "\<not> lisEmpty (labelQueue m)" "length (updateFunction m) = nOfStates"
    using assms(1,2) by (auto simp: mage_inv_def lisEmpty_iff)
  obtain lq' where m1: "popLabel m = Some (True, m\<lparr>labelQueue := lq', label := Label.setSpeed l (labelSpeed m)\<rparr>)" "lq_inv lq'"
    using popLabel_ok [OF lq(1,2)] assms(2) by auto
  define m1' where "m1' = m\<lparr>labelQueue := lq', label := Label.setSpeed l (labelSpeed m)\<rparr>"
  have i1: "mage_inv m1'" "default_engine m1' = Some (w, e)"
    using assms(1,3) m1(2) by (simp_all add: m1'_def mage_inv_def default_engine_def)
  have eo: "engine_ok e" using pl by simp
  obtain mdl q e' es where p: "prepareModel m1' = Some (m1'\<lparr>model := next_slot (modelQueue m1'), modelQueue := q, engine := es\<rparr>)"
      "making (mq_contents (modelQueue m1')) mdl (m1'\<lparr>model := next_slot (modelQueue m1'), modelQueue := q, engine := es\<rparr>)"
      "slot_ok mdl" "map_of es (defaultEngine m1') = Some (w, e')" "get_duration e' = get_duration e" "duration_iw e' = duration_iw e"
    using prepareModel_ok [OF i1 eo] pl by auto
  define m2 where "m2 = m1'\<lparr>model := next_slot (modelQueue m1'), modelQueue := q, engine := es\<rparr>"
  have nat: "durations_ok e'" "natural_durations e' = natural_durations e"
    using pl p(5,6) by (auto simp: durations_ok_def natural_durations_def)
  have s2: "\<not> interpolationFlag m2" "default_engine m2 = Some (w, e')" "action m2 = noaction"
      "length (updateFunction m2) = nOfStates" "\<not> isDurationForced (label m2)" "getSpeed (label m2) = 1"
      "getQuery (label m2) = getQuery l"
    using i1(1) p(4) pl lq(3) by (auto simp: m2_def m1'_def mage_inv_def default_engine_def Label.setSpeed_def vox_simps)
  have lb: "length (c_str (getQuery (label m2))) < maxStrLen" using pl s2(7) by simp
  obtain m3 mdl' where m3: "mage_computeDuration m2 = Some m3" "slot_get (modelQueue m3) (model m3) = Some mdl'"
      "sum_list (natural_durations e (c_str (getQuery l))) \<le> maxDuration \<longrightarrow>
       mduration mdl' = sum_list (natural_durations e (c_str (getQuery l)))"
    using natural_duration_step [OF p(2) [folded m2_def] p(3) s2(1,2) nat(1) s2(3-6) lb] nat(2) s2(7) by auto
  have hd: "length (c_str (getQuery (hd (labels (labelQueue m))))) < maxStrLen" using pl assms(2) by simp
  from run_ok [OF assms(1) lq(2) assms(3) eo hd m1(1) [folded m1'_def] p(1) [folded m2_def] m3(1) mls] m3(2,3) assms(2)
  show ?thesis by fastforce
qed

section \<open>Lemmas: weights and configuration files\<close>

lemma voice_op_weights: "do_voice_op mk x m = Inr m' \<Longrightarrow> interpolationWeights m' = interpolationWeights m"
  by (cases x) (auto simp: addEngine_def removeEngine_def setDefaultEngine_def checkReady_def Let_def res_bind_Inr_iff
      split: if_splits list.splits)

lemma voice_ops_weights: "voice_ops mk xs m = Inr m' \<Longrightarrow> interpolationWeights m' = interpolationWeights m"
proof (induction xs arbitrary: m)
  case (Cons x xs)
  then show ?case by (auto simp: res_bind_Inr_iff dest!: voice_op_weights)
qed simp

lemma traverse_strcpy: "traverse strcpy ws = Some vs \<Longrightarrow> \<forall>s \<in> set ws. NUL \<notin> set s \<Longrightarrow> vs = ws"
proof (induction ws arbitrary: vs)
  case (Cons w ws)
  then have "c_str w = w" by (auto simp: c_str_def takeWhile_all)
  with Cons show ?case by (auto simp: strcpy_def bind_eq_Some_conv split: if_splits)
qed simp

section \<open>Properties\<close>

text \<open>
  C3. In a well-formed synthesiser with a well-formed default voice, \<open>run\<close> on a label without
  times completes: it consumes that label only, keeps the state well-formed, and makes frames of
  the right size, as many as the rounded means of the voice's durations add up to (unless they
  exceed the limit), as soon as there are enough models or none has been generated yet.
\<close>

theorem run_completes:
  assumes "mage_inv m" "labels (labelQueue m) = l # ls" "default_engine m = Some (w, e)" "plain_label m e l"
    and "\<forall>row ix. length (mlsacheck row ix) = length row"
  shows "\<exists>m' fs. run mlsacheck m = Some (m', fs) \<and> mage_inv m' \<and> labels (labelQueue m') = ls \<and>
    (\<forall>f \<in> set fs. frame_ok (fstreams f)) \<and>
    (length (mq_contents (modelQueue m)) = nOfBackup + nOfLookup \<or> flag m \<longrightarrow>
     sum_list (natural_durations e (c_str (getQuery l))) \<le> maxDuration \<longrightarrow>
     int (length fs) = sum_list (natural_durations e (c_str (getQuery l))))"
  using assms by (intro run_plain) auto

definition one_label :: Mage where
  "one_label = init\<lparr>labelQueue := (LabelQueue_new maxLabelQueueLen)\<lparr>lwrite := 1, nOfLabels := 1\<rparr>,
     engine := [(''v'', [1, 1, 1, 1], still_voice)], defaultEngine := ''v''\<rparr>"

lemma one_label_ok: "mage_inv one_label" "labels (labelQueue one_label) = [Label_new]"
  "default_engine one_label = Some ([1, 1, 1, 1], still_voice)" "plain_label one_label still_voice Label_new"
proof -
  show "labels (labelQueue one_label) = [Label_new]" "default_engine one_label = Some ([1, 1, 1, 1], still_voice)"
    by (simp_all add: one_label_def LabelQueue_new_def labels_def ring_def size_consts default_engine_def)
  have "lq_inv (labelQueue one_label)"
    by (simp add: one_label_def LabelQueue_new_def lq_inv_def size_consts)
  then show "mage_inv one_label" using init_inv by (simp add: mage_inv_def one_label_def)
  show "plain_label one_label still_voice Label_new"
    using still_voice_ok still_voice_engine
    by (simp add: plain_label_def one_label_def init_def Label_new_def vox_simps c_str_def maxStrLen_def)
       (simp add: still_voice_def normalise_def)
qed

theorem run_completes_witness:
  "\<exists>m' fs. run (\<lambda>row ix. row) one_label = Some (m', fs) \<and> labels (labelQueue m') = [] \<and> length fs = 10"
proof -
  have "sum_list (natural_durations still_voice q) = 10" for q by (simp add: natural_durations_def still_voice_def)
  moreover have "flag one_label" by (simp add: one_label_def init_def)
  ultimately show ?thesis
    using run_completes [OF one_label_ok, of "\<lambda>row ix. row"] by (auto simp: size_consts)
qed



text \<open>
  Whatever speed and action are given, the hop length stays between one sample and twenty
  frame periods.
\<close>

theorem setSpeed_bounds:
  assumes "mage_setSpeed sp act m = Some m'"
  shows "1 \<le> hopLen m' \<and> hopLen m' \<le> 4800"
proof -
  obtain h where "m' = m\<lparr>hopLen := (let h = (if h < 1 then 1 else h) in if h > defaultFrameRate * 20 then defaultFrameRate * 20 else h)\<rparr>"
    using assms by (auto simp: mage_setSpeed_def Let_def bind_eq_Some_conv)
  then show ?thesis by (simp add: defaultFrameRate_def Let_def)
qed

theorem setSpeed_bounds_witness:
  "\<exists>m'. mage_setSpeed (10 ^ 6) scale init = Some m' \<and> hopLen m' \<le> 4800"
proof -
  have "mage_setSpeed (10 ^ 6) scale init \<noteq> None"
    by (simp add: mage_setSpeed_def action_consts to_int_def c_trunc_def init_def defaultFrameRate_def)
  then obtain m' where m': "mage_setSpeed (10 ^ 6) scale init = Some m'" by blast
  from setSpeed_bounds [OF this] m' show ?thesis by blast
qed

text \<open>Every sample that \<open>popSamples\<close> returns lies between -1 and 1.\<close>

theorem popSamples_range:
  assumes "popSamples noise m = Some (x, m')"
  shows "-1 \<le> x \<and> x \<le> 1"
  using assms by (auto simp: popSamples_def Let_def bind_eq_Some_conv split: if_splits)

theorem popSamples_range_witness: "\<exists>m'. popSamples 0 init = Some (0, m')"
proof -
  have "popSamples 0 init = Some (0, init)"
    by (simp add: popSamples_def init_def vready_def default_vocoder_def Vocoder_new_def)
  with popSamples_range [OF this] show ?thesis by blast
qed

text \<open>
  \<open>checkInterpolationFunctions\<close> divides the weights so that, for every stream and for the
  durations, the absolute weights of all voices sum up to 1, unless they were all 0.
\<close>

theorem interpolation_normalised:
  assumes "weights_ok m"
  shows "\<exists>m'. checkInterpolationFunctions m = Some m' \<and> weights_ok m' \<and>
    (\<forall>i < nOfStreams + 1. weight_sums (engine m) ! i \<noteq> 0 \<longrightarrow> weight_sums (engine m') ! i = 1)"
  by (rule checkInterpolationFunctions_ok [OF assms])

theorem interpolation_normalised_witness:
  "\<exists>m'. checkInterpolationFunctions (init\<lparr>engine := [(''v'', [2, 2, 2, 2], still_voice)]\<rparr>) = Some m' \<and>
    weight_sums (engine m') ! 0 = 1"
proof -
  let ?m = "init\<lparr>engine := [(''v'', [2, 2, 2, 2], still_voice)]\<rparr>"
  have "weights_ok ?m" "weight_sums (engine ?m) ! 0 \<noteq> 0"
    by (simp_all add: weights_ok_def nOfStreams_def nth_weight_sums)
  with interpolation_normalised [of ?m] show ?thesis by (auto simp: nOfStreams_def)
qed

text \<open>
  \<open>reset\<close> looks at the sums of the interpolation weights before anything has computed them:
  after adding and removing voices from the start, it is undefined as long as there is a voice.
\<close>

theorem reset_uninitialised:
  assumes "voice_ops mk xs init = Inr m" "engine m \<noteq> []"
  shows "reset m = None"
  using voice_ops_weights [OF assms(1)] assms(2)
  by (simp add: reset_def reset_weights_def resetVocoder_def init_def)

definition six_models :: "string list" where
  "six_models = flat [(''-td'', ''a''), (''-tm'', ''b''), (''-tf'', ''c''), (''-md'', ''d''), (''-mm'', ''e''), (''-mf'', ''f'')] @ [''x.lab'']"

theorem reset_uninitialised_witness:
  "\<exists>m. voice_ops (\<lambda>calls. still_voice) [Add ''v'' 13 six_models] init = Inr m \<and> reset m = None"
proof -
  have "\<exists>r. load (int (length six_models)) six_models = Inr r"
    unfolding six_models_def
    by (subst load_pairs_parse)
       (auto simp: valued_arg_def char_at_def valued_letters_def second_letters_def is_i_option_def valued_option_def
         opt_tree_def opt_model_def add_name_def counts_ok_def has_lpf_def default_options_def)
  moreover have "length six_models = 13" by (simp add: six_models_def)
  ultimately obtain s calls where "load 13 six_models = Inr (s, calls)" by auto
  then obtain m where m: "voice_ops (\<lambda>calls. still_voice) [Add ''v'' 13 six_models] init = Inr m" "engine m \<noteq> []"
    by (auto simp: addEngine_def init_def)
  from reset_uninitialised [OF m] m show ?thesis by blast
qed

text \<open>
  A configuration file that consists of options with one value each (as the \<open>args.conf\<close> of
  most voices) cannot be loaded: the parser leaves the array of words.
\<close>

theorem config_of_options_fails:
  assumes "config_words lines = flat ps" "\<forall>(a, v) \<in> set ps. valued_arg a" "ps \<noteq> []"
    and "\<forall>s \<in> set (flat ps). NUL \<notin> set s" "map_of (engine m) name = None"
  shows "addEngine_conf mk name (Some lines) m \<noteq> Inr m'"
proof -
  have "traverse strcpy (flat ps) \<noteq> Some ws \<or> ws = flat ps" for ws
    using assms(4) traverse_strcpy [of "flat ps" ws] by auto
  moreover have "flat ps \<noteq> []" using assms(3) by (cases ps) auto
  ultimately show ?thesis
    using load_pairs_fail [OF assms(2,3)] assms(1,5)
    by (fastforce simp: addEngine_conf_def parseConfigFile_def Let_def addEngine_def res_bind_Inr_iff split: option.splits if_splits)
qed

theorem config_of_options_fails_witness:
  "\<forall>m'. addEngine_conf (\<lambda>calls. still_voice) ''v'' (Some [''-s 48000 '', ''-p 240'']) init \<noteq> Inr m'"
  using config_of_options_fails [of "[''-s 48000 '', ''-p 240'']" "[(''-s'', ''48000''), (''-p'', ''240'')]" init "''v''" "\<lambda>calls. still_voice"]
  by (simp add: config_words_def c_str_def valued_arg_def char_at_def valued_letters_def second_letters_def NUL_def init_def)

end
