(* ===== verification/SCMage_Plugin.thy ===== *)
theory SCMage_Plugin
  imports Mage
begin

text \<open>
  The SuperCollider plugin (\<open>SCMage/SCMage.cpp\<close>): reading labels from a sound buffer, construction and
  destruction of a unit, the audio callback, the choice of a voice and the generating thread.

  The server's world and the parent graph are reduced to the buffers that the constructor looks
  up, and its real-time allocator to the results of its two calls. The inputs of the unit are
  arguments. Members of a unit are \<open>None\<close> until the constructor sets them, and reading them then
  is undefined, as is converting a sample to \<open>char\<close> or \<open>int\<close> out of range. The statics of the
  label parser are threaded, since all units share them.
\<close>

section \<open>Labels from a sound buffer\<close>

record SndBuf =
  sdata :: "real list"
  schannels :: int
  ssamples :: int

text \<open>\<open>char character = bufData[bufIndex]\<close>, for a signed \<open>char\<close>.\<close>

definition to_char :: "real \<Rightarrow> char option" where
  "to_char x = (if - 128 \<le> c_trunc x \<and> c_trunc x < 128 then Some (char_of (nat (c_trunc x mod 256))) else None)"

definition NL :: char where "NL = CHR 0x0A"

text \<open>
  The loop; \<open>acc\<close> is the text of length \<open>charIndex\<close> in the intermediate buffer. It does not end
  when the number of channels is not positive, unless it meets a terminator.
\<close>

partial_function (option) push_loop :: "real list \<Rightarrow> int \<Rightarrow> int \<Rightarrow> int \<Rightarrow> string \<Rightarrow> parse_statics \<Rightarrow> Mage \<Rightarrow>
    (parse_statics \<times> Mage) option" where
  "push_loop bufData samples channels i acc st m =
     (if i < samples
      then Option.bind (get_at bufData i) (\<lambda>x. Option.bind (to_char x) (\<lambda>c.
        if c = NUL then Some (st, m)
        else if c = NL
        then Option.bind (Label_of_string st acc) (\<lambda>(st, l). Option.bind (pushLabel l m) (\<lambda>m.
          Option.bind (c_int (i + channels)) (\<lambda>i. push_loop bufData samples channels i [] st m)))
        else Option.bind (c_int (i + channels)) (\<lambda>i.
          push_loop bufData samples channels i (if length acc < maxStrLen then acc @ [c] else acc) st m)))
      else Some (st, m))"

definition SCMage_pushLabelsFromSndBuf :: "bool \<Rightarrow> SndBuf \<Rightarrow> parse_statics \<Rightarrow> Mage \<Rightarrow>
    (bool \<times> parse_statics \<times> Mage) option" where
  "SCMage_pushLabelsFromSndBuf allocated b st m =
     (if \<not> allocated then Some (False, st, m)
      else do {
        (st, m) \<leftarrow> push_loop (sdata b) (ssamples b) (schannels b) 0 [] st m;
        Some (True, st, m) })"

section \<open>The unit\<close>

datatype calc_func = Unset | ClearUnitOutputs | Next

record SCMage =
  umage :: "Mage option"
  freqValue :: "real option"
  freqAction :: "real option"
  uthread :: bool
  ucalc :: calc_func

definition SCMage_raw :: SCMage where
  "SCMage_raw = \<lparr>umage = None, freqValue = None, freqAction = None, uthread = False, ucalc = Unset\<rparr>"

definition SCMage_allocFailed :: "SCMage \<Rightarrow> SCMage" where
  "SCMage_allocFailed u = u\<lparr>ucalc := ClearUnitOutputs\<rparr>"

record World =
  mSndBufs :: "SndBuf list"
  mLocalSndBufs :: "SndBuf list"
  localBufNum :: int

text \<open>
  The buffer with a number: a global one, a local one of the parent graph, or buffer 0.
  \<open>mLocalSndBufs\<close> holds the local buffers that are allocated, of which \<open>localBufNum\<close> are in use.
\<close>

definition find_buf :: "World \<Rightarrow> int \<Rightarrow> SndBuf option" where
  "find_buf w bufnum =
     (if bufnum \<ge> int (length (mSndBufs w))
      then (let local = bufnum - int (length (mSndBufs w))
            in if local \<le> localBufNum w then get_at (mLocalSndBufs w) local else get_at (mSndBufs w) 0)
      else get_at (mSndBufs w) bufnum)"

definition SCMage_Ctor :: "bool \<Rightarrow> bool \<Rightarrow> World \<Rightarrow> real \<Rightarrow> parse_statics \<Rightarrow> (parse_statics \<times> SCMage) option" where
  "SCMage_Ctor mage_allocated text_allocated w in0 st =
     (let u = SCMage_raw in
      if \<not> mage_allocated then Some (st, SCMage_allocFailed u)
      else do {
        let u = u\<lparr>umage := Some init\<rparr>;
        bufnum \<leftarrow> to_int in0;
        (ok, st, m) \<leftarrow> (if bufnum \<ge> 0
           then do { b \<leftarrow> find_buf w bufnum; SCMage_pushLabelsFromSndBuf text_allocated b st init }
           else Some (True, st, init));
        let u = u\<lparr>umage := Some m\<rparr>;
        Some (st, if ok then u\<lparr>freqValue := Some 0, freqAction := Some (real_of_int noaction), uthread := True,
                               ucalc := Next\<rparr>
                  else SCMage_allocFailed u) })"

text \<open>
  The destructor cancels and joins the thread, and destroys the synthesiser: both have to exist.
\<close>

definition SCMage_Dtor :: "SCMage \<Rightarrow> unit option" where
  "SCMage_Dtor u = (if uthread u then do { m \<leftarrow> umage u; Some () } else None)"

section \<open>The audio callback\<close>

text \<open>One turn of the loop of \<open>SCMage_next\<close>; \<open>noise\<close> is the next value of the random generator.\<close>

definition next_sample :: "real \<Rightarrow> Mage \<Rightarrow> (real \<times> Mage) option" where
  "next_sample noise m = do { m \<leftarrow> updateSamples m; popSamples noise m }"

fun next_samples :: "real list \<Rightarrow> Mage \<Rightarrow> (real list \<times> Mage) option" where
  "next_samples [] m = Some ([], m)"
| "next_samples (n # ns) m = do {
     (x, m) \<leftarrow> next_sample n m;
     (xs, m) \<leftarrow> next_samples ns m;
     Some (x # xs, m) }"

definition SCMage_next :: "real \<Rightarrow> real \<Rightarrow> real \<Rightarrow> real \<Rightarrow> real list \<Rightarrow> SCMage \<Rightarrow> (real list \<times> SCMage) option" where
  "SCMage_next freq act timeScale alpha noises u = do {
     m \<leftarrow> umage u;
     let u = u\<lparr>freqValue := Some freq, freqAction := Some act\<rparr>;
     m \<leftarrow> (if flagReady m
          then do { m \<leftarrow> mage_setSpeed (timeScale * real_of_int defaultFrameRate) overwrite m; Some (mage_setAlpha alpha m) }
          else Some m);
     (out, m) \<leftarrow> next_samples noises m;
     Some (out, u\<lparr>umage := Some m\<rparr>) }"

section \<open>The voice\<close>

definition voice_options :: "string \<Rightarrow> (string \<times> string) list" where
  "voice_options dir =
     [(''-s'', ''48000''), (''-p'', ''240''), (''-a'', ''0.55''),
      (''-td'', dir @ ''/tree-dur.inf''), (''-tm'', dir @ ''/tree-mgc.inf''), (''-tf'', dir @ ''/tree-lf0.inf''),
      (''-tl'', dir @ ''/tree-lpf.inf''), (''-md'', dir @ ''/dur.pdf''), (''-mm'', dir @ ''/mgc.pdf''),
      (''-mf'', dir @ ''/lf0.pdf''), (''-ml'', dir @ ''/lpf.pdf''),
      (''-dm'', dir @ ''/mgc.win1''), (''-dm'', dir @ ''/mgc.win2''), (''-dm'', dir @ ''/mgc.win3''),
      (''-df'', dir @ ''/lf0.win1''), (''-df'', dir @ ''/lf0.win2''), (''-df'', dir @ ''/lf0.win3''),
      (''-dl'', dir @ ''/lpf.win1''), (''-em'', dir @ ''/tree-gv-mgc.inf''), (''-ef'', dir @ ''/tree-gv-lf0.inf''),
      (''-cm'', dir @ ''/gv-mgc.pdf''), (''-cf'', dir @ ''/gv-lf0.pdf''), (''-k'', dir @ ''/gv-switch.inf'')]"

definition voice_prefix :: string where
  "voice_prefix = ''/home/we/vox/mage/data/cmu-arctic/voices/''"

definition mage_argv_strings :: "string \<Rightarrow> string list" where
  "mage_argv_strings voiceName = flat (voice_options (voice_prefix @ voiceName)) @ ['''']"

definition SCMage_addVoice :: "(hts_call list \<Rightarrow> Engine) \<Rightarrow> string \<Rightarrow> Mage \<Rightarrow> Mage res" where
  "SCMage_addVoice mk_engine voiceName m =
     (case traverse strcpy (mage_argv_strings voiceName) of
        None \<Rightarrow> Inl OutOfBounds
      | Some argv \<Rightarrow> addEngine mk_engine voiceName 47 argv m)"

definition voice_name :: "int \<Rightarrow> string" where
  "voice_name voiceNum =
     (if voiceNum = 0 then ''awb'' else if voiceNum = 1 then ''bdl'' else if voiceNum = 2 then ''clb''
      else if voiceNum = 3 then ''jmk'' else if voiceNum = 4 then ''rms'' else ''slt'')"

text \<open>
  The generating thread: its start, and one turn of its loop, which gives the frames to send
  beside the new state.
\<close>

definition genThread_start :: "(hts_call list \<Rightarrow> Engine) \<Rightarrow> real \<Rightarrow> Mage \<Rightarrow> Mage res" where
  "genThread_start mk_engine in5 m =
     (case to_int in5 of None \<Rightarrow> Inl OutOfBounds | Some n \<Rightarrow> SCMage_addVoice mk_engine (voice_name n) m)"

definition genThread_turn :: "(real list \<Rightarrow> nat \<Rightarrow> real list) \<Rightarrow> real \<Rightarrow> real \<Rightarrow> Mage \<Rightarrow> (Mage \<times> Frame list) option" where
  "genThread_turn mlsacheck freq act m =
     (if flagReady m
      then do {
        (m, fs) \<leftarrow> run mlsacheck m;
        a \<leftarrow> to_int act;
        Some (mage_setPitch freq a m, fs) }
      else Some (m, []))"

section \<open>Lemmas: reading labels\<close>

text \<open>Every \<open>ch\<close>-th sample from index \<open>i\<close> on is a character of the text.\<close>

fun encodes :: "SndBuf \<Rightarrow> int \<Rightarrow> string \<Rightarrow> bool" where
  "encodes b i [] \<longleftrightarrow> True"
| "encodes b i (c # cs) \<longleftrightarrow> i < ssamples b \<and> Option.bind (get_at (sdata b) i) to_char = Some c \<and>
     0 \<le> i + schannels b \<and> i + schannels b < 2 ^ 31 \<and> encodes b (i + schannels b) cs"

definition plain_text :: "string \<Rightarrow> bool" where
  "plain_text s \<longleftrightarrow> NL \<notin> set s \<and> NUL \<notin> set s"

lemma encodes_append:
  "encodes b i (s @ t) \<longleftrightarrow> encodes b i s \<and> encodes b (i + int (length s) * schannels b) t"
  by (induction s arbitrary: i) (auto simp: algebra_simps)

lemma encodes_mono:
  assumes "schannels b = 1" "ssamples b = int (length (sdata b))" "length (sdata b) < 2 ^ 31"
    and "map to_char (sdata b) = map Some (pre @ s)"
  shows "encodes b (int (length pre)) s"
  using assms(4)
proof (induction s arbitrary: pre)
  case (Cons c s)
  have len: "length (sdata b) = length pre + Suc (length s)"
    using arg_cong [OF Cons.prems, of length] by simp
  moreover have "to_char (sdata b ! length pre) = Some c"
    using arg_cong [OF Cons.prems, of "\<lambda>xs. xs ! length pre"] len by (simp add: nth_append)
  moreover have "encodes b (int (length (pre @ [c]))) s" using Cons.prems by (intro Cons.IH) simp
  ultimately show ?case using assms(1-3) by (simp add: get_at_def add.commute)
qed simp

lemma push_loop_plain:
  assumes "encodes b i s" "plain_text s" "length acc \<le> maxStrLen"
  shows "push_loop (sdata b) (ssamples b) (schannels b) i acc st m =
    push_loop (sdata b) (ssamples b) (schannels b) (i + int (length s) * schannels b) (take maxStrLen (acc @ s)) st m"
  using assms
proof (induction s arbitrary: i acc)
  case (Cons c s)
  let ?acc = "if length acc < maxStrLen then acc @ [c] else acc"
  have c: "c \<noteq> NUL" "c \<noteq> NL" "plain_text s" using Cons.prems(2) by (auto simp: plain_text_def)
  obtain x where x: "get_at (sdata b) i = Some x" "to_char x = Some c"
    using Cons.prems(1) by (auto simp: bind_eq_Some_conv)
  have "push_loop (sdata b) (ssamples b) (schannels b) i acc st m =
      push_loop (sdata b) (ssamples b) (schannels b) (i + schannels b) ?acc st m"
    using Cons.prems(1) c x by (subst push_loop.simps) auto
  also have "\<dots> = push_loop (sdata b) (ssamples b) (schannels b) (i + schannels b + int (length s) * schannels b)
      (take maxStrLen (?acc @ s)) st m"
    using Cons.prems c(3) by (intro Cons.IH) auto
  also have "take maxStrLen (?acc @ s) = take maxStrLen (acc @ c # s)"
    using Cons.prems(3) by (auto simp: take_Cons' Suc_diff_Suc)
  finally show ?case by (simp add: algebra_simps)
qed simp

definition push_line :: "parse_statics \<times> Mage \<Rightarrow> string \<Rightarrow> (parse_statics \<times> Mage) option" where
  "push_line = (\<lambda>(st, m) s. do { (st, l) \<leftarrow> Label_of_string st s; m \<leftarrow> pushLabel l m; Some (st, m) })"

lemma push_loop_line:
  assumes "encodes b i (s @ [NL])" "plain_text s"
  shows "push_loop (sdata b) (ssamples b) (schannels b) i [] st m =
    Option.bind (push_line (st, m) (take maxStrLen s)) (\<lambda>(st, m).
      push_loop (sdata b) (ssamples b) (schannels b) (i + int (length s + 1) * schannels b) [] st m)"
proof -
  let ?j = "i + int (length s) * schannels b"
  have e: "encodes b i s" "encodes b ?j [NL]" using assms(1) by (simp_all add: encodes_append)
  then obtain x where x: "get_at (sdata b) ?j = Some x" "to_char x = Some NL" by (auto simp: bind_eq_Some_conv)
  have nl: "NL \<noteq> NUL" by (simp add: NL_def NUL_def)
  have j: "i + int (length s + 1) * schannels b = ?j + schannels b" by (simp add: algebra_simps)
  have "push_loop (sdata b) (ssamples b) (schannels b) i [] st m =
      push_loop (sdata b) (ssamples b) (schannels b) ?j (take maxStrLen s) st m"
    using push_loop_plain [OF e(1) assms(2), of "[]"] by simp
  also have "\<dots> = Option.bind (push_line (st, m) (take maxStrLen s)) (\<lambda>(st, m).
      push_loop (sdata b) (ssamples b) (schannels b) (?j + schannels b) [] st m)"
    using e(2) x nl
    by (subst push_loop.simps) (auto simp: push_line_def split: Option.bind_splits prod.splits)
  finally show ?thesis unfolding j .
qed

definition text_of :: "string list \<Rightarrow> string" where
  "text_of ls = concat (map (\<lambda>l. l @ [NL]) ls)"

lemma text_of_simps [simp]: "text_of [] = []" "text_of (l # ls) = (l @ [NL]) @ text_of ls"
  by (simp_all add: text_of_def)

lemma push_loop_lines:
  assumes "encodes b i (text_of ls @ rest)" "\<forall>l \<in> set ls. plain_text l \<and> length l \<le> maxStrLen" "plain_text rest"
    and "ssamples b \<le> i + int (length (text_of ls @ rest)) * schannels b"
  shows "push_loop (sdata b) (ssamples b) (schannels b) i [] st m = foldM push_line (st, m) ls"
  using assms
proof (induction ls arbitrary: i st m)
  case Nil
  then have e: "encodes b i rest" "ssamples b \<le> i + int (length rest) * schannels b" by simp_all
  show ?case
    using e(2) push_loop_plain [OF e(1) Nil.prems(3), of "[]" st m]
    by (simp add: push_loop.simps [of _ _ _ "i + int (length rest) * schannels b"])
next
  case (Cons l ls)
  have e: "encodes b i (l @ [NL])" "encodes b (i + int (length l + 1) * schannels b) (text_of ls @ rest)"
    using Cons.prems(1) encodes_append [of b i "l @ [NL]" "text_of ls @ rest"] by simp_all
  have l: "plain_text l" "take maxStrLen l = l" using Cons.prems(2) by simp_all
  have "push_loop (sdata b) (ssamples b) (schannels b) (i + int (length l + 1) * schannels b) [] st' m' =
      foldM push_line (st', m') ls" for st' m'
    using Cons.prems e(2) by (intro Cons.IH) (simp_all add: algebra_simps)
  then show ?case unfolding push_loop_line [OF e(1) l(1)] l(2)
    by (cases "push_line (st, m) l") (auto split: prod.split)
qed

lemma push_line_bare:
  assumes "is_field s" "\<not> isdigit_string s" "statics_ok st" "lq_inv (labelQueue m)" "\<not> lisFull (labelQueue m)"
  shows "\<exists>st' m' l. push_line (st, m) s = Some (st', m') \<and> statics_ok st' \<and> lq_inv (labelQueue m') \<and>
    lcapacity (labelQueue m') = lcapacity (labelQueue m) \<and> m' = m\<lparr>labelQueue := labelQueue m'\<rparr> \<and>
    labels (labelQueue m') = labels (labelQueue m) @ [l] \<and> getQuery l = s \<and> \<not> isDurationForced l"
proof -
  obtain st' l where p: "Label_of_string st s = Some (st', l)" "getQuery l = s" "\<not> isDurationForced l" "statics_ok st'"
    using parse_bare [OF assms(1-3), of Label_new] parseQuery_statics_ok [of st Label_new s]
    by (auto simp: Label_of_string_def vox_simps)
  obtain q where "push_label (labelQueue m) l = Some q" "lq_inv q" "labels q = labels (labelQueue m) @ [l]"
      "lcapacity q = lcapacity (labelQueue m)"
    using labelq.enq_ok [OF assms(4,5)] by blast
  with p show ?thesis by (auto simp: push_line_def pushLabel_def assms(5))
qed

lemma push_lines_bare:
  assumes "\<forall>s \<in> set ls. is_field s \<and> \<not> isdigit_string s" "statics_ok st" "lq_inv (labelQueue m)"
    and "length (labels (labelQueue m)) + length ls \<le> lcapacity (labelQueue m)"
  shows "\<exists>st' m' new. foldM push_line (st, m) ls = Some (st', m') \<and> statics_ok st' \<and>
    lq_inv (labelQueue m') \<and> m' = m\<lparr>labelQueue := labelQueue m'\<rparr> \<and>
    labels (labelQueue m') = labels (labelQueue m) @ new \<and> map getQuery new = ls \<and> (\<forall>l \<in> set new. \<not> isDurationForced l)"
  using assms
proof (induction ls arbitrary: st m)
  case (Cons s ls)
  have nf: "\<not> lisFull (labelQueue m)" using Cons.prems(3,4) lisFull_iff by auto
  obtain st1 m1 l where s1: "push_line (st, m) s = Some (st1, m1)" "statics_ok st1" "lq_inv (labelQueue m1)"
      "lcapacity (labelQueue m1) = lcapacity (labelQueue m)" "m1 = m\<lparr>labelQueue := labelQueue m1\<rparr>"
      "labels (labelQueue m1) = labels (labelQueue m) @ [l]" "getQuery l = s" "\<not> isDurationForced l"
    using push_line_bare [of s st m] Cons.prems nf by auto
  have "length (labels (labelQueue m1)) + length ls \<le> lcapacity (labelQueue m1)" using Cons.prems(4) s1(4,6) by simp
  then obtain st' m' new where r: "foldM push_line (st1, m1) ls = Some (st', m')" "statics_ok st'"
      "lq_inv (labelQueue m')" "m' = m1\<lparr>labelQueue := labelQueue m'\<rparr>" "labels (labelQueue m') = labels (labelQueue m1) @ new"
      "map getQuery new = ls" "\<forall>l \<in> set new. \<not> isDurationForced l"
    using Cons.IH [OF _ s1(2,3)] Cons.prems(1) by auto
  have "m' = m\<lparr>labelQueue := labelQueue m'\<rparr>" using r(4) s1(5) by (cases m; cases m1; cases m') simp
  with r s1 show ?case by (intro exI [of _ st'] exI [of _ m'] exI [of _ "l # new"]) auto
qed (auto intro!: exI [of _ "[]"])

section \<open>The two threads\<close>

text \<open>
  The generating thread is idle or sends the frames of a turn (\<open>sending\<close>), one at a time and only
  while the frame queue is not full; after the last one it sets the pitch. Between any two of
  these steps the audio thread may set the speed and alpha or make a sample. Each step is taken
  to be atomic.
\<close>

record sys =
  smage :: Mage
  sending :: "Frame list option"

inductive sys_step :: "(real list \<Rightarrow> nat \<Rightarrow> real list) \<Rightarrow> sys \<Rightarrow> sys \<Rightarrow> bool" for mlsacheck where
  gen_run: "sending s = None \<Longrightarrow> flagReady (smage s) \<Longrightarrow> run mlsacheck (smage s) = Some (m, fs) \<Longrightarrow>
    sys_step mlsacheck s (s\<lparr>smage := m, sending := Some fs\<rparr>)"
| gen_send: "sending s = Some (f # fs) \<Longrightarrow> \<not> isFull (frameQueue (smage s)) \<Longrightarrow>
    write_next (frameQueue (smage s)) f = Some q \<Longrightarrow>
    sys_step mlsacheck s (s\<lparr>smage := (smage s)\<lparr>frameQueue := q\<rparr>, sending := Some fs\<rparr>)"
| gen_pitch: "sending s = Some [] \<Longrightarrow> to_int act = Some a \<Longrightarrow>
    sys_step mlsacheck s (s\<lparr>smage := mage_setPitch freq a (smage s), sending := None\<rparr>)"
| audio_control: "flagReady (smage s) \<Longrightarrow> mage_setSpeed sp overwrite (smage s) = Some m \<Longrightarrow>
    sys_step mlsacheck s (s\<lparr>smage := mage_setAlpha alpha m\<rparr>)"
| audio_sample: "next_sample noise (smage s) = Some (x, m) \<Longrightarrow> sys_step mlsacheck s (s\<lparr>smage := m\<rparr>)"

inductive sys_steps :: "(real list \<Rightarrow> nat \<Rightarrow> real list) \<Rightarrow> sys \<Rightarrow> sys \<Rightarrow> bool" for mlsacheck where
  steps_refl: "sys_steps mlsacheck s s"
| steps_step: "sys_steps mlsacheck s t \<Longrightarrow> sys_step mlsacheck t u \<Longrightarrow> sys_steps mlsacheck s u"

inductive_cases sys_stepE: "sys_step mlsacheck s t"

text \<open>The labels in the queue fit their buffers, and the voices are well-formed.\<close>

definition input_inv :: "Mage \<Rightarrow> bool" where
  "input_inv m \<longleftrightarrow> (\<forall>l \<in> set (labels (labelQueue m)). length (c_str (getQuery l)) < maxStrLen) \<and>
     (\<forall>(k, w, e) \<in> set (engine m). engine_ok e)"

definition audio_inv :: "Mage \<Rightarrow> bool" where
  "audio_inv m \<longleftrightarrow> mage_inv m \<and> voc_ok (vocoder m) \<and> input_inv m"

definition sys_inv :: "sys \<Rightarrow> bool" where
  "sys_inv s \<longleftrightarrow> audio_inv (smage s) \<and> (\<forall>fs. sending s = Some fs \<longrightarrow> (\<forall>f \<in> set fs. frame_ok (fstreams f)))"

section \<open>Lemmas: what a step keeps\<close>

lemma write_next_raw: "write_next q v = Some q' \<Longrightarrow> set (rawData q') \<subseteq> insert v (set (rawData q))"
  using set_update_subset_insert [of "rawData q" "next_slot q" v]
  by (auto simp: write_next_def slot_set_def push_def arr_set_def split: if_splits)

lemma mage_inv_send:
  assumes "mage_inv m" "\<not> isFull (frameQueue m)" "write_next (frameQueue m) f = Some q" "frame_ok (fstreams f)"
  shows "mage_inv (m\<lparr>frameQueue := q\<rparr>)"
proof -
  have "mq_inv q" "qlength q = qlength (frameQueue m)"
    using memq.enq_ok [of "frameQueue m" f] assms(1-3) by (auto simp: mage_inv_def)
  then show ?thesis using assms(1,4) write_next_raw [OF assms(3)] by (auto simp: mage_inv_def)
qed

text \<open>\<open>run\<close> changes neither the frame queue nor the vocoder nor the readiness.\<close>

lemma run_parts:
  assumes "run mlsacheck m = Some (m', fs)" "\<not> lisEmpty (labelQueue m)" "\<not> interpolationFlag m"
  obtains m1 m2 m3 where "popLabel m = Some (True, m1)" "prepareModel m1 = Some m2" "mage_computeDuration m2 = Some m3"
    and "frameQueue m' = frameQueue m" "vocoder m' = vocoder m" "engine m' = engine m2"
    and "flagReady m' = flagReady m" "labelSpeed m' = labelSpeed m"
proof -
  obtain m1 m2 m3 m4 where s: "popLabel m = Some (True, m1)" "prepareModel m1 = Some m2" "mage_computeDuration m2 = Some m3"
      "mage_computeParameters m3 = Some m4" "mage_optimizeParameters mlsacheck m4 = Some (m', fs)"
    using assms(1,2) by (auto simp: run_def popLabel_def bind_eq_Some_conv split: if_splits)
  have m1: "frameQueue m1 = frameQueue m \<and> vocoder m1 = vocoder m \<and> flagReady m1 = flagReady m \<and> labelSpeed m1 = labelSpeed m"
    using s(1) by (auto simp: popLabel_def bind_eq_Some_conv split: if_splits)
  have m2: "frameQueue m2 = frameQueue m1 \<and> vocoder m2 = vocoder m1 \<and> flagReady m2 = flagReady m1 \<and> labelSpeed m2 = labelSpeed m1"
    using s(2) by (auto simp: prepareModel_def bind_eq_Some_conv case_prod_beta Let_def)
  obtain q3 where "m3 = m2\<lparr>modelQueue := q3, action := noaction\<rparr>"
    using s(3) by (auto simp: mage_computeDuration_def with_model_def bind_eq_Some_conv)
  moreover obtain q4 where "m4 = m3\<lparr>modelQueue := q4\<rparr>"
    using s(4) by (auto simp: mage_computeParameters_def with_model_def bind_eq_Some_conv)
  moreover have "frameQueue m' = frameQueue m4 \<and> vocoder m' = vocoder m4 \<and> engine m' = engine m4 \<and>
      flagReady m' = flagReady m4 \<and> labelSpeed m' = labelSpeed m4"
    using s(5) by (auto simp: mage_optimizeParameters_def Let_def bind_eq_Some_conv split: if_splits)
  ultimately show ?thesis using s m1 m2 by (intro that [of m1 m2 m3]) simp_all
qed

lemma prepareModel_engines:
  assumes "prepareModel m = Some m'" "\<forall>(k, w, e) \<in> set (engine m). engine_ok e"
  shows "\<forall>(k, w, e) \<in> set (engine m'). engine_ok e"
proof -
  obtain w e mdl where d: "default_engine m = Some (w, e)"
      "engine m' = put_engine (defaultEngine m) (w, snd (checkInterpolationWeights mdl e False)) (engine m)"
    using assms(1) by (auto simp: prepareModel_def bind_eq_Some_conv case_prod_beta Let_def)
  have "engine_ok e" using d(1) assms(2) by (auto simp: default_engine_def dest: map_of_SomeD)
  then have ok: "engine_ok (snd (checkInterpolationWeights mdl e False))" by (simp add: engine_ok_checked)
  have "set (put_engine k v es) \<subseteq> insert (k, v) (set es)" for k v es
    by (induction k v es rule: put_engine.induct) auto
  then show ?thesis using d(2) ok assms(2) by fastforce
qed

lemma run_keeps:
  assumes "audio_inv m" "run mlsacheck m = Some (m', fs)" "\<And>row ix. length (mlsacheck row ix) = length row"
  shows "audio_inv m' \<and> (\<forall>f \<in> set fs. frame_ok (fstreams f))"
proof (cases "lisEmpty (labelQueue m)")
  case True
  then show ?thesis using assms(1,2) by (simp add: run_def popLabel_def)
next
  case False
  have inv: "mage_inv m" "voc_ok (vocoder m)" "input_inv m" "\<not> interpolationFlag m"
    using assms(1) by (auto simp: audio_inv_def mage_inv_def)
  obtain m1 m2 m3 where s: "popLabel m = Some (True, m1)" "prepareModel m1 = Some m2" "mage_computeDuration m2 = Some m3"
      "vocoder m' = vocoder m" "engine m' = engine m2"
    using run_parts [OF assms(2) False inv(4)] by blast
  have e1: "engine m1 = engine m" "defaultEngine m1 = defaultEngine m"
    using s(1) by (auto simp: popLabel_def bind_eq_Some_conv split: if_splits)
  obtain w e where d: "default_engine m = Some (w, e)"
    using s(2) e1 by (auto simp: prepareModel_def bind_eq_Some_conv default_engine_def)
  then have eo: "engine_ok e" using inv(3) by (auto simp: input_inv_def default_engine_def dest!: map_of_SomeD)
  have "hd (labels (labelQueue m)) \<in> set (labels (labelQueue m))" using False by (simp add: lisEmpty_iff)
  then have lb: "length (c_str (getQuery (hd (labels (labelQueue m))))) < maxStrLen"
    using inv(3) by (auto simp: input_inv_def)
  obtain m'' fs' where r: "run mlsacheck m = Some (m'', fs')" "mage_inv m''" "\<forall>f \<in> set fs'. frame_ok (fstreams f)"
      "labels (labelQueue m'') = tl (labels (labelQueue m))"
    using run_ok [where mlsacheck = mlsacheck, OF inv(1) False d eo lb s(1-3) assms(3)] by blast
  have "\<forall>(k, w, e) \<in> set (engine m2). engine_ok e"
    using prepareModel_engines [OF s(2)] e1 inv(3) by (simp add: input_inv_def)
  moreover have "set (tl (labels (labelQueue m))) \<subseteq> set (labels (labelQueue m))" by (cases "labels (labelQueue m)") auto
  ultimately have "input_inv m''" using r(1,4) assms(2) s(5) inv(3) by (auto simp: input_inv_def)
  then show ?thesis using r assms(2) s(4) inv(2) by (simp add: audio_inv_def)
qed

lemma updateSamples_ok:
  assumes "audio_inv m"
  shows "\<exists>m'. updateSamples m = Some m' \<and> audio_inv m' \<and> (vready (vocoder m) \<longrightarrow> vready (vocoder m'))"
proof (cases "sampleCount m \<ge> hopLen m - 1 \<and> \<not> isEmpty (frameQueue m)")
  case True
  let ?q = "frameQueue m"
  have inv: "mq_inv ?q" "voc_ok (vocoder m)" "\<forall>f \<in> set (rawData ?q). frame_ok (fstreams f)"
    using assms by (auto simp: audio_inv_def mage_inv_def)
  obtain q where q: "pop ?q 1 = Some q" "mq_inv q" "qlength q = qlength ?q" "rawData q = rawData ?q"
    using pop_ok [OF inv(1), of 1] by blast
  have ix: "qread ?q < length (rawData ?q)" using mq_invD [OF inv(1)] by simp
  define f where "f = rawData ?q ! qread ?q"
  have f: "slot_get ?q (get ?q) = Some f" "frame_ok (fstreams f)"
    using ix inv(3) by (auto simp: slot_get_def get_def f_def)
  obtain v where v: "push_frame f False (vocoder m) = Some v" "vready v"
    using prepare_ok [of "vocoder m" "fstreams f" "fvoiced f" False] voc_ok_fits [OF inv(2)] f(2)
    unfolding push_frame_def by metis
  have vo: "voc_ok v" using vcall_keeps_ok [OF inv(2), of "Push f False" v] v(1) f(2) by simp
  have "updateSamples m = Some (m\<lparr>vocoder := v, frameQueue := q, sampleCount := 0\<rparr>)"
    using True f(1) v(1) q(1) by (simp add: updateSamples_def)
  moreover have "audio_inv (m\<lparr>vocoder := v, frameQueue := q, sampleCount := 0\<rparr>)"
    using assms q vo by (simp add: audio_inv_def mage_inv_def input_inv_def)
  ultimately show ?thesis using v(2) by auto
next
  case False
  then show ?thesis
    using assms by (auto simp: updateSamples_def audio_inv_def mage_inv_def input_inv_def)
qed

lemma popSamples_keeps:
  assumes "audio_inv m" "popSamples noise m = Some (x, m')"
  shows "audio_inv m' \<and> -1 \<le> x \<and> x \<le> 1"
proof (cases "vready (vocoder m)")
  case True
  then obtain y v where v: "vpop noise (vocoder m) = Some (y, v)" "m' = m\<lparr>vocoder := v\<rparr>" "-1 \<le> x" "x \<le> 1"
    using assms(2) by (auto simp: popSamples_def Let_def bind_eq_Some_conv)
  have "voc_ok v"
    using vcall_keeps_ok [of "vocoder m" "Pop noise" v] v(1) assms(1) by (simp add: audio_inv_def)
  then show ?thesis using assms(1) v by (simp add: audio_inv_def mage_inv_def input_inv_def)
next
  case False
  then show ?thesis using assms by (simp add: popSamples_def)
qed

lemma next_sample_keeps:
  assumes "audio_inv m" "next_sample noise m = Some (x, m')"
  shows "audio_inv m' \<and> -1 \<le> x \<and> x \<le> 1"
proof -
  obtain m1 where m1: "updateSamples m = Some m1" "popSamples noise m1 = Some (x, m')"
    using assms(2) by (auto simp: next_sample_def bind_eq_Some_conv)
  have "audio_inv m1"
    using m1(1) updateSamples_ok [OF assms(1)] by auto
  then show ?thesis using popSamples_keeps m1(2) by blast
qed

lemma controls_keep:
  assumes "audio_inv m"
  shows "audio_inv (mage_setPitch p a m)" "audio_inv (mage_setAlpha x m)"
    and "mage_setSpeed sp act m = Some m' \<Longrightarrow> audio_inv m'"
proof -
  have v: "voc_ok (vocoder m)" using assms by (simp add: audio_inv_def)
  show "audio_inv (mage_setPitch p a m)"
    using vcall_keeps_ok [OF v, of "SetPitch p a False"] assms
    by (simp add: mage_setPitch_def audio_inv_def mage_inv_def input_inv_def)
  show "audio_inv (mage_setAlpha x m)"
    using vcall_keeps_ok [OF v, of "SetAlpha x"] assms
    by (simp add: mage_setAlpha_def audio_inv_def mage_inv_def input_inv_def)
  show "audio_inv m'" if "mage_setSpeed sp act m = Some m'"
    using that assms by (auto simp: mage_setSpeed_def Let_def bind_eq_Some_conv audio_inv_def mage_inv_def input_inv_def)
qed

lemma sys_step_inv:
  assumes "sys_step mlsacheck s t" "sys_inv s" "\<And>row ix. length (mlsacheck row ix) = length row"
  shows "sys_inv t"
  using assms(1,2)
proof cases
  case (gen_run m fs)
  then show ?thesis using run_keeps [where mlsacheck = mlsacheck, OF _ gen_run(4) assms(3)] assms(2) by (simp add: sys_inv_def)
next
  case (gen_send f fs q)
  then have "mage_inv ((smage s)\<lparr>frameQueue := q\<rparr>)"
    using assms(2) by (intro mage_inv_send) (auto simp: sys_inv_def audio_inv_def)
  then show ?thesis using gen_send assms(2) by (auto simp: sys_inv_def audio_inv_def input_inv_def)
next
  case (gen_pitch act a freq)
  then show ?thesis using assms(2) controls_keep(1) by (simp add: sys_inv_def)
next
  case (audio_control sp m alpha)
  then have "audio_inv m" using assms(2) controls_keep(3) by (auto simp: sys_inv_def)
  then show ?thesis using audio_control assms(2) controls_keep(2) by (simp add: sys_inv_def)
next
  case (audio_sample noise x m)
  then show ?thesis using assms(2) next_sample_keeps by (auto simp: sys_inv_def)
qed

lemma sys_steps_inv:
  assumes "sys_steps mlsacheck s t" "sys_inv s" "\<And>row ix. length (mlsacheck row ix) = length row"
  shows "sys_inv t"
  using assms by (induction rule: sys_steps.induct) (auto intro: sys_step_inv)

text \<open>A sample is undefined only for a voiced frame whose pitch is too low, or after too long a silence.\<close>

lemma next_sample_defined:
  assumes "audio_inv m" "updateSamples m = Some m1"
    and "\<not> vvoiced (vocoder m1) \<or> 0 < vcount (vocoder m1) \<or> real_of_int defaultSamplingRate / 2 ^ 31 < vf0 (vocoder m1)"
    and "nOfPopSinceLastPush (vocoder m1) + 1 < 2 ^ 31"
  shows "next_sample noise m \<noteq> None"
proof -
  have "audio_inv m1" using updateSamples_ok [OF assms(1)] assms(2) by auto
  then have v: "voc_inv (vocoder m1)" "filter_fits (vocoder m1)" using voc_ok_fits by (auto simp: audio_inv_def)
  have "vpop noise (vocoder m1) \<noteq> None"
    using vpop_ok [OF v _ assms(4), of noise] excite_ok [OF v(1), of noise] assms(3) by (metis option.distinct(1))
  then show ?thesis
    using assms(2) by (auto simp: next_sample_def popSamples_def Let_def)
qed

section \<open>Lemmas: construction\<close>

lemma parseQuery_query:
  assumes "parseQuery st l q = Some (st', l')"
  shows "length (c_str (getQuery l')) < maxStrLen"
proof -
  have "length (c_str (c_str s)) \<le> length (c_str s)" for s by (simp add: c_str_def length_takeWhile_le)
  then have short: "length (c_str t) < maxStrLen" if "strcpy s = Some t" for s t
    using that le_less_trans by (fastforce simp: strcpy_def split: if_splits)
  obtain f g b t where "strcpy f = Some b" "strcpy g = Some t" and l: "query l' = b \<or> query l' = t"
    using assms
    by (cases "parseQuery st l q")
       (auto simp: parseQuery_def Let_def case_prod_beta bind_eq_Some_conv simp del: if_split,
        auto simp: bind_eq_Some_conv split: if_splits)
  then show ?thesis using short [of f b] short [of g t] by (auto simp: getQuery_def)
qed

lemma push_line_audio:
  assumes "push_line (st, m) s = Some (st', m')" "audio_inv m"
  shows "audio_inv m'"
proof -
  obtain l st1 where l: "parseQuery st Label_new s = Some (st1, l)" "pushLabel (l\<lparr>speed := 1\<rparr>) m = Some m'"
    using assms(1) by (auto simp: push_line_def Label_of_string_def bind_eq_Some_conv)
  have short: "length (c_str (getQuery (l\<lparr>speed := 1\<rparr>))) < maxStrLen"
    using parseQuery_query [OF l(1)] by (simp add: getQuery_def)
  show ?thesis
  proof (cases "lisFull (labelQueue m)")
    case False
    have "lq_inv (labelQueue m)" using assms(2) by (simp add: audio_inv_def mage_inv_def)
    from labelq.enq_ok [OF this False, of "l\<lparr>speed := 1\<rparr>"] obtain q where "m' = m\<lparr>labelQueue := q\<rparr>" "lq_inv q"
        "labels q = labels (labelQueue m) @ [l\<lparr>speed := 1\<rparr>]"
      using l(2) False by (auto simp: pushLabel_def)
    then show ?thesis using assms(2) short by (auto simp: audio_inv_def mage_inv_def input_inv_def)
  qed (use assms(2) l(2) in \<open>simp add: pushLabel_def\<close>)
qed

lemma push_loop_audio:
  assumes "push_loop d n ch i acc st m = Some (st', m')" "audio_inv m"
  shows "audio_inv m'"
proof -
  have "audio_inv m \<longrightarrow> audio_inv (snd r)" if "push_loop d n ch i acc st m = Some r" for r
  proof (rule push_loop.raw_induct [of "\<lambda>d n ch i acc st m r. audio_inv m \<longrightarrow> audio_inv (snd r)", OF _ that])
    fix loop d n ch i acc st m r
    assume hyp: "\<And>d n ch i acc st m r. loop d n ch i acc st m = Some r \<Longrightarrow> audio_inv m \<longrightarrow> audio_inv (snd r)"
      and eq: "(if i < n
      then Option.bind (get_at d i) (\<lambda>x. Option.bind (to_char x) (\<lambda>c.
        if c = NUL then Some (st, m)
        else if c = NL
        then Option.bind (Label_of_string st acc) (\<lambda>(st, l). Option.bind (pushLabel l m) (\<lambda>m.
          Option.bind (c_int (i + ch)) (\<lambda>i. loop d n ch i [] st m)))
        else Option.bind (c_int (i + ch)) (\<lambda>i.
          loop d n ch i (if length acc < maxStrLen then acc @ [c] else acc) st m)))
      else Some (st, m)) = Some r"
    show "audio_inv m \<longrightarrow> audio_inv (snd r)"
    proof (cases "i < n")
      case True
      then obtain x c where x: "get_at d i = Some x" "to_char x = Some c"
        using eq by (auto simp: bind_eq_Some_conv)
      consider (stop) "c = NUL" | (line) "c \<noteq> NUL" "c = NL" | (char) "c \<noteq> NUL" "c \<noteq> NL" by blast
      then show ?thesis
      proof cases
        case stop
        then show ?thesis using eq x True by auto
      next
        case char
        then obtain j acc' where "loop d n ch j acc' st m = Some r"
          using eq x True by (auto simp: bind_eq_Some_conv)
        then show ?thesis by (rule hyp)
      next
        case line
        then obtain st1 l m1 j where s: "Label_of_string st acc = Some (st1, l)" "pushLabel l m = Some m1"
            "loop d n ch j [] st1 m1 = Some r"
          using eq x True by (auto simp: bind_eq_Some_conv)
        then have "push_line (st, m) acc = Some (st1, m1)" by (simp add: push_line_def)
        then show ?thesis using push_line_audio hyp [OF s(3)] by blast
      qed
    qed (use eq in auto)
  qed
  from this [OF assms(1)] assms(2) show ?thesis by simp
qed

lemma init_audio: "audio_inv init"
  using init_inv default_vocoder_ok LabelQueue_new_inv [of maxLabelQueueLen]
  by (simp add: audio_inv_def input_inv_def init_def size_consts)

lemma Ctor_audio:
  assumes "SCMage_Ctor b1 b2 w in0 st = Some (st', u)" "umage u = Some m"
  shows "audio_inv m"
proof -
  have "umage (SCMage_allocFailed x) = umage x" for x by (simp add: SCMage_allocFailed_def)
  then show ?thesis
    using assms init_audio push_loop_audio [OF _ init_audio]
    by (auto simp: SCMage_Ctor_def SCMage_raw_def SCMage_pushLabelsFromSndBuf_def Let_def bind_eq_Some_conv split: if_splits)
qed

lemma addEngine_audio:
  assumes "addEngine mk name argc argv m = Inr m'" "audio_inv m" "\<And>calls. engine_ok (mk calls)"
  shows "audio_inv m'"
proof -
  have put: "set (put_engine k v es) \<subseteq> insert (k, v) (set es)" for k v es
    by (induction k v es rule: put_engine.induct) auto
  show ?thesis
    using assms put
    by (fastforce simp: addEngine_def Let_def res_bind_Inr_iff audio_inv_def mage_inv_def input_inv_def split: if_splits)
qed

lemma genThread_start_audio:
  assumes "genThread_start mk in5 m = Inr m'" "audio_inv m" "\<And>calls. engine_ok (mk calls)"
  shows "audio_inv m'"
  using assms addEngine_audio [OF _ assms(2,3)]
  by (auto simp: genThread_start_def SCMage_addVoice_def split: option.splits)

section \<open>Lemmas: the voice\<close>

lemma strcpy_id:
  assumes "NUL \<notin> set s" "length s < maxStrLen"
  shows "strcpy s = Some s"
proof -
  have "c_str s = s" using assms(1) by (auto simp: c_str_def intro!: takeWhile_all)
  then show ?thesis using assms(2) by (simp add: strcpy_def)
qed

lemma argv_copied:
  assumes "NUL \<notin> set name" "length name < 900"
  shows "traverse strcpy (mage_argv_strings name) = Some (mage_argv_strings name)"
proof -
  have dir: "NUL \<notin> set (voice_prefix @ name)" "length (voice_prefix @ name) < 1000"
    using assms by (simp_all add: voice_prefix_def NUL_def)
  have "\<forall>s \<in> set (flat (voice_options d) @ ['''']). NUL \<notin> set s \<and> length s < maxStrLen"
    if "NUL \<notin> set d" "length d < 1000" for d
    using that by (simp add: voice_options_def maxStrLen_def NUL_def)
  from this [OF dir] have "NUL \<notin> set s \<and> length s < maxStrLen" if "s \<in> set (mage_argv_strings name)" for s
    using that by (auto simp: mage_argv_strings_def)
  then have "strcpy s = Some s" if "s \<in> set (mage_argv_strings name)" for s
    using that strcpy_id by blast
  then show ?thesis by (auto simp: traverse_Some_iff)
qed

lemma voice_options_valued: "\<forall>(a, v) \<in> set (voice_options dir). valued_arg a"
  by (simp add: voice_options_def valued_arg_def char_at_def valued_letters_def second_letters_def)

lemma voice_loads:
  "\<exists>s. load 47 (mage_argv_strings name) = Inr (s, load_calls 1 s) \<and> o_sampling_rate s = 48000 \<and> o_fperiod s = 240 \<and>
    has_lpf s \<and> length (fn_ws_mgc s) = 3 \<and> length (fn_ws_lf0 s) = 3 \<and> length (fn_ws_lpf s) = 1"
proof -
  let ?dir = "voice_prefix @ name"
  have ni: "\<forall>a \<in> set (mage_argv_strings name). \<not> is_i_option a"
    by (simp add: mage_argv_strings_def voice_options_def is_i_option_def char_at_def voice_prefix_def NUL_def)
  have len: "int (length (mage_argv_strings name)) = 47"
    by (simp add: mage_argv_strings_def voice_options_def)
  have at: "atoi ''48000'' = 48000" "atoi ''240'' = 240"
    by (simp_all add: atoi_def field_simps_concrete)
  have r: "\<exists>s. run_pairs 1 47 (voice_options ?dir) (default_options 1) = Inr s \<and> counts_ok 1 s \<and>
      o_sampling_rate s = 48000 \<and> o_fperiod s = 240 \<and>
      has_lpf s \<and> length (fn_ws_mgc s) = 3 \<and> length (fn_ws_lf0 s) = 3 \<and> length (fn_ws_lpf s) = 1"
    by (simp add: voice_options_def valued_option_def char_at_def opt_tree_def opt_model_def opt_window_def
        opt_gv_tree_def opt_gv_model_def add_name_def default_options_def counts_ok_def has_lpf_def at)
  have "load 47 (mage_argv_strings name) = res_bind (run_pairs 1 47 (voice_options ?dir) (default_options 1))
      (\<lambda>s. if counts_ok 1 s then Inr (s, load_calls 1 s) else Inl (Exit 1))"
    using load_pairs_parse [OF voice_options_valued [of ?dir], of "''''"] ni len
    by (simp add: mage_argv_strings_def) (simp add: voice_options_def)
  with r show ?thesis by auto
qed

section \<open>Properties\<close>



text \<open>
  C5. Every voice of the plugin loads: the 47 arguments fit their buffers and give one speaker, a
  sampling rate of 48000 with a frame period of 240, three windows for spectrum and pitch and one
  for the low-pass filter; the first voice becomes the default and the synthesiser is ready.
  Without the empty last argument the same options would make the parser leave the array.
\<close>

theorem addVoice_ready:
  assumes "NUL \<notin> set name" "length name < 900" "map_of (engine m) name = None" "defaultEngine m = ''''"
  shows "\<exists>s m'. load 47 (mage_argv_strings name) = Inr (s, load_calls 1 s) \<and> o_sampling_rate s = 48000 \<and> o_fperiod s = 240 \<and>
    has_lpf s \<and> length (fn_ws_mgc s) = 3 \<and> length (fn_ws_lf0 s) = 3 \<and> length (fn_ws_lpf s) = 1 \<and>
    SCMage_addVoice mk name m = Inr m' \<and> flagReady m' \<and> map_option snd (default_engine m') = Some (mk (load_calls 1 s)) \<and>
    (\<forall>r. load 46 (butlast (mage_argv_strings name)) \<noteq> Inr r)"
proof -
  obtain s where s: "load 47 (mage_argv_strings name) = Inr (s, load_calls 1 s)" "o_sampling_rate s = 48000" "o_fperiod s = 240"
      "has_lpf s" "length (fn_ws_mgc s) = 3" "length (fn_ws_lf0 s) = 3" "length (fn_ws_lpf s) = 1"
    using voice_loads by blast
  have "int (length (flat (voice_options (voice_prefix @ name)))) = 46" by (simp add: voice_options_def)
  then have "load 46 (butlast (mage_argv_strings name)) \<noteq> Inr r" for r
    using load_pairs_fail [OF voice_options_valued [of "voice_prefix @ name"], of r]
    by (simp add: mage_argv_strings_def) (simp add: voice_options_def)
  then show ?thesis
    using s argv_copied [OF assms(1,2)] assms(3,4)
    by (auto simp: SCMage_addVoice_def addEngine_def default_engine_def)
qed

theorem addVoice_ready_witness:
  "\<exists>m'. SCMage_addVoice (\<lambda>calls. still_voice) ''slt'' init = Inr m' \<and> flagReady m'"
  using addVoice_ready [of "''slt''" init "\<lambda>calls. still_voice"] by (auto simp: NUL_def init_def)

text \<open>
  C14. A buffer that holds lines of text, each ended by a newline, on its first channel, fills the
  label queue with one label per line, in order, with the line as its query; a last line without
  newline is ignored.
\<close>

theorem pushLabels_reads_lines:
  assumes "encodes b 0 (text_of ls @ rest)" "ssamples b \<le> int (length (text_of ls @ rest)) * schannels b"
    and "\<forall>l \<in> set ls. is_field l \<and> NL \<notin> set l \<and> \<not> isdigit_string l" "plain_text rest"
    and "lq_inv (labelQueue m)" "length (labels (labelQueue m)) + length ls \<le> lcapacity (labelQueue m)"
  shows "\<exists>st' m' new. SCMage_pushLabelsFromSndBuf True b \<lparr>first_s = [], middle_s = [], last_s = []\<rparr> m = Some (True, st', m') \<and>
    lq_inv (labelQueue m') \<and> labels (labelQueue m') = labels (labelQueue m) @ new \<and> map getQuery new = ls"
proof -
  have p: "\<forall>l \<in> set ls. plain_text l \<and> length l \<le> maxStrLen"
    using assms(3) by (auto simp: plain_text_def is_field_def)
  have st: "statics_ok \<lparr>first_s = [], middle_s = [], last_s = []\<rparr>" by (simp add: statics_ok_def c_str_def maxStrLen_def)
  have "push_loop (sdata b) (ssamples b) (schannels b) 0 [] st m = foldM push_line (st, m) ls" for st
    using push_loop_lines [OF assms(1) p assms(4)] assms(2) by simp
  moreover obtain st' m' new where "foldM push_line (\<lparr>first_s = [], middle_s = [], last_s = []\<rparr>, m) ls = Some (st', m')"
      "lq_inv (labelQueue m')" "labels (labelQueue m') = labels (labelQueue m) @ new" "map getQuery new = ls"
    using push_lines_bare [OF _ st assms(5,6)] assms(3) by blast
  ultimately show ?thesis by (auto simp: SCMage_pushLabelsFromSndBuf_def)
qed

theorem pushLabels_reads_lines_witness:
  "\<exists>st' m' new. SCMage_pushLabelsFromSndBuf True \<lparr>sdata = [97, 10, 98], schannels = 1, ssamples = 3\<rparr>
      \<lparr>first_s = [], middle_s = [], last_s = []\<rparr> init = Some (True, st', m') \<and>
    labels (labelQueue m') = new \<and> map getQuery new = [''a'']"
proof -
  have c: "to_char 97 = Some CHR ''a''" "to_char 98 = Some CHR ''b''" "to_char 10 = Some NL"
    by (simp_all add: to_char_def c_trunc_def NL_def char_of_def bit_0)
  have l: "lq_inv (labelQueue init)" "labels (labelQueue init) = []" "lcapacity (labelQueue init) = 512"
    using LabelQueue_new_inv [of maxLabelQueueLen]
    by (simp_all add: init_def size_consts) (simp add: lcapacity_def LabelQueue_new_def)
  have t: "is_field ''a''" "\<not> isdigit_string ''a''" "NL \<notin> set ''a''" "plain_text ''b''"
    by (simp_all add: field_simps_concrete NL_def plain_text_def)
  have "encodes \<lparr>sdata = [97, 10, 98], schannels = 1, ssamples = 3\<rparr> 0 (text_of [''a''] @ ''b'')"
    by (simp add: get_at_def c)
  from pushLabels_reads_lines [OF this, of init] l t show ?thesis by auto
qed

text \<open>
  C33. The intermediate buffer takes lines of \<open>maxStrLen\<close> characters, one more than the buffers of
  a label: a line of at least that many characters without a space overflows them.
\<close>

theorem long_line_overflows:
  assumes "encodes b 0 (s @ [NL])" "plain_text s" "CHR '' '' \<notin> set s" "maxStrLen \<le> length s"
  shows "SCMage_pushLabelsFromSndBuf True b st m = None"
proof -
  let ?s = "take maxStrLen s"
  have sub: "set ?s \<subseteq> set s" by (rule set_take_subset)
  have "c_str ?s = ?s" using assms(2) sub by (auto simp: c_str_def plain_text_def intro!: takeWhile_all)
  then have "strcpy ?s = None" using assms(4) by (simp add: strcpy_def)
  moreover have g: "getline \<lparr>unread = ?s, good = True\<rparr> old = (\<lparr>unread = [], good = False\<rparr>, ?s)" for old
    using assms(3) sub by (intro getline_last) auto
  ultimately have "parseQuery st Label_new ?s = None"
    by (simp add: parseQuery_def g case_prod_beta Let_def)
  then show ?thesis
    using push_loop_line [OF assms(1,2), of st m]
    by (simp add: SCMage_pushLabelsFromSndBuf_def push_line_def Label_of_string_def)
qed

theorem long_line_overflows_witness:
  "SCMage_pushLabelsFromSndBuf True \<lparr>sdata = replicate 1024 97 @ [10], schannels = 1, ssamples = 1025\<rparr>
     \<lparr>first_s = [], middle_s = [], last_s = []\<rparr> init = None"
proof -
  have c: "to_char 97 = Some CHR ''a''" "to_char 10 = Some NL"
    by (simp_all add: to_char_def c_trunc_def NL_def char_of_def bit_0)
  have "encodes \<lparr>sdata = replicate 1024 97 @ [10], schannels = 1, ssamples = 1025\<rparr> (int (length ([] :: string)))
      (replicate 1024 CHR ''a'' @ [NL])"
    by (rule encodes_mono) (simp_all add: c)
  then have e: "encodes \<lparr>sdata = replicate 1024 97 @ [10], schannels = 1, ssamples = 1025\<rparr> 0 (replicate 1024 CHR ''a'' @ [NL])"
    by (simp only: list.size of_nat_0)
  have p: "plain_text (replicate 1024 CHR ''a'')" "CHR '' '' \<notin> set (replicate 1024 CHR ''a'')"
      "maxStrLen \<le> length (replicate 1024 CHR ''a'')"
    by (simp_all add: plain_text_def NL_def NUL_def maxStrLen_def)
  show ?thesis by (rule long_line_overflows [OF e p])
qed

text \<open>
  The destructor relies on a thread that a failed constructor did not start: when either
  allocation fails, destroying the unit is undefined.
\<close>

theorem failed_Ctor_Dtor:
  assumes "SCMage_Ctor a1 a2 w in0 st = Some (st', u)" "\<not> a1 \<or> (\<not> a2 \<and> 0 \<le> in0)"
  shows "ucalc u = ClearUnitOutputs \<and> SCMage_Dtor u = None"
proof -
  have "0 \<le> c_trunc in0" if "0 \<le> in0" using that by (simp add: c_trunc_def)
  then show ?thesis
    using assms
    by (auto simp: SCMage_Ctor_def SCMage_Dtor_def SCMage_allocFailed_def SCMage_raw_def SCMage_pushLabelsFromSndBuf_def
        Let_def bind_eq_Some_conv to_int_def split: if_splits)
qed

theorem failed_Ctor_Dtor_witness:
  "\<exists>u. SCMage_Ctor False True \<lparr>mSndBufs = [], mLocalSndBufs = [], localBufNum = 0\<rparr> 0
      \<lparr>first_s = [], middle_s = [], last_s = []\<rparr> = Some (\<lparr>first_s = [], middle_s = [], last_s = []\<rparr>, u) \<and> SCMage_Dtor u = None"
proof -
  have "SCMage_Ctor False True \<lparr>mSndBufs = [], mLocalSndBufs = [], localBufNum = 0\<rparr> 0
      \<lparr>first_s = [], middle_s = [], last_s = []\<rparr> = Some (\<lparr>first_s = [], middle_s = [], last_s = []\<rparr>, SCMage_allocFailed SCMage_raw)"
    by (simp add: SCMage_Ctor_def)
  from failed_Ctor_Dtor [OF this] this show ?thesis by simp
qed

end
