(* ===== verification/SC_HashTable.thy ===== *)
theory SC_HashTable
  imports Constants "HOL-Library.Word" "HOL-Library.Multiset"
begin

text \<open>
  The hash functions (\<open>include/plugin_interface/Hash.h\<close>) and the hash tables
  (\<open>server/scsynth/HashTable.h\<close>) of the SuperCollider server. Both classes use open addressing with
  linear probing and close the gap after a removal by moving the items that follow.

  Integers are words of 32 bits, whose operations wrap around; shifts of an \<open>int32\<close> to the right
  are arithmetic. An item is a value \<open>'a\<close> (the pointer), and \<open>kh\<close> gives what \<open>GetHash\<close> and \<open>GetKey\<close>
  read from it, a pair of a hash and a key. Empty slots are \<open>None\<close>. The loops of \<open>IndexFor\<close> and of
  \<open>FixCollisionsFrom\<close> may run forever, so that they are partial functions.
\<close>

unbundle bit_operations_syntax

section \<open>Hash functions\<close>

definition Hash_int :: "32 word \<Rightarrow> 32 word" where
  "Hash_int inKey =
     (let h = inKey;
          h = h + NOT (push_bit 15 h);
          h = h XOR drop_bit 10 h;
          h = h + push_bit 3 h;
          h = h XOR drop_bit 6 h;
          h = h + NOT (push_bit 11 h);
          h = h XOR drop_bit 16 h
      in h)"

definition Hash64 :: "64 word \<Rightarrow> 64 word" where
  "Hash64 inKey =
     (let h = inKey;
          h = h + NOT (push_bit 32 h);
          h = h XOR drop_bit 22 h;
          h = h + NOT (push_bit 13 h);
          h = h XOR drop_bit 8 h;
          h = h + push_bit 3 h;
          h = h XOR drop_bit 15 h;
          h = h + NOT (push_bit 27 h);
          h = h XOR drop_bit 31 h
      in h)"

text \<open>The one-at-a-time hash of a string, for \<open>char\<close> values that were sign-extended.\<close>

definition Hash_char :: "32 word \<Rightarrow> 32 word \<Rightarrow> 32 word" where
  "Hash_char c h =
     (let h = h + c;
          h = h + push_bit 10 h
      in h XOR signed_drop_bit 6 h)"

definition Hash_chars :: "32 word list \<Rightarrow> 32 word" where
  "Hash_chars inKey =
     (let h = fold Hash_char inKey 0;
          h = h + push_bit 3 h;
          h = h XOR signed_drop_bit 11 h
      in h + push_bit 15 h)"

definition Hash_words :: "32 word list \<Rightarrow> 32 word" where
  "Hash_words inKey = fold (\<lambda>c h. Hash_int (h + c)) inKey 0"

section \<open>Tables\<close>

record 'a HashTable =
  mNumItems :: int
  mMaxItems :: int
  mTableSize :: int
  mHashMask :: "32 word"
  mItems :: "'a option list"
  mCanResize :: bool

definition HashTable_new :: "int \<Rightarrow> bool \<Rightarrow> 'a HashTable option" where
  "HashTable_new inMaxItems inCanResize = do {
     n \<leftarrow> c_int (inMaxItems * 2);
     if n < 0 then None
     else Some \<lparr>mNumItems = 0, mMaxItems = inMaxItems, mTableSize = n, mHashMask = word_of_int (n - 1),
                mItems = replicate (nat n) None, mCanResize = inCanResize\<rparr> }"

definition MakeEmpty :: "'a HashTable \<Rightarrow> 'a HashTable" where
  "MakeEmpty t = t\<lparr>mItems := replicate (nat (mTableSize t)) None, mNumItems := 0\<rparr>"

definition mask_index :: "32 word \<Rightarrow> 32 word \<Rightarrow> nat" where
  "mask_index m h = unat (h AND m)"

partial_function (option) probe :: "('a \<Rightarrow> 32 word \<times> 'k) \<Rightarrow> 'a option list \<Rightarrow> 32 word \<Rightarrow> 32 word \<times> 'k \<Rightarrow> nat \<Rightarrow> nat option" where
  "probe kh items m x index =
     (case get_at items (int index) of
        None \<Rightarrow> None
      | Some None \<Rightarrow> Some index
      | Some (Some item) \<Rightarrow>
          if kh item = x then Some index else probe kh items m x (mask_index m (word_of_nat (index + 1))))"

definition IndexFor :: "('a \<Rightarrow> 32 word \<times> 'k) \<Rightarrow> 'a HashTable \<Rightarrow> 32 word \<times> 'k \<Rightarrow> nat option" where
  "IndexFor kh t x = probe kh (mItems t) (mHashMask t) x (mask_index (mHashMask t) (fst x))"

definition Get :: "('a \<Rightarrow> 32 word \<times> 'k) \<Rightarrow> 'a HashTable \<Rightarrow> 32 word \<times> 'k \<Rightarrow> 'a option option" where
  "Get kh t x = do { i \<leftarrow> IndexFor kh t x; get_at (mItems t) (int i) }"

definition Includes :: "('a \<Rightarrow> 32 word \<times> 'k) \<Rightarrow> 'a HashTable \<Rightarrow> 'a \<Rightarrow> bool option" where
  "Includes kh t item = do { r \<leftarrow> Get kh t (kh item); Some (r = Some item) }"

definition place :: "('a \<Rightarrow> 32 word \<times> 'k) \<Rightarrow> 'a HashTable \<Rightarrow> 'a \<Rightarrow> (bool \<times> 'a HashTable) option" where
  "place kh t inItem = do {
     index \<leftarrow> IndexFor kh t (kh inItem);
     old \<leftarrow> get_at (mItems t) (int index);
     case old of
       Some item \<Rightarrow> Some (item = inItem, t)
     | None \<Rightarrow> Some (True, t\<lparr>mItems := (mItems t)[index := Some inItem], mNumItems := mNumItems t + 1\<rparr>) }"

partial_function (option) fix_loop :: "('a \<Rightarrow> 32 word \<times> 'k) \<Rightarrow> 32 word \<Rightarrow> 'a option list \<Rightarrow> nat \<Rightarrow> 'a option list option" where
  "fix_loop kh m items oldIndex =
     (let oldIndex = mask_index m (word_of_nat (oldIndex + 1)) in
      case get_at items (int oldIndex) of
        None \<Rightarrow> None
      | Some None \<Rightarrow> Some items
      | Some (Some oldItem) \<Rightarrow>
          Option.bind (probe kh items m (kh oldItem) (mask_index m (fst (kh oldItem)))) (\<lambda>newIndex.
            fix_loop kh m
              (if oldIndex \<noteq> newIndex then items[oldIndex := items ! newIndex, newIndex := Some oldItem] else items)
              oldIndex))"

definition FixCollisionsFrom :: "('a \<Rightarrow> 32 word \<times> 'k) \<Rightarrow> 'a HashTable \<Rightarrow> nat \<Rightarrow> 'a HashTable option" where
  "FixCollisionsFrom kh t inIndex = do {
     items \<leftarrow> fix_loop kh (mHashMask t) (mItems t) inIndex;
     Some (t\<lparr>mItems := items\<rparr>) }"

definition Remove :: "('a \<Rightarrow> 32 word \<times> 'k) \<Rightarrow> 'a HashTable \<Rightarrow> 'a \<Rightarrow> (bool \<times> 'a HashTable) option" where
  "Remove kh t inItem = do {
     index \<leftarrow> IndexFor kh t (kh inItem);
     old \<leftarrow> get_at (mItems t) (int index);
     if old \<noteq> Some inItem then Some (False, t)
     else do {
       t \<leftarrow> FixCollisionsFrom kh (t\<lparr>mItems := (mItems t)[index := None]\<rparr>) index;
       Some (True, t\<lparr>mNumItems := mNumItems t - 1\<rparr>) } }"

definition RemoveKey :: "('a \<Rightarrow> 32 word \<times> 'k) \<Rightarrow> 'a HashTable \<Rightarrow> 32 word \<times> 'k \<Rightarrow> (bool \<times> 'a HashTable) option" where
  "RemoveKey kh t x = do {
     r \<leftarrow> Get kh t x;
     case r of None \<Rightarrow> Some (False, t) | Some item \<Rightarrow> Remove kh t item }"

section \<open>Adding and resizing\<close>

text \<open>
  \<open>Add\<close> and \<open>Resize\<close> call each other; the first argument bounds the depth of these calls.
  \<open>HashTable::Resize\<close> first installs the new empty array and then adds the old items again.
\<close>

definition new_size :: "'a HashTable \<Rightarrow> int option" where
  "new_size t = do { n \<leftarrow> c_int (mTableSize t * 2); Some (max n 32) }"

fun Add :: "nat \<Rightarrow> ('a \<Rightarrow> 32 word \<times> 'k) \<Rightarrow> 'a HashTable \<Rightarrow> 'a \<Rightarrow> (bool \<times> 'a HashTable) option"
  and Resize :: "nat \<Rightarrow> ('a \<Rightarrow> 32 word \<times> 'k) \<Rightarrow> 'a HashTable \<Rightarrow> 'a HashTable option"
  and add_old :: "nat \<Rightarrow> ('a \<Rightarrow> 32 word \<times> 'k) \<Rightarrow> 'a option list \<Rightarrow> 'a HashTable \<Rightarrow> 'a HashTable option" where
  "Add n kh t inItem =
     (if mNumItems t \<ge> mMaxItems t
      then if \<not> mCanResize t then Some (False, t)
           else (case n of 0 \<Rightarrow> None | Suc n \<Rightarrow> do { t \<leftarrow> Resize n kh t; place kh t inItem })
      else place kh t inItem)"
| "Resize n kh t = do {
     newSize \<leftarrow> new_size t;
     add_old n kh (mItems t)
       (t\<lparr>mItems := replicate (nat newSize) None, mTableSize := newSize, mMaxItems := newSize div 2,
          mHashMask := word_of_int (newSize - 1), mNumItems := 0\<rparr>) }"
| "add_old n kh [] t = Some t"
| "add_old n kh (None # old) t = add_old n kh old t"
| "add_old n kh (Some item # old) t = do { (_, t) \<leftarrow> Add n kh t item; add_old n kh old t }"

text \<open>
  \<open>IntHashTable::Resize\<close> differs: it adds the old items before it updates the sizes, and its loop
  reads the size, a member, in every turn.
\<close>

fun Int_Add :: "nat \<Rightarrow> ('a \<Rightarrow> 32 word \<times> 'k) \<Rightarrow> 'a HashTable \<Rightarrow> 'a \<Rightarrow> (bool \<times> 'a HashTable) option"
  and Int_Resize :: "nat \<Rightarrow> ('a \<Rightarrow> 32 word \<times> 'k) \<Rightarrow> 'a HashTable \<Rightarrow> 'a HashTable option"
  and Int_add_old :: "nat \<Rightarrow> ('a \<Rightarrow> 32 word \<times> 'k) \<Rightarrow> 'a option list \<Rightarrow> int \<Rightarrow> 'a HashTable \<Rightarrow> 'a HashTable option" where
  "Int_Add n kh t inItem =
     (if mNumItems t \<ge> mMaxItems t
      then if \<not> mCanResize t then Some (False, t)
           else (case n of 0 \<Rightarrow> None | Suc n \<Rightarrow> do { t \<leftarrow> Int_Resize n kh t; place kh t inItem })
      else place kh t inItem)"
| "Int_Resize n kh t = (case n of 0 \<Rightarrow> None | Suc n \<Rightarrow> do {
     newSize \<leftarrow> new_size t;
     t \<leftarrow> Int_add_old n kh (mItems t) 0 (t\<lparr>mItems := replicate (nat newSize) None\<rparr>);
     Some (t\<lparr>mTableSize := newSize, mMaxItems := newSize div 2, mHashMask := word_of_int (newSize - 1)\<rparr>) })"
| "Int_add_old n kh old i t =
     (if i < mTableSize t
      then (case n of 0 \<Rightarrow> None | Suc n \<Rightarrow> do {
        item \<leftarrow> get_at old i;
        t \<leftarrow> (case item of None \<Rightarrow> Some t | Some x \<Rightarrow> do { (_, t) \<leftarrow> Int_Add n kh t x; Some t });
        Int_add_old n kh old (i + 1) t })
      else Some t)"

declare Add.simps [simp del] Resize.simps [simp del]
declare Int_Add.simps [simp del] Int_Resize.simps [simp del] Int_add_old.simps [simp del]

section \<open>Lemmas: indices\<close>

lemma mask_index_mod:
  assumes "m = mask k" "k \<le> 32"
  shows "mask_index m h = unat h mod 2 ^ k"
proof -
  have "h AND m = take_bit k h" using assms(1) by (simp add: take_bit_eq_mask)
  then show ?thesis by (simp add: mask_index_def unsigned_take_bit_eq take_bit_nat_def)
qed

lemma mask_index_next:
  assumes "m = mask k" "k \<le> 32"
  shows "mask_index m (word_of_nat j) = j mod 2 ^ k"
proof -
  have "(2::nat) ^ k dvd 2 ^ 32" using assms(2) by (rule le_imp_power_dvd)
  then show ?thesis
    unfolding mask_index_mod [OF assms] by (simp add: unat_of_nat mod_mod_cancel)
qed

text \<open>The slot that lies \<open>i\<close> places from the start, with wrap-around.\<close>

definition slot :: "'a option list \<Rightarrow> nat \<Rightarrow> 'a option" where
  "slot xs i = xs ! (i mod length xs)"

lemma probe_steps:
  assumes len: "length xs = 2 ^ k" "k \<le> 32"
    and full: "\<And>e. e < d \<Longrightarrow> \<exists>y. slot xs (i + e) = Some y \<and> kh y \<noteq> x"
    and stop: "\<And>y. slot xs (i + d) = Some y \<Longrightarrow> kh y = x"
  shows "probe kh xs (mask k) x (i mod 2 ^ k) = Some ((i + d) mod 2 ^ k)"
  using full stop
proof (induction d arbitrary: i)
  case 0
  then show ?case
    by (subst probe.simps) (auto simp: get_at_def len slot_def split: option.split)
next
  case (Suc d)
  from Suc.prems(1) [of 0] obtain y where y: "xs ! (i mod 2 ^ k) = Some y" "kh y \<noteq> x"
    by (auto simp: slot_def len)
  have "probe kh xs (mask k) x (i mod 2 ^ k) = probe kh xs (mask k) x (Suc i mod 2 ^ k)"
    using y mask_index_next [OF refl len(2), of "i mod 2 ^ k + 1"]
    by (subst probe.simps) (simp add: get_at_def len mod_Suc_eq)
  also have "\<dots> = Some ((Suc i + d) mod 2 ^ k)"
    by (rule Suc.IH) (use Suc.prems(1) [of "Suc e" for e] Suc.prems(2) in \<open>force simp: less_Suc_eq_0_disj\<close>)+
  finally show ?case by simp
qed

section \<open>Lemmas: probing\<close>

text \<open>
  Position \<open>p\<close> is reached from \<open>h\<close>: all positions before it satisfy \<open>P\<close>. The items of a table are
  in order when each is reached from the index of its hash through occupied slots, and no two
  have the same hash and key.
\<close>

definition reach :: "(nat \<Rightarrow> bool) \<Rightarrow> nat \<Rightarrow> nat \<Rightarrow> nat \<Rightarrow> bool" where
  "reach P n h p \<longleftrightarrow> (\<exists>d<n. p = (h + d) mod n \<and> (\<forall>e<d. P ((h + e) mod n)))"

definition home :: "('a \<Rightarrow> 32 word \<times> 'k) \<Rightarrow> 'a \<Rightarrow> nat" where
  "home kh y = unat (fst (kh y))"

definition keys_distinct :: "('a \<Rightarrow> 'b) \<Rightarrow> 'a option list \<Rightarrow> bool" where
  "keys_distinct kh xs \<longleftrightarrow> (\<forall>i<length xs. \<forall>j<length xs. \<forall>x y. xs ! i = Some x \<longrightarrow> xs ! j = Some y \<longrightarrow> kh x = kh y \<longrightarrow> i = j)"

definition items_reached :: "(nat \<Rightarrow> bool) \<Rightarrow> ('a \<Rightarrow> 32 word \<times> 'k) \<Rightarrow> 'a option list \<Rightarrow> bool" where
  "items_reached P kh xs \<longleftrightarrow> (\<forall>p<length xs. \<forall>y. xs ! p = Some y \<longrightarrow> reach P (length xs) (home kh y) p)"

definition items_ok :: "('a \<Rightarrow> 32 word \<times> 'k) \<Rightarrow> 'a option list \<Rightarrow> bool" where
  "items_ok kh xs \<longleftrightarrow> items_reached (\<lambda>q. xs ! q \<noteq> None) kh xs \<and> keys_distinct kh xs"

lemma reach_mono:
  assumes "reach P n h p" "\<And>q. q < n \<Longrightarrow> P q \<Longrightarrow> Q q"
  shows "reach Q n h p"
proof -
  obtain d where d: "d < n" "p = (h + d) mod n" "\<forall>e<d. P ((h + e) mod n)" using assms(1) by (auto simp: reach_def)
  then have "\<forall>e<d. Q ((h + e) mod n)" using assms(2) by simp
  with d show ?thesis by (auto simp: reach_def)
qed

lemma find_offset:
  assumes "p < n"
  shows "\<exists>d<n. p = (h + d) mod (n::nat)"
proof (intro exI conjI)
  have n: "0 < n" using assms by simp
  show "(p + (n - h mod n)) mod n < n" using n by simp
  have "h mod n \<le> n" using n by (simp add: less_imp_le)
  then have "h mod n + (p + (n - h mod n)) = p + n" by arith
  then have "(h mod n + (p + (n - h mod n))) mod n = p" using assms by simp
  then show "p = (h + (p + (n - h mod n)) mod n) mod n" by (metis mod_add_eq mod_mod_trivial)
qed

lemma offset_unique:
  assumes "d < n" "e < n" "(h + d) mod n = (h + e) mod (n::nat)"
  shows "d = e"
proof -
  obtain q r where "h + d + n * q = h + e + n * r" using assms(3) by (auto simp: nat_mod_eq_iff)
  then have "(d + n * q) mod n = (e + n * r) mod n" by simp
  then show ?thesis using assms(1,2) by simp
qed

lemma probe_finds:
  assumes len: "length xs = 2 ^ k" "k \<le> 32" and ok: "items_ok kh xs" and empty: "p < length xs" "xs ! p = None"
  shows "\<exists>i<length xs. probe kh xs (mask k) x (unat (fst x) mod 2 ^ k) = Some i \<and>
    (case xs ! i of Some y \<Rightarrow> kh y = x
     | None \<Rightarrow> (\<forall>y. Some y \<in> set xs \<longrightarrow> kh y \<noteq> x) \<and> reach (\<lambda>q. xs ! q \<noteq> None) (length xs) (unat (fst x)) i)"
proof -
  let ?h = "unat (fst x)" and ?n = "length xs"
  let ?stop = "\<lambda>d. \<forall>y. slot xs (?h + d) = Some y \<longrightarrow> kh y = x"
  obtain d0 where d0: "d0 < ?n" "p = (?h + d0) mod ?n" using find_offset [OF empty(1)] by blast
  then have "?stop d0" using empty(2) by (simp add: slot_def)
  define d where "d = (LEAST d. ?stop d)"
  have d: "?stop d" "d < ?n" "\<And>e. e < d \<Longrightarrow> \<not> ?stop e"
    unfolding d_def
    subgoal by (rule LeastI [of ?stop, OF \<open>?stop d0\<close>])
    subgoal by (rule le_less_trans [OF Least_le [of ?stop, OF \<open>?stop d0\<close>] d0(1)])
    subgoal for e by (rule not_less_Least)
    done
  have "probe kh xs (mask k) x (?h mod 2 ^ k) = Some ((?h + d) mod 2 ^ k)"
    by (rule probe_steps [OF len]) (use d in auto)
  moreover have "\<forall>y. Some y \<in> set xs \<longrightarrow> kh y \<noteq> x" if e: "xs ! ((?h + d) mod ?n) = None"
  proof (intro allI impI notI)
    fix y assume y: "Some y \<in> set xs" "kh y = x"
    then obtain q where q: "q < ?n" "xs ! q = Some y" by (auto simp: in_set_conv_nth)
    then obtain c where c: "c < ?n" "q = (?h + c) mod ?n" "\<forall>e<c. xs ! ((?h + e) mod ?n) \<noteq> None"
      using ok y(2) unfolding items_ok_def items_reached_def reach_def home_def by metis
    have "?stop c" using q c(2) y(2) by (simp add: slot_def)
    then have "d \<le> c" using d(3) not_less by blast
    then show False using c(2,3) e q(2) le_neq_implies_less by (metis option.distinct(1))
  qed
  moreover have "reach (\<lambda>q. xs ! q \<noteq> None) ?n ?h ((?h + d) mod ?n)"
    unfolding reach_def using d by (fastforce simp: slot_def)
  ultimately show ?thesis
    using len d by (intro exI [of _ "(?h + d) mod 2 ^ k"]) (auto simp: slot_def split: option.split)
qed

section \<open>Lemmas: the table\<close>

definition num :: "'a option list \<Rightarrow> nat" where
  "num xs = length (filter (\<lambda>z. z \<noteq> None) xs)"

definition items :: "'a HashTable \<Rightarrow> 'a set" where
  "items t = {x. Some x \<in> set (mItems t)}"

definition shape_ok :: "nat \<Rightarrow> 'a HashTable \<Rightarrow> bool" where
  "shape_ok k t \<longleftrightarrow> 0 < k \<and> k \<le> 30 \<and> length (mItems t) = 2 ^ k \<and> mTableSize t = 2 ^ k \<and> mHashMask t = mask k \<and>
     mMaxItems t = 2 ^ (k - 1)"

definition tab_inv :: "('a \<Rightarrow> 32 word \<times> 'k) \<Rightarrow> 'a HashTable \<Rightarrow> bool" where
  "tab_inv kh t \<longleftrightarrow> (\<exists>k. shape_ok k t) \<and> mNumItems t = int (num (mItems t)) \<and> mNumItems t \<le> mMaxItems t \<and>
     items_ok kh (mItems t)"

lemma num_update:
  assumes "i < length xs"
  shows "num (xs[i := v]) + (if xs ! i = None then 0 else 1) = num xs + (if v = None then 0 else 1)"
proof -
  have "num (xs[i := v]) = num (take i xs) + (if v = None then 0 else 1) + num (drop (Suc i) xs)"
    using assms by (simp add: upd_conv_take_nth_drop num_def)
  moreover have "num xs = num (take i xs) + (if xs ! i = None then 0 else 1) + num (drop (Suc i) xs)"
    using assms by (subst id_take_nth_drop [OF assms]) (simp add: num_def)
  ultimately show ?thesis by simp
qed

lemma empty_slot:
  assumes "num xs < length xs"
  obtains p where "p < length xs" "xs ! p = None"
proof -
  have "filter (\<lambda>z. z \<noteq> None) xs = xs" if "None \<notin> set xs"
    using that by (intro filter_True ballI notI) blast
  then have "None \<in> set xs" using assms by (fastforce simp: num_def)
  then show ?thesis using that by (auto simp: in_set_conv_nth)
qed

lemma tab_room:
  assumes "tab_inv kh t"
  obtains k p where "shape_ok k t" "p < length (mItems t)" "mItems t ! p = None"
proof -
  obtain k where k: "shape_ok k t" using assms by (auto simp: tab_inv_def)
  have "num (mItems t) \<le> 2 ^ (k - 1)" using assms k by (auto simp: tab_inv_def shape_ok_def)
  moreover have "(2::nat) ^ (k - 1) < 2 ^ k" using k by (auto simp: shape_ok_def)
  ultimately have "num (mItems t) < 2 ^ k" by (rule le_less_trans)
  then have "num (mItems t) < length (mItems t)" using k by (simp add: shape_ok_def)
  then show ?thesis using empty_slot that k by blast
qed

lemma IndexFor_finds:
  assumes "tab_inv kh t"
  shows "\<exists>i<length (mItems t). IndexFor kh t x = Some i \<and>
    (case mItems t ! i of Some y \<Rightarrow> kh y = x
     | None \<Rightarrow> (\<forall>y \<in> items t. kh y \<noteq> x) \<and> reach (\<lambda>q. mItems t ! q \<noteq> None) (length (mItems t)) (unat (fst x)) i)"
proof -
  obtain k p where k: "shape_ok k t" and p: "p < length (mItems t)" "mItems t ! p = None" using tab_room [OF assms] .
  have "length (mItems t) = 2 ^ k" "k \<le> 32" "mHashMask t = mask k" using k by (auto simp: shape_ok_def)
  moreover from this assms obtain i where "i < length (mItems t)"
      "probe kh (mItems t) (mask k) x (unat (fst x) mod 2 ^ k) = Some i"
      "case mItems t ! i of Some y \<Rightarrow> kh y = x | None \<Rightarrow> (\<forall>y. Some y \<in> set (mItems t) \<longrightarrow> kh y \<noteq> x) \<and>
        reach (\<lambda>q. mItems t ! q \<noteq> None) (length (mItems t)) (unat (fst x)) i"
    using probe_finds [OF _ _ _ p, of k kh x] unfolding tab_inv_def by blast
  ultimately show ?thesis
    unfolding IndexFor_def by (intro exI [of _ i]) (auto simp: mask_index_mod items_def split: option.splits)
qed

lemma items_unique: "tab_inv kh t \<Longrightarrow> x \<in> items t \<Longrightarrow> y \<in> items t \<Longrightarrow> kh x = kh y \<Longrightarrow> x = y"
  unfolding tab_inv_def items_ok_def keys_distinct_def items_def mem_Collect_eq in_set_conv_nth
  by (metis option.inject)

lemma Get_iff:
  assumes "tab_inv kh t"
  shows "\<exists>r. Get kh t x = Some r \<and> (\<forall>y. r = Some y \<longleftrightarrow> y \<in> items t \<and> kh y = x)"
proof -
  obtain i where i: "i < length (mItems t)" "IndexFor kh t x = Some i"
      "case mItems t ! i of Some y \<Rightarrow> kh y = x | None \<Rightarrow> (\<forall>y \<in> items t. kh y \<noteq> x)"
    using IndexFor_finds [OF assms, of x] by (auto split: option.splits)
  have "Get kh t x = Some (mItems t ! i)" using i by (simp add: Get_def)
  moreover have "y \<in> items t" if "mItems t ! i = Some y" for y
    using that i(1) by (auto simp: items_def) (metis nth_mem)
  ultimately show ?thesis
    using i(3) items_unique [OF assms] by (auto split: option.splits)
qed

lemma some_in_update:
  assumes "i < length xs" "xs ! i = None"
  shows "Some y \<in> set (xs[i := Some x]) \<longleftrightarrow> y = x \<or> Some y \<in> set xs"
proof
  assume "y = x \<or> Some y \<in> set xs"
  then show "Some y \<in> set (xs[i := Some x])"
  proof
    assume "Some y \<in> set xs"
    then obtain j where "j < length xs" "xs ! j = Some y" by (auto simp: in_set_conv_nth)
    then show ?thesis using assms(2) nth_mem [of j "xs[i := Some x]"] by (cases "j = i") auto
  qed (simp add: set_update_memI assms(1))
qed (use set_update_subset_insert [of xs i "Some x"] in auto)

lemma items_ok_add:
  assumes "items_ok kh xs" "i < length xs" "xs ! i = None" "\<forall>y. Some y \<in> set xs \<longrightarrow> kh y \<noteq> kh x"
    and "reach (\<lambda>q. xs ! q \<noteq> None) (length xs) (home kh x) i"
  shows "items_ok kh (xs[i := Some x])"
proof -
  let ?xs = "xs[i := Some x]"
  have mono: "reach (\<lambda>q. ?xs ! q \<noteq> None) (length xs) h p" if "reach (\<lambda>q. xs ! q \<noteq> None) (length xs) h p" for h p
    using that by (rule reach_mono) (simp add: nth_list_update assms(2))
  have "reach (\<lambda>q. ?xs ! q \<noteq> None) (length xs) (home kh y) p" if "p < length xs" "?xs ! p = Some y" for p y
    using that assms(1,5) mono by (cases "p = i") (auto simp: items_ok_def items_reached_def assms(2))
  moreover have "keys_distinct kh ?xs"
    unfolding keys_distinct_def length_list_update
  proof (intro allI impI)
    fix a b y z assume ab: "a < length xs" "b < length xs" "?xs ! a = Some y" "?xs ! b = Some z" "kh y = kh z"
    have fresh: "kh u \<noteq> kh x" if "c < length xs" "xs ! c = Some u" for c u
      using assms(4) nth_mem [OF that(1)] that(2) by simp
    have "keys_distinct kh xs" using assms(1) by (simp add: items_ok_def)
    then show "a = b"
      using ab fresh [OF ab(1), of y] fresh [OF ab(2), of z]
      by (cases "a = i"; cases "b = i") (auto simp: assms(2) keys_distinct_def)
  qed
  ultimately show ?thesis by (simp add: items_ok_def items_reached_def)
qed

lemma place_ok:
  assumes "tab_inv kh t" "mNumItems t < mMaxItems t"
  shows "\<exists>b t'. place kh t x = Some (b, t') \<and> tab_inv kh t' \<and> mTableSize t' = mTableSize t \<and> mMaxItems t' = mMaxItems t \<and>
    mCanResize t' = mCanResize t \<and>
    (if \<exists>y \<in> items t. kh y = kh x then t' = t \<and> (b \<longleftrightarrow> x \<in> items t)
     else b \<and> items t' = insert x (items t) \<and> mNumItems t' = mNumItems t + 1)"
proof -
  obtain i where i: "i < length (mItems t)" "IndexFor kh t (kh x) = Some i"
      "case mItems t ! i of Some y \<Rightarrow> kh y = kh x
       | None \<Rightarrow> (\<forall>y \<in> items t. kh y \<noteq> kh x) \<and> reach (\<lambda>q. mItems t ! q \<noteq> None) (length (mItems t)) (home kh x) i"
    using IndexFor_finds [OF assms(1), of "kh x"] unfolding home_def by blast
  show ?thesis
  proof (cases "mItems t ! i")
    case None
    let ?t = "t\<lparr>mItems := (mItems t)[i := Some x], mNumItems := mNumItems t + 1\<rparr>"
    have "items_ok kh (mItems ?t)"
      using None i assms(1) items_ok_add [of kh "mItems t" i x] by (simp add: tab_inv_def items_def)
    moreover have "num (mItems ?t) = num (mItems t) + 1" using num_update [OF i(1), of "Some x"] None by simp
    ultimately have "tab_inv kh ?t" using assms by (auto simp: tab_inv_def shape_ok_def)
    moreover have "items ?t = insert x (items t)"
      using some_in_update [OF i(1) None] by (auto simp: items_def)
    ultimately show ?thesis using None i by (intro exI [of _ True] exI [of _ ?t]) (simp add: place_def)
  next
    case (Some y)
    then have "y \<in> items t" "kh y = kh x" using i nth_mem [OF i(1)] by (auto simp: items_def)
    then have "place kh t x = Some (y = x, t)" "(y = x) = (x \<in> items t)"
      using Some i items_unique [OF assms(1)] by (auto simp: place_def)
    then show ?thesis using \<open>y \<in> items t\<close> \<open>kh y = kh x\<close> assms(1) by auto
  qed
qed

section \<open>Lemmas: closing the gap\<close>

text \<open>
  The state of the loop of \<open>FixCollisionsFrom\<close>: \<open>h\<close> is the empty slot that an item left, the loop has
  come \<open>s\<close> places further, \<open>z\<close> is an empty slot \<open>r\<close> places ahead. Every item is reached when the gap
  counts as occupied; those between the gap and the current position are reached without it.
\<close>

definition gap_inv :: "('a \<Rightarrow> 32 word \<times> 'k) \<Rightarrow> 'a option list \<Rightarrow> nat \<Rightarrow> nat \<Rightarrow> bool" where
  "gap_inv kh xs h s \<longleftrightarrow> slot xs h = None \<and> items_reached (\<lambda>q. xs ! q \<noteq> None \<or> q = h mod length xs) kh xs \<and> keys_distinct kh xs \<and>
     (\<forall>c. 0 < c \<longrightarrow> c \<le> s \<longrightarrow> (\<exists>y. slot xs (h + c) = Some y \<and>
        reach (\<lambda>q. xs ! q \<noteq> None) (length xs) (home kh y) ((h + c) mod length xs)))"

lemma gap_closed:
  assumes "gap_inv kh xs h s" "slot xs (h + Suc s) = None" "Suc s < length xs"
  shows "items_ok kh xs"
proof -
  let ?n = "length xs"
  have "reach (\<lambda>q. xs ! q \<noteq> None) ?n (home kh y) p" if p: "p < ?n" "xs ! p = Some y" for p y
  proof -
    obtain d where d: "d < ?n" "p = (home kh y + d) mod ?n"
        "\<forall>e<d. xs ! ((home kh y + e) mod ?n) \<noteq> None \<or> (home kh y + e) mod ?n = h mod ?n"
      using assms(1) p unfolding gap_inv_def items_reached_def reach_def by metis
    show ?thesis
    proof (cases "\<exists>e<d. (home kh y + e) mod ?n = h mod ?n")
      case False
      then show ?thesis using d by (auto simp: reach_def)
    next
      case True
      then obtain e where e: "e < d" "(home kh y + e) mod ?n = h mod ?n" by blast
      have at: "(home kh y + (e + c)) mod ?n = (h + c) mod ?n" for c
        using e(2) by (metis add.assoc mod_add_left_eq)
      have pc: "p = (h + (d - e)) mod ?n" using at [of "d - e"] d(2) e(1) by simp
      have "d - e \<le> s"
      proof (rule ccontr)
        assume "\<not> d - e \<le> s"
        then consider "d - e = Suc s" | "e + Suc s < d" by linarith
        then show False
        proof cases
          case 1
          then show False using pc p(2) assms(2) by (simp add: slot_def)
        next
          case 2
          have "(h + Suc s) mod ?n \<noteq> h mod ?n"
            using offset_unique [OF assms(3), of 0 h] assms(3) by fastforce
          then show False using d(3) 2 at [of "Suc s"] assms(2) by (auto simp: slot_def)
        qed
      qed
      then obtain y' where "slot xs (h + (d - e)) = Some y'" "reach (\<lambda>q. xs ! q \<noteq> None) ?n (home kh y') p"
        using assms(1) e(1) pc unfolding gap_inv_def by (metis zero_less_diff)
      then show ?thesis using pc p(2) by (simp add: slot_def)
    qed
  qed
  then show ?thesis using assms(1) by (auto simp: items_ok_def items_reached_def gap_inv_def)
qed

lemma gap_step_stays:
  assumes "gap_inv kh xs h s" "slot xs (h + Suc s) = Some y" "Suc s < length xs"
    and "reach (\<lambda>q. xs ! q \<noteq> None) (length xs) (home kh y) ((h + Suc s) mod length xs)"
  shows "gap_inv kh xs h (Suc s)"
  using assms unfolding gap_inv_def by (metis le_Suc_eq)

lemma gap_step_moves:
  assumes g: "gap_inv kh xs h s" and y: "slot xs j = Some y" "j mod length xs \<noteq> h mod length xs"
    and p: "xs' = xs[j mod length xs := None, h mod length xs := Some y]"
    and e: "e < d" "d < length xs" "(home kh y + e) mod length xs = h mod length xs" "(home kh y + d) mod length xs = j mod length xs"
      "\<forall>c<e. xs ! ((home kh y + c) mod length xs) \<noteq> None"
  shows "gap_inv kh xs' j 0"
proof -
  let ?n = "length xs"
  have n: "0 < ?n" "length xs' = ?n" using e(2) p by auto
  have lt: "j mod ?n < ?n" "h mod ?n < ?n" using n(1) by auto
  have at: "xs' ! q = (if q = h mod ?n then Some y else if q = j mod ?n then None else xs ! q)" if "q < ?n" for q
    using that p lt y(2) by (simp add: nth_list_update)
  have "reach (\<lambda>q. xs' ! q \<noteq> None \<or> q = j mod ?n) ?n (home kh z) q" if q: "q < ?n" "xs' ! q = Some z" for q z
  proof (cases "q = h mod ?n")
    case True
    then have "z = y" using q at by simp
    moreover have "reach (\<lambda>q. xs ! q \<noteq> None) ?n (home kh y) q" using e True by (auto simp: reach_def intro!: exI [of _ e])
    ultimately show ?thesis by (auto simp: at elim!: reach_mono)
  next
    case False
    then have "xs ! q = Some z" using q at by (auto split: if_splits)
    then have "reach (\<lambda>q. xs ! q \<noteq> None \<or> q = h mod ?n) ?n (home kh z) q" using g q(1) by (simp add: gap_inv_def items_reached_def)
    then show ?thesis by (rule reach_mono) (auto simp: at)
  qed
  moreover have "keys_distinct kh xs'"
    unfolding keys_distinct_def n(2)
  proof (intro allI impI)
    fix a b u v assume ab: "a < ?n" "b < ?n" "xs' ! a = Some u" "xs' ! b = Some v" "kh u = kh v"
    have orig: "xs ! (if c = h mod ?n then j mod ?n else c) = Some w" "c \<noteq> j mod ?n" if "c < ?n" "xs' ! c = Some w" for c w
      using that y by (auto simp: at slot_def split: if_splits)
    have kd: "keys_distinct kh xs" using g by (simp add: gap_inv_def)
    have "(if a = h mod ?n then j mod ?n else a) = (if b = h mod ?n then j mod ?n else b)"
      by (rule kd [unfolded keys_distinct_def, rule_format, OF _ _ orig(1) [OF ab(1,3)] orig(1) [OF ab(2,4)] ab(5)])
        (use ab(1,2) lt in auto)
    then show "a = b" using orig(2) [OF ab(1,3)] orig(2) [OF ab(2,4)] by (auto split: if_splits)
  qed
  ultimately show ?thesis
    using at [OF lt(1)] y(2) by (auto simp: gap_inv_def items_reached_def slot_def n)
qed

lemma num_swap:
  assumes "i < length xs" "j < length xs" "i \<noteq> j" "xs ! i = None" "xs ! j = Some y"
  shows "num (xs[j := None, i := Some y]) = num xs \<and> (\<forall>z. Some z \<in> set (xs[j := None, i := Some y]) \<longleftrightarrow> Some z \<in> set xs)"
proof -
  have "mset (xs[j := None, i := Some y]) = mset xs"
    using mset_swap [OF assms(1,2)] assms by (simp add: list_update_swap)
  then show ?thesis unfolding num_def by (metis mset_eq_setD mset_filter size_mset)
qed

lemma fix_loop_ok:
  assumes "gap_inv kh xs h s" "length xs = 2 ^ k" "k \<le> 32" "s + Suc r < length xs" "slot xs (h + s + Suc r) = None"
  shows "\<exists>xs'. fix_loop kh (mask k) xs ((h + s) mod 2 ^ k) = Some xs' \<and> items_ok kh xs' \<and> length xs' = length xs \<and>
    num xs' = num xs \<and> (\<forall>z. Some z \<in> set xs' \<longleftrightarrow> Some z \<in> set xs)"
  using assms
proof (induction r arbitrary: xs h s rule: less_induct)
  case (less r)
  let ?n = "length xs" and ?j = "Suc (h + s)"
  note n = less.prems(2,3)
  have idx: "mask_index (mask k) (word_of_nat ((h + s) mod 2 ^ k + 1)) = ?j mod ?n"
    using mask_index_next [OF refl n(2), of "(h + s) mod 2 ^ k + 1"] n(1) by (simp add: mod_Suc_eq)
  have jn: "?j mod ?n < ?n" using n(1) by simp
  show ?case
  proof (cases "slot xs ?j")
    case None
    then show ?thesis
      using gap_closed [OF less.prems(1)] less.prems(4) idx jn by (subst fix_loop.simps) (simp add: Let_def slot_def)
  next
    case (Some y)
    have r0: "r \<noteq> 0" using Some less.prems(5) by (cases r) auto
    then obtain r' where r': "r = Suc r'" by (cases r) auto
    obtain d where d: "d < ?n" "?j mod ?n = (home kh y + d) mod ?n"
        "\<forall>e<d. xs ! ((home kh y + e) mod ?n) \<noteq> None \<or> (home kh y + e) mod ?n = h mod ?n"
      using less.prems(1) Some jn unfolding gap_inv_def items_reached_def reach_def slot_def by metis
    have step: "fix_loop kh (mask k) xs ((h + s) mod 2 ^ k) =
        Option.bind (probe kh xs (mask k) (kh y) (home kh y mod 2 ^ k)) (\<lambda>i.
          fix_loop kh (mask k) (if ?j mod ?n \<noteq> i then xs[?j mod ?n := xs ! i, i := Some y] else xs) (?j mod ?n))"
      using Some jn idx mask_index_mod [OF refl n(2), of "fst (kh y)"]
      by (subst fix_loop.simps) (simp add: Let_def slot_def home_def)
    have other: "\<exists>u. slot xs (home kh y + c) = Some u \<and> kh u \<noteq> kh y"
      if c: "c < d" "xs ! ((home kh y + c) mod ?n) \<noteq> None" for c
    proof -
      obtain u where u: "xs ! ((home kh y + c) mod ?n) = Some u" using c(2) by auto
      have "(home kh y + c) mod ?n \<noteq> (home kh y + d) mod ?n" using offset_unique [of c ?n d] c(1) d(1) by fastforce
      moreover have "xs ! ((home kh y + d) mod ?n) = Some y" "(home kh y + d) mod ?n < ?n" "(home kh y + c) mod ?n < ?n"
        using Some d(1,2) n(1) by (auto simp: slot_def)
      moreover have "keys_distinct kh xs" using less.prems(1) by (simp add: gap_inv_def)
      ultimately have "kh u \<noteq> kh y" using u unfolding keys_distinct_def by blast
      then show ?thesis using u by (simp add: slot_def)
    qed
    show ?thesis
    proof (cases "\<exists>e<d. (home kh y + e) mod ?n = h mod ?n")
      case True
      then obtain e where e: "e < d" "(home kh y + e) mod ?n = h mod ?n" by blast
      have occ: "\<forall>c<e. xs ! ((home kh y + c) mod ?n) \<noteq> None"
      proof (intro allI impI)
        fix c assume c: "c < e"
        then have "(home kh y + c) mod ?n \<noteq> h mod ?n" using e offset_unique [of c ?n e "home kh y"] d(1) by fastforce
        then show "xs ! ((home kh y + c) mod ?n) \<noteq> None" using d(3) c e(1) less_trans by blast
      qed
      have hn: "h mod ?n < ?n" "xs ! (h mod ?n) = None" using n(1) less.prems(1) by (auto simp: gap_inv_def slot_def)
      have jh: "?j mod ?n \<noteq> h mod ?n" using Some hn(2) by (auto simp: slot_def)
      let ?xs = "xs[?j mod ?n := None, h mod ?n := Some y]"
      have g: "gap_inv kh ?xs ?j 0"
        by (rule gap_step_moves [OF less.prems(1) Some jh refl e(1) d(1) e(2) d(2) [symmetric] occ])
      have "probe kh xs (mask k) (kh y) (home kh y mod 2 ^ k) = Some ((home kh y + e) mod 2 ^ k)"
        by (rule probe_steps [OF n]) (use other e occ hn in \<open>auto simp: slot_def\<close>)
      then have f: "fix_loop kh (mask k) xs ((h + s) mod 2 ^ k) = fix_loop kh (mask k) ?xs (?j mod 2 ^ k)"
        using step e(2) hn jh n(1) by simp
      have "(h + (s + Suc r)) mod ?n \<noteq> h mod ?n" using offset_unique [OF less.prems(4), of 0 h] n(1) by auto
      then have z: "slot ?xs (?j + 0 + Suc r') = None" using less.prems(5) r' jn hn(1) by (simp add: slot_def nth_list_update add.assoc)
      have "num ?xs = num xs \<and> (\<forall>z. Some z \<in> set ?xs \<longleftrightarrow> Some z \<in> set xs)"
        by (rule num_swap) (use hn jn jh Some in \<open>auto simp: slot_def\<close>)
      then show ?thesis
        using less.IH [OF _ g _ n(2) _ z] r' n(1) less.prems(4) f by simp
    next
      case False
      then have occ: "\<forall>c<d. xs ! ((home kh y + c) mod ?n) \<noteq> None" using d(3) by blast
      have "probe kh xs (mask k) (kh y) (home kh y mod 2 ^ k) = Some ((home kh y + d) mod 2 ^ k)"
        by (rule probe_steps [OF n]) (use other occ Some d(2) in \<open>auto simp: slot_def\<close>)
      then have f: "fix_loop kh (mask k) xs ((h + s) mod 2 ^ k) = fix_loop kh (mask k) xs ((h + Suc s) mod 2 ^ k)"
        using step d(2) n(1) by simp
      have "reach (\<lambda>q. xs ! q \<noteq> None) ?n (home kh y) ((h + Suc s) mod ?n)" using d(1,2) occ by (auto simp: reach_def)
      then have g: "gap_inv kh xs h (Suc s)"
        using gap_step_stays [OF less.prems(1)] Some less.prems(4) by simp
      show ?thesis using less.IH [of r', OF _ g n] r' less.prems(4,5) f by simp
    qed
  qed
qed

lemma gap_start:
  assumes "items_ok kh xs" "i < length xs"
  shows "gap_inv kh (xs[i := None]) i 0"
proof -
  let ?xs = "xs[i := None]"
  have "reach (\<lambda>q. ?xs ! q \<noteq> None \<or> q = i) (length xs) (home kh y) p" if p: "p < length xs" "?xs ! p = Some y" for p y
  proof -
    have "xs ! p = Some y" using p assms(2) by (auto simp: nth_list_update split: if_splits)
    then have "reach (\<lambda>q. xs ! q \<noteq> None) (length xs) (home kh y) p" using assms(1) p(1) by (simp add: items_ok_def items_reached_def)
    then show ?thesis by (rule reach_mono) (auto simp: nth_list_update assms(2))
  qed
  moreover have "keys_distinct kh ?xs"
    using assms unfolding items_ok_def keys_distinct_def by (simp add: nth_list_update)
  ultimately show ?thesis using assms(2) by (simp add: gap_inv_def items_reached_def slot_def)
qed

lemma some_in_delete:
  assumes "keys_distinct kh xs" "i < length xs" "xs ! i = Some x"
  shows "Some y \<in> set (xs[i := None]) \<longleftrightarrow> Some y \<in> set xs \<and> y \<noteq> x"
proof -
  have other: "j = i" if "j < length xs" "xs ! j = Some x" for j
    using assms that unfolding keys_distinct_def by blast
  have "Some y \<in> set xs \<and> y \<noteq> x" if mem: "Some y \<in> set (xs[i := None])"
  proof -
    obtain j where "j < length xs" "xs[i := None] ! j = Some y" using mem by (auto simp: in_set_conv_nth)
    then have "j \<noteq> i" "xs ! j = Some y" "j < length xs" using assms(2) by (auto simp: nth_list_update split: if_splits)
    then show ?thesis using other nth_mem [of j xs] by auto
  qed
  moreover have "Some y \<in> set (xs[i := None])" if mem: "Some y \<in> set xs" "y \<noteq> x"
  proof -
    obtain j where "j < length xs" "xs ! j = Some y" using mem(1) by (auto simp: in_set_conv_nth)
    then show ?thesis using assms(3) mem(2) nth_mem [of j "xs[i := None]"] by (cases "j = i") auto
  qed
  ultimately show ?thesis by blast
qed

lemma Remove_ok:
  assumes "tab_inv kh t"
  shows "\<exists>b t'. Remove kh t x = Some (b, t') \<and> tab_inv kh t' \<and> (b \<longleftrightarrow> x \<in> items t) \<and> items t' = items t - {x} \<and>
    mNumItems t' = mNumItems t - (if b then 1 else 0) \<and> mMaxItems t' = mMaxItems t \<and> mCanResize t' = mCanResize t"
proof -
  obtain k p where k: "shape_ok k t" and p: "p < length (mItems t)" "mItems t ! p = None" using tab_room [OF assms] .
  let ?n = "length (mItems t)"
  obtain i where i: "i < ?n" "IndexFor kh t (kh x) = Some i"
      "case mItems t ! i of Some y \<Rightarrow> kh y = kh x | None \<Rightarrow> (\<forall>y \<in> items t. kh y \<noteq> kh x)"
    using IndexFor_finds [OF assms, of "kh x"] by (auto split: option.splits)
  show ?thesis
  proof (cases "mItems t ! i = Some x")
    case False
    have "x \<notin> items t"
    proof
      assume x: "x \<in> items t"
      then obtain y where "mItems t ! i = Some y" "kh y = kh x" using i(3) by (auto split: option.splits)
      moreover have "y \<in> items t" using calculation(1) nth_mem [OF i(1)] by (simp add: items_def)
      ultimately show False using items_unique [OF assms _ x] False by simp
    qed
    then show ?thesis using False i assms by (intro exI [of _ False] exI [of _ t]) (simp add: Remove_def)
  next
    case True
    let ?xs = "(mItems t)[i := None]"
    have ok: "items_ok kh (mItems t)" and kd: "keys_distinct kh (mItems t)"
      using assms by (auto simp: tab_inv_def items_ok_def)
    have n: "length ?xs = 2 ^ k" "k \<le> 32" "mHashMask t = mask k" using k by (auto simp: shape_ok_def)
    have "p \<noteq> i" using p True by auto
    then have pe: "?xs ! p = None" using p by simp
    obtain c where c: "c < ?n" "p = (i + c) mod ?n" using find_offset [OF p(1)] by blast
    have "c \<noteq> 0" using c \<open>p \<noteq> i\<close> i(1) by (cases c) auto
    then obtain r where r: "c = Suc r" by (cases c) auto
    have "slot ?xs (i + 0 + Suc r) = None" using pe c(2) r by (simp add: slot_def)
    then obtain xs' where xs': "fix_loop kh (mask k) ?xs i = Some xs'" "items_ok kh xs'" "length xs' = ?n" "num xs' = num ?xs"
        "\<forall>z. Some z \<in> set xs' \<longleftrightarrow> Some z \<in> set ?xs"
      using fix_loop_ok [OF gap_start [OF ok i(1)] n(1,2), of r] c(1) r i(1) n(1) by auto
    let ?t = "t\<lparr>mItems := xs', mNumItems := mNumItems t - 1\<rparr>"
    have num: "num (mItems t) = num xs' + 1" using num_update [OF i(1), of None] True xs'(4) by simp
    have "Remove kh t x = Some (True, ?t)"
      using i True xs'(1) n(3) by (simp add: Remove_def FixCollisionsFrom_def)
    moreover have "tab_inv kh ?t"
      using assms xs'(2,3) num unfolding tab_inv_def shape_ok_def by auto
    moreover have "items ?t = items t - {x}" using xs'(5) some_in_delete [OF kd i(1) True] by (auto simp: items_def)
    moreover have "x \<in> items t" using True nth_mem [OF i(1)] by (simp add: items_def)
    ultimately show ?thesis by (intro exI [of _ True] exI [of _ ?t]) simp
  qed
qed

section \<open>The contract of a table\<close>

text \<open>
  A table of bounded size is a map from keys to items with a count. An item is not added when the
  table is full or holds another item with its key.
\<close>

datatype ('a, 'k) table_op = Insert 'a | Delete 'a | Find 'k

datatype 'a table_out = Did bool | Found "'a option"

fun spec_op :: "('a \<Rightarrow> 'k) \<Rightarrow> int \<Rightarrow> ('a, 'k) table_op \<Rightarrow> int \<times> ('k \<rightharpoonup> 'a) \<Rightarrow> 'a table_out \<times> int \<times> ('k \<rightharpoonup> 'a)" where
  "spec_op key cap (Insert x) (n, m) =
     (if cap \<le> n then (Did False, n, m)
      else (case m (key x) of Some y \<Rightarrow> (Did (y = x), n, m) | None \<Rightarrow> (Did True, n + 1, m(key x \<mapsto> x))))"
| "spec_op key cap (Delete x) (n, m) =
     (if m (key x) = Some x then (Did True, n - 1, m(key x := None)) else (Did False, n, m))"
| "spec_op key cap (Find k) (n, m) = (Found (m k), n, m)"

fun spec_ops :: "('a \<Rightarrow> 'k) \<Rightarrow> int \<Rightarrow> ('a, 'k) table_op list \<Rightarrow> int \<times> ('k \<rightharpoonup> 'a) \<Rightarrow> 'a table_out list \<times> int \<times> ('k \<rightharpoonup> 'a)" where
  "spec_ops key cap [] s = ([], s)"
| "spec_ops key cap (op # ops) s =
     (let (out, s) = spec_op key cap op s; (outs, s) = spec_ops key cap ops s in (out # outs, s))"

fun table_step :: "('t \<Rightarrow> 'a \<Rightarrow> (bool \<times> 't) option) \<Rightarrow> ('t \<Rightarrow> 'a \<Rightarrow> (bool \<times> 't) option) \<Rightarrow> ('t \<Rightarrow> 'k \<Rightarrow> 'a option option) \<Rightarrow>
    ('a, 'k) table_op \<Rightarrow> 't \<Rightarrow> ('a table_out \<times> 't) option" where
  "table_step add rem get (Insert x) t = do { (b, t) \<leftarrow> add t x; Some (Did b, t) }"
| "table_step add rem get (Delete x) t = do { (b, t) \<leftarrow> rem t x; Some (Did b, t) }"
| "table_step add rem get (Find k) t = do { r \<leftarrow> get t k; Some (Found r, t) }"

fun table_run :: "('t \<Rightarrow> 'a \<Rightarrow> (bool \<times> 't) option) \<Rightarrow> ('t \<Rightarrow> 'a \<Rightarrow> (bool \<times> 't) option) \<Rightarrow> ('t \<Rightarrow> 'k \<Rightarrow> 'a option option) \<Rightarrow>
    ('a, 'k) table_op list \<Rightarrow> 't \<Rightarrow> ('a table_out list \<times> 't) option" where
  "table_run add rem get [] t = Some ([], t)"
| "table_run add rem get (op # ops) t = do {
     (out, t) \<leftarrow> table_step add rem get op t;
     (outs, t) \<leftarrow> table_run add rem get ops t;
     Some (out # outs, t) }"

locale bounded_table =
  fixes inv :: "'t \<Rightarrow> bool"
    and cap :: "'t \<Rightarrow> int"
    and key :: "'a \<Rightarrow> 'k"
    and cont :: "'t \<Rightarrow> int \<times> ('k \<rightharpoonup> 'a)"
    and add :: "'t \<Rightarrow> 'a \<Rightarrow> (bool \<times> 't) option"
    and rem :: "'t \<Rightarrow> 'a \<Rightarrow> (bool \<times> 't) option"
    and get :: "'t \<Rightarrow> 'k \<Rightarrow> 'a option option"
  assumes add_ok: "inv t \<Longrightarrow> \<exists>b t'. add t x = Some (b, t') \<and> inv t' \<and> cap t' = cap t \<and>
      spec_op key (cap t) (Insert x) (cont t) = (Did b, cont t')"
    and rem_ok: "inv t \<Longrightarrow> \<exists>b t'. rem t x = Some (b, t') \<and> inv t' \<and> cap t' = cap t \<and>
      spec_op key (cap t) (Delete x) (cont t) = (Did b, cont t')"
    and get_ok: "inv t \<Longrightarrow> get t k = Some (snd (cont t) k)"
begin

lemma step_refines:
  assumes "inv t"
  shows "\<exists>out t'. table_step add rem get op t = Some (out, t') \<and> inv t' \<and> cap t' = cap t \<and>
    spec_op key (cap t) op (cont t) = (out, cont t')"
proof (cases op)
  case (Insert x)
  then show ?thesis using add_ok [OF assms, of x] by auto
next
  case (Delete x)
  then show ?thesis using rem_ok [OF assms, of x] by auto
next
  case (Find k)
  then show ?thesis using get_ok [OF assms, of k] assms by (cases "cont t") auto
qed

lemma run_refines:
  assumes "inv t"
  shows "\<exists>outs t'. table_run add rem get ops t = Some (outs, t') \<and> inv t' \<and> cap t' = cap t \<and>
    spec_ops key (cap t) ops (cont t) = (outs, cont t')"
  using assms
proof (induction ops arbitrary: t)
  case (Cons op ops)
  obtain out t1 where s: "table_step add rem get op t = Some (out, t1)" "inv t1" "cap t1 = cap t"
      "spec_op key (cap t) op (cont t) = (out, cont t1)"
    using step_refines [OF Cons.prems] by blast
  obtain outs t2 where "table_run add rem get ops t1 = Some (outs, t2)" "inv t2" "cap t2 = cap t1"
      "spec_ops key (cap t1) ops (cont t1) = (outs, cont t2)"
    using Cons.IH [OF s(2)] by blast
  then show ?case
    using s by simp
qed simp

lemma found_after_insert:
  assumes "inv t" "add t x = Some (True, t')"
  shows "get t' (key x) = Some (Some x)"
proof -
  have "inv t'" "spec_op key (cap t) (Insert x) (cont t) = (Did True, cont t')" using add_ok [OF assms(1), of x] assms(2) by auto
  then show ?thesis
    using get_ok [of t' "key x"] by (cases "cont t"; cases "cont t'") (auto split: if_splits option.splits)
qed

lemma not_found_after_delete:
  assumes "inv t" "rem t x = Some (True, t')"
  shows "get t' (key x) = Some None"
proof -
  have "inv t'" "spec_op key (cap t) (Delete x) (cont t) = (Did True, cont t')" using rem_ok [OF assms(1), of x] assms(2) by auto
  then show ?thesis
    using get_ok [of t' "key x"] by (cases "cont t"; cases "cont t'") (auto split: if_splits option.splits)
qed

end

definition table_map :: "('a \<Rightarrow> 32 word \<times> 'k) \<Rightarrow> 'a HashTable \<Rightarrow> 32 word \<times> 'k \<rightharpoonup> 'a" where
  "table_map kh t = (\<lambda>x. the (Get kh t x))"

lemma table_map_iff:
  assumes "tab_inv kh t"
  shows "table_map kh t x = Some y \<longleftrightarrow> y \<in> items t \<and> kh y = x"
proof -
  obtain r where "Get kh t x = Some r" "\<forall>y. r = Some y \<longleftrightarrow> y \<in> items t \<and> kh y = x" using Get_iff [OF assms] by blast
  then show ?thesis by (simp add: table_map_def)
qed

lemma Get_map: "tab_inv kh t \<Longrightarrow> Get kh t x = Some (table_map kh t x)"
  using Get_iff [of kh t x] unfolding table_map_def by fastforce

lemma map_eqI: "(\<And>x y. f x = Some y \<longleftrightarrow> g x = Some y) \<Longrightarrow> f = (g :: 'k \<rightharpoonup> 'a)"
  by (rule ext) (metis not_None_eq)

lemma table_map_none: "tab_inv kh t \<Longrightarrow> table_map kh t x = None \<longleftrightarrow> (\<forall>y \<in> items t. kh y \<noteq> x)"
  using table_map_iff by (metis not_None_eq)

lemma place_spec:
  assumes "tab_inv kh t" "mNumItems t < mMaxItems t"
  shows "\<exists>b t'. place kh t x = Some (b, t') \<and> tab_inv kh t' \<and> mMaxItems t' = mMaxItems t \<and> mCanResize t' = mCanResize t \<and>
    spec_op kh (mMaxItems t) (Insert x) (mNumItems t, table_map kh t) = (Did b, mNumItems t', table_map kh t')"
proof -
  obtain b t' where p: "place kh t x = Some (b, t')" "tab_inv kh t'" "mMaxItems t' = mMaxItems t" "mCanResize t' = mCanResize t"
      "if \<exists>y \<in> items t. kh y = kh x then t' = t \<and> (b \<longleftrightarrow> x \<in> items t)
       else b \<and> items t' = insert x (items t) \<and> mNumItems t' = mNumItems t + 1"
    using place_ok [OF assms, of x] by blast
  show ?thesis
  proof (cases "table_map kh t (kh x)")
    case None
    then have "\<not> (\<exists>y \<in> items t. kh y = kh x)" using table_map_none [OF assms(1)] by blast
    moreover from this have "table_map kh t' = (table_map kh t)(kh x \<mapsto> x)"
      using p by (intro map_eqI) (auto simp: table_map_iff assms(1))
    ultimately show ?thesis using None p assms(2) by auto
  next
    case (Some y)
    then have y: "y \<in> items t" "kh y = kh x" using table_map_iff [OF assms(1)] by auto
    then have "t' = t" "b \<longleftrightarrow> x \<in> items t" using p(5) by (auto split: if_splits)
    moreover have "x \<in> items t \<longleftrightarrow> y = x" using y items_unique [OF assms(1)] by auto
    ultimately show ?thesis using Some p(1) assms by (intro exI [of _ b] exI [of _ t]) simp
  qed
qed

lemma Remove_spec:
  assumes "tab_inv kh t"
  shows "\<exists>b t'. Remove kh t x = Some (b, t') \<and> tab_inv kh t' \<and> mMaxItems t' = mMaxItems t \<and> mCanResize t' = mCanResize t \<and>
    spec_op kh (mMaxItems t) (Delete x) (mNumItems t, table_map kh t) = (Did b, mNumItems t', table_map kh t')"
proof -
  obtain b t' where r: "Remove kh t x = Some (b, t')" "tab_inv kh t'" "b \<longleftrightarrow> x \<in> items t" "items t' = items t - {x}"
      "mNumItems t' = mNumItems t - (if b then 1 else 0)" "mMaxItems t' = mMaxItems t" "mCanResize t' = mCanResize t"
    using Remove_ok [OF assms, of x] by blast
  have "table_map kh t' = (if x \<in> items t then (table_map kh t)(kh x := None) else table_map kh t)"
    using r items_unique [OF assms] by (intro map_eqI) (auto simp: table_map_iff assms)
  then show ?thesis using r by (auto simp: table_map_iff assms)
qed

definition fixed_inv :: "('a \<Rightarrow> 32 word \<times> 'k) \<Rightarrow> 'a HashTable \<Rightarrow> bool" where
  "fixed_inv kh t \<longleftrightarrow> tab_inv kh t \<and> \<not> mCanResize t"

lemma Int_Add_spec:
  assumes "fixed_inv kh t"
  shows "\<exists>b t'. Int_Add n kh t x = Some (b, t') \<and> fixed_inv kh t' \<and> mMaxItems t' = mMaxItems t \<and>
    spec_op kh (mMaxItems t) (Insert x) (mNumItems t, table_map kh t) = (Did b, mNumItems t', table_map kh t')"
  using assms place_spec [of kh t x] by (cases "mMaxItems t \<le> mNumItems t") (auto simp: fixed_inv_def Int_Add.simps)

interpretation node_table: bounded_table "fixed_inv kh" mMaxItems kh "\<lambda>t. (mNumItems t, table_map kh t)"
  "Int_Add n kh" "Remove kh" "Get kh" for kh n
proof
  fix t x k assume t: "fixed_inv kh t"
  show "\<exists>b t'. Int_Add n kh t x = Some (b, t') \<and> fixed_inv kh t' \<and> mMaxItems t' = mMaxItems t \<and>
      spec_op kh (mMaxItems t) (Insert x) (mNumItems t, table_map kh t) = (Did b, mNumItems t', table_map kh t')"
    using t by (rule Int_Add_spec)
  show "\<exists>b t'. Remove kh t x = Some (b, t') \<and> fixed_inv kh t' \<and> mMaxItems t' = mMaxItems t \<and>
      spec_op kh (mMaxItems t) (Delete x) (mNumItems t, table_map kh t) = (Did b, mNumItems t', table_map kh t')"
    using t Remove_spec [of kh t x] by (auto simp: fixed_inv_def)
  show "Get kh t k = Some (snd (mNumItems t, table_map kh t) k)" using t Get_map [of kh t k] by (simp add: fixed_inv_def)
qed

section \<open>Lemmas: creation and resizing\<close>

lemma num_replicate [simp]: "num (replicate n None) = 0"
  by (simp add: num_def)

lemma empty_table_ok:
  assumes "shape_ok k t" "mItems t = replicate n None" "mNumItems t = 0"
  shows "tab_inv kh t" "items t = {}"
  using assms by (auto simp: tab_inv_def items_ok_def items_reached_def keys_distinct_def items_def shape_ok_def)

lemma word_mask: "word_of_int (2 ^ k - 1) = (mask k :: 32 word)"
  by (simp add: mask_eq_exp_minus_1)

lemma c_int_power:
  assumes "k < 31"
  shows "c_int (2 ^ k) = Some (2 ^ k)"
proof (rule c_int_in)
  show "- (2 ^ 31) \<le> (2::int) ^ k" by (rule order_trans [of _ 0]) simp_all
  show "(2::int) ^ k < 2 ^ 31" using assms by (intro power_strict_increasing) simp_all
qed

lemma HashTable_new_ok:
  assumes "k < 30"
  shows "\<exists>t. HashTable_new (2 ^ k) r = Some t \<and> tab_inv kh t \<and> items t = {} \<and> mMaxItems t = 2 ^ k \<and> mCanResize t = r \<and>
    mNumItems t = 0"
proof -
  have c: "c_int (2 ^ k * 2) = Some (2 ^ Suc k)" using c_int_power [of "Suc k"] assms by (simp add: mult.commute)
  let ?t = "\<lparr>mNumItems = 0, mMaxItems = 2 ^ k, mTableSize = 2 ^ Suc k, mHashMask = word_of_int (2 ^ Suc k - 1),
      mItems = replicate (nat (2 ^ Suc k)) None, mCanResize = r\<rparr>"
  have "HashTable_new (2 ^ k) r = Some ?t" using c by (simp add: HashTable_new_def)
  moreover have s: "shape_ok (Suc k) ?t" using assms word_mask [of "Suc k"] by (simp add: shape_ok_def nat_power_eq nat_mult_distrib)
  moreover have "tab_inv kh ?t" "items ?t = {}" by (rule empty_table_ok [OF s]; simp)+
  ultimately show ?thesis by (intro exI [of _ ?t]) simp
qed

lemma keys_distinct_Cons:
  assumes "keys_distinct kh (z # old)"
  shows "keys_distinct kh old" "\<And>x y. z = Some x \<Longrightarrow> Some y \<in> set old \<Longrightarrow> kh y \<noteq> kh x"
proof -
  show "keys_distinct kh old"
    unfolding keys_distinct_def
  proof (intro allI impI)
    fix i j x y assume "i < length old" "j < length old" "old ! i = Some x" "old ! j = Some y" "kh x = kh y"
    then show "i = j" using assms [unfolded keys_distinct_def, rule_format, of "Suc i" "Suc j" x y] by simp
  qed
  fix x y assume "z = Some x" "Some y \<in> set old"
  then obtain j where "j < length old" "old ! j = Some y" by (auto simp: in_set_conv_nth)
  then show "kh y \<noteq> kh x" using assms [unfolded keys_distinct_def, rule_format, of 0 "Suc j" x y] \<open>z = Some x\<close> by auto
qed

lemma add_old_ok:
  assumes "tab_inv kh t" "keys_distinct kh old" "\<And>x y. Some x \<in> set old \<Longrightarrow> y \<in> items t \<Longrightarrow> kh y \<noteq> kh x"
    and "mNumItems t + int (num old) \<le> mMaxItems t"
  shows "\<exists>t'. add_old n kh old t = Some t' \<and> tab_inv kh t' \<and> items t' = items t \<union> {x. Some x \<in> set old} \<and>
    mNumItems t' = mNumItems t + int (num old) \<and> mMaxItems t' = mMaxItems t \<and> mCanResize t' = mCanResize t"
  using assms
proof (induction old arbitrary: t)
  case (Cons z old)
  show ?case
  proof (cases z)
    case None
    then show ?thesis
      using Cons.IH [of t] Cons.prems keys_distinct_Cons(1) [OF Cons.prems(2)] by (simp add: num_def)
  next
    case (Some x)
    have room: "mNumItems t < mMaxItems t" using Cons.prems(4) Some by (simp add: num_def)
    have fresh: "\<not> (\<exists>y \<in> items t. kh y = kh x)" using Cons.prems(3) Some by auto
    obtain t1 where t1: "place kh t x = Some (True, t1)" "tab_inv kh t1" "mMaxItems t1 = mMaxItems t" "mCanResize t1 = mCanResize t"
        "items t1 = insert x (items t)" "mNumItems t1 = mNumItems t + 1"
      using place_ok [OF Cons.prems(1) room, of x] fresh by auto
    have "kh y \<noteq> kh u" if "Some u \<in> set old" "y \<in> items t1" for u y
      using that Cons.prems(3) [of u y] keys_distinct_Cons(2) [OF Cons.prems(2) Some that(1)] t1(5) by auto
    moreover have "mNumItems t1 + int (num old) \<le> mMaxItems t1" using t1(3,6) Cons.prems(4) Some by (simp add: num_def)
    ultimately obtain t' where "add_old n kh old t1 = Some t'" "tab_inv kh t'" "items t' = items t1 \<union> {x. Some x \<in> set old}"
        "mNumItems t' = mNumItems t1 + int (num old)" "mMaxItems t' = mMaxItems t1" "mCanResize t' = mCanResize t1"
      using Cons.IH [OF t1(2) keys_distinct_Cons(1) [OF Cons.prems(2)]] by blast
    moreover have "Add n kh t x = Some (True, t1)" using room t1(1) by (simp add: Add.simps)
    ultimately show ?thesis using Some t1 by (auto simp: num_def)
  qed
qed (simp add: num_def)

lemma new_size_power:
  assumes "shape_ok k t" "k < 30"
  shows "new_size t = Some (2 ^ max (Suc k) 5)"
proof -
  have "max ((2::int) ^ a) (2 ^ b) = 2 ^ max a b" for a b by (simp add: max_def)
  from this [of "Suc k" 5] have "max ((2::int) ^ Suc k) 32 = 2 ^ max (Suc k) 5" by simp
  moreover have "c_int (mTableSize t * 2) = Some (2 ^ Suc k)"
    using assms c_int_power [of "Suc k"] by (simp add: shape_ok_def mult.commute)
  ultimately show ?thesis by (simp add: new_size_def)
qed

lemma Resize_ok:
  assumes "tab_inv kh t" "shape_ok k t" "k < 30"
  shows "\<exists>t'. Resize n kh t = Some t' \<and> tab_inv kh t' \<and> items t' = items t \<and> mNumItems t' = mNumItems t \<and>
    mMaxItems t < mMaxItems t' \<and> mCanResize t' = mCanResize t"
proof -
  let ?k = "max (Suc k) 5"
  let ?t = "t\<lparr>mItems := replicate (nat (2 ^ ?k)) None, mTableSize := 2 ^ ?k, mMaxItems := 2 ^ ?k div 2,
      mHashMask := word_of_int (2 ^ ?k - 1), mNumItems := 0\<rparr>"
  have half: "(2::int) ^ ?k div 2 = 2 ^ (?k - 1)" by (cases ?k) (auto simp: max_def split: if_splits)
  have s: "shape_ok ?k ?t" using assms(3) word_mask [of ?k] half by (simp add: shape_ok_def nat_power_eq nat_mult_distrib)
  have bigger: "mMaxItems t < mMaxItems ?t"
    using assms(2) half by (auto simp: shape_ok_def intro!: power_strict_increasing)
  have "tab_inv kh ?t" "items ?t = {}" by (rule empty_table_ok [OF s]; simp)+
  moreover have "int (num (mItems t)) \<le> mMaxItems t" using assms(1) by (simp add: tab_inv_def)
  from order.trans [OF this less_imp_le [OF bigger]]
  have "mNumItems ?t + int (num (mItems t)) \<le> mMaxItems ?t" by simp
  moreover have "keys_distinct kh (mItems t)" using assms(1) by (simp add: tab_inv_def items_ok_def)
  ultimately obtain t' where "add_old n kh (mItems t) ?t = Some t'" "tab_inv kh t'" "items t' = items t"
      "mNumItems t' = int (num (mItems t))" "mMaxItems t' = mMaxItems ?t" "mCanResize t' = mCanResize t"
    using add_old_ok [of kh ?t "mItems t" n] by (auto simp: items_def)
  then show ?thesis
    using new_size_power [OF assms(2,3)] bigger assms(1) by (auto simp: Resize.simps tab_inv_def)
qed

lemma Add_resizes:
  assumes "tab_inv kh t" "mCanResize t" "mTableSize t < 2 ^ 30"
  shows "\<exists>b t'. Add (Suc n) kh t x = Some (b, t') \<and> tab_inv kh t' \<and> mCanResize t' \<and>
    (if \<exists>y \<in> items t. kh y = kh x then items t' = items t \<and> (b \<longleftrightarrow> x \<in> items t) else b \<and> items t' = insert x (items t))"
proof (cases "mMaxItems t \<le> mNumItems t")
  case True
  obtain k where k: "shape_ok k t" using assms(1) by (auto simp: tab_inv_def)
  then have "(2::int) ^ k < 2 ^ 30" using assms(3) by (simp add: shape_ok_def)
  then have "k < 30" by (simp only: power_strict_increasing_iff)
  then obtain t1 where t1: "Resize n kh t = Some t1" "tab_inv kh t1" "items t1 = items t" "mNumItems t1 = mNumItems t"
      "mMaxItems t < mMaxItems t1" "mCanResize t1 = mCanResize t"
    using Resize_ok [OF assms(1) k] by blast
  have "mNumItems t1 < mMaxItems t1" using t1(4,5) assms(1) by (simp add: tab_inv_def)
  then obtain b t2 where "place kh t1 x = Some (b, t2)" "tab_inv kh t2" "mCanResize t2 = mCanResize t1"
      "if \<exists>y \<in> items t1. kh y = kh x then t2 = t1 \<and> (b \<longleftrightarrow> x \<in> items t1)
       else b \<and> items t2 = insert x (items t1) \<and> mNumItems t2 = mNumItems t1 + 1"
    using place_ok [OF t1(2)] by blast
  then show ?thesis using True t1(1,3,6) assms(2) by (cases "\<exists>y \<in> items t. kh y = kh x") (auto simp: Add.simps)
next
  case False
  then obtain b t2 where "place kh t x = Some (b, t2)" "tab_inv kh t2" "mCanResize t2 = mCanResize t"
      "if \<exists>y \<in> items t. kh y = kh x then t2 = t \<and> (b \<longleftrightarrow> x \<in> items t)
       else b \<and> items t2 = insert x (items t) \<and> mNumItems t2 = mNumItems t + 1"
    using place_ok [OF assms(1), of x] by auto
  then show ?thesis using False assms(2) by (cases "\<exists>y \<in> items t. kh y = kh x") (auto simp: Add.simps)
qed

lemma place_size: "place kh t x = Some (b, t') \<Longrightarrow> mTableSize t' = mTableSize t \<and> mCanResize t' = mCanResize t"
  by (auto simp: place_def bind_eq_Some_conv split: option.splits)

lemma new_size_grows: "new_size t = Some n \<Longrightarrow> 0 \<le> mTableSize t \<Longrightarrow> mTableSize t < n"
  by (auto simp: new_size_def bind_eq_Some_conv dest!: c_int_Some)

lemma Int_sizes_grow:
  shows "Int_Add n kh t x = Some (b, t') \<Longrightarrow> 0 \<le> mTableSize t \<Longrightarrow> mTableSize t \<le> mTableSize t'"
    and "Int_Resize n kh t = Some t1 \<Longrightarrow> 0 \<le> mTableSize t \<Longrightarrow> mTableSize t \<le> mTableSize t1"
    and "Int_add_old n kh old i t = Some t2 \<Longrightarrow> 0 \<le> mTableSize t \<Longrightarrow> mTableSize t \<le> mTableSize t2"
proof (induction n kh t x and n kh t and n kh old i t arbitrary: b t' and t1 and t2 rule: Int_Add_Int_Resize_Int_add_old.induct)
  case (1 n kh t x)
  from 1(1) [of "n - 1"] 1(2,3) show ?case
    by (cases n) (auto simp: Int_Add.simps bind_eq_Some_conv dest!: place_size split: if_splits)
next
  case (2 n kh t)
  from 2(2,3) show ?case
    by (cases n) (auto simp: Int_Resize.simps bind_eq_Some_conv dest!: new_size_grows)
next
  case (3 n kh old i t)
  show ?case
  proof (cases n)
    case 0
    then show ?thesis using 3(3) by (auto simp: Int_add_old.simps split: if_splits)
  next
    case (Suc k)
    show ?thesis
    proof (cases "i < mTableSize t")
      case True
      then obtain item t3 where s: "get_at old i = Some item" "Int_add_old k kh old (i + 1) t3 = Some t2"
          "(case item of None \<Rightarrow> Some t | Some x \<Rightarrow> do { (_, t) \<leftarrow> Int_Add k kh t x; Some t }) = Some t3"
        using 3(3) Suc by (auto simp: Int_add_old.simps bind_eq_Some_conv)
      have "mTableSize t \<le> mTableSize t3"
        using s(3) 3(1) [OF True Suc s(1)] 3(4) by (auto simp: bind_eq_Some_conv split: option.splits)
      then show ?thesis using 3(2) [OF True Suc s(1) s(3) s(2)] 3(4) by simp
    qed (use 3(3) in \<open>simp add: Int_add_old.simps\<close>)
  qed
qed

text \<open>The loop over the old array leaves it once the size has grown.\<close>

lemma Int_add_old_overruns:
  assumes "int (length old) < mTableSize t" "0 \<le> i" "i \<le> int (length old)"
  shows "Int_add_old n kh old i t = None"
  using assms
proof (induction n arbitrary: i t)
  case (Suc n)
  have next_ok: "Int_add_old n kh old (i + 1) t' = None" if "mTableSize t \<le> mTableSize t'" "i < int (length old)" for t'
    using Suc.prems that by (intro Suc.IH) auto
  show ?case
  proof (cases "i < int (length old)")
    case True
    have grow: "mTableSize t \<le> mTableSize t'" if "Int_Add n kh t x = Some (b, t')" for x b t'
      using Int_sizes_grow(1) [OF that] Suc.prems(1) by simp
    show ?thesis
      using True Suc.prems next_ok [of t] next_ok [OF grow]
      by (simp add: Int_add_old.simps [of "Suc n"] split: option.split Option.bind_split)
  next
    case False
    then show ?thesis using Suc.prems by (simp add: Int_add_old.simps)
  qed
qed (simp add: Int_add_old.simps)

lemma Int_add_old_fails:
  assumes "mMaxItems t \<le> mNumItems t" "mCanResize t" "mTableSize t = int (length old)" "mItems t = replicate m None" "length old \<le> m"
    and "0 \<le> i" "\<exists>j. i \<le> int j \<and> j < length old \<and> old ! j \<noteq> None"
  shows "Int_add_old n kh old i t = None"
  using assms(6,7)
proof (induction n arbitrary: i)
  case 0
  then show ?case using assms(3) by (auto simp: Int_add_old.simps)
next
  case (Suc n)
  have i: "i < mTableSize t" using Suc.prems assms(3) by auto
  show ?case
  proof (cases "old ! nat i")
    case None
    have "\<exists>j. i + 1 \<le> int j \<and> j < length old \<and> old ! j \<noteq> None"
    proof -
      obtain j where j: "i \<le> int j" "j < length old" "old ! j \<noteq> None" using Suc.prems(2) by blast
      then have "i \<noteq> int j" using None by auto
      then show ?thesis using j by (intro exI [of _ j]) auto
    qed
    then have "Int_add_old n kh old (i + 1) t = None" using Suc.IH [of "i + 1"] Suc.prems(1) by simp
    then show ?thesis using None i assms(3) Suc.prems(1) by (simp add: Int_add_old.simps [of "Suc n"])
  next
    case (Some x)
    have "Int_add_old n kh old (i + 1) t' = None" if add: "Int_Add n kh t x = Some (b, t')" for b t'
    proof -
      obtain k t1 where k: "Int_Resize k kh t = Some t1" "place kh t1 x = Some (b, t')"
        using add assms(1,2) by (cases n) (auto simp: Int_Add.simps bind_eq_Some_conv)
      then obtain s where "new_size t = Some s" "mTableSize t1 = s"
        by (cases k) (auto simp: Int_Resize.simps bind_eq_Some_conv)
      then have "int (length old) < mTableSize t'" using new_size_grows place_size [OF k(2)] assms(3) by fastforce
      then show ?thesis using i Suc.prems(1) assms(3) by (intro Int_add_old_overruns) auto
    qed
    then show ?thesis
      using Some i assms(3) Suc.prems(1)
      by (simp add: Int_add_old.simps [of "Suc n"] split: Option.bind_split prod.split)
  qed
qed

lemma Int_Add_fails:
  assumes "tab_inv kh t" "mCanResize t" "mNumItems t = mMaxItems t"
  shows "Int_Add n kh t x = None"
proof -
  obtain k where k: "shape_ok k t" using assms(1) by (auto simp: tab_inv_def)
  then have "0 < mNumItems t" using assms(3) by (simp add: shape_ok_def)
  then have "0 < num (mItems t)" using assms(1) by (simp add: tab_inv_def)
  then have "filter (\<lambda>z. z \<noteq> None) (mItems t) \<noteq> []" by (auto simp: num_def)
  then have "\<exists>z \<in> set (mItems t). z \<noteq> None" unfolding filter_empty_conv by blast
  then have some: "\<exists>j. 0 \<le> int j \<and> j < length (mItems t) \<and> mItems t ! j \<noteq> None" unfolding Bex_def in_set_conv_nth by auto
  have "Int_Resize m kh t = None" for m
  proof (cases "new_size t")
    case (Some s)
    then have "mTableSize t < s" using k new_size_grows [of t s] by (simp add: shape_ok_def)
    then have "Int_add_old l kh (mItems t) 0 (t\<lparr>mItems := replicate (nat s) None\<rparr>) = None" for l
      using k assms(2,3) some by (intro Int_add_old_fails [where m = "nat s"]) (auto simp: shape_ok_def nat_le_iff le_nat_iff)
    then show ?thesis using Some by (cases m) (auto simp: Int_Resize.simps)
  qed (cases m, auto simp: Int_Resize.simps)
  then show ?thesis using assms by (cases n) (auto simp: Int_Add.simps)
qed

section \<open>Lemmas: the hash functions\<close>

lemma xor_shift_inj:
  assumes "x XOR drop_bit k x = y XOR drop_bit k y" "0 < k"
  shows "x = (y :: 'a::len word)"
proof (rule bit_word_eqI)
  fix n assume "n < LENGTH('a)"
  have eq: "(bit x n \<noteq> bit x (k + n)) = (bit y n \<noteq> bit y (k + n))" for n
    using arg_cong [OF assms(1), of "\<lambda>w. bit w n"] by (simp add: bit_xor_iff bit_drop_bit_eq)
  show "bit x n = bit y n"
  proof (induction "LENGTH('a) - n" arbitrary: n rule: less_induct)
    case less
    show ?case
    proof (cases "n < LENGTH('a)")
      case True
      then have "bit x (k + n) = bit y (k + n)" using less assms(2) by simp
      then show ?thesis using eq [of n] by blast
    qed (simp add: bit_word.rep_eq not_less)
  qed
qed

lemma inj_xor_shift: "0 < k \<Longrightarrow> inj (\<lambda>h :: 'a::len word. h XOR drop_bit k h)"
  by (auto intro: injI xor_shift_inj)

lemma inj_mult_unit: "c * u = 1 \<Longrightarrow> inj (\<lambda>x :: 'a::len word. u * x)"
  by (rule injI) (metis mult.assoc mult_1)

lemma add_not_shift: "x + NOT (push_bit k x) = (1 - 2 ^ k) * x - (1 :: 'a::len word)"
  by (simp add: not_eq_complement push_bit_eq_mult algebra_simps)

lemma add_shift: "x + push_bit k x = (1 + 2 ^ k) * (x :: 'a::len word)"
  by (simp add: push_bit_eq_mult algebra_simps)

lemma inj_add_not_shift: "c * (1 - 2 ^ k) = (1 :: 'a::len word) \<Longrightarrow> inj (\<lambda>h :: 'a word. h + NOT (push_bit k h))"
  unfolding add_not_shift by (auto intro!: injI dest: injD [OF inj_mult_unit])

lemma inj_add_shift: "c * (1 + 2 ^ k) = (1 :: 'a::len word) \<Longrightarrow> inj (\<lambda>h :: 'a word. h + push_bit k h)"
  unfolding add_shift by (rule inj_mult_unit)

text \<open>
  The mask visits all slots only when the size is a power of two. In a table made for 3 items,
  with 2 items in it, a lookup goes back and forth between them and never ends.
\<close>

lemma size_not_power_loops:
  assumes "HashTable_new 3 False = Some t" "probe kh [Some a, Some b, None, None, None, None] (mHashMask t) x i = Some r"
    and "i \<in> {0, 1}" "kh a \<noteq> x" "kh b \<noteq> x"
  shows False
proof -
  have m: "mHashMask t = 5" using assms(1) by (auto simp: HashTable_new_def c_int_def split: if_splits)
  have "xs = [Some a, Some b, None, None, None, None] \<longrightarrow> mk = 5 \<longrightarrow> j \<in> {0, 1} \<longrightarrow> kh a \<noteq> y \<longrightarrow> kh b \<noteq> y \<longrightarrow> False"
    if "probe kh xs mk y j = Some r" for xs mk y j r
  proof (rule probe.raw_induct [of "\<lambda>kh xs mk y j r. xs = [Some a, Some b, None, None, None, None] \<longrightarrow> mk = 5 \<longrightarrow>
        j \<in> {0, 1} \<longrightarrow> kh a \<noteq> y \<longrightarrow> kh b \<noteq> y \<longrightarrow> False" "((((kh, xs), mk), y), j)" r, unfolded prod.case, OF _ that])
    fix f kh xs mk y j r
    assume IH: "\<And>kh xs mk y j r. f kh xs mk y j = Some r \<Longrightarrow> xs = [Some a, Some b, None, None, None, None] \<longrightarrow> mk = 5 \<longrightarrow>
        j \<in> {0, 1} \<longrightarrow> kh a \<noteq> y \<longrightarrow> kh b \<noteq> y \<longrightarrow> False"
      and eq: "(case get_at xs (int j) of None \<Rightarrow> None | Some None \<Rightarrow> Some j
        | Some (Some item) \<Rightarrow> if kh item = y then Some j else f kh xs mk y (mask_index mk (word_of_nat (j + 1)))) = Some r"
    show "xs = [Some a, Some b, None, None, None, None] \<longrightarrow> mk = 5 \<longrightarrow> j \<in> {0, 1} \<longrightarrow> kh a \<noteq> y \<longrightarrow> kh b \<noteq> y \<longrightarrow> False"
      using eq IH [of kh xs mk y 0 r] IH [of kh xs mk y 1 r] by (auto simp: get_at_def mask_index_def split: if_splits)
  qed
  from this [OF assms(2)] show False using m assms(3-5) by blast
qed

section \<open>Properties\<close>

text \<open>
  C34. The table of nodes, created for \<open>2 ^ k\<close> items and not resizable, behaves as a bounded map
  from keys to items for every sequence of insertions, removals and lookups, whatever the
  collisions of the hashes: every loop ends, no index leaves the array, and closing the gaps
  after removals loses no item.
\<close>

theorem table_is_map:
  assumes "k < 30"
  shows "\<exists>t outs t'. HashTable_new (2 ^ k) False = Some t \<and>
    table_run (Int_Add n kh) (Remove kh) (Get kh) ops t = Some (outs, t') \<and>
    spec_ops kh (2 ^ k) ops (0, \<lambda>_. None) = (outs, mNumItems t', table_map kh t')"
proof -
  obtain t where t: "HashTable_new (2 ^ k) False = Some t" "tab_inv kh t" "items t = {}" "mMaxItems t = 2 ^ k" "\<not> mCanResize t"
      "mNumItems t = 0"
    using HashTable_new_ok [OF assms, of False kh] by auto
  have "table_map kh t = (\<lambda>_. None)" using table_map_none [OF t(2)] t(3) by auto
  then show ?thesis using node_table.run_refines [of kh t n ops] t by (auto simp: fixed_inv_def)
qed

theorem table_is_map_witness:
  "\<exists>t outs t'. HashTable_new (2 ^ 1) False = Some t \<and>
    table_run (Int_Add 0 (\<lambda>x. (0, x))) (Remove (\<lambda>x. (0, x))) (Get (\<lambda>x. (0, x)))
      [Insert 5, Insert 6, Insert 7, Delete 5, Find (0, 6), Find (0, 5 :: nat)] t = Some (outs, t') \<and>
    outs = [Did True, Did True, Did False, Did True, Found (Some 6), Found None]"
  using table_is_map [of 1 0 "\<lambda>x. (0, x)" "[Insert 5, Insert 6, Insert 7, Delete 5, Find (0, 6), Find (0, 5 :: nat)]"]
  by auto

text \<open>
  C36. Adding an item to a full table of the class \<open>HashTable\<close> that may grow doubles the table and
  keeps all items; one level of resizing is enough, since the larger table has room for them.
  The same call on a full \<open>IntHashTable\<close> is undefined at any depth: its \<open>Resize\<close> adds the old
  items before it updates the sizes, so that the first of them resizes the table once more and
  the loop over the old array runs past its end.
\<close>

theorem resize_keeps_items:
  assumes "tab_inv kh t" "mCanResize t" "mNumItems t = mMaxItems t" "mTableSize t < 2 ^ 30" "\<forall>y \<in> items t. kh y \<noteq> kh x"
  shows "(\<exists>t'. Add (Suc n) kh t x = Some (True, t') \<and> tab_inv kh t' \<and> items t' = insert x (items t)) \<and> Int_Add m kh t x = None"
  using Add_resizes [OF assms(1,2,4), of n x] Int_Add_fails [OF assms(1-3)] assms(5) by auto

theorem resize_keeps_items_witness:
  "(\<exists>t'. Add 1 (\<lambda>x. (0, x)) \<lparr>mNumItems = 1, mMaxItems = 1, mTableSize = 2, mHashMask = 1, mItems = [Some 5, None], mCanResize = True\<rparr> (6::nat) =
      Some (True, t') \<and> items t' = {5, 6}) \<and>
    Int_Add 9 (\<lambda>x. (0, x)) \<lparr>mNumItems = 1, mMaxItems = 1, mTableSize = 2, mHashMask = 1, mItems = [Some 5, None], mCanResize = True\<rparr> (6::nat) = None"
proof -
  let ?t = "\<lparr>mNumItems = 1, mMaxItems = 1, mTableSize = 2, mHashMask = 1, mItems = [Some 5, None], mCanResize = True\<rparr> :: nat HashTable"
  have "shape_ok 1 ?t" by (simp add: shape_ok_def)
  moreover have "items_ok (\<lambda>x. (0, x)) [Some (5::nat), None]"
    by (auto simp: items_ok_def items_reached_def keys_distinct_def reach_def home_def less_Suc_eq numeral_2_eq_2)
  ultimately have inv: "tab_inv (\<lambda>x. (0, x)) ?t" by (auto simp: tab_inv_def num_def)
  have items: "items ?t = {5}" by (auto simp: items_def)
  from resize_keeps_items [OF inv, of 6 0 9] show ?thesis by (auto simp: items)
qed

text \<open>
  The integer hashes are permutations: nodes with different ids never share a hash, so that
  all collisions in the table of nodes come from its size.
\<close>

theorem hash_injective: "inj Hash_int \<and> inj Hash64"
proof
  have h: "Hash_int = (\<lambda>h. h XOR drop_bit 16 h) \<circ> (\<lambda>h. h + NOT (push_bit 11 h)) \<circ> (\<lambda>h. h XOR drop_bit 6 h) \<circ>
      (\<lambda>h. h + push_bit 3 h) \<circ> (\<lambda>h. h XOR drop_bit 10 h) \<circ> (\<lambda>h. h + NOT (push_bit 15 h))"
    by (rule ext) (simp only: Hash_int_def Let_def o_apply)
  have n11: "inj (\<lambda>h :: 32 word. h + NOT (push_bit 11 h))" by (rule inj_add_not_shift [of 4196353]) simp
  have n15: "inj (\<lambda>h :: 32 word. h + NOT (push_bit 15 h))" by (rule inj_add_not_shift [of 1073774593]) simp
  have a3: "inj (\<lambda>h :: 32 word. h + push_bit 3 h)" by (rule inj_add_shift [of 954437177]) simp
  show "inj Hash_int" unfolding h by (intro inj_compose inj_xor_shift n11 n15 a3) simp_all
  have h: "Hash64 = (\<lambda>h. h XOR drop_bit 31 h) \<circ> (\<lambda>h. h + NOT (push_bit 27 h)) \<circ> (\<lambda>h. h XOR drop_bit 15 h) \<circ>
      (\<lambda>h. h + push_bit 3 h) \<circ> (\<lambda>h. h XOR drop_bit 8 h) \<circ> (\<lambda>h. h + NOT (push_bit 13 h)) \<circ>
      (\<lambda>h. h XOR drop_bit 22 h) \<circ> (\<lambda>h. h + NOT (push_bit 32 h))"
    by (rule ext) (simp only: Hash64_def Let_def o_apply)
  have n27: "inj (\<lambda>h :: 64 word. h + NOT (push_bit 27 h))" by (rule inj_add_not_shift [of 18014398643699713]) simp
  have n13: "inj (\<lambda>h :: 64 word. h + NOT (push_bit 13 h))" by (rule inj_add_not_shift [of 4504149450301441]) simp
  have n32: "inj (\<lambda>h :: 64 word. h + NOT (push_bit 32 h))" by (rule inj_add_not_shift [of 4294967297]) simp
  have a3: "inj (\<lambda>h :: 64 word. h + push_bit 3 h)" by (rule inj_add_shift [of 10248191152060862009]) simp
  show "inj Hash64" unfolding h by (intro inj_compose inj_xor_shift n27 n13 n32 a3) simp_all
qed

end
