(* ===== verification/SC_NodeTree.thy ===== *)
theory SC_NodeTree
  imports SC_HashTable
begin

text \<open>
  The node tree of the SuperCollider server (\<open>server/scsynth/SC_Node.cpp\<close>, \<open>SC_Group.cpp\<close>) and the
  commands that change it (\<open>SC_MiscCmds.cpp\<close>). Synths run inside this tree, the unit of the plugin
  among them.

  Nodes live in a store of addresses, since the code links them by pointers: every node has its
  neighbours and its parent, a group also its first and last child. Following a null pointer or a
  pointer to a node that was freed gives \<open>None\<close>. The library of nodes by id is the table of
  \<open>SC_HashTable\<close>; the address that \<open>World_Alloc\<close> returns is an argument. Of a synth only its node is
  modelled: \<open>unit_ctors\<close> and \<open>unit_dtors\<close> record the synths whose units were constructed and
  destroyed. Commands take their arguments decoded.
\<close>

section \<open>State\<close>

type_synonym addr = nat

datatype NodeCalcFunc = Group_Calc_func | Graph_Calc_func | Graph_FirstCalc_func | Graph_NullFirstCalc_func
  | Node_NullCalc_func | Node_Delete_func

record Node =
  mID :: int
  mHash :: "32 word"
  mCalcFunc :: NodeCalcFunc
  mPrev :: "addr option"
  mNext :: "addr option"
  mParent :: "addr option"
  mIsGroup :: bool
  mHead :: "addr option"
  mTail :: "addr option"

datatype NodeState = kNode_Go | kNode_End | kNode_On | kNode_Off | kNode_Move | kNode_Info

record NodeEndMsg =
  mNodeID :: int
  mGroupID :: int
  mPrevNodeID :: int
  mNextNodeID :: int
  mMsgIsGroup :: bool
  mHeadID :: int
  mTailID :: int
  mState :: NodeState

record SC_World =
  nodes :: "addr \<rightharpoonup> Node"
  mNodeLib :: "addr HashTable"
  mHiddenID :: int
  mRecentID :: int
  mNumGroups :: int
  mNumGraphs :: int
  mRealTime :: bool
  mNodeEnds :: "NodeEndMsg list"
  unit_ctors :: "addr list"
  unit_dtors :: "addr list"

datatype SCErr = kSCErr_None | kSCErr_Failed | kSCErr_SynthDefNotFound | kSCErr_ReservedNodeID | kSCErr_DuplicateNodeID | kSCErr_TooManyNodes
  | kSCErr_WrongArgType | kSCErr_NodeNotFound | kSCErr_GroupNotFound | kSCErr_TargetNodeNotFound | kSCErr_ReplaceRootGroup | kSCErr_NoSuchCommand

definition set_node :: "addr \<Rightarrow> (Node \<Rightarrow> Node) \<Rightarrow> SC_World \<Rightarrow> SC_World option" where
  "set_node p f w = do { n \<leftarrow> nodes w p; Some (w\<lparr>nodes := (nodes w)(p \<mapsto> f n)\<rparr>) }"

section \<open>The library of nodes\<close>

definition node_key :: "SC_World \<Rightarrow> addr \<Rightarrow> 32 word \<times> int" where
  "node_key w p = (case nodes w p of Some n \<Rightarrow> (mHash n, mID n) | None \<Rightarrow> (0, 0))"

definition id_key :: "int \<Rightarrow> 32 word \<times> int" where
  "id_key i = (Hash_int (word_of_int i), i)"

definition World_GetNode :: "SC_World \<Rightarrow> int \<Rightarrow> addr option option" where
  "World_GetNode w inID = Get (node_key w) (mNodeLib w) (id_key (if inID = -1 then mRecentID w else inID))"

definition World_AddNode :: "SC_World \<Rightarrow> addr \<Rightarrow> (bool \<times> SC_World) option" where
  "World_AddNode w p = do { (b, t) \<leftarrow> Int_Add 0 (node_key w) (mNodeLib w) p; Some (b, w\<lparr>mNodeLib := t\<rparr>) }"

definition World_RemoveNode :: "SC_World \<Rightarrow> addr \<Rightarrow> (bool \<times> SC_World) option" where
  "World_RemoveNode w p = do { (b, t) \<leftarrow> Remove (node_key w) (mNodeLib w) p; Some (b, w\<lparr>mNodeLib := t\<rparr>) }"

definition World_GetGroup :: "SC_World \<Rightarrow> int \<Rightarrow> addr option option" where
  "World_GetGroup w inID = do {
     r \<leftarrow> World_GetNode w inID;
     case r of None \<Rightarrow> Some None
     | Some p \<Rightarrow> do { n \<leftarrow> nodes w p; Some (if mIsGroup n then Some p else None) } }"

text \<open>\<open>(hw->mHiddenID - 8) | 0x80000000\<close>\<close>

definition next_hidden :: "int \<Rightarrow> int" where
  "next_hidden h = sint ((word_of_int (h - 8) :: 32 word) OR 0x80000000)"

section \<open>Links\<close>

definition opt_id :: "SC_World \<Rightarrow> addr option \<Rightarrow> int option" where
  "opt_id w q = (case q of None \<Rightarrow> Some (-1) | Some p \<Rightarrow> map_option mID (nodes w p))"

definition Node_StateMsg :: "addr \<Rightarrow> NodeState \<Rightarrow> SC_World \<Rightarrow> SC_World option" where
  "Node_StateMsg p st w = do {
     n \<leftarrow> nodes w p;
     if mID n < 0 \<and> st \<noteq> kNode_Info then Some w
     else if \<not> mRealTime w then Some w
     else do {
       g \<leftarrow> opt_id w (mParent n);
       a \<leftarrow> opt_id w (mPrev n);
       b \<leftarrow> opt_id w (mNext n);
       h \<leftarrow> opt_id w (if mIsGroup n then mHead n else None);
       t \<leftarrow> opt_id w (if mIsGroup n then mTail n else None);
       Some (w\<lparr>mNodeEnds := mNodeEnds w @
         [\<lparr>mNodeID = mID n, mGroupID = g, mPrevNodeID = a, mNextNodeID = b, mMsgIsGroup = mIsGroup n,
           mHeadID = h, mTailID = t, mState = st\<rparr>]\<rparr>) } }"

definition Node_Remove :: "addr \<Rightarrow> SC_World \<Rightarrow> SC_World option" where
  "Node_Remove s w = do {
     n \<leftarrow> nodes w s;
     let g0 = mParent n;
     w \<leftarrow> (case mPrev n of
         Some p \<Rightarrow> set_node p (\<lambda>m. m\<lparr>mNext := mNext n\<rparr>) w
       | None \<Rightarrow> (case g0 of Some g \<Rightarrow> set_node g (\<lambda>m. m\<lparr>mHead := mNext n\<rparr>) w | None \<Rightarrow> Some w));
     n \<leftarrow> nodes w s;
     w \<leftarrow> (case mNext n of
         Some q \<Rightarrow> set_node q (\<lambda>m. m\<lparr>mPrev := mPrev n\<rparr>) w
       | None \<Rightarrow> (case g0 of Some g \<Rightarrow> set_node g (\<lambda>m. m\<lparr>mTail := mPrev n\<rparr>) w | None \<Rightarrow> Some w));
     set_node s (\<lambda>m. m\<lparr>mPrev := None, mNext := None, mParent := None\<rparr>) w }"

definition Node_AddAfter :: "addr \<Rightarrow> addr \<Rightarrow> SC_World \<Rightarrow> SC_World option" where
  "Node_AddAfter s after w = do {
     na \<leftarrow> nodes w after;
     ns \<leftarrow> nodes w s;
     if mParent na = None \<or> mID ns = 0 then Some w
     else do {
       w \<leftarrow> set_node s (\<lambda>m. m\<lparr>mPrev := Some after, mNext := mNext na, mParent := mParent na\<rparr>) w;
       na \<leftarrow> nodes w after;
       w \<leftarrow> (case mNext na of
           Some q \<Rightarrow> set_node q (\<lambda>m. m\<lparr>mPrev := Some s\<rparr>) w
         | None \<Rightarrow> do { ns \<leftarrow> nodes w s; g \<leftarrow> mParent ns; set_node g (\<lambda>m. m\<lparr>mTail := Some s\<rparr>) w });
       set_node after (\<lambda>m. m\<lparr>mNext := Some s\<rparr>) w } }"

definition Node_AddBefore :: "addr \<Rightarrow> addr \<Rightarrow> SC_World \<Rightarrow> SC_World option" where
  "Node_AddBefore s before w = do {
     nb \<leftarrow> nodes w before;
     ns \<leftarrow> nodes w s;
     if mParent nb = None \<or> mID ns = 0 then Some w
     else do {
       w \<leftarrow> set_node s (\<lambda>m. m\<lparr>mPrev := mPrev nb, mNext := Some before, mParent := mParent nb\<rparr>) w;
       nb \<leftarrow> nodes w before;
       w \<leftarrow> (case mPrev nb of
           Some q \<Rightarrow> set_node q (\<lambda>m. m\<lparr>mNext := Some s\<rparr>) w
         | None \<Rightarrow> do { ns \<leftarrow> nodes w s; g \<leftarrow> mParent ns; set_node g (\<lambda>m. m\<lparr>mHead := Some s\<rparr>) w });
       set_node before (\<lambda>m. m\<lparr>mPrev := Some s\<rparr>) w } }"

definition Group_AddHead :: "addr \<Rightarrow> addr \<Rightarrow> SC_World \<Rightarrow> SC_World option" where
  "Group_AddHead s child w = do {
     nc \<leftarrow> nodes w child;
     if mID nc = 0 then Some w
     else do {
       ns \<leftarrow> nodes w s;
       w \<leftarrow> set_node child (\<lambda>m. m\<lparr>mPrev := None, mNext := mHead ns\<rparr>) w;
       ns \<leftarrow> nodes w s;
       w \<leftarrow> (case mHead ns of
           Some h \<Rightarrow> do {
             w \<leftarrow> set_node h (\<lambda>m. m\<lparr>mPrev := Some child\<rparr>) w;
             set_node s (\<lambda>m. m\<lparr>mHead := Some child\<rparr>) w }
         | None \<Rightarrow> set_node s (\<lambda>m. m\<lparr>mHead := Some child, mTail := Some child\<rparr>) w);
       set_node child (\<lambda>m. m\<lparr>mParent := Some s\<rparr>) w } }"

definition Group_AddTail :: "addr \<Rightarrow> addr \<Rightarrow> SC_World \<Rightarrow> SC_World option" where
  "Group_AddTail s child w = do {
     nc \<leftarrow> nodes w child;
     if mID nc = 0 then Some w
     else do {
       ns \<leftarrow> nodes w s;
       w \<leftarrow> set_node child (\<lambda>m. m\<lparr>mPrev := mTail ns, mNext := None\<rparr>) w;
       ns \<leftarrow> nodes w s;
       w \<leftarrow> (case mTail ns of
           Some t \<Rightarrow> do {
             w \<leftarrow> set_node t (\<lambda>m. m\<lparr>mNext := Some child\<rparr>) w;
             set_node s (\<lambda>m. m\<lparr>mTail := Some child\<rparr>) w }
         | None \<Rightarrow> set_node s (\<lambda>m. m\<lparr>mHead := Some child, mTail := Some child\<rparr>) w);
       set_node child (\<lambda>m. m\<lparr>mParent := Some s\<rparr>) w } }"

text \<open>The loop of \<open>Group_Insert\<close>: \<open>Some None\<close> when it reaches the end, the node before which to insert otherwise.\<close>

fun insert_before :: "SC_World \<Rightarrow> addr option \<Rightarrow> nat \<Rightarrow> addr option option" where
  "insert_before w before 0 = Some before"
| "insert_before w before (Suc i) = do {
     b \<leftarrow> before;
     n \<leftarrow> nodes w b;
     case mNext n of None \<Rightarrow> Some None | Some q \<Rightarrow> insert_before w (Some q) i }"

definition Group_Insert :: "addr \<Rightarrow> addr \<Rightarrow> int \<Rightarrow> SC_World \<Rightarrow> SC_World option" where
  "Group_Insert s child index w = do {
     nc \<leftarrow> nodes w child;
     if mID nc = 0 then Some w
     else if index \<le> 0 then Group_AddHead s child w
     else do {
       ns \<leftarrow> nodes w s;
       b \<leftarrow> insert_before w (mHead ns) (nat index);
       case b of None \<Rightarrow> Group_AddTail s child w | Some b \<Rightarrow> Node_AddBefore child b w } }"

section \<open>Creation and deletion\<close>

definition blank_node :: "int \<Rightarrow> Node" where
  "blank_node i = \<lparr>mID = i, mHash = Hash_int (word_of_int i), mCalcFunc = Node_NullCalc_func, mPrev = None, mNext = None,
     mParent = None, mIsGroup = False, mHead = None, mTail = None\<rparr>"

text \<open>\<open>p\<close> is the address that the allocator returns.\<close>

definition Node_New :: "addr \<Rightarrow> int \<Rightarrow> SC_World \<Rightarrow> (SCErr \<times> SC_World) option" where
  "Node_New p inID w =
     (if inID < 0 \<and> inID \<noteq> -1 then Some (kSCErr_ReservedNodeID, w)
      else do {
        let (i, w) = (if inID < 0 then (next_hidden (mHiddenID w), w\<lparr>mHiddenID := next_hidden (mHiddenID w)\<rparr>) else (inID, w));
        old \<leftarrow> World_GetNode w i;
        if old \<noteq> None then Some (kSCErr_DuplicateNodeID, w)
        else if nodes w p \<noteq> None then None
        else do {
          (ok, w1) \<leftarrow> World_AddNode (w\<lparr>nodes := (nodes w)(p \<mapsto> blank_node i)\<rparr>) p;
          if \<not> ok then Some (kSCErr_TooManyNodes, w1\<lparr>nodes := (nodes w1)(p := None)\<rparr>)
          else Some (kSCErr_None, w1\<lparr>mRecentID := i\<rparr>) } })"

definition Group_New :: "addr \<Rightarrow> int \<Rightarrow> SC_World \<Rightarrow> (SCErr \<times> SC_World) option" where
  "Group_New p inID w = do {
     (err, w) \<leftarrow> Node_New p inID w;
     if err \<noteq> kSCErr_None then Some (err, w)
     else do {
       w \<leftarrow> set_node p (\<lambda>m. m\<lparr>mCalcFunc := Group_Calc_func, mIsGroup := True, mHead := None, mTail := None\<rparr>) w;
       Some (kSCErr_None, w\<lparr>mNumGroups := mNumGroups w + 1\<rparr>) } }"

text \<open>\<open>Graph_New\<close>, of which only the node is modelled.\<close>

definition Graph_New :: "addr \<Rightarrow> int \<Rightarrow> SC_World \<Rightarrow> (SCErr \<times> SC_World) option" where
  "Graph_New p inID w = do {
     (err, w) \<leftarrow> Node_New p inID w;
     if err \<noteq> kSCErr_None then Some (err, w)
     else do {
       w \<leftarrow> set_node p (\<lambda>m. m\<lparr>mCalcFunc := Graph_FirstCalc_func\<rparr>) w;
       Some (kSCErr_None, w\<lparr>mNumGraphs := mNumGraphs w + 1\<rparr>) } }"

definition Node_Dtor :: "addr \<Rightarrow> SC_World \<Rightarrow> SC_World option" where
  "Node_Dtor p w = do {
     w \<leftarrow> Node_StateMsg p kNode_End w;
     w \<leftarrow> Node_Remove p w;
     (_, w) \<leftarrow> World_RemoveNode w p;
     Some (w\<lparr>nodes := (nodes w)(p := None)\<rparr>) }"

definition Graph_Dtor :: "addr \<Rightarrow> SC_World \<Rightarrow> SC_World option" where
  "Graph_Dtor p w = do {
     n \<leftarrow> nodes w p;
     let w = (if mCalcFunc n \<noteq> Graph_FirstCalc_func then w\<lparr>unit_dtors := unit_dtors w @ [p]\<rparr> else w);
     Node_Dtor p (w\<lparr>mNumGraphs := mNumGraphs w - 1\<rparr>) }"

text \<open>
  \<open>Node_Delete\<close>, \<open>Group_DeleteAll\<close> and its loop call each other; the first argument bounds the depth
  of these calls.
\<close>

fun Node_Delete :: "nat \<Rightarrow> addr \<Rightarrow> SC_World \<Rightarrow> SC_World option"
  and Group_DeleteAll :: "nat \<Rightarrow> addr \<Rightarrow> SC_World \<Rightarrow> SC_World option"
  and delete_loop :: "nat \<Rightarrow> addr option \<Rightarrow> SC_World \<Rightarrow> SC_World option" where
  "Node_Delete 0 p w = None"
| "Node_Delete (Suc k) p w = do {
     n \<leftarrow> nodes w p;
     if mID n = 0 then Some w
     else if mIsGroup n then do {
       w \<leftarrow> Group_DeleteAll k p w;
       Node_Dtor p (w\<lparr>mNumGroups := mNumGroups w - 1\<rparr>) }
     else Graph_Dtor p w }"
| "Group_DeleteAll 0 g w = None"
| "Group_DeleteAll (Suc k) g w = do {
     n \<leftarrow> nodes w g;
     w \<leftarrow> delete_loop k (mHead n) w;
     set_node g (\<lambda>m. m\<lparr>mHead := None, mTail := None\<rparr>) w }"
| "delete_loop k None w = Some w"
| "delete_loop 0 (Some c) w = None"
| "delete_loop (Suc k) (Some c) w = do {
     n \<leftarrow> nodes w c;
     w \<leftarrow> set_node c (\<lambda>m. m\<lparr>mPrev := None, mNext := None, mParent := None\<rparr>) w;
     w \<leftarrow> Node_Delete k c w;
     delete_loop k (mNext n) w }"

fun Group_DeepFreeGraphs :: "nat \<Rightarrow> addr \<Rightarrow> SC_World \<Rightarrow> SC_World option"
  and deep_loop :: "nat \<Rightarrow> addr option \<Rightarrow> SC_World \<Rightarrow> SC_World option" where
  "Group_DeepFreeGraphs 0 g w = None"
| "Group_DeepFreeGraphs (Suc k) g w = do { n \<leftarrow> nodes w g; deep_loop k (mHead n) w }"
| "deep_loop k None w = Some w"
| "deep_loop 0 (Some c) w = None"
| "deep_loop (Suc k) (Some c) w = do {
     n \<leftarrow> nodes w c;
     w \<leftarrow> (if mIsGroup n then Group_DeepFreeGraphs k c w
          else do { w \<leftarrow> Node_Remove c w; Node_Delete (Suc k) c w });
     deep_loop k (mNext n) w }"

definition Node_Replace :: "nat \<Rightarrow> addr \<Rightarrow> addr \<Rightarrow> SC_World \<Rightarrow> SC_World option" where
  "Node_Replace k s replaceThisOne w = do {
     nr \<leftarrow> nodes w replaceThisOne;
     ns \<leftarrow> nodes w s;
     case mParent nr of
       None \<Rightarrow> Some w
     | Some g \<Rightarrow>
         if mID ns = 0 then Some w
         else do {
           w \<leftarrow> set_node s (\<lambda>m. m\<lparr>mPrev := mPrev nr, mNext := mNext nr, mParent := Some g\<rparr>) w;
           ns \<leftarrow> nodes w s;
           w \<leftarrow> (case mPrev ns of
               Some q \<Rightarrow> set_node q (\<lambda>m. m\<lparr>mNext := Some s\<rparr>) w
             | None \<Rightarrow> set_node g (\<lambda>m. m\<lparr>mHead := Some s\<rparr>) w);
           ns \<leftarrow> nodes w s;
           w \<leftarrow> (case mNext ns of
               Some q \<Rightarrow> set_node q (\<lambda>m. m\<lparr>mPrev := Some s\<rparr>) w
             | None \<Rightarrow> set_node g (\<lambda>m. m\<lparr>mTail := Some s\<rparr>) w);
           w \<leftarrow> set_node replaceThisOne (\<lambda>m. m\<lparr>mPrev := None, mNext := None, mParent := None\<rparr>) w;
           Node_Delete k replaceThisOne w } }"

text \<open>The result \<open>kSCErr_Failed\<close> stands for the exception that the code throws.\<close>

definition Node_RemoveID :: "nat \<Rightarrow> addr \<Rightarrow> SC_World \<Rightarrow> (SCErr \<times> SC_World) option" where
  "Node_RemoveID k p w = do {
     n \<leftarrow> nodes w p;
     if mID n = 0 then Some (kSCErr_None, w)
     else do {
       (ok, w) \<leftarrow> World_RemoveNode w p;
       if \<not> ok then Some (kSCErr_Failed, w)
       else do {
         let i = next_hidden (mHiddenID w);
         w \<leftarrow> set_node p (\<lambda>m. m\<lparr>mID := i, mHash := Hash_int (word_of_int i)\<rparr>) (w\<lparr>mHiddenID := i\<rparr>);
         (ok, w) \<leftarrow> World_AddNode w p;
         if \<not> ok then do { w \<leftarrow> Node_Delete k p w; Some (kSCErr_Failed, w) }
         else Some (kSCErr_None, w) } } }"

section \<open>Running\<close>

definition Node_SetRun :: "addr \<Rightarrow> bool \<Rightarrow> SC_World \<Rightarrow> SC_World option" where
  "Node_SetRun p inRun w = do {
     n \<leftarrow> nodes w p;
     if inRun
     then if mCalcFunc n = Node_NullCalc_func
          then do {
            w \<leftarrow> set_node p (\<lambda>m. m\<lparr>mCalcFunc := if mIsGroup n then Group_Calc_func else Graph_Calc_func\<rparr>) w;
            Node_StateMsg p kNode_On w }
          else Some w
     else if mCalcFunc n \<noteq> Node_NullCalc_func
          then do {
            w \<leftarrow> set_node p (\<lambda>m. m\<lparr>mCalcFunc :=
              if \<not> mIsGroup n \<and> mCalcFunc n = Graph_FirstCalc_func then Graph_NullFirstCalc_func else Node_NullCalc_func\<rparr>) w;
            Node_StateMsg p kNode_Off w }
          else Some w }"

definition Node_End :: "addr \<Rightarrow> SC_World \<Rightarrow> SC_World option" where
  "Node_End p w = set_node p (\<lambda>m. m\<lparr>mCalcFunc := Node_Delete_func\<rparr>) w"

section \<open>Lists of children\<close>

text \<open>
  \<open>dseg h g pr ps nx\<close>: the nodes \<open>ps\<close> are children of \<open>g\<close> and doubly linked in this order, after \<open>pr\<close> and
  before \<open>nx\<close>.
\<close>

definition hd_or :: "addr list \<Rightarrow> addr option \<Rightarrow> addr option" where
  "hd_or ps nx = (case ps of [] \<Rightarrow> nx | q # _ \<Rightarrow> Some q)"

definition last_or :: "addr option \<Rightarrow> addr list \<Rightarrow> addr option" where
  "last_or pr ps = (if ps = [] then pr else Some (last ps))"

fun dseg :: "(addr \<rightharpoonup> Node) \<Rightarrow> addr \<Rightarrow> addr option \<Rightarrow> addr list \<Rightarrow> addr option \<Rightarrow> bool" where
  "dseg h g pr [] nx \<longleftrightarrow> True"
| "dseg h g pr (p # ps) nx \<longleftrightarrow> (\<exists>n. h p = Some n \<and> mParent n = Some g \<and> mPrev n = pr \<and> mNext n = hd_or ps nx) \<and> dseg h g (Some p) ps nx"

definition links :: "(addr \<rightharpoonup> Node) \<Rightarrow> addr \<Rightarrow> (addr option \<times> addr option \<times> addr option) option" where
  "links h p = map_option (\<lambda>n. (mParent n, mPrev n, mNext n)) (h p)"

definition ends :: "(addr \<rightharpoonup> Node) \<Rightarrow> addr \<Rightarrow> (bool \<times> addr option \<times> addr option) option" where
  "ends h p = map_option (\<lambda>n. (mIsGroup n, mHead n, mTail n)) (h p)"

lemma hd_or_simps [simp]: "hd_or [] nx = nx" "hd_or (q # qs) nx = Some q"
  by (simp_all add: hd_or_def)

lemma last_or_simps [simp]: "last_or pr [] = pr" "last_or pr (qs @ [q]) = Some q" "last_or pr (q # qs) = last_or (Some q) qs"
  by (simp_all add: last_or_def)

lemma hd_or_append [simp]: "hd_or (xs @ ys) nx = hd_or xs (hd_or ys nx)"
  by (cases xs) simp_all

lemma last_or_append [simp]: "last_or pr (xs @ ys) = last_or (last_or pr xs) ys"
  by (simp add: last_or_def)

lemma dseg_links:
  "dseg h g pr (p # ps) nx \<longleftrightarrow> links h p = Some (Some g, pr, hd_or ps nx) \<and> dseg h g (Some p) ps nx"
  by (auto simp: links_def)

lemma dseg_append [simp]:
  "dseg h g pr (xs @ ys) nx \<longleftrightarrow> dseg h g pr xs (hd_or ys nx) \<and> dseg h g (last_or pr xs) ys nx"
  by (induction xs arbitrary: pr) auto

lemma dseg_cong:
  "(\<And>p. p \<in> set ps \<Longrightarrow> links h' p = links h p) \<Longrightarrow> dseg h' g pr ps nx \<longleftrightarrow> dseg h g pr ps nx"
  by (induction ps arbitrary: pr) (simp_all add: dseg_links del: dseg.simps(2))

lemma dseg_parent: "dseg h g pr ps nx \<Longrightarrow> p \<in> set ps \<Longrightarrow> \<exists>a b. links h p = Some (Some g, a, b)"
  by (induction ps arbitrary: pr) (auto simp: dseg_links simp del: dseg.simps(2))

definition modify :: "(addr \<rightharpoonup> Node) \<Rightarrow> addr \<Rightarrow> (Node \<Rightarrow> Node) \<Rightarrow> (addr \<rightharpoonup> Node)" where
  "modify h p f = h(p := map_option f (h p))"

lemma modify_at [simp]: "modify h p f q = (if q = p then map_option f (h p) else h q)"
  by (simp add: modify_def)

lemma modify_commute: "p \<noteq> q \<or> f \<circ> g = g \<circ> f \<Longrightarrow> modify (modify h p f) q g = modify (modify h q g) p f"
  by (rule ext) (auto simp: option.map_comp)

lemma dseg_new_next:
  assumes "dseg h g pr xs nx" "distinct xs" "xs \<noteq> []"
  shows "dseg (modify h (last xs) (\<lambda>m. m\<lparr>mNext := v\<rparr>)) g pr xs v"
proof -
  obtain us a where xs: "xs = us @ [a]" using assms(3) by (cases xs rule: rev_cases) auto
  have "dseg (modify h a (\<lambda>m. m\<lparr>mNext := v\<rparr>)) g pr us (Some a) \<longleftrightarrow> dseg h g pr us (Some a)"
    using assms(2) xs by (intro dseg_cong) (auto simp: links_def)
  then show ?thesis using assms(1) xs by (auto simp: modify_def)
qed

lemma dseg_new_prev:
  assumes "dseg h g pr ys nx" "distinct ys" "ys \<noteq> []"
  shows "dseg (modify h (hd ys) (\<lambda>m. m\<lparr>mPrev := v\<rparr>)) g v ys nx"
proof -
  obtain b vs where ys: "ys = b # vs" using assms(3) by (cases ys) auto
  have "dseg (modify h b (\<lambda>m. m\<lparr>mPrev := v\<rparr>)) g (Some b) vs nx \<longleftrightarrow> dseg h g (Some b) vs nx"
    using assms(2) ys by (intro dseg_cong) (auto simp: links_def)
  then show ?thesis using assms(1) ys by (auto simp: modify_def)
qed

text \<open>
  What the operations do to the store: \<open>set_right\<close> writes the link that leaves \<open>xs\<close> to the right (the
  head of the group when \<open>xs\<close> is empty), \<open>set_left\<close> the one that leaves \<open>ys\<close> to the left.
\<close>

definition set_right :: "addr \<Rightarrow> addr list \<Rightarrow> addr option \<Rightarrow> (addr \<rightharpoonup> Node) \<Rightarrow> (addr \<rightharpoonup> Node)" where
  "set_right g xs v h = (if xs = [] then modify h g (\<lambda>m. m\<lparr>mHead := v\<rparr>) else modify h (last xs) (\<lambda>m. m\<lparr>mNext := v\<rparr>))"

definition set_left :: "addr \<Rightarrow> addr list \<Rightarrow> addr option \<Rightarrow> (addr \<rightharpoonup> Node) \<Rightarrow> (addr \<rightharpoonup> Node)" where
  "set_left g ys v h = (if ys = [] then modify h g (\<lambda>m. m\<lparr>mTail := v\<rparr>) else modify h (hd ys) (\<lambda>m. m\<lparr>mPrev := v\<rparr>))"

definition set_links :: "addr \<Rightarrow> addr option \<Rightarrow> addr option \<Rightarrow> addr option \<Rightarrow> (addr \<rightharpoonup> Node) \<Rightarrow> (addr \<rightharpoonup> Node)" where
  "set_links s g pr nx h = modify h s (\<lambda>m. m\<lparr>mPrev := pr, mNext := nx, mParent := g\<rparr>)"

definition link_in :: "addr \<Rightarrow> addr list \<Rightarrow> addr \<Rightarrow> addr list \<Rightarrow> (addr \<rightharpoonup> Node) \<Rightarrow> (addr \<rightharpoonup> Node)" where
  "link_in g xs s ys h =
     set_left g ys (Some s) (set_right g xs (Some s) (set_links s (Some g) (last_or None xs) (hd_or ys None) h))"

definition unlink :: "addr \<Rightarrow> addr list \<Rightarrow> addr \<Rightarrow> addr list \<Rightarrow> (addr \<rightharpoonup> Node) \<Rightarrow> (addr \<rightharpoonup> Node)" where
  "unlink g xs s ys h =
     set_links s None None None (set_left g ys (last_or None xs) (set_right g xs (hd_or ys None) h))"

lemma links_modify_ends [simp]:
  "links (modify h g (\<lambda>m. m\<lparr>mHead := v\<rparr>)) p = links h p" "links (modify h g (\<lambda>m. m\<lparr>mTail := v\<rparr>)) p = links h p"
  by (auto simp: links_def option.map_comp comp_def)

lemma links_set_right: "links (set_right g xs v h) p =
    (if xs \<noteq> [] \<and> p = last xs then map_option (\<lambda>(g, pr, nx). (g, pr, v)) (links h p) else links h p)"
  by (simp add: set_right_def) (auto simp: links_def option.map_comp comp_def)

lemma links_set_left: "links (set_left g ys v h) p =
    (if ys \<noteq> [] \<and> p = hd ys then map_option (\<lambda>(g, pr, nx). (g, v, nx)) (links h p) else links h p)"
  by (simp add: set_left_def) (auto simp: links_def option.map_comp comp_def)

lemma links_set_links: "links (set_links s g pr nx h) p =
    (if p = s then map_option (\<lambda>_. (g, pr, nx)) (links h p) else links h p)"
  by (auto simp: set_links_def links_def option.map_comp comp_def)

lemma ends_set_right: "ends (set_right g xs v h) p =
    (if xs = [] \<and> p = g then map_option (\<lambda>(b, hd, tl). (b, v, tl)) (ends h p) else ends h p)"
  by (auto simp: set_right_def ends_def option.map_comp comp_def)

lemma ends_set_left: "ends (set_left g ys v h) p =
    (if ys = [] \<and> p = g then map_option (\<lambda>(b, hd, tl). (b, hd, v)) (ends h p) else ends h p)"
  by (auto simp: set_left_def ends_def option.map_comp comp_def)

lemma ends_set_links: "ends (set_links s g pr nx h) p = ends h p"
  by (auto simp: set_links_def ends_def option.map_comp comp_def)

lemmas link_simps = links_set_right links_set_left links_set_links ends_set_right ends_set_left ends_set_links

lemma dom_link_ops [simp]:
  "dom (set_right g xs v h) = dom h" "dom (set_left g xs v h) = dom h" "dom (set_links s q pr nx h) = dom h"
  "dom (modify h p f) = dom h"
  by (auto simp: set_right_def set_left_def set_links_def dom_def modify_def split: if_splits)

lemma dseg_set_right:
  "dseg h g pr xs nx \<Longrightarrow> distinct xs \<Longrightarrow> dseg (set_right g xs v h) g pr xs v"
  by (cases "xs = []") (simp_all add: set_right_def dseg_new_next)

lemma dseg_set_left:
  "dseg h g pr ys nx \<Longrightarrow> distinct ys \<Longrightarrow> dseg (set_left g ys v h) g v ys nx"
  by (cases "ys = []") (simp_all add: set_left_def dseg_new_prev)

lemma dseg_link_in:
  assumes "dseg h g None (xs @ ys) None" "distinct (xs @ s # ys)" "links h s \<noteq> None"
  shows "dseg (link_in g xs s ys h) g None (xs @ s # ys) None"
proof -
  have "dseg (set_right g xs (Some s) h) g None xs (Some s)" using assms by (auto intro: dseg_set_right)
  moreover have l: "links (link_in g xs s ys h) p = links (set_right g xs (Some s) h) p" if "p \<in> set xs" for p
    using that assms(2) by (cases ys) (auto simp: link_in_def link_simps)
  moreover have "dseg (set_left g ys (Some s) h) g (Some s) ys None" using assms by (auto intro: dseg_set_left)
  moreover have r: "links (link_in g xs s ys h) p = links (set_left g ys (Some s) h) p" if "p \<in> set ys" for p
    using that assms(2) by (cases xs rule: rev_cases) (auto simp: link_in_def link_simps)
  moreover have "links (link_in g xs s ys h) s = Some (Some g, last_or None xs, hd_or ys None)"
    using assms(2,3) by (cases xs rule: rev_cases; cases ys) (auto simp: link_in_def link_simps)
  ultimately show ?thesis by (simp add: dseg_links dseg_cong [OF l] dseg_cong [OF r] del: dseg.simps(2))
qed

lemma dseg_unlink:
  assumes "dseg h g None (xs @ s # ys) None" "distinct (xs @ s # ys)"
  shows "dseg (unlink g xs s ys h) g None (xs @ ys) None"
proof -
  have "dseg (set_right g xs (hd_or ys None) h) g None xs (hd_or ys None)" using assms by (auto intro: dseg_set_right)
  moreover have l: "links (unlink g xs s ys h) p = links (set_right g xs (hd_or ys None) h) p" if "p \<in> set xs" for p
    using that assms(2) by (cases ys) (auto simp: unlink_def link_simps)
  moreover have "dseg (set_left g ys (last_or None xs) h) g (last_or None xs) ys None" using assms by (auto intro: dseg_set_left)
  moreover have r: "links (unlink g xs s ys h) p = links (set_left g ys (last_or None xs) h) p" if "p \<in> set ys" for p
    using that assms(2) by (cases xs rule: rev_cases) (auto simp: unlink_def link_simps)
  ultimately show ?thesis by (simp add: dseg_cong [OF l] dseg_cong [OF r])
qed

section \<open>The invariant of the tree\<close>

text \<open>
  \<open>kids g\<close> is the list of children of the group \<open>g\<close>. The groups in \<open>X\<close> are being emptied: their head and
  tail, and the backward link of their first child, may be out of date.
\<close>

definition tree_inv :: "addr set \<Rightarrow> (addr \<rightharpoonup> Node) \<Rightarrow> (addr \<Rightarrow> addr list) \<Rightarrow> bool" where
  "tree_inv X h kids \<longleftrightarrow>
     (\<forall>g u v. ends h g = Some (True, u, v) \<longrightarrow> g \<notin> X \<longrightarrow>
        u = hd_or (kids g) None \<and> v = last_or None (kids g) \<and> dseg h g None (kids g) None) \<and>
     (\<forall>g \<in> X. \<exists>pr. dseg h g pr (kids g) None) \<and>
     (\<forall>g. distinct (kids g)) \<and>
     (\<forall>g. kids g \<noteq> [] \<longrightarrow> (\<exists>u v. ends h g = Some (True, u, v))) \<and>
     (\<forall>p q a b. links h p = Some (q, a, b) \<longrightarrow> (case q of None \<Rightarrow> a = None \<and> b = None | Some g \<Rightarrow> p \<in> set (kids g)))"

lemma tree_groupD: "tree_inv X h kids \<Longrightarrow> ends h g = Some (True, u, v) \<Longrightarrow> g \<notin> X \<Longrightarrow>
    u = hd_or (kids g) None \<and> v = last_or None (kids g) \<and> dseg h g None (kids g) None"
  and tree_openD: "tree_inv X h kids \<Longrightarrow> g \<in> X \<Longrightarrow> \<exists>pr. dseg h g pr (kids g) None"
  and tree_distinct: "tree_inv X h kids \<Longrightarrow> distinct (kids g)"
  and tree_is_group: "tree_inv X h kids \<Longrightarrow> kids g \<noteq> [] \<Longrightarrow> \<exists>u v. ends h g = Some (True, u, v)"
  and tree_child: "tree_inv X h kids \<Longrightarrow> links h p = Some (Some g, a, b) \<Longrightarrow> p \<in> set (kids g)"
  and tree_free: "tree_inv X h kids \<Longrightarrow> links h p = Some (None, a, b) \<Longrightarrow> a = None \<and> b = None"
  unfolding tree_inv_def by blast+ (force+)

lemma tree_kid:
  assumes "tree_inv X h kids" "p \<in> set (kids g)"
  shows "\<exists>a b. links h p = Some (Some g, a, b)"
proof -
  have "kids g \<noteq> []" using assms(2) by auto
  then obtain pr where "dseg h g pr (kids g) None"
    using assms(1) tree_groupD tree_openD tree_is_group by metis
  then show ?thesis using assms(2) dseg_parent by blast
qed

lemma tree_one_parent: "tree_inv X h kids \<Longrightarrow> p \<in> set (kids g) \<Longrightarrow> p \<in> set (kids g') \<Longrightarrow> g = g'"
  using tree_kid [of X h kids p g] tree_kid [of X h kids p g'] by auto

text \<open>An update of the store that changes no links outside of \<open>S\<close> keeps the lists that avoid \<open>S\<close>.\<close>

lemma tree_inv_update:
  assumes inv: "tree_inv X h kids" and g: "g \<notin> X"
    and links: "\<And>p. p \<notin> insert s (set (kids g)) \<Longrightarrow> links h' p = links h p"
    and ends: "\<And>p. p \<noteq> g \<Longrightarrow> ends h' p = ends h p"
    and s: "\<And>g'. g' \<noteq> g \<Longrightarrow> s \<notin> set (kids g')"
    and new: "ends h' g = Some (True, hd_or ks None, last_or None ks)" "dseg h' g None ks None" "distinct ks"
    and mem: "set ks \<subseteq> insert s (set (kids g))" "set (kids g) \<subseteq> insert s (set ks)"
    and own: "s \<notin> set ks \<Longrightarrow> links h' s = Some (None, None, None) \<or> links h' s = None"
  shows "tree_inv X h' (kids(g := ks))"
proof -
  have other: "dseg h' g' pr (kids g') nx \<longleftrightarrow> dseg h g' pr (kids g') nx" if "g' \<noteq> g" for g' pr nx
    using that tree_one_parent [OF inv, of _ g' g] s [OF that] by (intro dseg_cong links) auto
  have "case q of None \<Rightarrow> a = None \<and> b = None | Some g' \<Rightarrow> p \<in> set ((kids(g := ks)) g')" if l: "links h' p = Some (q, a, b)" for p q a b
  proof (cases "p \<in> set ks")
    case True
    then show ?thesis using dseg_parent [OF new(2) True] l by auto
  next
    case False
    show ?thesis
    proof (cases "p = s")
      case True
      then show ?thesis using own False l by auto
    next
      case ps: False
      then have p: "p \<notin> insert s (set (kids g))" using False mem(2) by auto
      then have "links h p = Some (q, a, b)" using l links by simp
      then show ?thesis using tree_child [OF inv] tree_free [OF inv] p by (cases q) auto
    qed
  qed
  then show ?thesis
    unfolding tree_inv_def
    using tree_groupD [OF inv] tree_openD [OF inv] tree_distinct [OF inv] tree_is_group [OF inv] g new ends other
    by (auto split: if_splits)
qed

lemma tree_unlink:
  assumes "tree_inv X h kids" "g \<notin> X" "kids g = xs @ s # ys"
  shows "tree_inv X (unlink g xs s ys h) (kids(g := xs @ ys))"
proof (rule tree_inv_update [where s = s, OF assms(1,2)])
  obtain u v where e: "ends h g = Some (True, u, v)" using tree_is_group [OF assms(1), of g] assms(3) by auto
  note gr = tree_groupD [OF assms(1) e assms(2)]
  have d: "distinct (xs @ s # ys)" using tree_distinct [OF assms(1), of g] assms(3) by simp
  show "links (unlink g xs s ys h) p = links h p" if "p \<notin> insert s (set (kids g))" for p
    using that assms(3) by (cases xs rule: rev_cases; cases ys) (auto simp: unlink_def link_simps)
  show "ends (unlink g xs s ys h) p = ends h p" if "p \<noteq> g" for p using that by (simp add: unlink_def link_simps)
  show "s \<notin> set (kids g')" if "g' \<noteq> g" for g' using that tree_one_parent [OF assms(1), of s g' g] assms(3) by auto
  show "ends (unlink g xs s ys h) g = Some (True, hd_or (xs @ ys) None, last_or None (xs @ ys))"
    using e gr assms(3) by (cases xs rule: rev_cases; cases ys) (auto simp: unlink_def link_simps)
  show "dseg (unlink g xs s ys h) g None (xs @ ys) None" using gr assms(3) d by (intro dseg_unlink) auto
  show "distinct (xs @ ys)" using d by simp
  show "set (xs @ ys) \<subseteq> insert s (set (kids g))" "set (kids g) \<subseteq> insert s (set (xs @ ys))" using assms(3) by auto
  show "links (unlink g xs s ys h) s = Some (None, None, None) \<or> links (unlink g xs s ys h) s = None"
    by (simp add: unlink_def link_simps) (cases "links (set_left g ys (last_or None xs) (set_right g xs (hd_or ys None) h)) s", auto)
qed

lemma tree_link_in:
  assumes "tree_inv X h kids" "g \<notin> X" "kids g = xs @ ys" "ends h g = Some (True, u, v)"
    and "links h s = Some (None, a, b)"
  shows "tree_inv X (link_in g xs s ys h) (kids(g := xs @ s # ys))"
proof (rule tree_inv_update [where s = s, OF assms(1,2)])
  note gr = tree_groupD [OF assms(1,4,2)]
  have s: "s \<notin> set (kids g')" for g' using tree_kid [OF assms(1)] assms(5) by fastforce
  have d: "distinct (xs @ s # ys)" using tree_distinct [OF assms(1), of g] assms(3) s [of g] by auto
  show "links (link_in g xs s ys h) p = links h p" if "p \<notin> insert s (set (kids g))" for p
    using that assms(3) by (cases xs rule: rev_cases; cases ys) (auto simp: link_in_def link_simps)
  show "ends (link_in g xs s ys h) p = ends h p" if "p \<noteq> g" for p using that by (simp add: link_in_def link_simps)
  show "s \<notin> set (kids g')" if "g' \<noteq> g" for g' by (rule s)
  show "ends (link_in g xs s ys h) g = Some (True, hd_or (xs @ s # ys) None, last_or None (xs @ s # ys))"
    using assms(3,4) gr by (cases xs rule: rev_cases; cases ys rule: rev_cases) (auto simp: link_in_def link_simps)
  show "dseg (link_in g xs s ys h) g None (xs @ s # ys) None" using gr assms(3,5) d by (intro dseg_link_in) auto
  show "distinct (xs @ s # ys)" by (rule d)
  show "set (xs @ s # ys) \<subseteq> insert s (set (kids g))" "set (kids g) \<subseteq> insert s (set (xs @ s # ys))" using assms(3) by auto
qed simp

section \<open>The operations on the tree\<close>

text \<open>The neighbours of a child.\<close>

lemma tree_split:
  assumes "tree_inv X h kids" "h s = Some n" "mParent n = Some g" "g \<notin> X"
  shows "\<exists>xs ys. kids g = xs @ s # ys \<and> mPrev n = last_or None xs \<and> mNext n = hd_or ys None \<and>
    (\<forall>p \<in> set (xs @ ys). h p \<noteq> None \<and> p \<noteq> s) \<and> (\<exists>u v. ends h g = Some (True, u, v))"
proof -
  have "s \<in> set (kids g)" using tree_child [OF assms(1), of s g] assms(2,3) by (simp add: links_def)
  then obtain xs ys where k: "kids g = xs @ s # ys" by (auto dest: split_list)
  then obtain u v where e: "ends h g = Some (True, u, v)" using tree_is_group [OF assms(1), of g] by auto
  then have "dseg h g None (xs @ s # ys) None" using tree_groupD [OF assms(1) e assms(4)] k by simp
  moreover have "h p \<noteq> None" if "p \<in> set (kids g)" for p using tree_kid [OF assms(1) that] by (auto simp: links_def)
  moreover have "distinct (xs @ s # ys)" using tree_distinct [OF assms(1), of g] k by simp
  ultimately show ?thesis using k e assms(2) by (intro exI [of _ xs] exI [of _ ys]) auto
qed

lemma set_node_modify: "nodes w p \<noteq> None \<Longrightarrow> set_node p f w = Some (w\<lparr>nodes := modify (nodes w) p f\<rparr>)"
  by (auto simp: set_node_def modify_def)

lemma step_right:
  assumes "nodes w g \<noteq> None" "\<forall>p \<in> set xs. nodes w p \<noteq> None"
  shows "(case last_or None xs of Some p \<Rightarrow> set_node p (\<lambda>m. m\<lparr>mNext := v\<rparr>) w | None \<Rightarrow> set_node g (\<lambda>m. m\<lparr>mHead := v\<rparr>) w) =
    Some (w\<lparr>nodes := set_right g xs v (nodes w)\<rparr>)"
  using assms by (auto simp: last_or_def set_right_def set_node_modify)

lemma step_left:
  assumes "nodes w g \<noteq> None" "\<forall>p \<in> set ys. nodes w p \<noteq> None"
  shows "(case hd_or ys None of Some p \<Rightarrow> set_node p (\<lambda>m. m\<lparr>mPrev := v\<rparr>) w | None \<Rightarrow> set_node g (\<lambda>m. m\<lparr>mTail := v\<rparr>) w) =
    Some (w\<lparr>nodes := set_left g ys v (nodes w)\<rparr>)"
  using assms by (cases ys) (auto simp: set_left_def set_node_modify)

lemma nodes_exist [simp]:
  "set_right g xs v h p = None \<longleftrightarrow> h p = None" "set_left g xs v h p = None \<longleftrightarrow> h p = None"
  "set_links s q pr nx h p = None \<longleftrightarrow> h p = None"
  by (auto simp: set_right_def set_left_def set_links_def)

lemma links_eqD:
  assumes "links h' s = links h s" "h s = Some n"
  obtains n' where "h' s = Some n'" "mPrev n' = mPrev n" "mNext n' = mNext n" "mParent n' = mParent n"
  using assms that by (auto simp: links_def)

lemma Node_Remove_detached:
  assumes "tree_inv X (nodes w) kids" "nodes w s = Some n" "mParent n = None"
  shows "Node_Remove s w = Some (w\<lparr>nodes := set_links s None None None (nodes w)\<rparr>) \<and>
    tree_inv X (set_links s None None None (nodes w)) kids"
proof -
  have "mPrev n = None" "mNext n = None" using tree_free [OF assms(1), of s] assms(2,3) by (auto simp: links_def)
  moreover from this have "set_links s None None None (nodes w) = nodes w"
    using assms(2,3) by (auto simp: set_links_def fun_eq_iff)
  ultimately show ?thesis
    using assms by (simp add: Node_Remove_def set_node_modify set_links_def modify_def)
qed

lemma Node_Remove_child:
  assumes "tree_inv X (nodes w) kids" "nodes w s = Some n" "mParent n = Some g" "g \<notin> X"
  shows "\<exists>xs ys. kids g = xs @ s # ys \<and> Node_Remove s w = Some (w\<lparr>nodes := unlink g xs s ys (nodes w)\<rparr>)"
proof -
  obtain xs ys where k: "kids g = xs @ s # ys" "mPrev n = last_or None xs" "mNext n = hd_or ys None"
      "\<forall>p \<in> set (xs @ ys). nodes w p \<noteq> None \<and> p \<noteq> s" "\<exists>u v. ends (nodes w) g = Some (True, u, v)"
    using tree_split [OF assms] by blast
  have g: "nodes w g \<noteq> None" using k(5) by (auto simp: ends_def)
  let ?w = "w\<lparr>nodes := set_right g xs (hd_or ys None) (nodes w)\<rparr>"
  have "links (nodes ?w) s = links (nodes w) s" using k(4) by (auto simp: links_set_right)
  then obtain n' where n': "nodes ?w s = Some n'" "mPrev n' = mPrev n" "mNext n' = mNext n"
    using assms(2) by (rule links_eqD) simp
  have "Node_Remove s w = Some (w\<lparr>nodes := unlink g xs s ys (nodes w)\<rparr>)"
    using assms(2,3) k(2-4) n' g step_right [of w g xs "hd_or ys None"] step_left [of ?w g ys "last_or None xs"]
    by (simp add: Node_Remove_def Let_def set_node_modify unlink_def set_links_def cong: option.case_cong)
  with k(1) show ?thesis by blast
qed

lemma Node_AddAfter_ok:
  assumes "tree_inv X (nodes w) kids" "nodes w a = Some na" "mParent na = Some g" "g \<notin> X"
    and "nodes w s = Some n" "mParent n = None" "mID n \<noteq> 0"
  shows "\<exists>xs ys. kids g = xs @ a # ys \<and>
    Node_AddAfter s a w = Some (w\<lparr>nodes := link_in g (xs @ [a]) s ys (nodes w)\<rparr>)"
proof -
  obtain xs ys where k: "kids g = xs @ a # ys" "mNext na = hd_or ys None"
      "\<forall>p \<in> set (xs @ ys). nodes w p \<noteq> None" "\<exists>u v. ends (nodes w) g = Some (True, u, v)"
    using tree_split [OF assms(1-4)] by blast
  have g: "nodes w g \<noteq> None" using k(4) by (auto simp: ends_def)
  have sa: "s \<noteq> a" using assms by auto
  let ?h = "set_links s (Some g) (Some a) (hd_or ys None) (nodes w)" 
  let ?w = "w\<lparr>nodes := ?h\<rparr>"
  have "?h a = Some na" "map_option mParent (?h s) = Some (Some g)" using sa assms by (simp_all add: set_links_def)
  moreover have "set_right g (xs @ [a]) (Some s) (set_left g ys (Some s) ?h) = set_left g ys (Some s) (set_right g (xs @ [a]) (Some s) ?h)"
    by (cases ys) (simp_all add: set_right_def set_left_def modify_commute fun_eq_iff)
  ultimately have "Node_AddAfter s a w = Some (w\<lparr>nodes := link_in g (xs @ [a]) s ys (nodes w)\<rparr>)"
    using assms k(2,3) g step_left [of ?w g ys "Some s"]
    by (auto simp: Node_AddAfter_def Let_def set_node_modify link_in_def set_links_def set_right_def cong: option.case_cong)
  with k(1) show ?thesis by blast
qed

lemma set_right_left:
  "set_right g xs a (set_left g ys b h) = set_left g ys b (set_right g xs a h)"
  by (auto simp: set_right_def set_left_def intro!: modify_commute)

lemma Node_AddBefore_ok:
  assumes "tree_inv X (nodes w) kids" "nodes w b = Some nb" "mParent nb = Some g" "g \<notin> X"
    and "nodes w s = Some n" "mParent n = None" "mID n \<noteq> 0"
  shows "\<exists>xs ys. kids g = xs @ b # ys \<and>
    Node_AddBefore s b w = Some (w\<lparr>nodes := link_in g xs s (b # ys) (nodes w)\<rparr>)"
proof -
  obtain xs ys where k: "kids g = xs @ b # ys" "mPrev nb = last_or None xs"
      "\<forall>p \<in> set (xs @ ys). nodes w p \<noteq> None" "\<exists>u v. ends (nodes w) g = Some (True, u, v)"
    using tree_split [OF assms(1-4)] by blast
  have g: "nodes w g \<noteq> None" using k(4) by (auto simp: ends_def)
  have sb: "s \<noteq> b" using assms by auto
  let ?h = "set_links s (Some g) (last_or None xs) (Some b) (nodes w)"
  let ?w = "w\<lparr>nodes := ?h\<rparr>"
  have "?h b = Some nb" "map_option mParent (?h s) = Some (Some g)" using sb assms by (simp_all add: set_links_def)
  then have "Node_AddBefore s b w = Some (w\<lparr>nodes := link_in g xs s (b # ys) (nodes w)\<rparr>)"
    using assms k(2,3) g step_right [of ?w g xs "Some s"]
    by (auto simp: Node_AddBefore_def Let_def set_node_modify link_in_def set_links_def set_left_def cong: option.case_cong)
  with k(1) show ?thesis by blast
qed

lemma set_links_steps:
  assumes "s \<noteq> g" "s \<notin> set (xs @ ys)"
  shows "modify (set_left g ys v (set_right g xs u (modify h s (\<lambda>m. m\<lparr>mPrev := a, mNext := b\<rparr>)))) s (\<lambda>m. m\<lparr>mParent := q\<rparr>) =
    set_left g ys v (set_right g xs u (set_links s q a b h))"
proof (rule ext)
  fix p
  show "modify (set_left g ys v (set_right g xs u (modify h s (\<lambda>m. m\<lparr>mPrev := a, mNext := b\<rparr>)))) s (\<lambda>m. m\<lparr>mParent := q\<rparr>) p =
      set_left g ys v (set_right g xs u (set_links s q a b h)) p"
    using assms by (cases "xs = []"; cases "ys = []"; cases "p = s")
      (auto simp: set_left_def set_right_def set_links_def option.map_comp comp_def)
qed

lemma set_both: "modify h g (\<lambda>m. m\<lparr>mHead := a, mTail := b\<rparr>) = set_left g [] b (set_right g [] a h)"
  by (auto simp: set_left_def set_right_def fun_eq_iff option.map_comp comp_def)

lemma Group_AddHead_ok:
  assumes "tree_inv X (nodes w) kids" "nodes w g = Some ng" "mIsGroup ng" "g \<notin> X"
    and "nodes w s = Some n" "mParent n = None" "mID n \<noteq> 0" "s \<noteq> g"
  shows "Group_AddHead g s w = Some (w\<lparr>nodes := link_in g [] s (kids g) (nodes w)\<rparr>)"
proof -
  have e: "ends (nodes w) g = Some (True, mHead ng, mTail ng)" using assms(2,3) by (simp add: ends_def)
  note gr = tree_groupD [OF assms(1) e assms(4)]
  have ex: "\<forall>p \<in> set (kids g). nodes w p \<noteq> None \<and> p \<noteq> s"
    using tree_kid [OF assms(1)] assms(5,6) by (fastforce simp: links_def)
  let ?h = "modify (nodes w) s (\<lambda>m. m\<lparr>mPrev := None, mNext := hd_or (kids g) None\<rparr>)"
  have steps: "link_in g [] s (kids g) (nodes w) =
      modify (set_left g (kids g) (Some s) (set_right g [] (Some s) ?h)) s (\<lambda>m. m\<lparr>mParent := Some g\<rparr>)"
    using set_links_steps [of s g "[]" "kids g"] ex assms(8) by (auto simp: link_in_def)
  show ?thesis
  proof (cases "kids g")
    case Nil
    then show ?thesis
      using assms gr steps by (simp add: Group_AddHead_def set_node_modify set_both)
  next
    case (Cons c cs)
    have "modify (modify h c (mPrev_update (\<lambda>_. Some s))) g (mHead_update (\<lambda>_. Some s)) =
        modify (modify h g (mHead_update (\<lambda>_. Some s))) c (mPrev_update (\<lambda>_. Some s))" for h
      by (rule modify_commute) (simp add: fun_eq_iff)
    then show ?thesis
      using Cons assms gr ex steps
      by (simp add: Group_AddHead_def set_node_modify set_left_def set_right_def)
  qed
qed

lemma Group_AddTail_ok:
  assumes "tree_inv X (nodes w) kids" "nodes w g = Some ng" "mIsGroup ng" "g \<notin> X"
    and "nodes w s = Some n" "mParent n = None" "mID n \<noteq> 0" "s \<noteq> g"
  shows "Group_AddTail g s w = Some (w\<lparr>nodes := link_in g (kids g) s [] (nodes w)\<rparr>)"
proof -
  have e: "ends (nodes w) g = Some (True, mHead ng, mTail ng)" using assms(2,3) by (simp add: ends_def)
  note gr = tree_groupD [OF assms(1) e assms(4)]
  have ex: "\<forall>p \<in> set (kids g). nodes w p \<noteq> None \<and> p \<noteq> s"
    using tree_kid [OF assms(1)] assms(5,6) by (fastforce simp: links_def)
  let ?h = "modify (nodes w) s (\<lambda>m. m\<lparr>mPrev := last_or None (kids g), mNext := None\<rparr>)"
  have steps: "link_in g (kids g) s [] (nodes w) =
      modify (set_left g [] (Some s) (set_right g (kids g) (Some s) ?h)) s (\<lambda>m. m\<lparr>mParent := Some g\<rparr>)"
    using set_links_steps [of s g "kids g" "[]"] ex assms(8) by (auto simp: link_in_def)
  show ?thesis
  proof (cases "kids g" rule: rev_cases)
    case Nil
    then show ?thesis
      using assms gr steps by (simp add: Group_AddTail_def set_node_modify set_both)
  next
    case (snoc cs c)
    then show ?thesis
      using assms gr ex steps
      by (simp add: Group_AddTail_def set_node_modify set_left_def set_right_def)
  qed
qed

end
