(* ===== verification/SC_NodeCommands.thy ===== *)
theory SC_NodeCommands
  imports SC_NodeTree
begin

text \<open>
  The commands of the server that change the node tree (\<open>server/scsynth/SC_MiscCmds.cpp\<close>), over the
  operations of \<open>SC_NodeTree\<close>. The loop of a command over its message is a recursion over the list
  of decoded arguments; a node is named by its id or by a path that starts at an id. Commands
  that create nodes take the addresses of the allocator with their arguments, commands that
  delete nodes a bound for the depth of the deletion.
\<close>

section \<open>Arguments\<close>

datatype node_ref = ById int | ByPath string int

fun walk :: "SC_World \<Rightarrow> string \<Rightarrow> addr option \<Rightarrow> addr option option" where
  "walk w [] node = Some node"
| "walk w (c # loc) None = Some None"
| "walk w (c # loc) (Some p) = do {
     n \<leftarrow> nodes w p;
     if c = CHR ''h'' then if \<not> mIsGroup n then Some None else walk w loc (mHead n)
     else if c = CHR ''t'' then if \<not> mIsGroup n then Some None else walk w loc (mTail n)
     else if c = CHR ''u'' then walk w loc (mParent n)
     else if c = CHR ''p'' then walk w loc (mPrev n)
     else if c = CHR ''n'' then walk w loc (mNext n)
     else walk w loc (Some p) }"

definition Msg_GetNode :: "SC_World \<Rightarrow> node_ref \<Rightarrow> addr option option" where
  "Msg_GetNode w r = (case r of
     ById i \<Rightarrow> World_GetNode w i
   | ByPath loc i \<Rightarrow> do { node \<leftarrow> World_GetNode w i; walk w loc node })"

definition Msg_GetGroup :: "SC_World \<Rightarrow> node_ref \<Rightarrow> addr option option" where
  "Msg_GetGroup w r = do {
     node \<leftarrow> Msg_GetNode w r;
     case node of None \<Rightarrow> Some None
     | Some p \<Rightarrow> do { n \<leftarrow> nodes w p; Some (if mIsGroup n then Some p else None) } }"

section \<open>Moving nodes\<close>

definition move_before :: "addr \<Rightarrow> addr \<Rightarrow> SC_World \<Rightarrow> SC_World option" where
  "move_before node target w = do {
     w \<leftarrow> Node_Remove node w;
     w \<leftarrow> Node_AddBefore node target w;
     Node_StateMsg node kNode_Move w }"

definition move_after :: "addr \<Rightarrow> addr \<Rightarrow> SC_World \<Rightarrow> SC_World option" where
  "move_after node target w = do {
     w \<leftarrow> Node_Remove node w;
     w \<leftarrow> Node_AddAfter node target w;
     Node_StateMsg node kNode_Move w }"

definition move_head :: "addr \<Rightarrow> addr \<Rightarrow> SC_World \<Rightarrow> SC_World option" where
  "move_head g node w = do {
     n \<leftarrow> nodes w node;
     let prevGroup = mParent n;
     w \<leftarrow> Node_Remove node w;
     w \<leftarrow> Group_AddHead g node w;
     if Some g \<noteq> prevGroup then Node_StateMsg node kNode_Move w else Some w }"

text \<open>\<open>meth_g_tail\<close> always notifies, \<open>meth_n_order\<close> only when the group changes.\<close>

definition move_tail :: "bool \<Rightarrow> addr \<Rightarrow> addr \<Rightarrow> SC_World \<Rightarrow> SC_World option" where
  "move_tail always g node w = do {
     n \<leftarrow> nodes w node;
     let prevGroup = mParent n;
     w \<leftarrow> Node_Remove node w;
     w \<leftarrow> Group_AddTail g node w;
     if always \<or> Some g \<noteq> prevGroup then Node_StateMsg node kNode_Move w else Some w }"

definition move_insert :: "addr \<Rightarrow> addr \<Rightarrow> int \<Rightarrow> SC_World \<Rightarrow> SC_World option" where
  "move_insert g node index w = do {
     n \<leftarrow> nodes w node;
     let prevGroup = mParent n;
     w \<leftarrow> Node_Remove node w;
     w \<leftarrow> Group_Insert g node index w;
     if Some g \<noteq> prevGroup then Node_StateMsg node kNode_Move w else Some w }"

fun meth_g_head :: "(node_ref \<times> node_ref) list \<Rightarrow> SC_World \<Rightarrow> (SCErr \<times> SC_World) option" where
  "meth_g_head [] w = Some (kSCErr_None, w)"
| "meth_g_head ((gr, nr) # args) w = do {
     g \<leftarrow> Msg_GetGroup w gr;
     case g of None \<Rightarrow> Some (kSCErr_GroupNotFound, w)
     | Some g \<Rightarrow> do {
         node \<leftarrow> Msg_GetNode w nr;
         case node of None \<Rightarrow> Some (kSCErr_NodeNotFound, w)
         | Some p \<Rightarrow> do { w \<leftarrow> move_head g p w; meth_g_head args w } } }"

fun meth_g_tail :: "(node_ref \<times> node_ref) list \<Rightarrow> SC_World \<Rightarrow> (SCErr \<times> SC_World) option" where
  "meth_g_tail [] w = Some (kSCErr_None, w)"
| "meth_g_tail ((gr, nr) # args) w = do {
     g \<leftarrow> Msg_GetGroup w gr;
     case g of None \<Rightarrow> Some (kSCErr_GroupNotFound, w)
     | Some g \<Rightarrow> do {
         node \<leftarrow> Msg_GetNode w nr;
         case node of None \<Rightarrow> Some (kSCErr_NodeNotFound, w)
         | Some p \<Rightarrow> do { w \<leftarrow> move_tail True g p w; meth_g_tail args w } } }"

fun meth_g_insert :: "(node_ref \<times> node_ref \<times> int) list \<Rightarrow> SC_World \<Rightarrow> (SCErr \<times> SC_World) option" where
  "meth_g_insert [] w = Some (kSCErr_None, w)"
| "meth_g_insert ((gr, nr, index) # args) w = do {
     g \<leftarrow> Msg_GetGroup w gr;
     case g of None \<Rightarrow> Some (kSCErr_GroupNotFound, w)
     | Some g \<Rightarrow> do {
         node \<leftarrow> Msg_GetNode w nr;
         case node of None \<Rightarrow> Some (kSCErr_NodeNotFound, w)
         | Some p \<Rightarrow> do { w \<leftarrow> move_insert g p index w; meth_g_insert args w } } }"

text \<open>
  \<open>meth_n_before\<close> and \<open>meth_n_after\<close> move a pair when they have read the next one, unless the next one
  has the same node; \<open>prev\<close> is the last pair that was found.
\<close>

fun before_loop :: "(addr \<times> addr) option \<Rightarrow> (node_ref \<times> node_ref) list \<Rightarrow> SC_World \<Rightarrow> ((addr \<times> addr) option \<times> SC_World) option" where
  "before_loop prev [] w = Some (prev, w)"
| "before_loop prev ((nr, tr) # args) w = do {
     node \<leftarrow> Msg_GetNode w nr;
     target \<leftarrow> Msg_GetNode w tr;
     case (node, target) of
       (Some p, Some t) \<Rightarrow> do {
         w \<leftarrow> (case prev of Some (q, u) \<Rightarrow> if q \<noteq> p then move_before q u w else Some w | None \<Rightarrow> Some w);
         before_loop (Some (p, t)) args w }
     | _ \<Rightarrow> before_loop prev args w }"

definition meth_n_before :: "(node_ref \<times> node_ref) list \<Rightarrow> SC_World \<Rightarrow> (SCErr \<times> SC_World) option" where
  "meth_n_before args w = do {
     (prev, w) \<leftarrow> before_loop None args w;
     w \<leftarrow> (case prev of Some (q, u) \<Rightarrow> if q \<noteq> u then move_before q u w else Some w | None \<Rightarrow> Some w);
     Some (kSCErr_None, w) }"

fun after_loop :: "(addr \<times> addr) option \<Rightarrow> (node_ref \<times> node_ref) list \<Rightarrow> SC_World \<Rightarrow> ((addr \<times> addr) option \<times> SC_World) option" where
  "after_loop prev [] w = Some (prev, w)"
| "after_loop prev ((nr, tr) # args) w = do {
     node \<leftarrow> Msg_GetNode w nr;
     target \<leftarrow> Msg_GetNode w tr;
     case (node, target) of
       (Some p, Some t) \<Rightarrow> do {
         w \<leftarrow> (case prev of Some (q, u) \<Rightarrow> if q \<noteq> p then move_after q u w else Some w | None \<Rightarrow> Some w);
         after_loop (Some (p, t)) args w }
     | _ \<Rightarrow> after_loop prev args w }"

definition meth_n_after :: "(node_ref \<times> node_ref) list \<Rightarrow> SC_World \<Rightarrow> (SCErr \<times> SC_World) option" where
  "meth_n_after args w = do {
     (prev, w) \<leftarrow> after_loop None args w;
     w \<leftarrow> (case prev of Some (q, u) \<Rightarrow> move_after q u w | None \<Rightarrow> Some w);
     Some (kSCErr_None, w) }"

text \<open>The first node of the list that exists, and the rest of the list.\<close>

fun first_node :: "SC_World \<Rightarrow> node_ref list \<Rightarrow> (addr \<times> node_ref list) option option" where
  "first_node w [] = Some None"
| "first_node w (r # rs) = do {
     node \<leftarrow> Msg_GetNode w r;
     case node of None \<Rightarrow> first_node w rs | Some p \<Rightarrow> Some (Some (p, rs)) }"

fun order_loop :: "addr \<Rightarrow> node_ref list \<Rightarrow> SC_World \<Rightarrow> SC_World option" where
  "order_loop prev [] w = Some w"
| "order_loop prev (r # rs) w = do {
     node \<leftarrow> Msg_GetNode w r;
     case node of None \<Rightarrow> order_loop prev rs w
     | Some p \<Rightarrow> do { w \<leftarrow> move_after p prev w; order_loop p rs w } }"

definition meth_n_order :: "int \<Rightarrow> node_ref \<Rightarrow> node_ref list \<Rightarrow> SC_World \<Rightarrow> (SCErr \<times> SC_World) option" where
  "meth_n_order addAction tr rs w =
     (if addAction \<notin> {0, 1, 2, 3} then Some (kSCErr_Failed, w)
      else do {
        target \<leftarrow> (if addAction \<in> {0, 1} then Msg_GetGroup w tr else Msg_GetNode w tr);
        case target of
          None \<Rightarrow> Some (if addAction \<in> {0, 1} then kSCErr_GroupNotFound else kSCErr_TargetNodeNotFound, w)
        | Some t \<Rightarrow> do {
            first \<leftarrow> first_node w rs;
            case first of None \<Rightarrow> Some (kSCErr_NodeNotFound, w)
            | Some (p, rs) \<Rightarrow> do {
                w \<leftarrow> (if addAction = 0 then move_head t p w
                     else if addAction = 1 then move_tail False t p w
                     else if addAction = 2 then move_before p t w
                     else move_after p t w);
                w \<leftarrow> order_loop p rs w;
                Some (kSCErr_None, w) } } })"

section \<open>Creating, freeing and pausing nodes\<close>

definition new_group_in :: "addr \<Rightarrow> int \<Rightarrow> (addr \<Rightarrow> SC_World \<Rightarrow> SC_World option) \<Rightarrow> (SC_World \<Rightarrow> addr \<Rightarrow> bool option) \<Rightarrow>
    SC_World \<Rightarrow> (SCErr \<times> addr \<times> SC_World) option" where
  "new_group_in p i link same_place w = do {
     (err, w) \<leftarrow> Group_New p i w;
     if err = kSCErr_None then do { w \<leftarrow> link p w; Some (kSCErr_None, p, w) }
     else if err = kSCErr_DuplicateNodeID then do {
       old \<leftarrow> World_GetGroup w i;
       case old of None \<Rightarrow> Some (err, p, w)
       | Some q \<Rightarrow> do { ok \<leftarrow> same_place w q; Some (if ok then kSCErr_None else err, q, w) } }
     else Some (err, p, w) }"

definition parent_is :: "addr \<Rightarrow> SC_World \<Rightarrow> addr \<Rightarrow> bool option" where
  "parent_is g w q = do { n \<leftarrow> nodes w q; Some (mParent n = Some g) }"

text \<open>The comparison with the ids of the parents; the target has to have a parent when it is evaluated.\<close>

definition same_parent :: "addr \<Rightarrow> SC_World \<Rightarrow> addr \<Rightarrow> bool option" where
  "same_parent t w q = do {
     n \<leftarrow> nodes w q;
     case mParent n of None \<Rightarrow> Some False
     | Some g \<Rightarrow> do {
         ng \<leftarrow> nodes w g;
         nt \<leftarrow> nodes w t;
         gt \<leftarrow> mParent nt;
         ngt \<leftarrow> nodes w gt;
         Some (mID ng = mID ngt) } }"

definition g_new_step :: "nat \<Rightarrow> addr \<Rightarrow> int \<Rightarrow> int \<Rightarrow> node_ref \<Rightarrow> SC_World \<Rightarrow> (SCErr \<times> addr \<times> SC_World) option" where
  "g_new_step k p newGroupID addAction tr w =
     (if addAction = 0 \<or> addAction = 1 then do {
        g \<leftarrow> Msg_GetGroup w tr;
        case g of None \<Rightarrow> Some (kSCErr_GroupNotFound, p, w)
        | Some g \<Rightarrow> new_group_in p newGroupID (if addAction = 0 then Group_AddHead g else Group_AddTail g) (parent_is g) w }
      else if addAction = 2 \<or> addAction = 3 then do {
        t \<leftarrow> Msg_GetNode w tr;
        case t of None \<Rightarrow> Some (kSCErr_TargetNodeNotFound, p, w)
        | Some t \<Rightarrow> new_group_in p newGroupID
            (\<lambda>p. if addAction = 2 then Node_AddBefore p t else Node_AddAfter p t) (same_parent t) w }
      else if addAction = 4 then do {
        t \<leftarrow> Msg_GetNode w tr;
        case t of None \<Rightarrow> Some (kSCErr_TargetNodeNotFound, p, w)
        | Some t \<Rightarrow> do {
            n \<leftarrow> nodes w t;
            if mID n = 0 then Some (kSCErr_ReplaceRootGroup, p, w)
            else do {
              (err, w) \<leftarrow> Node_RemoveID k t w;
              if err \<noteq> kSCErr_None then Some (err, p, w)
              else do {
                (err, w) \<leftarrow> Group_New p newGroupID w;
                if err \<noteq> kSCErr_None then Some (err, p, w)
                else do { w \<leftarrow> Node_Replace k p t w; Some (kSCErr_None, p, w) } } } } }
      else Some (kSCErr_Failed, p, w))"

fun meth_g_new :: "nat \<Rightarrow> (addr \<times> int \<times> int \<times> node_ref) list \<Rightarrow> SC_World \<Rightarrow> (SCErr \<times> SC_World) option" where
  "meth_g_new k [] w = Some (kSCErr_None, w)"
| "meth_g_new k ((p, i, addAction, tr) # args) w = do {
     (err, q, w) \<leftarrow> g_new_step k p i addAction tr w;
     if err \<noteq> kSCErr_None then Some (err, w)
     else do { w \<leftarrow> Node_StateMsg q kNode_Go w; meth_g_new k args w } }"

text \<open>
  \<open>meth_s_new\<close> and \<open>meth_s_newargs\<close> differ in how they read the controls, which are not modelled, and
  in that only the first frees the id of a node that it replaces. \<open>def\<close> is the answer of
  \<open>World_GetGraphDef\<close> for the name of the definition, \<open>None\<close> when the message has no name.
\<close>

definition new_synth_in :: "addr \<Rightarrow> int \<Rightarrow> (addr \<Rightarrow> SC_World \<Rightarrow> SC_World option) \<Rightarrow> SC_World \<Rightarrow> (SCErr \<times> SC_World) option" where
  "new_synth_in p i link w = do {
     (err, w) \<leftarrow> Graph_New p i w;
     if err \<noteq> kSCErr_None then Some (err, w)
     else do { w \<leftarrow> link p w; w \<leftarrow> Node_StateMsg p kNode_Go w; Some (kSCErr_None, w) } }"

definition s_new :: "bool \<Rightarrow> nat \<Rightarrow> bool option \<Rightarrow> addr \<Rightarrow> int \<Rightarrow> int \<Rightarrow> node_ref \<Rightarrow> SC_World \<Rightarrow> (SCErr \<times> SC_World) option" where
  "s_new removeID k def p nodeID addAction tr w =
     (case def of None \<Rightarrow> Some (kSCErr_WrongArgType, w) | Some False \<Rightarrow> Some (kSCErr_SynthDefNotFound, w)
      | Some True \<Rightarrow>
        if addAction = 0 \<or> addAction = 1 then do {
          g \<leftarrow> Msg_GetGroup w tr;
          case g of None \<Rightarrow> Some (kSCErr_GroupNotFound, w)
          | Some g \<Rightarrow> new_synth_in p nodeID (if addAction = 0 then Group_AddHead g else Group_AddTail g) w }
        else if addAction = 2 \<or> addAction = 3 then do {
          t \<leftarrow> Msg_GetNode w tr;
          case t of None \<Rightarrow> Some (kSCErr_NodeNotFound, w)
          | Some t \<Rightarrow> new_synth_in p nodeID (\<lambda>p. if addAction = 2 then Node_AddBefore p t else Node_AddAfter p t) w }
        else if addAction = 4 then do {
          t \<leftarrow> Msg_GetNode w tr;
          case t of None \<Rightarrow> Some (kSCErr_NodeNotFound, w)
          | Some t \<Rightarrow> do {
              (err, w) \<leftarrow> (if removeID then Node_RemoveID k t w else Some (kSCErr_None, w));
              if err \<noteq> kSCErr_None then Some (err, w)
              else new_synth_in p nodeID (\<lambda>p. Node_Replace k p t) w } }
        else Some (kSCErr_Failed, w))"

definition meth_s_new :: "nat \<Rightarrow> bool option \<Rightarrow> addr \<Rightarrow> int \<Rightarrow> int \<Rightarrow> node_ref \<Rightarrow> SC_World \<Rightarrow> (SCErr \<times> SC_World) option" where
  "meth_s_new = s_new True"

definition meth_s_newargs :: "nat \<Rightarrow> bool option \<Rightarrow> addr \<Rightarrow> int \<Rightarrow> int \<Rightarrow> node_ref \<Rightarrow> SC_World \<Rightarrow> (SCErr \<times> SC_World) option" where
  "meth_s_newargs = s_new False"

fun meth_n_free :: "nat \<Rightarrow> node_ref list \<Rightarrow> SC_World \<Rightarrow> (SCErr \<times> SC_World) option" where
  "meth_n_free k [] w = Some (kSCErr_None, w)"
| "meth_n_free k (r # rs) w = do {
     node \<leftarrow> Msg_GetNode w r;
     case node of None \<Rightarrow> Some (kSCErr_NodeNotFound, w)
     | Some p \<Rightarrow> do { w \<leftarrow> Node_Delete k p w; meth_n_free k rs w } }"

fun meth_g_freeAll :: "nat \<Rightarrow> node_ref list \<Rightarrow> SC_World \<Rightarrow> (SCErr \<times> SC_World) option" where
  "meth_g_freeAll k [] w = Some (kSCErr_None, w)"
| "meth_g_freeAll k (r # rs) w = do {
     g \<leftarrow> Msg_GetGroup w r;
     case g of None \<Rightarrow> Some (kSCErr_GroupNotFound, w)
     | Some g \<Rightarrow> do { w \<leftarrow> Group_DeleteAll k g w; meth_g_freeAll k rs w } }"

fun meth_g_deepFree :: "nat \<Rightarrow> node_ref list \<Rightarrow> SC_World \<Rightarrow> (SCErr \<times> SC_World) option" where
  "meth_g_deepFree k [] w = Some (kSCErr_None, w)"
| "meth_g_deepFree k (r # rs) w = do {
     g \<leftarrow> Msg_GetGroup w r;
     case g of None \<Rightarrow> Some (kSCErr_GroupNotFound, w)
     | Some g \<Rightarrow> do { w \<leftarrow> Group_DeepFreeGraphs k g w; meth_g_deepFree k rs w } }"

fun meth_n_run :: "(node_ref \<times> int) list \<Rightarrow> SC_World \<Rightarrow> (SCErr \<times> SC_World) option" where
  "meth_n_run [] w = Some (kSCErr_None, w)"
| "meth_n_run ((r, run) # args) w = do {
     node \<leftarrow> Msg_GetNode w r;
     case node of None \<Rightarrow> Some (kSCErr_NodeNotFound, w)
     | Some p \<Rightarrow> do { w \<leftarrow> Node_SetRun p (run \<noteq> 0) w; meth_n_run args w } }"

section \<open>Lemmas: identities and the library\<close>

text \<open>Linking changes neither the ids nor the kinds of the nodes.\<close>

definition ident :: "(addr \<rightharpoonup> Node) \<Rightarrow> addr \<Rightarrow> (int \<times> 32 word \<times> NodeCalcFunc \<times> bool) option" where
  "ident h p = map_option (\<lambda>n. (mID n, mHash n, mCalcFunc n, mIsGroup n)) (h p)"

lemma ident_links [simp]:
  "ident (set_right g xs v h) = ident h" "ident (set_left g xs v h) = ident h" "ident (set_links s q pr nx h) = ident h"
  by (auto simp: ident_def set_right_def set_left_def set_links_def fun_eq_iff option.map_comp comp_def)

lemma ident_link_in [simp]: "ident (link_in g xs s ys h) = ident h" "ident (unlink g xs s ys h) = ident h"
  by (simp_all add: link_in_def unlink_def)

definition frame :: "SC_World \<Rightarrow> int \<times> int \<times> int" where
  "frame w = (mHiddenID w, mRecentID w, mMaxItems (mNodeLib w))"

definition lib_inv :: "SC_World \<Rightarrow> bool" where
  "lib_inv w \<longleftrightarrow> fixed_inv (node_key w) (mNodeLib w) \<and> items (mNodeLib w) = dom (nodes w) \<and>
     (\<forall>p n. nodes w p = Some n \<longrightarrow> mHash n = Hash_int (word_of_int (mID n)))"

lemma ident_dom: "ident h' = ident h \<Longrightarrow> dom h' = dom h"
proof -
  have "dom k = {p. ident k p \<noteq> None}" for k by (auto simp: ident_def)
  then show "ident h' = ident h \<Longrightarrow> dom h' = dom h" by simp
qed

lemma ident_some:
  assumes "ident h' = ident h" "h p = Some n"
  shows "\<exists>n'. h' p = Some n' \<and> mID n' = mID n \<and> mHash n' = mHash n \<and> mCalcFunc n' = mCalcFunc n \<and> mIsGroup n' = mIsGroup n"
  using fun_cong [OF assms(1), of p] assms(2) by (auto simp: ident_def)

lemma node_key_ident: "node_key w p = (case ident (nodes w) p of Some (i, h, _) \<Rightarrow> (h, i) | None \<Rightarrow> (0, 0))"
  by (auto simp: node_key_def ident_def split: option.split)

lemma lib_inv_ident:
  assumes "lib_inv w" "ident (nodes w') = ident (nodes w)" "mNodeLib w' = mNodeLib w"
  shows "lib_inv w'"
proof -
  have "node_key w' = node_key w" using assms(2) by (simp add: node_key_ident fun_eq_iff)
  moreover have "mHash n = Hash_int (word_of_int (mID n))" if "nodes w' p = Some n" for p n
    using ident_some [OF assms(2) [symmetric] that] assms(1) by (auto simp: lib_inv_def)
  ultimately show ?thesis using assms ident_dom [OF assms(2)] by (simp add: lib_inv_def)
qed

lemma items_reached_cong:
  assumes "\<And>x. Some x \<in> set xs \<Longrightarrow> kh' x = kh x"
  shows "items_ok kh' xs = items_ok kh xs"
proof -
  have "kh' x = kh x" if "i < length xs" "xs ! i = Some x" for i x using assms that nth_mem by metis
  then show ?thesis
    unfolding items_ok_def items_reached_def keys_distinct_def home_def by (smt (verit, ccfv_SIG))
qed

lemma fixed_inv_cong:
  assumes "\<And>x. x \<in> items t \<Longrightarrow> kh' x = kh x"
  shows "fixed_inv kh' t = fixed_inv kh t"
  using items_reached_cong [of "mItems t" kh' kh] assms by (simp add: fixed_inv_def tab_inv_def items_def)

lemma World_GetNode_ok:
  assumes "lib_inv w"
  shows "\<exists>r. World_GetNode w i = Some r \<and>
    (\<forall>p. r = Some p \<longleftrightarrow> (\<exists>n. nodes w p = Some n \<and> mID n = (if i = -1 then mRecentID w else i)))"
proof -
  let ?i = "if i = -1 then mRecentID w else i"
  obtain r where r: "World_GetNode w i = Some r" "\<forall>p. r = Some p \<longleftrightarrow> p \<in> items (mNodeLib w) \<and> node_key w p = id_key ?i"
    using Get_iff [of "node_key w" "mNodeLib w" "id_key ?i"] assms by (auto simp: World_GetNode_def lib_inv_def fixed_inv_def)
  have "p \<in> items (mNodeLib w) \<and> node_key w p = id_key ?i \<longleftrightarrow> (\<exists>n. nodes w p = Some n \<and> mID n = ?i)" for p
    using assms by (auto simp: lib_inv_def node_key_def id_key_def)
  with r show ?thesis by blast
qed

lemma lib_ids: "lib_inv w \<Longrightarrow> nodes w p = Some n \<Longrightarrow> nodes w q = Some m \<Longrightarrow> mID n = mID m \<Longrightarrow> p = q"
  using items_unique [of "node_key w" "mNodeLib w" p q]
  by (auto simp: lib_inv_def fixed_inv_def node_key_def dom_def)

section \<open>The abstract tree\<close>

text \<open>
  The tree as lists of children, and what the operations mean there. A node that is in no list is
  detached.
\<close>

definition detach :: "addr \<Rightarrow> (addr \<Rightarrow> addr list) \<Rightarrow> addr \<Rightarrow> addr list" where
  "detach s kids = (\<lambda>g. remove1 s (kids g))"

fun ins_before :: "addr \<Rightarrow> addr \<Rightarrow> addr list \<Rightarrow> addr list" where
  "ins_before s t [] = []"
| "ins_before s t (x # xs) = (if x = t then s # t # xs else x # ins_before s t xs)"

fun ins_after :: "addr \<Rightarrow> addr \<Rightarrow> addr list \<Rightarrow> addr list" where
  "ins_after s t [] = []"
| "ins_after s t (x # xs) = (if x = t then t # s # xs else x # ins_after s t xs)"

datatype tree_move = Head addr addr | Tail addr addr | Before addr addr | After addr addr

fun spec_move :: "tree_move \<Rightarrow> (addr \<Rightarrow> addr list) \<Rightarrow> addr \<Rightarrow> addr list" where
  "spec_move (Head g s) kids = (detach s kids)(g := s # detach s kids g)"
| "spec_move (Tail g s) kids = (detach s kids)(g := detach s kids g @ [s])"
| "spec_move (Before s t) kids = (\<lambda>g. ins_before s t (detach s kids g))"
| "spec_move (After s t) kids = (\<lambda>g. ins_after s t (detach s kids g))"

definition below :: "(addr \<Rightarrow> addr list) \<Rightarrow> (addr \<times> addr) set" where
  "below kids = {(c, g). c \<in> set (kids g)}"

text \<open>The node that moves, and the moves that make sense: not of the root, and not below the node itself.\<close>

fun moved :: "tree_move \<Rightarrow> addr" where
  "moved (Head g s) = s" | "moved (Tail g s) = s" | "moved (Before s t) = s" | "moved (After s t) = s"

fun sensible :: "tree_move \<Rightarrow> (addr \<Rightarrow> addr list) \<Rightarrow> bool" where
  "sensible (Head g s) kids \<longleftrightarrow> (g, s) \<notin> (below kids)\<^sup>*"
| "sensible (Tail g s) kids \<longleftrightarrow> (g, s) \<notin> (below kids)\<^sup>*"
| "sensible (Before s t) kids \<longleftrightarrow> (t, s) \<notin> (below kids)\<^sup>+"
| "sensible (After s t) kids \<longleftrightarrow> (t, s) \<notin> (below kids)\<^sup>+"

lemma detach_split: "kids g = xs @ s # ys \<Longrightarrow> s \<notin> set xs \<Longrightarrow> detach s kids g = xs @ ys"
  by (simp add: detach_def remove1_append)

lemma detach_absent: "s \<notin> set (kids g) \<Longrightarrow> detach s kids g = kids g"
  by (simp add: detach_def remove1_idem)

lemma ins_before_split: "t \<notin> set xs \<Longrightarrow> ins_before s t (xs @ t # ys) = xs @ s # t # ys"
  and ins_after_split: "t \<notin> set xs \<Longrightarrow> ins_after s t (xs @ t # ys) = xs @ t # s # ys"
  by (induction xs) auto

lemma ins_absent: "t \<notin> set xs \<Longrightarrow> ins_before s t xs = xs" "t \<notin> set xs \<Longrightarrow> ins_after s t xs = xs"
  by (induction xs) auto

lemma set_ins: "set (ins_before s t xs) = (if t \<in> set xs then insert s (set xs) else set xs)"
  "set (ins_after s t xs) = (if t \<in> set xs then insert s (set xs) else set xs)"
  by (induction xs) auto

lemma below_detach: "below (detach s kids) \<subseteq> below kids"
  by (auto simp: below_def detach_def dest: notin_set_remove1 set_mp [OF set_remove1_subset])

lemma acyclic_move:
  assumes "acyclic (below kids)" "sensible m kids" "\<And>g g' t. t \<in> set (kids g) \<Longrightarrow> t \<in> set (kids g') \<Longrightarrow> g = g'"
  shows "acyclic (below (spec_move m kids))"
proof -
  have put: "acyclic B'" if "B' \<subseteq> insert (s, g) (below kids)" "(g, s) \<notin> (below kids)\<^sup>*" for B' s g
    using that assms(1) acyclic_insert [of s g "below kids"] acyclic_subset by blast
  have keep: "acyclic B'" if "B' \<subseteq> below kids" for B' using that assms(1) acyclic_subset by blast
  have sub: "c \<in> set (detach s kids g) \<Longrightarrow> c \<in> set (kids g)" for c s g
    using below_detach by (auto simp: below_def)
  have near: "acyclic B'" if B: "B' \<subseteq> below kids \<union> {(s, g) |g. t \<in> set (kids g)}" and st: "(t, s) \<notin> (below kids)\<^sup>+" for B' s t
  proof (cases "\<exists>g. t \<in> set (kids g)")
    case True
    then obtain g where g: "t \<in> set (kids g)" by blast
    then have "B' \<subseteq> insert (s, g) (below kids)" using B assms(3) by blast
    moreover have "(g, s) \<notin> (below kids)\<^sup>*"
      using st g rtrancl_into_trancl2 [of t g "below kids" s] by (auto simp: below_def)
    ultimately show ?thesis by (rule put)
  next
    case False
    then have "B' \<subseteq> below kids" using B by simp
    then show ?thesis by (rule keep)
  qed
  show ?thesis
  proof (cases m)
    case (Head g s)
    then show ?thesis using assms(2) sub by (intro put [of _ s g]) (auto simp: below_def split: if_splits)
  next
    case (Tail g s)
    then show ?thesis using assms(2) sub by (intro put [of _ s g]) (auto simp: below_def split: if_splits)
  next
    case (Before s t)
    then show ?thesis using assms(2) sub by (intro near [of _ s t]) (auto simp: below_def set_ins split: if_splits)
  next
    case (After s t)
    then show ?thesis using assms(2) sub by (intro near [of _ s t]) (auto simp: below_def set_ins split: if_splits)
  qed
qed

section \<open>Lemmas: moving nodes\<close>

definition run_move :: "tree_move \<Rightarrow> SC_World \<Rightarrow> SC_World option" where
  "run_move m = (case m of
     Head g s \<Rightarrow> move_head g s
   | Tail g s \<Rightarrow> move_tail True g s
   | Before s t \<Rightarrow> move_before s t
   | After s t \<Rightarrow> move_after s t)"

text \<open>
  The invariant of the server's tree: lists of children that agree with the links, a library that
  knows every node by its id, no cycles, and the root, the group with id 0, without parent.
\<close>

definition world_inv :: "addr \<Rightarrow> SC_World \<Rightarrow> (addr \<Rightarrow> addr list) \<Rightarrow> bool" where
  "world_inv r w kids \<longleftrightarrow> tree_inv {} (nodes w) kids \<and> lib_inv w \<and> acyclic (below kids) \<and>
     (\<exists>n. nodes w r = Some n \<and> mID n = 0 \<and> mIsGroup n \<and> mParent n = None)"

lemma tree_inv_ids:
  assumes "tree_inv X h kids" "\<And>p. links h' p = links h p" "\<And>p. ends h' p = ends h p"
  shows "tree_inv X h' kids"
proof -
  have "dseg h' g pr ps nx \<longleftrightarrow> dseg h g pr ps nx" for g pr ps nx by (rule dseg_cong) (rule assms(2))
  then show ?thesis using assms(1) unfolding tree_inv_def assms(2,3) by simp
qed

lemma opt_id_ok: "(\<And>p. q = Some p \<Longrightarrow> nodes w p \<noteq> None) \<Longrightarrow> \<exists>i. opt_id w q = Some i"
  by (cases q) (auto simp: opt_id_def)

lemma kids_exist: "tree_inv X h kids \<Longrightarrow> p \<in> set (kids g) \<Longrightarrow> h p \<noteq> None"
  using tree_kid by (fastforce simp: links_def)

lemma hd_or_mem: "hd_or xs None = Some p \<Longrightarrow> p \<in> set xs" and last_or_mem: "last_or None xs = Some p \<Longrightarrow> p \<in> set xs"
  by (cases xs; simp) (cases xs rule: rev_cases; simp)

lemma Node_StateMsg_ok:
  assumes "tree_inv X (nodes w) kids" "nodes w p = Some n" "p \<notin> X" "\<And>g. mParent n = Some g \<Longrightarrow> g \<notin> X"
  shows "\<exists>ms. Node_StateMsg p st w = Some (w\<lparr>mNodeEnds := ms\<rparr>)"
proof -
  have "\<exists>i. opt_id w (mParent n) = Some i"
  proof (cases "mParent n")
    case (Some g)
    then have "kids g \<noteq> []" using tree_child [OF assms(1), of p g] assms(2) by (auto simp: links_def)
    then obtain u v where "ends (nodes w) g = Some (True, u, v)" using tree_is_group [OF assms(1), of g] by auto
    then show ?thesis using Some by (intro opt_id_ok) (auto simp: ends_def)
  qed (simp add: opt_id_def)
  moreover have "\<exists>i. opt_id w (mPrev n) = Some i" "\<exists>i. opt_id w (mNext n) = Some i"
  proof -
    have "(\<forall>q. mPrev n = Some q \<longrightarrow> nodes w q \<noteq> None) \<and> (\<forall>q. mNext n = Some q \<longrightarrow> nodes w q \<noteq> None)"
    proof (cases "mParent n")
      case None
      then have "mPrev n = None \<and> mNext n = None"
        using tree_free [OF assms(1), of p "mPrev n" "mNext n"] assms(2) by (simp add: links_def)
      then show ?thesis by simp
    next
      case (Some g)
      obtain xs ys where "mPrev n = last_or None xs" "mNext n = hd_or ys None" "\<forall>q \<in> set (xs @ ys). nodes w q \<noteq> None \<and> q \<noteq> p"
        using tree_split [OF assms(1,2) Some assms(4) [OF Some]] by blast
      then show ?thesis using hd_or_mem [of ys] last_or_mem [of xs] by auto
    qed
    then show "\<exists>i. opt_id w (mPrev n) = Some i" "\<exists>i. opt_id w (mNext n) = Some i" using opt_id_ok by blast+
  qed
  moreover have "\<exists>i. opt_id w (if mIsGroup n then mHead n else None) = Some i" "\<exists>i. opt_id w (if mIsGroup n then mTail n else None) = Some i"
  proof -
    have "mHead n = hd_or (kids p) None \<and> mTail n = last_or None (kids p)" if "mIsGroup n"
      using tree_groupD [OF assms(1) _ assms(3), of "mHead n" "mTail n"] assms(2) that by (simp add: ends_def)
    then have "nodes w q \<noteq> None" if "mIsGroup n" "mHead n = Some q \<or> mTail n = Some q" for q
      using that kids_exist [OF assms(1), of q p] hd_or_mem [of "kids p" q] last_or_mem [of "kids p" q] by auto
    then show "\<exists>i. opt_id w (if mIsGroup n then mHead n else None) = Some i" "\<exists>i. opt_id w (if mIsGroup n then mTail n else None) = Some i"
      by (intro opt_id_ok; simp split: if_splits)+
  qed
  ultimately show ?thesis
    using assms(2) unfolding Node_StateMsg_def by (cases w) auto
qed

lemma Node_Remove_ok:
  assumes "tree_inv X (nodes w) kids" "nodes w s = Some n" "\<And>g. mParent n = Some g \<Longrightarrow> g \<notin> X"
  shows "\<exists>h. Node_Remove s w = Some (w\<lparr>nodes := h\<rparr>) \<and> ident h = ident (nodes w) \<and> tree_inv X h (detach s kids) \<and>
    (\<exists>n'. h s = Some n' \<and> mParent n' = None)"
proof (cases "mParent n")
  case None
  have "detach s kids = kids"
    using tree_kid [OF assms(1), of s] assms(2) None by (intro ext detach_absent) (auto simp: links_def)
  moreover have "\<exists>n'. set_links s None None None (nodes w) s = Some n' \<and> mParent n' = None"
    using assms(2) by (simp add: set_links_def)
  ultimately show ?thesis using Node_Remove_detached [OF assms(1,2) None] by auto
next
  case (Some g)
  obtain xs ys where k: "kids g = xs @ s # ys" "Node_Remove s w = Some (w\<lparr>nodes := unlink g xs s ys (nodes w)\<rparr>)"
    using Node_Remove_child [OF assms(1,2) Some assms(3) [OF Some]] by blast
  have "s \<notin> set xs" using tree_distinct [OF assms(1), of g] k(1) by simp
  then have "detach s kids = kids(g := xs @ ys)"
    using detach_split [of kids g xs s ys] tree_one_parent [OF assms(1), of s] k(1) detach_absent [of s kids] by (intro ext) fastforce
  moreover have "\<exists>n'. unlink g xs s ys (nodes w) s = Some n' \<and> mParent n' = None"
    using assms(2) by (cases "set_left g ys (last_or None xs) (set_right g xs (hd_or ys None) (nodes w)) s")
      (auto simp: unlink_def set_links_def)
  ultimately show ?thesis using k(2) tree_unlink [OF assms(1) assms(3) [OF Some] k(1)] by auto
qed

text \<open>Linking a detached node in at the place that the move asks for.\<close>

fun place_node :: "tree_move \<Rightarrow> SC_World \<Rightarrow> SC_World option" where
  "place_node (Head g s) w = Group_AddHead g s w"
| "place_node (Tail g s) w = Group_AddTail g s w"
| "place_node (Before s t) w = Node_AddBefore s t w"
| "place_node (After s t) w = Node_AddAfter s t w"

fun spec_place :: "tree_move \<Rightarrow> (addr \<Rightarrow> addr list) \<Rightarrow> addr \<Rightarrow> addr list" where
  "spec_place (Head g s) kids = kids(g := s # kids g)"
| "spec_place (Tail g s) kids = kids(g := kids g @ [s])"
| "spec_place (Before s t) kids = (\<lambda>g. ins_before s t (kids g))"
| "spec_place (After s t) kids = (\<lambda>g. ins_after s t (kids g))"

fun target_ok :: "tree_move \<Rightarrow> SC_World \<Rightarrow> bool" where
  "target_ok (Head g s) w \<longleftrightarrow> (\<exists>n. nodes w g = Some n \<and> mIsGroup n) \<and> s \<noteq> g"
| "target_ok (Tail g s) w \<longleftrightarrow> (\<exists>n. nodes w g = Some n \<and> mIsGroup n) \<and> s \<noteq> g"
| "target_ok (Before s t) w \<longleftrightarrow> nodes w t \<noteq> None"
| "target_ok (After s t) w \<longleftrightarrow> nodes w t \<noteq> None"

lemma spec_move_place: "spec_move m kids = spec_place m (detach (moved m) kids)"
  by (cases m) auto

lemma place_in_list:
  assumes "tree_inv {} (nodes w) kids" "nodes w s = Some n" "mParent n = None" "nodes w g = Some ng" "mIsGroup ng"
    and "kids g = xs @ ys" "kids' = kids(g := xs @ s # ys)"
  shows "tree_inv {} (link_in g xs s ys (nodes w)) kids'"
  unfolding assms(7)
proof (rule tree_link_in [OF assms(1) _ assms(6)])
  show "ends (nodes w) g = Some (True, mHead ng, mTail ng)" using assms(4,5) by (simp add: ends_def)
  show "links (nodes w) s = Some (None, mPrev n, mNext n)" using assms(2,3) by (simp add: links_def)
qed simp

lemma no_parent_no_list:
  assumes "tree_inv X h kids" "h t = Some n" "mParent n = None"
  shows "t \<notin> set (kids g)"
  using tree_kid [OF assms(1), of t g] assms(2,3) by (auto simp: links_def)

lemma place_near:
  assumes "tree_inv {} (nodes w) kids" "nodes w s = Some n" "mParent n = None" "mID n \<noteq> 0" "nodes w t = Some nt"
  shows "\<exists>h. Node_AddBefore s t w = Some (w\<lparr>nodes := h\<rparr>) \<and> ident h = ident (nodes w) \<and> tree_inv {} h (\<lambda>g. ins_before s t (kids g))"
    and "\<exists>h. Node_AddAfter s t w = Some (w\<lparr>nodes := h\<rparr>) \<and> ident h = ident (nodes w) \<and> tree_inv {} h (\<lambda>g. ins_after s t (kids g))"
proof -
  have "(\<exists>h. Node_AddBefore s t w = Some (w\<lparr>nodes := h\<rparr>) \<and> ident h = ident (nodes w) \<and> tree_inv {} h (\<lambda>g. ins_before s t (kids g))) \<and>
    (\<exists>h. Node_AddAfter s t w = Some (w\<lparr>nodes := h\<rparr>) \<and> ident h = ident (nodes w) \<and> tree_inv {} h (\<lambda>g. ins_after s t (kids g)))"
  proof (cases "mParent nt")
    case None
    have none: "t \<notin> set (kids g)" for g by (rule no_parent_no_list [OF assms(1,5) None])
    have "(\<lambda>g. ins_before s t (kids g)) = kids" "(\<lambda>g. ins_after s t (kids g)) = kids" using none by (simp_all add: ins_absent)
    then show ?thesis
      using assms None by (auto simp: Node_AddBefore_def Node_AddAfter_def intro!: exI [of _ "nodes w"])
  next
    case (Some g)
    obtain xs ys where b: "kids g = xs @ t # ys" "Node_AddBefore s t w = Some (w\<lparr>nodes := link_in g xs s (t # ys) (nodes w)\<rparr>)"
      using Node_AddBefore_ok [OF assms(1,5) Some _ assms(2,3,4)] by auto
    obtain us vs where a: "kids g = us @ t # vs" "Node_AddAfter s t w = Some (w\<lparr>nodes := link_in g (us @ [t]) s vs (nodes w)\<rparr>)"
      using Node_AddAfter_ok [OF assms(1,5) Some _ assms(2,3,4)] by auto
    have tn: "t \<notin> set xs" "t \<notin> set us"
      subgoal using tree_distinct [OF assms(1), of g] b(1) by simp
      subgoal using tree_distinct [OF assms(1), of g] a(1) by simp
      done
    obtain u v where e: "ends (nodes w) g = Some (True, u, v)" using tree_is_group [OF assms(1), of g] b(1) by auto
    then obtain ng where ng: "nodes w g = Some ng" "mIsGroup ng" by (auto simp: ends_def)
    have other: "t \<notin> set (kids g')" if "g' \<noteq> g" for g' using tree_one_parent [OF assms(1), of t g g'] b(1) that by auto
    have "(\<lambda>g. ins_before s t (kids g)) = kids(g := xs @ s # t # ys)"
      using ins_before_split [OF tn(1), of s ys] b(1) other by (auto simp: fun_eq_iff ins_absent)
    moreover have "(\<lambda>g. ins_after s t (kids g)) = kids(g := (us @ [t]) @ s # vs)"
      using ins_after_split [OF tn(2), of s vs] a(1) other by (auto simp: fun_eq_iff ins_absent)
    ultimately show ?thesis
      using place_in_list [OF assms(1-3) ng, of xs "t # ys"] place_in_list [OF assms(1-3) ng, of "us @ [t]" vs] a b by auto
  qed
  then show "\<exists>h. Node_AddBefore s t w = Some (w\<lparr>nodes := h\<rparr>) \<and> ident h = ident (nodes w) \<and> tree_inv {} h (\<lambda>g. ins_before s t (kids g))"
    and "\<exists>h. Node_AddAfter s t w = Some (w\<lparr>nodes := h\<rparr>) \<and> ident h = ident (nodes w) \<and> tree_inv {} h (\<lambda>g. ins_after s t (kids g))"
    by blast+
qed

lemma place_node_ok:
  assumes "tree_inv {} (nodes w) kids" "nodes w (moved m) = Some n" "mParent n = None" "mID n \<noteq> 0" "target_ok m w"
  shows "\<exists>h. place_node m w = Some (w\<lparr>nodes := h\<rparr>) \<and> ident h = ident (nodes w) \<and> tree_inv {} h (spec_place m kids)"
proof (cases m)
  case (Head g s)
  then obtain ng where ng: "nodes w g = Some ng" "mIsGroup ng" "s \<noteq> g" using assms(5) by auto
  then show ?thesis
    using Head assms Group_AddHead_ok [OF assms(1) ng(1,2), of s n] place_in_list [OF assms(1) _ assms(3) ng(1,2), of s "[]" "kids g"] by auto
next
  case (Tail g s)
  then obtain ng where ng: "nodes w g = Some ng" "mIsGroup ng" "s \<noteq> g" using assms(5) by auto
  then show ?thesis
    using Tail assms Group_AddTail_ok [OF assms(1) ng(1,2), of s n] place_in_list [OF assms(1) _ assms(3) ng(1,2), of s "kids g" "[]"] by auto
next
  case (Before s t)
  then show ?thesis using place_near(1) [OF assms(1) _ assms(3,4)] assms(2,5) by auto
next
  case (After s t)
  then show ?thesis using place_near(2) [OF assms(1) _ assms(3,4)] assms(2,5) by auto
qed

lemma StateMsg_after:
  assumes "tree_inv {} (nodes w) kids" "nodes w p \<noteq> None"
  shows "\<exists>ms. Node_StateMsg p st w = Some (w\<lparr>mNodeEnds := ms\<rparr>)"
  using assms Node_StateMsg_ok [OF assms(1), of p] by blast

lemma target_ok_ident:
  assumes "ident h = ident (nodes w)"
  shows "target_ok m (w\<lparr>nodes := h\<rparr>) = target_ok m w"
proof -
  have "h t = None \<longleftrightarrow> nodes w t = None" for t using ident_dom [OF assms] by (metis domIff)
  moreover have "(\<exists>n. h g = Some n \<and> mIsGroup n) \<longleftrightarrow> (\<exists>n. nodes w g = Some n \<and> mIsGroup n)" for g
    using ident_some [OF assms, of g] ident_some [OF assms [symmetric], of g] by auto
  ultimately show ?thesis by (cases m) auto
qed

lemma run_move_parts:
  assumes "nodes w (moved m) = Some n" "Node_Remove (moved m) w = Some w1" "place_node m w1 = Some w2"
    and "\<And>st. \<exists>ms. Node_StateMsg (moved m) st w2 = Some (w2\<lparr>mNodeEnds := ms\<rparr>)"
  shows "\<exists>ms. run_move m w = Some (w2\<lparr>mNodeEnds := ms\<rparr>)"
proof -
  have self: "\<exists>ms. w2 = w2\<lparr>mNodeEnds := ms\<rparr>" by (rule exI [of _ "mNodeEnds w2"]) simp
  show ?thesis
    using assms(1-3) assms(4) [of kNode_Move] self
    by (cases m) (auto simp: run_move_def move_head_def move_tail_def move_before_def move_after_def Let_def)
qed

lemma world_inv_msgs: "world_inv r (w\<lparr>mNodeEnds := ms\<rparr>) kids = world_inv r w kids"
  by (simp add: world_inv_def lib_inv_def node_key_def [abs_def])

lemma root_iff:
  assumes "world_inv r w kids" "nodes w p = Some n"
  shows "mID n = 0 \<longleftrightarrow> p = r"
  using assms lib_ids [of w p n r] by (auto simp: world_inv_def)

lemma run_move_ok:
  assumes "world_inv r w kids" "nodes w (moved m) \<noteq> None" "target_ok m w" "moved m \<noteq> r" "sensible m kids"
  shows "\<exists>w'. run_move m w = Some w' \<and> world_inv r w' (spec_move m kids) \<and> ident (nodes w') = ident (nodes w) \<and>
    frame w' = frame w \<and> mNumGroups w' = mNumGroups w \<and> mNumGraphs w' = mNumGraphs w"
proof -
  obtain n where n: "nodes w (moved m) = Some n" "mID n \<noteq> 0" using assms(1,2,4) root_iff [OF assms(1)] by fastforce
  have t: "tree_inv {} (nodes w) kids" "lib_inv w" "acyclic (below kids)" using assms(1) by (simp_all add: world_inv_def)
  obtain h n' where h: "Node_Remove (moved m) w = Some (w\<lparr>nodes := h\<rparr>)" "ident h = ident (nodes w)"
      "tree_inv {} h (detach (moved m) kids)" "h (moved m) = Some n'" "mParent n' = None"
    using Node_Remove_ok [OF t(1) n(1)] by auto
  have "mID n' \<noteq> 0" using ident_some [OF h(2) n(1)] h(4) n(2) by auto
  moreover have "target_ok m (w\<lparr>nodes := h\<rparr>)" using target_ok_ident [OF h(2)] assms(3) by simp
  ultimately obtain h2 where h2: "place_node m (w\<lparr>nodes := h\<rparr>) = Some (w\<lparr>nodes := h2\<rparr>)" "ident h2 = ident (nodes w)"
      "tree_inv {} h2 (spec_move m kids)"
    using place_node_ok [of "w\<lparr>nodes := h\<rparr>" _ m n'] h by (auto simp: spec_move_place)
  let ?w = "w\<lparr>nodes := h2\<rparr>"
  have "nodes ?w (moved m) \<noteq> None" using ident_some [OF h2(2) n(1)] by auto
  then obtain ms where r: "run_move m w = Some (?w\<lparr>mNodeEnds := ms\<rparr>)"
    using run_move_parts [OF n(1) h(1) h2(1)] StateMsg_after [of ?w] h2(3) by auto
  have "acyclic (below (spec_move m kids))"
    using acyclic_move [OF t(3) assms(5)] tree_one_parent [OF t(1)] by blast
  moreover have "lib_inv ?w" using lib_inv_ident [OF t(2), of ?w] h2(2) by simp
  moreover have "\<exists>n. h2 r = Some n \<and> mID n = 0 \<and> mIsGroup n \<and> mParent n = None"
  proof -
    obtain nr where nr: "nodes w r = Some nr" "mID nr = 0" "mIsGroup nr" "mParent nr = None" using assms(1) by (auto simp: world_inv_def)
    obtain n2 where n2: "h2 r = Some n2" "mID n2 = 0" "mIsGroup n2" using ident_some [OF h2(2) nr(1)] nr by auto
    have "r \<notin> set (spec_move m kids g)" for g
    proof -
      have "r \<notin> set (kids g)" for g by (rule no_parent_no_list [OF t(1) nr(1,4)])
      moreover have "set (detach (moved m) kids g) \<subseteq> set (kids g)" for g by (simp add: detach_def set_remove1_subset)
      ultimately show ?thesis using assms(4) by (cases m) (auto simp: set_ins split: if_splits)
    qed
    then have "mParent n2 = None" using tree_child [OF h2(3), of r] n2(1) by (cases "mParent n2") (auto simp: links_def)
    with n2 show ?thesis by blast
  qed
  ultimately have "world_inv r ?w (spec_move m kids)" using h2(3) by (simp add: world_inv_def)
  then show ?thesis using r h2(2) world_inv_msgs [where w = ?w and ms = ms] by (auto simp: frame_def)
qed

lemma move_root_ok:
  assumes "world_inv r w kids" "moved m = r" "target_ok m w"
  shows "\<exists>w'. run_move m w = Some w' \<and> world_inv r w' kids \<and> ident (nodes w') = ident (nodes w) \<and>
    frame w' = frame w \<and> mNumGroups w' = mNumGroups w \<and> mNumGraphs w' = mNumGraphs w"
proof -
  obtain n where n: "nodes w r = Some n" "mID n = 0" "mIsGroup n" "mParent n = None" using assms(1) by (auto simp: world_inv_def)
  have t: "tree_inv {} (nodes w) kids" using assms(1) by (simp add: world_inv_def)
  let ?w = "w\<lparr>nodes := set_links r None None None (nodes w)\<rparr>"
  have rem: "Node_Remove (moved m) w = Some ?w" "tree_inv {} (nodes ?w) kids"
    using Node_Remove_detached [OF t n(1,4)] assms(2) by simp_all
  have at: "nodes ?w r = Some (n\<lparr>mPrev := None, mNext := None, mParent := None\<rparr>)" using n(1) by (simp add: set_links_def)
  have "target_ok m ?w" using target_ok_ident [of _ w m] assms(3) by simp
  then have "place_node m ?w = Some ?w"
    using at n(2) assms(2)
    by (cases m) (auto simp: Group_AddHead_def Group_AddTail_def Node_AddBefore_def Node_AddAfter_def split: Option.bind_split)
  then obtain ms where r: "run_move m w = Some (?w\<lparr>mNodeEnds := ms\<rparr>)"
    using run_move_parts [of w m n ?w ?w] n(1) assms(2) rem StateMsg_after [OF rem(2)] at by fastforce
  have "world_inv r ?w kids"
    using assms(1) rem(2) at n(2,3) lib_inv_ident [of w ?w] by (simp add: world_inv_def)
  then show ?thesis using r world_inv_msgs [where w = ?w and ms = ms] by (auto simp: frame_def)
qed

end
