(* ===== verification/SC_NodeDeletion.thy ===== *)
theory SC_NodeDeletion
  imports SC_NodeCommands
begin

text \<open>
  Deletion in the node tree: \<open>Node_Delete\<close> ends and frees exactly the nodes of a subtree, and the
  properties of the node tree. A subtree is described by a rose tree of addresses, which also
  gives the depth of the calls that its deletion needs.
\<close>

section \<open>Subtrees\<close>

datatype rose = Rose addr "rose list"

fun root_of :: "rose \<Rightarrow> addr" where
  "root_of (Rose p ts) = p"

fun addrs :: "rose \<Rightarrow> addr list" where
  "addrs (Rose p ts) = p # concat (map addrs ts)"

fun rep :: "(addr \<Rightarrow> addr list) \<Rightarrow> rose \<Rightarrow> bool" where
  "rep kids (Rose p ts) \<longleftrightarrow> kids p = map root_of ts \<and> list_all (rep kids) ts"

fun depths :: "nat list \<Rightarrow> nat" where
  "depths [] = 0"
| "depths (n # ns) = Suc (max n (depths ns))"

fun depth :: "rose \<Rightarrow> nat" where
  "depth (Rose p ts) = Suc (Suc (depths (map depth ts)))"

lemma root_in_addrs [simp]: "root_of t \<in> set (addrs t)"
  by (cases t) simp

lemma rep_cong: "(\<And>q. q \<in> set (addrs t) \<Longrightarrow> kids' q = kids q) \<Longrightarrow> rep kids' t = rep kids t"
proof (induction t)
  case (Rose p ts)
  then have "list_all (rep kids') ts = list_all (rep kids) ts" by (intro list_all_cong) auto
  then show ?case using Rose.prems by simp
qed

lemma depth_step: "1 \<le> a \<Longrightarrow> m \<le> 3 * a \<Longrightarrow> n \<le> 3 * b + 1 \<Longrightarrow> Suc (max m n) \<le> 3 * (a + b) + 1" for a b m n :: nat
  by (simp add: max_def)

lemma depth_bound: "depth t \<le> 3 * length (addrs t)"
proof (induction t)
  case (Rose p ts)
  then have "depths (map depth ts) \<le> 3 * length (concat (map addrs ts)) + 1"
  proof (induction ts)
    case (Cons t ts)
    have "1 \<le> length (addrs t)" by (cases t) simp
    moreover have "depth t \<le> 3 * length (addrs t)" "depths (map depth ts) \<le> 3 * length (concat (map addrs ts)) + 1"
      using Cons by auto
    ultimately show ?case using depth_step by simp
  qed simp
  then show ?case by simp
qed

section \<open>Opening and closing groups\<close>

lemma tree_open:
  assumes "tree_inv X h kids" "ends h g = Some (True, u, v)"
  shows "tree_inv (insert g X) h kids"
  using assms tree_groupD [OF assms] unfolding tree_inv_def by blast

lemma tree_take_first:
  assumes "tree_inv X h kids" "g \<in> X" "kids g = c # cs"
  shows "tree_inv X (set_links c None None None h) (kids(g := cs))"
proof -
  let ?h = "set_links c None None None h"
  have d: "distinct (c # cs)" using tree_distinct [OF assms(1), of g] assms(3) by simp
  have c: "c \<notin> set (kids g')" if "g' \<noteq> g" for g' using tree_one_parent [OF assms(1), of c g g'] assms(3) that by auto
  have other: "dseg ?h g' pr (kids g') nx \<longleftrightarrow> dseg h g' pr (kids g') nx" if "g' \<noteq> g" for g' pr nx
    using c [OF that] by (intro dseg_cong) (auto simp: link_simps)
  obtain pr where "dseg h g pr (c # cs) None" using tree_openD [OF assms(1,2)] assms(3) by auto
  then have "dseg h g (Some c) cs None" by simp
  moreover have "dseg ?h g (Some c) cs None \<longleftrightarrow> dseg h g (Some c) cs None" using d by (intro dseg_cong) (auto simp: link_simps)
  ultimately have g: "dseg ?h g (Some c) cs None" by simp
  have ends: "ends ?h = ends h" by (simp add: link_simps fun_eq_iff)
  have "case q of None \<Rightarrow> a = None \<and> b = None | Some g' \<Rightarrow> p \<in> set ((kids(g := cs)) g')" if l: "links ?h p = Some (q, a, b)" for p q a b
  proof (cases "p = c")
    case True
    then show ?thesis using l by (auto simp: link_simps)
  next
    case False
    then have "links h p = Some (q, a, b)" using l by (simp add: link_simps)
    then show ?thesis using tree_child [OF assms(1)] tree_free [OF assms(1)] False assms(3) by (cases q) fastforce+
  qed
  then show ?thesis
    using tree_groupD [OF assms(1)] tree_openD [OF assms(1)] tree_distinct [OF assms(1)] tree_is_group [OF assms(1)] other g d assms(2,3)
    unfolding tree_inv_def ends by auto
qed

lemma tree_close:
  assumes "tree_inv (insert g X) h kids" "g \<notin> X" "kids g = []" "ends h g = Some (True, u, v)"
  shows "tree_inv X (set_left g [] None (set_right g [] None h)) kids"
proof -
  let ?h = "set_left g [] None (set_right g [] None h)"
  have l: "links ?h p = links h p" for p by (simp add: link_simps)
  have e: "ends ?h p = (if p = g then Some (True, None, None) else ends h p)" for p using assms(4) by (simp add: link_simps)
  have "dseg ?h g' pr ps nx \<longleftrightarrow> dseg h g' pr ps nx" for g' pr ps nx by (rule dseg_cong) (rule l)
  then show ?thesis
    using assms unfolding tree_inv_def l e by auto
qed

lemma tree_drop:
  assumes "tree_inv X h kids" "h p = Some n" "mParent n = None" "kids p = []" "p \<notin> X"
  shows "tree_inv X (h(p := None)) kids"
proof -
  have np: "p \<notin> set (kids g)" for g by (rule no_parent_no_list [OF assms(1-3)])
  have l: "links (h(p := None)) q = (if q = p then None else links h q)" for q by (simp add: links_def)
  have e: "ends (h(p := None)) q = (if q = p then None else ends h q)" for q by (simp add: ends_def)
  have "dseg (h(p := None)) g pr (kids g) nx \<longleftrightarrow> dseg h g pr (kids g) nx" for g pr nx
    using np by (intro dseg_cong) (auto simp: l)
  then show ?thesis
    using assms(1,4) unfolding tree_inv_def l e by auto
qed

section \<open>Destroying one node\<close>

definition members :: "bool \<Rightarrow> (addr \<rightharpoonup> Node) \<Rightarrow> addr set" where
  "members b h = {p. \<exists>i j f. ident h p = Some (i, j, f, b)}"

definition counts :: "SC_World \<Rightarrow> bool" where
  "counts w \<longleftrightarrow> mNumGroups w = int (card (members True (nodes w))) \<and> mNumGraphs w = int (card (members False (nodes w)))"

text \<open>The synths whose units are destroyed with them.\<close>

definition has_units :: "(addr \<rightharpoonup> Node) \<Rightarrow> addr \<Rightarrow> bool" where
  "has_units h p \<longleftrightarrow> (case ident h p of Some (_, _, f, g) \<Rightarrow> \<not> g \<and> f \<noteq> Graph_FirstCalc_func | None \<Rightarrow> False)"

text \<open>What a deletion of the nodes \<open>S\<close> leaves: the lists \<open>kids\<close>, and the units of \<open>ds\<close> destroyed in this order.\<close>

definition deleted :: "addr set \<Rightarrow> (addr \<Rightarrow> addr list) \<Rightarrow> addr set \<Rightarrow> addr list \<Rightarrow> SC_World \<Rightarrow> SC_World \<Rightarrow> bool" where
  "deleted X kids S ds w w' \<longleftrightarrow> tree_inv X (nodes w') kids \<and> lib_inv w' \<and> counts w' \<and>
     ident (nodes w') = ident (nodes w) |` (- S) \<and> unit_dtors w' = unit_dtors w @ ds \<and> frame w' = frame w"

lemma deleted_trans:
  assumes "deleted X kids1 S1 d1 w w1" "deleted Y kids2 S2 d2 w1 w2"
  shows "deleted Y kids2 (S1 \<union> S2) (d1 @ d2) w w2"
  using assms by (simp add: deleted_def Compl_Un)

lemma lib_finite: "lib_inv w \<Longrightarrow> finite (dom (nodes w))"
proof -
  have "items (mNodeLib w) \<subseteq> the ` set (mItems (mNodeLib w))" by (force simp: items_def)
  then have "finite (items (mNodeLib w))" by (rule finite_subset) simp
  then show "lib_inv w \<Longrightarrow> finite (dom (nodes w))" by (simp add: lib_inv_def)
qed

lemma members_drop:
  assumes "finite (dom h)" "ident h' = ident h |` (- {p})" "ident h p = Some (i, j, f, b)"
  shows "int (card (members b' h')) = int (card (members b' h)) - (if b = b' then 1 else 0)"
proof -
  have m: "members b' h' = members b' h - {p}" using assms(2) by (auto simp: members_def restrict_map_def)
  have fin: "finite (members b' h)" using assms(1) by (rule rev_finite_subset) (auto simp: members_def ident_def)
  show ?thesis
  proof (cases "b = b'")
    case True
    then have "p \<in> members b' h" using assms(3) by (auto simp: members_def)
    then show ?thesis using True m card_Suc_Diff1 [OF fin, of p] by simp
  next
    case False
    then have "p \<notin> members b' h" using assms(3) by (auto simp: members_def)
    then show ?thesis using False m by simp
  qed
qed

lemma lib_inv_drop:
  assumes "lib_inv w" "nodes w p = Some n"
  shows "\<exists>b t. Remove (node_key w) (mNodeLib w) p = Some (b, t) \<and> mMaxItems t = mMaxItems (mNodeLib w) \<and>
    lib_inv (w\<lparr>nodes := (nodes w)(p := None), mNodeLib := t\<rparr>)"
proof -
  have f: "fixed_inv (node_key w) (mNodeLib w)" "items (mNodeLib w) = dom (nodes w)" using assms(1) by (simp_all add: lib_inv_def)
  then obtain b t where t: "Remove (node_key w) (mNodeLib w) p = Some (b, t)" "tab_inv (node_key w) t" "items t = dom (nodes w) - {p}"
      "mCanResize t = mCanResize (mNodeLib w)" "mMaxItems t = mMaxItems (mNodeLib w)"
    using Remove_ok [of "node_key w" "mNodeLib w" p] by (auto simp: fixed_inv_def)
  let ?w = "w\<lparr>nodes := (nodes w)(p := None), mNodeLib := t\<rparr>"
  have "node_key ?w q = node_key w q" if "q \<in> items t" for q using that t(3) by (simp add: node_key_def)
  then have "fixed_inv (node_key ?w) t = fixed_inv (node_key w) t" by (rule fixed_inv_cong)
  then have "lib_inv ?w" using t f assms(1) by (auto simp: lib_inv_def fixed_inv_def)
  with t(1,5) show ?thesis by blast
qed

lemma Node_Dtor_ok:
  assumes "tree_inv X (nodes w) kids" "lib_inv w" "nodes w p = Some n" "p \<notin> X" "kids p = []" "\<And>g. g \<in> X \<Longrightarrow> p \<notin> set (kids g)"
  shows "\<exists>h t ms. Node_Dtor p w = Some (w\<lparr>nodes := h, mNodeLib := t, mNodeEnds := ms\<rparr>) \<and>
    tree_inv X h (detach p kids) \<and> lib_inv (w\<lparr>nodes := h, mNodeLib := t, mNodeEnds := ms\<rparr>) \<and> ident h = ident (nodes w) |` (- {p}) \<and>
    mMaxItems t = mMaxItems (mNodeLib w)"
proof -
  have par: "g \<notin> X" if "mParent n = Some g" for g
    using tree_child [OF assms(1), of p g] assms(3,6) that by (auto simp: links_def)
  obtain ms where ms: "Node_StateMsg p kNode_End w = Some (w\<lparr>mNodeEnds := ms\<rparr>)"
    using Node_StateMsg_ok [OF assms(1,3,4) par] by blast
  let ?w = "w\<lparr>mNodeEnds := ms\<rparr>"
  obtain h n' where h: "Node_Remove p ?w = Some (?w\<lparr>nodes := h\<rparr>)" "ident h = ident (nodes w)" "tree_inv X h (detach p kids)"
      "h p = Some n'" "mParent n' = None"
    using Node_Remove_ok [of X ?w kids p n] assms(1,3) par by auto
  let ?v = "?w\<lparr>nodes := h\<rparr>"
  have "lib_inv ?v" using lib_inv_ident [OF assms(2), of ?v] h(2) by simp
  then obtain b t where t: "Remove (node_key ?v) (mNodeLib ?v) p = Some (b, t)" "lib_inv (?v\<lparr>nodes := h(p := None), mNodeLib := t\<rparr>)"
      "mMaxItems t = mMaxItems (mNodeLib w)"
    using lib_inv_drop [of ?v p n'] h(4) by auto
  have "Node_Dtor p w = Some (w\<lparr>nodes := h(p := None), mNodeLib := t, mNodeEnds := ms\<rparr>)"
    using ms h(1) t(1) by (simp add: Node_Dtor_def World_RemoveNode_def)
  moreover have "tree_inv X (h(p := None)) (detach p kids)"
    using tree_drop [OF h(3-5)] assms(4,5) by (simp add: detach_def)
  moreover have "ident (h(p := None)) = ident (nodes w) |` (- {p})"
    using fun_cong [OF h(2)] by (auto simp: ident_def restrict_map_def fun_eq_iff)
  moreover have "lib_inv (w\<lparr>nodes := h(p := None), mNodeLib := t, mNodeEnds := ms\<rparr>)" using t(2) by (cases w) simp
  ultimately show ?thesis using t(3) by blast
qed

section \<open>Deleting a subtree\<close>

definition deletable :: "addr set \<Rightarrow> SC_World \<Rightarrow> (addr \<Rightarrow> addr list) \<Rightarrow> rose \<Rightarrow> bool" where
  "deletable X w kids t \<longleftrightarrow> rep kids t \<and> distinct (addrs t) \<and> set (addrs t) \<inter> X = {} \<and>
     (\<forall>q \<in> set (addrs t). \<exists>n. nodes w q = Some n \<and> mID n \<noteq> 0) \<and> (\<forall>g \<in> X. root_of t \<notin> set (kids g))"

definition prune :: "rose \<Rightarrow> (addr \<Rightarrow> addr list) \<Rightarrow> addr \<Rightarrow> addr list" where
  "prune t kids = (\<lambda>g. if g \<in> set (addrs t) then [] else remove1 (root_of t) (kids g))"

definition deletes :: "rose \<Rightarrow> bool" where
  "deletes t \<longleftrightarrow> (\<forall>X w kids k. deletable X w kids t \<longrightarrow> tree_inv X (nodes w) kids \<longrightarrow> lib_inv w \<longrightarrow> counts w \<longrightarrow> depth t \<le> k \<longrightarrow>
     (\<exists>w'. Node_Delete k (root_of t) w = Some w' \<and>
        deleted X (prune t kids) (set (addrs t)) (filter (has_units (nodes w)) (addrs t)) w w'))"

lemma deletesD:
  assumes "deletes t" "deletable X w kids t" "tree_inv X (nodes w) kids" "lib_inv w" "counts w" "depth t \<le> k"
  shows "\<exists>w'. Node_Delete k (root_of t) w = Some w' \<and>
    deleted X (prune t kids) (set (addrs t)) (filter (has_units (nodes w)) (addrs t)) w w'"
  using assms unfolding deletes_def by blast

lemma deletable_ident:
  assumes "deletable X w kids t" "\<And>q. q \<in> set (addrs t) \<Longrightarrow> ident (nodes w') q = ident (nodes w) q"
    "\<And>q. q \<in> set (addrs t) \<Longrightarrow> kids' q = kids q" "\<And>g. g \<in> X \<Longrightarrow> set (kids' g) \<subseteq> set (kids g)"
  shows "deletable X w' kids' t"
proof -
  have "\<exists>n. nodes w' q = Some n \<and> mID n \<noteq> 0" if "q \<in> set (addrs t)" for q
    using assms(1) that assms(2) [OF that] by (force simp: deletable_def ident_def)
  moreover have "root_of t \<notin> set (kids' g)" if "g \<in> X" for g
    using assms(1) assms(4) [OF that] that by (auto simp: deletable_def)
  ultimately show ?thesis using assms(1) rep_cong [of t kids' kids] assms(3) by (simp add: deletable_def)
qed

lemma counts_ident:
  assumes "ident (nodes w') = ident (nodes w)" "mNumGroups w' = mNumGroups w" "mNumGraphs w' = mNumGraphs w"
  shows "counts w' = counts w"
  using assms by (simp add: counts_def members_def)

lemma has_units_cong: "(\<And>q. q \<in> set xs \<Longrightarrow> ident h' q = ident h q) \<Longrightarrow> filter (has_units h') xs = filter (has_units h) xs"
  by (rule filter_cong) (simp_all add: has_units_def)

text \<open>The loop over the children of a group that is being emptied.\<close>

lemma delete_loop_ok:
  assumes "\<forall>t \<in> set ts. deletes t" "tree_inv X (nodes w) kids" "lib_inv w" "counts w" "g \<in> X" "kids g = map root_of ts"
    and "\<forall>t \<in> set ts. deletable (X - {g}) w kids t \<and> g \<notin> set (addrs t)" "distinct (concat (map addrs ts))" "depths (map depth ts) \<le> k"
  shows "\<exists>w'. delete_loop k (hd_or (map root_of ts) None) w = Some w' \<and>
    deleted X (\<lambda>q. if q = g \<or> q \<in> set (concat (map addrs ts)) then [] else kids q) (set (concat (map addrs ts)))
      (filter (has_units (nodes w)) (concat (map addrs ts))) w w'"
  using assms
proof (induction ts arbitrary: w kids k)
  case Nil
  have "(\<lambda>q. if q = g then [] else kids q) = kids" using Nil.prems(6) by auto
  then show ?case using Nil.prems by (simp add: deleted_def restrict_map_def)
next
  case (Cons t ts)
  let ?c = "root_of t"
  obtain j where k: "k = Suc j" "depth t \<le> j" "depths (map depth ts) \<le> j" using Cons.prems(9) by (cases k) auto
  let ?w = "w\<lparr>nodes := set_links ?c None None None (nodes w)\<rparr>"
  let ?kids = "kids(g := map root_of ts)"
  have tree: "tree_inv X (nodes ?w) ?kids" using tree_take_first [OF Cons.prems(2,5)] Cons.prems(6) by simp
  have lib: "lib_inv ?w" using lib_inv_ident [OF Cons.prems(3), of ?w] by simp
  have cnt: "counts ?w" using Cons.prems(4) counts_ident [of ?w w] by simp
  obtain pr where "dseg (nodes w) g pr (kids g) None" using tree_openD [OF Cons.prems(2,5)] by blast
  then obtain n where n: "nodes w ?c = Some n" "mNext n = hd_or (map root_of ts) None" using Cons.prems(6) by auto
  have dis: "distinct (kids g)" by (rule tree_distinct [OF Cons.prems(2)])
  have one: "?c \<notin> set (?kids q)" for q
    using tree_one_parent [OF Cons.prems(2), of ?c g q] dis Cons.prems(6) by auto
  have dt: "deletable (X - {g}) w kids t" "g \<notin> set (addrs t)" using Cons.prems(7) by simp_all
  have "deletable (X - {g}) ?w ?kids t" using dt(2) by (intro deletable_ident [OF dt(1)]) auto
  then have "deletable X ?w ?kids t" using one dt(2) by (auto simp: deletable_def)
  then obtain w1 where w1: "Node_Delete j ?c ?w = Some w1"
      "deleted X (prune t ?kids) (set (addrs t)) (filter (has_units (nodes ?w)) (addrs t)) ?w w1"
    using deletesD [OF _ _ tree lib cnt k(2)] Cons.prems(1) by auto
  have keep: "ident (nodes w1) q = ident (nodes w) q" if "q \<notin> set (addrs t)" for q
    using that w1(2) by (simp add: deleted_def)
  let ?kids1 = "\<lambda>q. if q \<in> set (addrs t) then [] else ?kids q"
  have pr: "prune t ?kids = ?kids1" using one by (simp add: prune_def fun_eq_iff remove1_idem)
  have disj: "set (addrs t) \<inter> set (addrs u) = {}" if "u \<in> set ts" for u using that Cons.prems(8) by auto
  have "deletable (X - {g}) w1 ?kids1 u \<and> g \<notin> set (addrs u)" if u: "u \<in> set ts" for u
  proof -
    have d: "deletable (X - {g}) w kids u" "g \<notin> set (addrs u)" using Cons.prems(7) u by simp_all
    then show ?thesis using disj [OF u] keep by (intro conjI deletable_ident [OF d(1)]) auto
  qed
  then obtain w2 where w2: "delete_loop j (hd_or (map root_of ts) None) w1 = Some w2"
      "deleted X (\<lambda>q. if q = g \<or> q \<in> set (concat (map addrs ts)) then [] else ?kids1 q) (set (concat (map addrs ts)))
        (filter (has_units (nodes w1)) (concat (map addrs ts))) w1 w2"
    using Cons.IH [of w1 ?kids1 j] w1(2) pr Cons.prems(1,5,8) k(3) dt(2) by (auto simp: deleted_def)
  have f: "filter (has_units (nodes ?w)) (addrs t) = filter (has_units (nodes w)) (addrs t)"
      "filter (has_units (nodes w1)) (concat (map addrs ts)) = filter (has_units (nodes w)) (concat (map addrs ts))"
    using keep disj by (intro has_units_cong; fastforce)+
  have "deleted X (\<lambda>q. if q = g \<or> q \<in> set (concat (map addrs (t # ts))) then [] else kids q) (set (concat (map addrs (t # ts))))
      (filter (has_units (nodes w)) (concat (map addrs (t # ts)))) ?w w2"
  proof -
    have "(\<lambda>q. if q = g \<or> q \<in> set (concat (map addrs ts)) then [] else ?kids1 q) =
        (\<lambda>q. if q = g \<or> q \<in> set (concat (map addrs (t # ts))) then [] else kids q)" by auto
    then show ?thesis using deleted_trans [OF w1(2) w2(2)] f by simp
  qed
  moreover have "delete_loop k (hd_or (map root_of (t # ts)) None) w = Some w2"
    using k(1) n w1(1) w2(1) set_node_modify [of w ?c] by (simp add: set_links_def)
  ultimately show ?case by (auto simp: deleted_def frame_def)
qed

lemma depths_mono: "t \<in> set ts \<Longrightarrow> depth t \<le> depths (map depth ts)"
  by (induction ts) auto

lemma deletable_child:
  assumes "deletable X w kids (Rose p ts)" "t \<in> set ts" "tree_inv X (nodes w) kids"
  shows "deletable X w kids t \<and> p \<notin> set (addrs t)"
proof -
  have r: "rep kids t" "kids p = map root_of ts" using assms(1,2) by (auto simp: deletable_def list_all_iff)
  have p: "p \<notin> X" "p \<notin> set (addrs t)" using assms(1,2) by (auto simp: deletable_def)
  have "root_of t \<notin> set (kids g)" if "g \<in> X" for g
    using tree_one_parent [OF assms(3), of "root_of t" p g] r(2) assms(2) p(1) that by auto
  moreover have "distinct (addrs t)" "set (addrs t) \<inter> X = {}" "\<forall>q \<in> set (addrs t). \<exists>n. nodes w q = Some n \<and> mID n \<noteq> 0"
    using assms(1,2) by (auto simp: deletable_def distinct_concat_iff)
  ultimately show ?thesis using r p by (simp add: deletable_def)
qed

lemma Graph_Dtor_deletes:
  assumes "tree_inv X (nodes w) kids" "lib_inv w" "counts w" "nodes w p = Some n" "\<not> mIsGroup n" "p \<notin> X"
    and "\<And>g. g \<in> X \<Longrightarrow> p \<notin> set (kids g)"
  shows "\<exists>w'. Graph_Dtor p w = Some w' \<and> deleted X (detach p kids) {p} (filter (has_units (nodes w)) [p]) w w'"
proof -
  have kp: "kids p = []" using tree_is_group [OF assms(1), of p] assms(4,5) by (auto simp: ends_def)
  let ?ds = "filter (has_units (nodes w)) [p]"
  let ?w = "w\<lparr>unit_dtors := unit_dtors w @ ?ds, mNumGraphs := mNumGraphs w - 1\<rparr>"
  have "lib_inv ?w" using lib_inv_ident [OF assms(2), of ?w] by simp
  then obtain h t ms where h: "Node_Dtor p ?w = Some (?w\<lparr>nodes := h, mNodeLib := t, mNodeEnds := ms\<rparr>)" "tree_inv X h (detach p kids)"
      "lib_inv (?w\<lparr>nodes := h, mNodeLib := t, mNodeEnds := ms\<rparr>)" "ident h = ident (nodes w) |` (- {p})"
      "mMaxItems t = mMaxItems (mNodeLib w)"
    using Node_Dtor_ok [of X ?w kids p n] assms(1,4,6,7) kp by auto
  have "ident (nodes w) p = Some (mID n, mHash n, mCalcFunc n, False)" using assms(4,5) by (simp add: ident_def)
  note drop = members_drop [OF lib_finite [OF assms(2)] h(4) this]
  have "counts (?w\<lparr>nodes := h, mNodeLib := t, mNodeEnds := ms\<rparr>)"
    using drop [of True] drop [of False] assms(3) by (simp add: counts_def)
  moreover have "Graph_Dtor p w = Node_Dtor p ?w"
    using assms(4,5) by (simp add: Graph_Dtor_def has_units_def ident_def Let_def)
  ultimately show ?thesis using h by (simp add: deleted_def frame_def)
qed

lemma Group_Dtor_deletes:
  assumes "tree_inv X (nodes w) kids" "lib_inv w" "counts w" "nodes w p = Some n" "mIsGroup n" "p \<notin> X" "kids p = []"
    and "\<And>g. g \<in> X \<Longrightarrow> p \<notin> set (kids g)"
  shows "\<exists>w'. Node_Dtor p (w\<lparr>mNumGroups := mNumGroups w - 1\<rparr>) = Some w' \<and> deleted X (detach p kids) {p} [] w w'"
proof -
  let ?w = "w\<lparr>mNumGroups := mNumGroups w - 1\<rparr>"
  have "lib_inv ?w" using lib_inv_ident [OF assms(2), of ?w] by simp
  then obtain h t ms where h: "Node_Dtor p ?w = Some (?w\<lparr>nodes := h, mNodeLib := t, mNodeEnds := ms\<rparr>)" "tree_inv X h (detach p kids)"
      "lib_inv (?w\<lparr>nodes := h, mNodeLib := t, mNodeEnds := ms\<rparr>)" "ident h = ident (nodes w) |` (- {p})"
      "mMaxItems t = mMaxItems (mNodeLib w)"
    using Node_Dtor_ok [of X ?w kids p n] assms(1,4,6,7,8) by auto
  have "ident (nodes w) p = Some (mID n, mHash n, mCalcFunc n, True)" using assms(4,5) by (simp add: ident_def)
  note drop = members_drop [OF lib_finite [OF assms(2)] h(4) this]
  have "counts (?w\<lparr>nodes := h, mNodeLib := t, mNodeEnds := ms\<rparr>)"
    using drop [of True] drop [of False] assms(3) by (simp add: counts_def)
  then show ?thesis using h by (simp add: deleted_def frame_def)
qed

text \<open>Emptying a group deletes its children and all that is below them.\<close>

lemma Group_DeleteAll_ok:
  assumes "\<forall>t \<in> set ts. deletable X w kids t \<and> p \<notin> set (addrs t)" "distinct (concat (map addrs ts))" "p \<notin> X" "kids p = map root_of ts"
    and "\<forall>t \<in> set ts. deletes t" "tree_inv X (nodes w) kids" "lib_inv w" "counts w"
    and "nodes w p = Some n" "mIsGroup n" "Suc (depths (map depth ts)) \<le> k"
  shows "\<exists>w'. Group_DeleteAll k p w = Some w' \<and>
    deleted X (\<lambda>q. if q = p \<or> q \<in> set (concat (map addrs ts)) then [] else kids q) (set (concat (map addrs ts)))
      (filter (has_units (nodes w)) (concat (map addrs ts))) w w'"
proof -
  obtain j where k: "k = Suc j" "depths (map depth ts) \<le> j" using assms(11) by (cases k) auto
  have e: "ends (nodes w) p = Some (True, mHead n, mTail n)" using assms(9,10) by (simp add: ends_def)
  have hd: "mHead n = hd_or (map root_of ts) None" using tree_groupD [OF assms(6) e assms(3)] assms(4) by simp
  have "\<forall>t \<in> set ts. deletable (insert p X - {p}) w kids t \<and> p \<notin> set (addrs t)" using assms(1,3) by simp
  then obtain w1 where w1: "delete_loop j (mHead n) w = Some w1"
      "deleted (insert p X) (\<lambda>q. if q = p \<or> q \<in> set (concat (map addrs ts)) then [] else kids q) (set (concat (map addrs ts)))
        (filter (has_units (nodes w)) (concat (map addrs ts))) w w1"
    using delete_loop_ok [OF assms(5) tree_open [OF assms(6) e] assms(7,8) _ assms(4) _ assms(2) k(2)] hd by auto
  let ?kids = "\<lambda>q. if q = p \<or> q \<in> set (concat (map addrs ts)) then [] else kids q"
  have "p \<notin> set (concat (map addrs ts))" using assms(1) by simp
  then have "ident (nodes w1) p = ident (nodes w) p" using w1(2) by (simp add: deleted_def)
  then obtain n1 where n1: "nodes w1 p = Some n1" "mIsGroup n1" using assms(9,10) by (auto simp: ident_def)
  let ?w = "w1\<lparr>nodes := set_left p [] None (set_right p [] None (nodes w1))\<rparr>"
  have "tree_inv X (nodes ?w) ?kids"
    using tree_close [of p X "nodes w1" ?kids "mHead n1" "mTail n1"] w1(2) assms(3) n1 by (simp add: deleted_def ends_def)
  moreover have "lib_inv ?w" "counts ?w"
    using w1(2) lib_inv_ident [of w1 ?w] counts_ident [of ?w w1] by (simp_all add: deleted_def)
  moreover have "Group_DeleteAll k p w = Some ?w"
    using k(1) assms(9) w1(1) n1(1) by (simp add: set_node_modify set_both)
  ultimately show ?thesis using w1(2) by (simp add: deleted_def frame_def)
qed

lemma all_delete: "deletes t"
proof (induction t)
  case (Rose p ts)
  have IH: "\<forall>t \<in> set ts. deletes t" using Rose by blast
  show ?case
    unfolding deletes_def
  proof (intro allI impI)
    fix X w kids k
    assume d: "deletable X w kids (Rose p ts)" and inv: "tree_inv X (nodes w) kids" "lib_inv w" "counts w"
      and k: "depth (Rose p ts) \<le> k"
    obtain j where j: "k = Suc j" "Suc (depths (map depth ts)) \<le> j" using k by (cases k) auto
    obtain n where n: "nodes w p = Some n" "mID n \<noteq> 0" using d by (auto simp: deletable_def)
    have p: "p \<notin> X" "kids p = map root_of ts" "p \<notin> set (concat (map addrs ts))" "\<forall>g \<in> X. p \<notin> set (kids g)"
      using d by (auto simp: deletable_def)
    show "\<exists>w'. Node_Delete k (root_of (Rose p ts)) w = Some w' \<and> deleted X (prune (Rose p ts) kids) (set (addrs (Rose p ts)))
        (filter (has_units (nodes w)) (addrs (Rose p ts))) w w'"
    proof (cases "mIsGroup n")
      case False
      then have "ts = []" using tree_is_group [OF inv(1), of p] p(2) n(1) by (auto simp: ends_def)
      moreover from this have "prune (Rose p ts) kids = detach p kids" using p(2) by (auto simp: prune_def detach_def)
      ultimately show ?thesis
        using Graph_Dtor_deletes [OF inv n(1) False p(1)] p(4) j(1) n False by auto
    next
      case True
      let ?kids = "\<lambda>q. if q = p \<or> q \<in> set (concat (map addrs ts)) then [] else kids q"
      have ch: "\<forall>t \<in> set ts. deletable X w kids t \<and> p \<notin> set (addrs t)" using deletable_child [OF d _ inv(1)] by blast
      obtain w1 where w1: "Group_DeleteAll j p w = Some w1" "deleted X ?kids (set (concat (map addrs ts)))
          (filter (has_units (nodes w)) (concat (map addrs ts))) w w1"
        using Group_DeleteAll_ok [OF ch _ p(1,2) IH inv n(1) True j(2)] d by (auto simp: deletable_def)
      have "ident (nodes w1) p = ident (nodes w) p" using w1(2) p(3) by (simp add: deleted_def)
      then obtain n1 where n1: "nodes w1 p = Some n1" "mIsGroup n1" using n(1) True by (auto simp: ident_def)
      obtain w2 where w2: "Node_Dtor p (w1\<lparr>mNumGroups := mNumGroups w1 - 1\<rparr>) = Some w2" "deleted X (detach p ?kids) {p} [] w1 w2"
      proof -
        have "p \<notin> set (?kids g)" if "g \<in> X" for g using that p(4) by simp
        then show thesis using that Group_Dtor_deletes [of X w1 ?kids p n1] w1(2) n1 p(1) unfolding deleted_def by auto
      qed
      have "detach p ?kids = prune (Rose p ts) kids" by (auto simp: detach_def prune_def fun_eq_iff)
      moreover have "set (addrs (Rose p ts)) = set (concat (map addrs ts)) \<union> {p}" by auto
      moreover have "filter (has_units (nodes w)) (addrs (Rose p ts)) = filter (has_units (nodes w)) (concat (map addrs ts)) @ []"
        using n(1) True by (simp add: has_units_def ident_def)
      ultimately have "deleted X (prune (Rose p ts) kids) (set (addrs (Rose p ts))) (filter (has_units (nodes w)) (addrs (Rose p ts))) w w2"
        using deleted_trans [OF w1(2) w2(2)] by metis
      then show ?thesis using j(1) n True w1(1) w2(1) by auto
    qed
  qed
qed

section \<open>The subtree of a node\<close>

definition subtree :: "(addr \<Rightarrow> addr list) \<Rightarrow> addr \<Rightarrow> addr set" where
  "subtree kids p = {q. (q, p) \<in> (below kids)\<^sup>*}"

lemma subtree_unfold: "subtree kids p = insert p (\<Union>c \<in> set (kids p). subtree kids c)"
  unfolding subtree_def by (auto simp: below_def elim: rtrancl.cases intro: rtrancl_into_rtrancl)

lemma subtree_disjoint:
  assumes "acyclic (below kids)" "single_valued (below kids)" "c \<in> set (kids p)" "d \<in> set (kids p)" "c \<noteq> d"
  shows "subtree kids c \<inter> subtree kids d = {}"
proof (rule ccontr)
  assume "subtree kids c \<inter> subtree kids d \<noteq> {}"
  then obtain q where q: "(q, c) \<in> (below kids)\<^sup>*" "(q, d) \<in> (below kids)\<^sup>*" by (auto simp: subtree_def)
  have False if ab: "(a, b) \<in> (below kids)\<^sup>*" "a \<noteq> b" "a \<in> set (kids p)" "b \<in> set (kids p)" for a b
  proof -
    obtain z where z: "(a, z) \<in> below kids" "(z, b) \<in> (below kids)\<^sup>*" using ab(1,2) by (auto elim: converse_rtranclE)
    have "z = p" using assms(2) z(1) ab(3) by (auto simp: single_valued_def below_def)
    then have "(b, b) \<in> (below kids)\<^sup>+" using z(2) ab(4) by (auto simp: below_def intro: rtrancl_into_trancl2)
    then show False using assms(1) by (simp add: acyclic_def)
  qed
  then show False using single_valued_confluent [OF assms(2) q] assms(3-5) by blast
qed

lemma distinct_concat_map:
  assumes "distinct xs" "\<And>x. x \<in> set xs \<Longrightarrow> distinct (f x)"
    and "\<And>x y. x \<in> set xs \<Longrightarrow> y \<in> set xs \<Longrightarrow> x \<noteq> y \<Longrightarrow> set (f x) \<inter> set (f y) = {}"
  shows "distinct (concat (map f xs))"
  using assms by (induction xs) fastforce+

lemma rose_exists:
  assumes "wf (below kids)" "single_valued (below kids)" "\<And>g. distinct (kids g)"
  shows "\<exists>t. root_of t = p \<and> rep kids t \<and> set (addrs t) = subtree kids p \<and> distinct (addrs t)"
  using assms(1)
proof (induction p rule: wf_induct_rule)
  case (less p)
  have ac: "acyclic (below kids)" using assms(1) by (rule wf_acyclic)
  have "\<forall>c \<in> set (kids p). \<exists>t. root_of t = c \<and> rep kids t \<and> set (addrs t) = subtree kids c \<and> distinct (addrs t)"
    using less by (simp add: below_def)
  then obtain f where f: "\<forall>c \<in> set (kids p). root_of (f c) = c \<and> rep kids (f c) \<and> set (addrs (f c)) = subtree kids c \<and> distinct (addrs (f c))"
    by metis
  let ?t = "Rose p (map f (kids p))"
  have "map root_of (map f (kids p)) = kids p" using f by (simp add: map_idI)
  then have "rep kids ?t" using f by (auto simp: list_all_iff)
  moreover have "set (addrs ?t) = subtree kids p" using f subtree_unfold [of kids p] by auto
  moreover have "distinct (addrs ?t)"
  proof -
    have "p \<notin> subtree kids c" if "c \<in> set (kids p)" for c
      using ac that rtrancl_into_trancl1 [of p c "below kids" p] by (auto simp: subtree_def below_def acyclic_def)
    moreover have "distinct (concat (map (addrs \<circ> f) (kids p)))"
      using f assms(3) [of p] subtree_disjoint [OF ac assms(2)]
      by (intro distinct_concat_map) auto
    ultimately show ?thesis using f by auto
  qed
  ultimately show ?case by (intro exI [of _ ?t]) simp
qed

section \<open>Node_Delete\<close>

lemma world_rose:
  assumes "world_inv r w kids" "nodes w p = Some n"
  shows "\<exists>t. root_of t = p \<and> rep kids t \<and> set (addrs t) = subtree kids p \<and> distinct (addrs t) \<and>
    subtree kids p \<subseteq> dom (nodes w) \<and> depth t \<le> 3 * card (dom (nodes w))"
proof -
  have inv: "tree_inv {} (nodes w) kids" "lib_inv w" "acyclic (below kids)" using assms(1) by (simp_all add: world_inv_def)
  have dom: "c \<in> dom (nodes w) \<and> g \<in> dom (nodes w)" if "(c, g) \<in> below kids" for c g
  proof -
    have c: "c \<in> set (kids g)" using that by (simp add: below_def)
    then have "kids g \<noteq> []" by auto
    then obtain u v where "ends (nodes w) g = Some (True, u, v)" using tree_is_group [OF inv(1), of g] by blast
    then show ?thesis using kids_exist [OF inv(1) c] by (auto simp: ends_def)
  qed
  then have "below kids \<subseteq> dom (nodes w) \<times> dom (nodes w)" by auto
  then have "finite (below kids)" by (rule finite_subset) (simp add: lib_finite [OF inv(2)])
  then have "wf (below kids)" using inv(3) by (rule finite_acyclic_wf)
  moreover have "single_valued (below kids)" using tree_one_parent [OF inv(1)] by (auto simp: single_valued_def below_def)
  ultimately obtain t where t: "root_of t = p" "rep kids t" "set (addrs t) = subtree kids p" "distinct (addrs t)"
    using rose_exists [of kids p] tree_distinct [OF inv(1)] by blast
  have sub: "subtree kids p \<subseteq> dom (nodes w)"
  proof
    fix q assume "q \<in> subtree kids p"
    then have "(q, p) \<in> (below kids)\<^sup>*" by (simp add: subtree_def)
    then show "q \<in> dom (nodes w)" by (induction rule: converse_rtrancl_induct) (use assms(2) dom in blast)+
  qed
  have "length (addrs t) = card (subtree kids p)" using distinct_card [OF t(4)] t(3) by simp
  also have "\<dots> \<le> card (dom (nodes w))" by (rule card_mono [OF lib_finite [OF inv(2)] sub])
  finally have "3 * length (addrs t) \<le> 3 * card (dom (nodes w))" by simp
  then show ?thesis using t sub le_trans [OF depth_bound] by blast
qed

lemma root_not_below:
  assumes "world_inv r w kids" "(r, p) \<in> (below kids)\<^sup>*"
  shows "p = r"
proof -
  have "r \<notin> set (kids g)" for g using assms(1) no_parent_no_list by (auto simp: world_inv_def)
  then show ?thesis using assms(2) by (auto simp: below_def elim: converse_rtranclE)
qed

lemma deletable_subtree:
  assumes "world_inv r w kids" "rep kids t" "set (addrs t) = subtree kids (root_of t)" "distinct (addrs t)" "root_of t \<noteq> r"
    and "subtree kids (root_of t) \<subseteq> dom (nodes w)"
  shows "deletable {} w kids t"
proof -
  have "\<exists>n. nodes w q = Some n \<and> mID n \<noteq> 0" if q: "q \<in> set (addrs t)" for q
  proof -
    obtain n where n: "nodes w q = Some n" using q assms(3,6) by auto
    moreover have "q \<noteq> r" using root_not_below [OF assms(1), of "root_of t"] q assms(3,5) by (auto simp: subtree_def)
    ultimately show ?thesis using root_iff [OF assms(1) n] by auto
  qed
  then show ?thesis using assms by (auto simp: deletable_def)
qed

text \<open>Deletions keep the invariant.\<close>

lemma deleted_world:
  assumes "world_inv r w kids" "deleted {} kids' S ds w w'" "r \<notin> S" "\<And>g. set (kids' g) \<subseteq> set (kids g)"
  shows "world_inv r w' kids'"
proof -
  have "below kids' \<subseteq> below kids" using assms(4) by (auto simp: below_def)
  then have "acyclic (below kids')" using assms(1) acyclic_subset by (auto simp: world_inv_def)
  moreover have "\<exists>n. nodes w' r = Some n \<and> mID n = 0 \<and> mIsGroup n \<and> mParent n = None"
  proof -
    obtain n where n: "nodes w r = Some n" "mID n = 0" "mIsGroup n" using assms(1) by (auto simp: world_inv_def)
    have "ident (nodes w') r = ident (nodes w) r" using assms(2,3) by (simp add: deleted_def)
    then obtain n' where n': "nodes w' r = Some n'" "mID n' = 0" "mIsGroup n'" using n by (auto simp: ident_def)
    have t: "tree_inv {} (nodes w') kids'" using assms(2) by (simp add: deleted_def)
    have "r \<notin> set (kids' g)" for g using assms(1,4) no_parent_no_list by (fastforce simp: world_inv_def)
    then have "mParent n' = None" using tree_child [OF t, of r] n'(1) by (cases "mParent n'") (auto simp: links_def)
    with n' show ?thesis by blast
  qed
  ultimately show ?thesis using assms(2) by (simp add: world_inv_def deleted_def)
qed

text \<open>The tree without the nodes below \<open>p\<close>, and without \<open>p\<close>.\<close>

definition cut_off :: "addr \<Rightarrow> (addr \<Rightarrow> addr list) \<Rightarrow> addr \<Rightarrow> addr list" where
  "cut_off p kids = (\<lambda>g. if g \<in> subtree kids p then [] else remove1 p (kids g))"

lemma Node_Delete_ok:
  assumes "world_inv r w kids" "counts w" "nodes w p \<noteq> None" "p \<noteq> r" "3 * card (dom (nodes w)) \<le> k"
  shows "\<exists>w' ds. Node_Delete k p w = Some w' \<and> world_inv r w' (cut_off p kids) \<and> deleted {} (cut_off p kids) (subtree kids p) ds w w' \<and>
    distinct ds \<and> set ds = {q \<in> subtree kids p. has_units (nodes w) q}"
proof -
  obtain n where n: "nodes w p = Some n" using assms(3) by auto
  obtain t where t: "root_of t = p" "rep kids t" "set (addrs t) = subtree kids p" "distinct (addrs t)"
      "subtree kids p \<subseteq> dom (nodes w)" "depth t \<le> 3 * card (dom (nodes w))"
    using world_rose [OF assms(1) n] by blast
  have inv: "tree_inv {} (nodes w) kids" "lib_inv w" using assms(1) by (simp_all add: world_inv_def)
  have "deletable {} w kids t" using t assms(4) by (intro deletable_subtree [OF assms(1)]) auto
  then obtain w' where w': "Node_Delete k p w = Some w'"
      "deleted {} (prune t kids) (set (addrs t)) (filter (has_units (nodes w)) (addrs t)) w w'"
    using deletesD [OF all_delete _ inv assms(2), of t k] t(1,6) assms(5) by auto
  have c: "prune t kids = cut_off p kids" unfolding prune_def cut_off_def t(1,3) ..
  have "r \<notin> set (addrs t)" using root_not_below [OF assms(1)] assms(4) t(3) by (auto simp: subtree_def)
  moreover have "set (cut_off p kids g) \<subseteq> set (kids g)" for g by (simp add: cut_off_def set_remove1_subset)
  ultimately have "world_inv r w' (cut_off p kids)" using deleted_world [OF assms(1) w'(2)] c by metis
  then show ?thesis using w' t(3,4) c by (intro exI [of _ w'] exI [of _ "filter (has_units (nodes w)) (addrs t)"]) auto
qed

lemma Node_Delete_root:
  assumes "nodes w p = Some n" "mID n = 0" "0 < k"
  shows "Node_Delete k p w = Some w"
  using assms by (cases k) auto

definition emptied :: "addr \<Rightarrow> (addr \<Rightarrow> addr list) \<Rightarrow> addr \<Rightarrow> addr list" where
  "emptied p kids = (\<lambda>g. if g \<in> subtree kids p then [] else kids g)"

lemma rose_child:
  assumes "rep kids (Rose p ts)" "t \<in> set ts"
  shows "rep kids t \<and> root_of t \<in> set (kids p)"
  using assms by (auto simp: list_all_iff)

lemma rep_subtree: "rep kids t \<Longrightarrow> set (addrs t) = subtree kids (root_of t)"
proof (induction t)
  case (Rose p ts)
  then have "set (addrs t) = subtree kids (root_of t)" if "t \<in> set ts" for t using that rose_child [OF Rose.prems] by blast
  then show ?case using Rose.prems subtree_unfold [of kids p] by auto
qed

lemma Group_DeleteAll_world:
  assumes "world_inv r w kids" "counts w" "nodes w p = Some n" "mIsGroup n" "3 * card (dom (nodes w)) \<le> k"
  shows "\<exists>w' ds. Group_DeleteAll k p w = Some w' \<and> world_inv r w' (emptied p kids) \<and>
    deleted {} (emptied p kids) (subtree kids p - {p}) ds w w' \<and> distinct ds \<and> set ds = {q \<in> subtree kids p. has_units (nodes w) q}"
proof -
  obtain t where t: "root_of t = p" "rep kids t" "set (addrs t) = subtree kids p" "distinct (addrs t)"
      "subtree kids p \<subseteq> dom (nodes w)" "depth t \<le> 3 * card (dom (nodes w))"
    using world_rose [OF assms(1,3)] by blast
  then obtain ts where ts: "t = Rose p ts" by (cases t) auto
  let ?S = "set (concat (map addrs ts))"
  have S: "?S = subtree kids p - {p}" using t(3,4) ts by auto
  have inv: "tree_inv {} (nodes w) kids" "lib_inv w" using assms(1) by (simp_all add: world_inv_def)
  have nr: "r \<notin> set (kids g)" for g using assms(1) no_parent_no_list by (auto simp: world_inv_def)
  have "deletable {} w kids u \<and> p \<notin> set (addrs u)" if u: "u \<in> set ts" for u
  proof -
    note c = rose_child [OF t(2) [unfolded ts] u]
    have "root_of u \<noteq> r" using c nr by auto
    moreover have "distinct (addrs u)" "set (addrs u) \<subseteq> subtree kids p" "p \<notin> set (addrs u)" using t(3,4) ts u by (auto simp: distinct_concat_iff)
    ultimately show ?thesis using deletable_subtree [OF assms(1)] c rep_subtree t(5) by blast
  qed
  moreover have "distinct (concat (map addrs ts))" "kids p = map root_of ts" using t(2,4) ts by auto
  moreover have "Suc (depths (map depth ts)) \<le> k" using t(6) ts assms(5) by simp
  ultimately obtain w' where w': "Group_DeleteAll k p w = Some w'"
      "deleted {} (\<lambda>q. if q = p \<or> q \<in> ?S then [] else kids q) ?S (filter (has_units (nodes w)) (concat (map addrs ts))) w w'"
    using Group_DeleteAll_ok [of ts "{}" w kids p n k] all_delete inv assms(2-4) by blast
  have "p \<in> subtree kids p" by (simp add: subtree_def)
  then have c: "(\<lambda>q. if q = p \<or> q \<in> ?S then [] else kids q) = emptied p kids" unfolding emptied_def S by auto
  have "r \<notin> ?S" using root_not_below [OF assms(1)] S by (auto simp: subtree_def)
  moreover have "set (emptied p kids g) \<subseteq> set (kids g)" for g by (simp add: emptied_def)
  ultimately have "world_inv r w' (emptied p kids)" using deleted_world [OF assms(1) w'(2)] c by metis
  moreover have "\<not> has_units (nodes w) p" using assms(3,4) by (simp add: has_units_def ident_def)
  then have "set (filter (has_units (nodes w)) (concat (map addrs ts))) = {q \<in> subtree kids p. has_units (nodes w) q}" using S by auto
  moreover have "distinct (filter (has_units (nodes w)) (concat (map addrs ts)))" using t(4) ts by (intro distinct_filter) simp
  ultimately show ?thesis using w' unfolding c unfolding S by blast
qed

end
