(* ===== verification/SC_NodeServer.thy ===== *)
theory SC_NodeServer
  imports SC_NodeDeletion
begin

text \<open>
  Creation of nodes and the server as a whole: every sequence of node commands refines an abstract
  tree, from the world that \<open>World_New\<close> sets up on.
\<close>

section \<open>Hidden ids\<close>

text \<open>Hidden ids are negative and multiples of 8, so they are neither the root's id nor -1.\<close>

definition hidden_ok :: "int \<Rightarrow> bool" where
  "hidden_ok h \<longleftrightarrow> take_bit 3 h = 0"

lemma bit_next_hidden: "n < 32 \<Longrightarrow> bit (next_hidden h) n \<longleftrightarrow> bit (h - 8) n \<or> n = 31"
proof -
  have "bit (0x80000000 :: 32 word) m \<longleftrightarrow> m = 31" for m
  proof -
    have "(0x80000000 :: 32 word) = 2 ^ 31" by simp
    then show ?thesis by (simp only: bit_exp_iff) auto
  qed
  then show "n < 32 \<Longrightarrow> bit (next_hidden h) n \<longleftrightarrow> bit (h - 8) n \<or> n = 31"
    by (auto simp: next_hidden_def bit_simps min_def simp del: of_int_diff)
qed

lemma next_hidden_ok:
  assumes "hidden_ok h"
  shows "hidden_ok (next_hidden h)" "next_hidden h \<noteq> 0" "next_hidden h \<noteq> -1"
proof -
  have "take_bit 3 (h - 8) = 0" using assms take_bit_diff [of 3 h 8] by (simp add: hidden_ok_def)
  then have b: "\<not> bit (h - 8) n" if "n < 3" for n using that bit_take_bit_iff [of 3 "h - 8" n] by simp
  then have b': "\<not> bit (next_hidden h) n" if "n < 3" for n using that by (simp add: bit_next_hidden)
  then show "hidden_ok (next_hidden h)" unfolding hidden_ok_def by (intro bit_eqI) (simp add: bit_take_bit_iff)
  show "next_hidden h \<noteq> -1" using b' [of 0] by auto
  show "next_hidden h \<noteq> 0" using bit_next_hidden [of 31 h] by auto
qed

section \<open>Adding a node to the library\<close>

lemma filter_keys_distinct:
  assumes "keys_distinct kh xs"
  shows "distinct (filter (\<lambda>z. z \<noteq> None) xs)"
  using assms
proof (induction xs)
  case (Cons x xs)
  have "keys_distinct kh xs"
    unfolding keys_distinct_def
  proof (intro allI impI)
    fix i j a b assume "i < length xs" "j < length xs" "xs ! i = Some a" "xs ! j = Some b" "kh a = kh b"
    then have "Suc i = Suc j"
      using Cons.prems [unfolded keys_distinct_def, rule_format, of "Suc i" "Suc j" a b] by simp
    then show "i = j" by simp
  qed
  moreover have "x \<notin> set xs" if x: "x \<noteq> None"
  proof
    assume "x \<in> set xs"
    then obtain j where j: "j < length xs" "xs ! j = x" by (auto simp: in_set_conv_nth)
    obtain a where "x = Some a" using x by auto
    then show False using Cons.prems [unfolded keys_distinct_def, rule_format, of 0 "Suc j" a a] j by simp
  qed
  ultimately show ?case using Cons.IH by simp
qed simp

lemma num_items:
  assumes "tab_inv kh t"
  shows "mNumItems t = int (card (items t))"
proof -
  let ?ys = "filter (\<lambda>z. z \<noteq> None) (mItems t)"
  have "distinct ?ys" using assms filter_keys_distinct by (auto simp: tab_inv_def items_ok_def)
  then have "length ?ys = card (set ?ys)" by (rule distinct_card [symmetric])
  also have "set ?ys = Some ` items t" by (auto simp: items_def)
  finally show ?thesis using assms by (simp add: tab_inv_def num_def card_image)
qed

lemma lib_count: "lib_inv w \<Longrightarrow> mNumItems (mNodeLib w) = int (card (dom (nodes w)))"
  using num_items by (force simp: lib_inv_def fixed_inv_def)

lemma add_node_ok:
  assumes "lib_inv w" "nodes w p = None" "mHash n = Hash_int (word_of_int (mID n))"
    and "\<And>q m. nodes w q = Some m \<Longrightarrow> mID m \<noteq> mID n"
  shows "\<exists>b w'. World_AddNode (w\<lparr>nodes := (nodes w)(p \<mapsto> n)\<rparr>) p = Some (b, w') \<and>
    (if mMaxItems (mNodeLib w) \<le> int (card (dom (nodes w))) then \<not> b \<and> w' = w\<lparr>nodes := (nodes w)(p \<mapsto> n)\<rparr>
     else b \<and> (\<exists>t. w' = w\<lparr>nodes := (nodes w)(p \<mapsto> n), mNodeLib := t\<rparr> \<and> mMaxItems t = mMaxItems (mNodeLib w)) \<and> lib_inv w')"
proof -
  let ?w = "w\<lparr>nodes := (nodes w)(p \<mapsto> n)\<rparr>"
  let ?kh = "node_key ?w"
  have l: "items (mNodeLib w) = dom (nodes w)" "fixed_inv (node_key w) (mNodeLib w)" using assms(1) by (simp_all add: lib_inv_def)
  have "?kh q = node_key w q" if "q \<in> items (mNodeLib w)" for q using that l(1) assms(2) by (auto simp: node_key_def)
  then have f: "fixed_inv ?kh (mNodeLib w)" using l(2) fixed_inv_cong [of "mNodeLib w" ?kh "node_key w"] by simp
  show ?thesis
  proof (cases "mMaxItems (mNodeLib w) \<le> int (card (dom (nodes w)))")
    case True
    then have "Int_Add 0 ?kh (mNodeLib w) p = Some (False, mNodeLib w)"
      using lib_count [OF assms(1)] f by (simp add: Int_Add.simps fixed_inv_def)
    then show ?thesis using True by (intro exI [of _ False]) (simp add: World_AddNode_def)
  next
    case False
    have "\<not> (\<exists>y \<in> items (mNodeLib w). ?kh y = ?kh p)" using l(1) assms(2,4) by (auto simp: node_key_def)
    then obtain t where t: "place ?kh (mNodeLib w) p = Some (True, t)" "tab_inv ?kh t" "mMaxItems t = mMaxItems (mNodeLib w)"
        "mCanResize t = mCanResize (mNodeLib w)" "items t = insert p (items (mNodeLib w))"
      using place_ok [of ?kh "mNodeLib w" p] f False lib_count [OF assms(1)] by (auto simp: fixed_inv_def)
    let ?v = "?w\<lparr>mNodeLib := t\<rparr>"
    have "World_AddNode ?w p = Some (True, ?v)" using t(1) False lib_count [OF assms(1)] by (simp add: World_AddNode_def Int_Add.simps)
    moreover have "node_key ?v = ?kh" by (simp add: node_key_def fun_eq_iff)
    then have "lib_inv ?v" using t f l(1) assms(1,3) by (auto simp: lib_inv_def fixed_inv_def)
    ultimately show ?thesis using False t(3) by auto
  qed
qed

section \<open>Creating a node\<close>

lemma tree_fresh:
  assumes "tree_inv X h kids" "h p = None" "p \<notin> X" "mParent n = None" "mPrev n = None" "mNext n = None"
    and "mIsGroup n \<Longrightarrow> mHead n = None \<and> mTail n = None"
  shows "tree_inv X (h(p \<mapsto> n)) kids"
proof -
  have kp: "kids p = []" using tree_is_group [OF assms(1), of p] assms(2) by (auto simp: ends_def)
  have np: "p \<notin> set (kids g)" for g using kids_exist [OF assms(1)] assms(2) by blast
  have l: "links (h(p \<mapsto> n)) q = (if q = p then Some (None, None, None) else links h q)" for q
    using assms(4-6) by (simp add: links_def)
  have e: "ends (h(p \<mapsto> n)) q = (if q = p then Some (mIsGroup n, mHead n, mTail n) else ends h q)" for q by (simp add: ends_def)
  have d: "dseg (h(p \<mapsto> n)) g pr (kids g) nx \<longleftrightarrow> dseg h g pr (kids g) nx" for g pr nx
    using np by (intro dseg_cong) (auto simp: l)
  show ?thesis using assms kp unfolding tree_inv_def l e d by auto
qed

lemma world_fresh:
  assumes "world_inv r w kids" "nodes w p = None" "mParent n = None" "mPrev n = None" "mNext n = None"
    and "mIsGroup n \<Longrightarrow> mHead n = None \<and> mTail n = None" "nodes w' = (nodes w)(p \<mapsto> n)" "lib_inv w'"
  shows "world_inv r w' kids"
  using assms tree_fresh [of "{}" "nodes w" kids p n] by (auto simp: world_inv_def)

definition new_id :: "int \<Rightarrow> int \<Rightarrow> int" where
  "new_id h i = (if i < 0 then next_hidden h else i)"

definition take_id :: "int \<Rightarrow> SC_World \<Rightarrow> SC_World" where
  "take_id i w = (if i = -1 then w\<lparr>mHiddenID := next_hidden (mHiddenID w)\<rparr> else w)"

lemma take_id_simps [simp]: "nodes (take_id i w) = nodes w" "mNodeLib (take_id i w) = mNodeLib w" "mRecentID (take_id i w) = mRecentID w"
  "mNumGroups (take_id i w) = mNumGroups w" "mNumGraphs (take_id i w) = mNumGraphs w"
  by (simp_all add: take_id_def)

lemma world_take_id [simp]: "world_inv r (take_id i w) kids = world_inv r w kids" "lib_inv (take_id i w) = lib_inv w"
  by (simp_all add: world_inv_def lib_inv_def node_key_def [abs_def])

lemma blank_node_simps [simp]:
  "mID (blank_node i) = i" "mHash (blank_node i) = Hash_int (word_of_int i)" "mPrev (blank_node i) = None" "mNext (blank_node i) = None"
  "mParent (blank_node i) = None" "\<not> mIsGroup (blank_node i)"
  by (simp_all add: blank_node_def)

definition fresh_id :: "SC_World \<Rightarrow> int \<Rightarrow> bool" where
  "fresh_id w i \<longleftrightarrow> (\<forall>q m. nodes w q = Some m \<longrightarrow> mID m \<noteq> new_id (mHiddenID w) i)"

lemma Node_New_ok:
  assumes "lib_inv w" "nodes w p = None" "hidden_ok (mHiddenID w)"
  shows "\<exists>t. Node_New p i w = Some (
     if i < -1 then (kSCErr_ReservedNodeID, w)
     else if \<not> fresh_id w i then (kSCErr_DuplicateNodeID, take_id i w)
     else if mMaxItems (mNodeLib w) \<le> int (card (dom (nodes w))) then (kSCErr_TooManyNodes, take_id i w)
     else (kSCErr_None, (take_id i w)\<lparr>nodes := (nodes w)(p \<mapsto> blank_node (new_id (mHiddenID w) i)), mNodeLib := t,
             mRecentID := new_id (mHiddenID w) i\<rparr>)) \<and>
    (i \<ge> -1 \<longrightarrow> fresh_id w i \<longrightarrow> int (card (dom (nodes w))) < mMaxItems (mNodeLib w) \<longrightarrow> mMaxItems t = mMaxItems (mNodeLib w) \<and>
       lib_inv ((take_id i w)\<lparr>nodes := (nodes w)(p \<mapsto> blank_node (new_id (mHiddenID w) i)), mNodeLib := t, mRecentID := new_id (mHiddenID w) i\<rparr>))"
proof (cases "i < -1")
  case True
  then show ?thesis by (simp add: Node_New_def)
next
  case False
  let ?w = "take_id i w" and ?i = "new_id (mHiddenID w) i"
  have start: "(if i < 0 then (next_hidden (mHiddenID w), w\<lparr>mHiddenID := next_hidden (mHiddenID w)\<rparr>) else (i, w)) = (?i, ?w)"
    using False by (auto simp: new_id_def take_id_def)
  have ne: "?i \<noteq> -1" using next_hidden_ok [OF assms(3)] False by (auto simp: new_id_def)
  obtain old where old: "World_GetNode ?w ?i = Some old" "\<forall>q. old = Some q \<longleftrightarrow> (\<exists>n. nodes w q = Some n \<and> mID n = ?i)"
    using World_GetNode_ok [of ?w ?i] assms(1) ne by auto
  have fresh: "old = None \<longleftrightarrow> fresh_id w i" using old(2) unfolding fresh_id_def by (metis not_None_eq)
  show ?thesis
  proof (cases "fresh_id w i")
    case False
    then show ?thesis using \<open>\<not> i < -1\<close> start old(1) fresh by (simp add: Node_New_def)
  next
    case True
    let ?n = "blank_node ?i"
    have "\<And>q m. nodes w q = Some m \<Longrightarrow> mID m \<noteq> ?i" using True by (simp add: fresh_id_def)
    then obtain b w' where w': "World_AddNode (?w\<lparr>nodes := (nodes w)(p \<mapsto> ?n)\<rparr>) p = Some (b, w')"
        "if mMaxItems (mNodeLib w) \<le> int (card (dom (nodes w))) then \<not> b \<and> w' = ?w\<lparr>nodes := (nodes w)(p \<mapsto> ?n)\<rparr>
         else b \<and> (\<exists>t. w' = ?w\<lparr>nodes := (nodes w)(p \<mapsto> ?n), mNodeLib := t\<rparr> \<and> mMaxItems t = mMaxItems (mNodeLib w)) \<and> lib_inv w'"
      using add_node_ok [of ?w p ?n, unfolded take_id_simps world_take_id blank_node_simps, OF assms(1,2) refl] by blast
    have new: "Node_New p i w = Some (if \<not> b then (kSCErr_TooManyNodes, w'\<lparr>nodes := (nodes w')(p := None)\<rparr>)
        else (kSCErr_None, w'\<lparr>mRecentID := ?i\<rparr>))"
      using \<open>\<not> i < -1\<close> start old(1) fresh True assms(2) w'(1) by (simp add: Node_New_def)
    show ?thesis
    proof (cases "mMaxItems (mNodeLib w) \<le> int (card (dom (nodes w)))")
      case full: True
      have "(nodes w)(p := None) = nodes w" using assms(2) by auto
      then have "?w\<lparr>nodes := (nodes w)(p := None)\<rparr> = ?w" by (cases "i = -1") (simp_all add: take_id_def)
      then show ?thesis using new w'(2) full True \<open>\<not> i < -1\<close> by simp
    next
      case room: False
      then obtain t where t: "b" "w' = ?w\<lparr>nodes := (nodes w)(p \<mapsto> ?n), mNodeLib := t\<rparr>" "mMaxItems t = mMaxItems (mNodeLib w)" "lib_inv w'"
        using w'(2) by auto
      have "lib_inv (w'\<lparr>mRecentID := ?i\<rparr>)" using lib_inv_ident [OF t(4), of "w'\<lparr>mRecentID := ?i\<rparr>"] by simp
      then show ?thesis using new t room True \<open>\<not> i < -1\<close> by (intro exI [of _ t]) simp
    qed
  qed
qed

lemma members_new:
  assumes "finite (dom h)" "h p = None" "mIsGroup n = b"
  shows "card (members b' (h(p \<mapsto> n))) = card (members b' h) + (if b = b' then 1 else 0)"
proof -
  have "members b' (h(p \<mapsto> n)) = (if b = b' then insert p (members b' h) else members b' h)"
    using assms(2,3) by (auto simp: members_def ident_def)
  moreover have "p \<notin> members b' h" using assms(2) by (simp add: members_def ident_def)
  moreover have "finite (members b' h)" using assms(1) by (rule rev_finite_subset) (auto simp: members_def ident_def)
  ultimately show ?thesis by simp
qed

definition make_node :: "bool \<Rightarrow> addr \<Rightarrow> int \<Rightarrow> SC_World \<Rightarrow> (SCErr \<times> SC_World) option" where
  "make_node b p i w = (if b then Group_New p i w else Graph_New p i w)"

lemma make_node_ok:
  assumes "world_inv r w kids" "counts w" "nodes w p = None" "hidden_ok (mHiddenID w)"
  shows "\<exists>err w'. make_node b p i w = Some (err, w') \<and>
    err = (if i < -1 then kSCErr_ReservedNodeID else if \<not> fresh_id w i then kSCErr_DuplicateNodeID
      else if mMaxItems (mNodeLib w) \<le> int (card (dom (nodes w))) then kSCErr_TooManyNodes else kSCErr_None) \<and>
    (if err \<noteq> kSCErr_None then w' = take_id i w
     else world_inv r w' kids \<and> counts w' \<and> frame w' = (mHiddenID (take_id i w), new_id (mHiddenID w) i, mMaxItems (mNodeLib w)) \<and>
       (\<exists>n. nodes w' = (nodes w)(p \<mapsto> n) \<and> mID n = new_id (mHiddenID w) i \<and> mIsGroup n = b \<and> mParent n = None))"
proof -
  let ?i = "new_id (mHiddenID w) i"
  have lib: "lib_inv w" using assms(1) by (simp add: world_inv_def)
  obtain t where t: "Node_New p i w = Some (
       if i < -1 then (kSCErr_ReservedNodeID, w)
       else if \<not> fresh_id w i then (kSCErr_DuplicateNodeID, take_id i w)
       else if mMaxItems (mNodeLib w) \<le> int (card (dom (nodes w))) then (kSCErr_TooManyNodes, take_id i w)
       else (kSCErr_None, (take_id i w)\<lparr>nodes := (nodes w)(p \<mapsto> blank_node ?i), mNodeLib := t, mRecentID := ?i\<rparr>))"
      "i \<ge> -1 \<longrightarrow> fresh_id w i \<longrightarrow> int (card (dom (nodes w))) < mMaxItems (mNodeLib w) \<longrightarrow> mMaxItems t = mMaxItems (mNodeLib w) \<and>
         lib_inv ((take_id i w)\<lparr>nodes := (nodes w)(p \<mapsto> blank_node ?i), mNodeLib := t, mRecentID := ?i\<rparr>)"
    using Node_New_ok [OF lib assms(3,4), of i] by blast
  show ?thesis
  proof (cases "i \<ge> -1 \<and> fresh_id w i \<and> int (card (dom (nodes w))) < mMaxItems (mNodeLib w)")
    case False
    then show ?thesis using t(1) by (auto simp: make_node_def Group_New_def Graph_New_def take_id_def)
  next
    case True
    let ?w = "(take_id i w)\<lparr>nodes := (nodes w)(p \<mapsto> blank_node ?i), mNodeLib := t, mRecentID := ?i\<rparr>"
    let ?n = "if b then (blank_node ?i)\<lparr>mCalcFunc := Group_Calc_func, mIsGroup := True, mHead := None, mTail := None\<rparr>
      else (blank_node ?i)\<lparr>mCalcFunc := Graph_FirstCalc_func\<rparr>"
    let ?v = "?w\<lparr>nodes := (nodes w)(p \<mapsto> ?n), mNumGroups := mNumGroups w + (if b then 1 else 0), mNumGraphs := mNumGraphs w + (if b then 0 else 1)\<rparr>"
    have new: "make_node b p i w = Some (kSCErr_None, ?v)"
      using t(1) True by (simp add: make_node_def Group_New_def Graph_New_def set_node_def)
    have m: "mMaxItems t = mMaxItems (mNodeLib w)" "lib_inv ?w" using t(2) True by auto
    have key: "node_key ?v = node_key ?w" by (auto simp: node_key_def fun_eq_iff)
    have "lib_inv ?v" using m(2) lib unfolding lib_inv_def key by auto
    then have "world_inv r ?v kids" by (intro world_fresh [OF assms(1,3), of ?n]) auto
    moreover have "counts ?v"
      using assms(2) members_new [OF lib_finite [OF lib] assms(3), of ?n b] by (auto simp: counts_def)
    moreover have "frame ?v = (mHiddenID (take_id i w), ?i, mMaxItems (mNodeLib w))" using m(1) by (simp add: frame_def)
    ultimately show ?thesis using new True by (intro exI [of _ kSCErr_None] exI [of _ ?v]) (auto intro!: exI [of _ ?n])
  qed
qed

section \<open>The abstract server\<close>

text \<open>
  The nodes by address with their ids and kinds, the lists of children, and the numbers that ids come
  from. A position names the node that a new or moved node is put next to or into.
\<close>

record abs_server =
  a_nodes :: "(addr \<times> int \<times> bool) list"
  a_kids :: "addr \<Rightarrow> addr list"
  a_hidden :: int
  a_recent :: int
  a_max :: int

datatype position = AtHead int | AtTail int | BeforeNode int | AfterNode int

datatype command = New bool addr int position | Move int position | Free int | FreeAll int

fun target_id :: "position \<Rightarrow> int" where
  "target_id (AtHead i) = i" | "target_id (AtTail i) = i" | "target_id (BeforeNode i) = i" | "target_id (AfterNode i) = i"

fun in_group :: "position \<Rightarrow> bool" where
  "in_group (AtHead i) = True" | "in_group (AtTail i) = True" | "in_group (BeforeNode i) = False" | "in_group (AfterNode i) = False"

fun action :: "position \<Rightarrow> int" where
  "action (AtHead i) = 0" | "action (AtTail i) = 1" | "action (BeforeNode i) = 2" | "action (AfterNode i) = 3"

fun move_to :: "position \<Rightarrow> addr \<Rightarrow> addr \<Rightarrow> tree_move" where
  "move_to (AtHead i) t p = Head t p"
| "move_to (AtTail i) t p = Tail t p"
| "move_to (BeforeNode i) t p = Before p t"
| "move_to (AfterNode i) t p = After p t"

definition find_id :: "abs_server \<Rightarrow> int \<Rightarrow> (addr \<times> bool) option" where
  "find_id A i = map_option (\<lambda>(p, _, g). (p, g)) (List.find (\<lambda>(_, j, _). j = i) (a_nodes A))"

definition find_node :: "abs_server \<Rightarrow> int \<Rightarrow> (addr \<times> bool) option" where
  "find_node A i = find_id A (if i = -1 then a_recent A else i)"

definition find_group :: "abs_server \<Rightarrow> int \<Rightarrow> addr option" where
  "find_group A i = (case find_node A i of Some (p, True) \<Rightarrow> Some p | _ \<Rightarrow> None)"

definition find_target :: "abs_server \<Rightarrow> position \<Rightarrow> addr option" where
  "find_target A pos = (if in_group pos then find_group A (target_id pos) else map_option fst (find_node A (target_id pos)))"

definition same_place :: "abs_server \<Rightarrow> position \<Rightarrow> addr \<Rightarrow> addr \<Rightarrow> bool" where
  "same_place A pos t q \<longleftrightarrow>
     (if in_group pos then q \<in> set (a_kids A t) else \<exists>g. q \<in> set (a_kids A g) \<and> t \<in> set (a_kids A g))"

definition remove_nodes :: "addr set \<Rightarrow> abs_server \<Rightarrow> abs_server" where
  "remove_nodes S A = A\<lparr>a_nodes := filter (\<lambda>(p, _). p \<notin> S) (a_nodes A)\<rparr>"

fun spec_new :: "bool \<Rightarrow> addr \<Rightarrow> int \<Rightarrow> position \<Rightarrow> addr \<Rightarrow> abs_server \<Rightarrow> SCErr \<times> abs_server" where
  "spec_new b p i pos t A =
     (if i < -1 then (kSCErr_ReservedNodeID, A)
      else
        let j = new_id (a_hidden A) i; A = A\<lparr>a_hidden := (if i = -1 then j else a_hidden A)\<rparr> in
        if find_id A j \<noteq> None
        then (case find_group A i of Some q \<Rightarrow> if b \<and> same_place A pos t q then (kSCErr_None, A) else (kSCErr_DuplicateNodeID, A)
              | None \<Rightarrow> (kSCErr_DuplicateNodeID, A))
        else if a_max A \<le> int (length (a_nodes A)) then (kSCErr_TooManyNodes, A)
        else (kSCErr_None, A\<lparr>a_nodes := (p, j, b) # a_nodes A, a_recent := j, a_kids := spec_place (move_to pos t p) (a_kids A)\<rparr>))"

fun spec_cmd :: "addr \<Rightarrow> command \<Rightarrow> abs_server \<Rightarrow> SCErr \<times> abs_server" where
  "spec_cmd r (New b p i pos) A = (case find_target A pos of
     None \<Rightarrow> (if in_group pos then kSCErr_GroupNotFound else if b then kSCErr_TargetNodeNotFound else kSCErr_NodeNotFound, A)
   | Some t \<Rightarrow> spec_new b p i pos t A)"
| "spec_cmd r (Move i pos) A = (case (find_target A pos, find_node A i) of
     (Some t, Some (p, _)) \<Rightarrow> (kSCErr_None, if p = r \<or> p = t then A else A\<lparr>a_kids := spec_move (move_to pos t p) (a_kids A)\<rparr>)
   | (None, _) \<Rightarrow> (if in_group pos then kSCErr_GroupNotFound else kSCErr_None, A)
   | (_, None) \<Rightarrow> (if in_group pos then kSCErr_NodeNotFound else kSCErr_None, A))"
| "spec_cmd r (Free i) A = (case find_node A i of
     None \<Rightarrow> (kSCErr_NodeNotFound, A)
   | Some (p, _) \<Rightarrow> (kSCErr_None, if p = r then A else (remove_nodes (subtree (a_kids A) p) A)\<lparr>a_kids := cut_off p (a_kids A)\<rparr>))"
| "spec_cmd r (FreeAll i) A = (case find_group A i of
     None \<Rightarrow> (kSCErr_GroupNotFound, A)
   | Some p \<Rightarrow> (kSCErr_None, (remove_nodes (subtree (a_kids A) p - {p}) A)\<lparr>a_kids := emptied p (a_kids A)\<rparr>))"

text \<open>
  What the commands need: an allocator that returns a free address, moves that put no node below
  or next to itself, and for a new group next to a node that this node is in a group.
\<close>

fun legal :: "addr \<Rightarrow> command \<Rightarrow> abs_server \<Rightarrow> bool" where
  "legal r (New b p i pos) A \<longleftrightarrow> p \<notin> fst ` set (a_nodes A) \<and>
     (b \<longrightarrow> \<not> in_group pos \<longrightarrow> (\<forall>t. find_target A pos = Some t \<longrightarrow> (\<exists>g. t \<in> set (a_kids A g))))"
| "legal r (Move i pos) A \<longleftrightarrow> (\<forall>t p g. find_target A pos = Some t \<longrightarrow> find_node A i = Some (p, g) \<longrightarrow>
     (p = r \<or> sensible (move_to pos t p) (a_kids A)) \<and> (p = t \<longrightarrow> action pos = 2))"
| "legal r (Free i) A \<longleftrightarrow> True"
| "legal r (FreeAll i) A \<longleftrightarrow> True"

text \<open>The commands of the code, for messages with one command's arguments.\<close>

fun exec_cmd :: "nat \<Rightarrow> command \<Rightarrow> SC_World \<Rightarrow> (SCErr \<times> SC_World) option" where
  "exec_cmd k (New True p i pos) w = meth_g_new k [(p, i, action pos, ById (target_id pos))] w"
| "exec_cmd k (New False p i pos) w = meth_s_new k (Some True) p i (action pos) (ById (target_id pos)) w"
| "exec_cmd k (Move i (AtHead g)) w = meth_g_head [(ById g, ById i)] w"
| "exec_cmd k (Move i (AtTail g)) w = meth_g_tail [(ById g, ById i)] w"
| "exec_cmd k (Move i (BeforeNode t)) w = meth_n_before [(ById i, ById t)] w"
| "exec_cmd k (Move i (AfterNode t)) w = meth_n_after [(ById i, ById t)] w"
| "exec_cmd k (Free i) w = meth_n_free k [ById i] w"
| "exec_cmd k (FreeAll i) w = meth_g_freeAll k [ById i] w"

text \<open>The abstraction.\<close>

definition id_kind :: "Node \<Rightarrow> int \<times> bool" where
  "id_kind n = (mID n, mIsGroup n)"

definition refines :: "addr \<Rightarrow> SC_World \<Rightarrow> abs_server \<Rightarrow> bool" where
  "refines r w A \<longleftrightarrow> world_inv r w (a_kids A) \<and> counts w \<and> hidden_ok (mHiddenID w) \<and> frame w = (a_hidden A, a_recent A, a_max A) \<and>
     map_of (a_nodes A) = map_option id_kind \<circ> nodes w \<and> distinct (map fst (a_nodes A))"

section \<open>Lookups\<close>

lemma map_of_mem: "distinct (map fst xs) \<Longrightarrow> (p, y) \<in> set xs \<longleftrightarrow> map_of xs p = Some y"
  by (auto simp: map_of_eq_Some_iff)

lemma refines_mem:
  assumes "refines r w A"
  shows "(p, i, g) \<in> set (a_nodes A) \<longleftrightarrow> (\<exists>n. nodes w p = Some n \<and> mID n = i \<and> mIsGroup n = g)"
  using assms map_of_mem [of "a_nodes A" p "(i, g)"] by (auto simp: refines_def id_kind_def)

lemma refines_dom:
  assumes "refines r w A"
  shows "dom (nodes w) = fst ` set (a_nodes A)" "card (dom (nodes w)) = length (a_nodes A)"
proof -
  have "dom (map_of (a_nodes A)) = dom (nodes w)" using assms by (auto simp: refines_def)
  then show d: "dom (nodes w) = fst ` set (a_nodes A)" by (simp add: dom_map_of_conv_image_fst)
  have "distinct (map fst (a_nodes A))" using assms by (simp add: refines_def)
  then show "card (dom (nodes w)) = length (a_nodes A)" using distinct_card [of "map fst (a_nodes A)"] d by simp
qed

lemma find_id_mem: "find_id A i = Some (p, g) \<Longrightarrow> (p, i, g) \<in> set (a_nodes A)"
  by (auto simp: find_id_def find_Some_iff) (metis nth_mem)

lemma find_id_iff:
  assumes "refines r w A"
  shows "find_id A i = Some (p, g) \<longleftrightarrow> (\<exists>n. nodes w p = Some n \<and> mID n = i \<and> mIsGroup n = g)"
proof
  assume "find_id A i = Some (p, g)"
  then have "(p, i, g) \<in> set (a_nodes A)" by (rule find_id_mem)
  then show "\<exists>n. nodes w p = Some n \<and> mID n = i \<and> mIsGroup n = g" using refines_mem [OF assms] by simp
next
  assume n: "\<exists>n. nodes w p = Some n \<and> mID n = i \<and> mIsGroup n = g"
  then have "(p, i, g) \<in> set (a_nodes A)" using refines_mem [OF assms] by simp
  then have "List.find (\<lambda>(_, j, _). j = i) (a_nodes A) \<noteq> None" by (auto simp: find_None_iff)
  then obtain q g' where q: "find_id A i = Some (q, g')" by (fastforce simp: find_id_def)
  note q = this find_id_mem [OF this]
  have "lib_inv w" using assms by (simp add: refines_def world_inv_def)
  then have "q = p" using refines_mem [OF assms, of q i g'] q(2) n lib_ids by blast
  then show "find_id A i = Some (p, g)" using q refines_mem [OF assms, of q i g'] n by auto
qed

lemma find_node_iff:
  assumes "refines r w A"
  shows "find_node A i = Some (p, g) \<longleftrightarrow>
    (\<exists>n. nodes w p = Some n \<and> mID n = (if i = -1 then mRecentID w else i) \<and> mIsGroup n = g)"
  using assms find_id_iff [OF assms] by (auto simp: find_node_def refines_def frame_def)

lemma get_node:
  assumes "refines r w A"
  shows "Msg_GetNode w (ById i) = Some (map_option fst (find_node A i))" "World_GetNode w i = Some (map_option fst (find_node A i))"
proof -
  have "lib_inv w" using assms by (simp add: refines_def world_inv_def)
  then obtain q where q: "World_GetNode w i = Some q"
      "\<forall>p. q = Some p \<longleftrightarrow> (\<exists>n. nodes w p = Some n \<and> mID n = (if i = -1 then mRecentID w else i))"
    using World_GetNode_ok by blast
  have "q = map_option fst (find_node A i)"
  proof (cases "find_node A i")
    case None
    then have "q \<noteq> Some p" for p using q(2) find_node_iff [OF assms, of i p True] find_node_iff [OF assms, of i p False] by auto
    then show ?thesis using None by (cases q) auto
  next
    case (Some y)
    then show ?thesis using q(2) find_node_iff [OF assms, of i "fst y" "snd y"] by auto
  qed
  then show "Msg_GetNode w (ById i) = Some (map_option fst (find_node A i))" "World_GetNode w i = Some (map_option fst (find_node A i))"
    using q(1) by (simp_all add: Msg_GetNode_def)
qed

lemma find_group_iff:
  assumes "refines r w A"
  shows "find_group A i = Some p \<longleftrightarrow> (\<exists>n. nodes w p = Some n \<and> mID n = (if i = -1 then mRecentID w else i) \<and> mIsGroup n)"
  using find_node_iff [OF assms, of i p True] by (auto simp: find_group_def split: option.splits bool.splits)

lemma get_group:
  assumes "refines r w A"
  shows "Msg_GetGroup w (ById i) = Some (find_group A i)" "World_GetGroup w i = Some (find_group A i)"
  using get_node [OF assms, of i] find_node_iff [OF assms, of i]
  by (auto simp: Msg_GetGroup_def World_GetGroup_def find_group_def split: option.splits bool.splits)

lemma find_target_ok:
  assumes "refines r w A" "find_target A pos = Some t"
  shows "\<exists>n. nodes w t = Some n \<and> (in_group pos \<longrightarrow> mIsGroup n)"
  using assms(2) find_node_iff [OF assms(1)] find_group_iff [OF assms(1)] by (auto simp: find_target_def split: if_splits)

lemma find_target_move:
  assumes "refines r w A" "find_target A pos = Some t" "p \<noteq> t \<or> \<not> in_group pos"
  shows "target_ok (move_to pos t p) w"
  using find_target_ok [OF assms(1,2)] assms(3) by (cases pos) auto

section \<open>Moving and freeing\<close>

lemma id_kind_ident: "ident h' q = ident h q \<Longrightarrow> map_option id_kind (h' q) = map_option id_kind (h q)"
  by (cases "h q"; cases "h' q") (auto simp: ident_def id_kind_def)

lemma refines_ident:
  assumes "refines r w A" "world_inv r w' kids" "ident (nodes w') = ident (nodes w)" "frame w' = frame w"
    and "mNumGroups w' = mNumGroups w" "mNumGraphs w' = mNumGraphs w"
  shows "refines r w' (A\<lparr>a_kids := kids\<rparr>)"
proof -
  have "map_option id_kind \<circ> nodes w' = map_option id_kind \<circ> nodes w"
    using id_kind_ident [of "nodes w'" _ "nodes w"] assms(3) by (simp add: fun_eq_iff)
  moreover have "mHiddenID w' = mHiddenID w" using assms(4) by (simp add: frame_def)
  ultimately show ?thesis using assms counts_ident [of w' w] by (simp add: refines_def)
qed

lemma map_of_filter_keys: "map_of (filter (\<lambda>(p, _). p \<notin> S) xs) = map_of xs |` (- S)"
  by (induction xs) (auto simp: restrict_map_def fun_eq_iff)

lemma refines_deleted:
  assumes "refines r w A" "deleted {} kids S ds w w'" "world_inv r w' kids"
  shows "refines r w' ((remove_nodes S A)\<lparr>a_kids := kids\<rparr>)"
proof -
  have i: "ident (nodes w') = ident (nodes w) |` (- S)" "frame w' = frame w" "counts w'" using assms(2) by (simp_all add: deleted_def)
  have "map_option id_kind (nodes w' q) = (map_option id_kind \<circ> nodes w |` (- S)) q" for q
  proof (cases "q \<in> S")
    case True
    then have "ident (nodes w') q = None" using i(1) by simp
    then show ?thesis using True by (simp add: ident_def)
  next
    case False
    then have "ident (nodes w') q = ident (nodes w) q" using i(1) by simp
    then have "map_option id_kind (nodes w' q) = map_option id_kind (nodes w q)" by (rule id_kind_ident)
    then show ?thesis using False by simp
  qed
  then have "map_of (filter (\<lambda>(p, _). p \<notin> S) (a_nodes A)) = map_option id_kind \<circ> nodes w'"
    using assms(1) unfolding map_of_filter_keys by (auto simp: refines_def fun_eq_iff restrict_map_def)
  moreover have "mHiddenID w' = mHiddenID w" using i(2) by (simp add: frame_def)
  moreover have "distinct (map fst (filter (\<lambda>(p, _). p \<notin> S) (a_nodes A)))" using assms(1) by (simp add: refines_def distinct_map_filter)
  ultimately show ?thesis using assms(1,3) i(2,3) by (simp add: refines_def remove_nodes_def)
qed

lemma refines_msgs: "refines r (w\<lparr>mNodeEnds := ms\<rparr>) A = refines r w A"
  by (simp add: refines_def world_inv_msgs counts_def frame_def)

lemma refines_root:
  assumes "refines r w A" "find_node A i = Some (p, g)"
  shows "\<exists>n. nodes w p = Some n \<and> (mID n = 0 \<longleftrightarrow> p = r)"
  using assms(1) find_node_iff [OF assms(1), of i p g] assms(2) root_iff by (fastforce simp: refines_def)

definition step_ok :: "addr \<Rightarrow> (SCErr \<times> SC_World) option \<Rightarrow> SCErr \<times> abs_server \<Rightarrow> bool" where
  "step_ok r res spec \<longleftrightarrow> (\<exists>w'. res = Some (fst spec, w') \<and> refines r w' (snd spec))"

lemma exec_move:
  assumes "refines r w A" "find_target A pos = Some t" "find_node A i = Some (p, g)"
  shows "exec_cmd k (Move i pos) w =
    (if p = t \<and> action pos = 2 then Some (kSCErr_None, w)
     else map_option (\<lambda>w. (kSCErr_None, w)) (run_move (move_to pos t p) w))"
proof (cases pos)
  case (AtHead j)
  then have "find_group A j = Some t" using assms(2) by (simp add: find_target_def)
  then show ?thesis
    using AtHead assms(3) get_node [OF assms(1)] get_group [OF assms(1)]
    by (cases "move_head t p w") (simp_all add: run_move_def)
next
  case (AtTail j)
  then have "find_group A j = Some t" using assms(2) by (simp add: find_target_def)
  then show ?thesis
    using AtTail assms(3) get_node [OF assms(1)] get_group [OF assms(1)]
    by (cases "move_tail True t p w") (simp_all add: run_move_def)
next
  case (BeforeNode j)
  then obtain u where "find_node A j = Some (t, u)" using assms(2) by (auto simp: find_target_def)
  then show ?thesis
    using BeforeNode assms(3) get_node [OF assms(1)]
    by (cases "move_before p t w") (simp_all add: run_move_def meth_n_before_def)
next
  case (AfterNode j)
  then obtain u where "find_node A j = Some (t, u)" using assms(2) by (auto simp: find_target_def)
  then show ?thesis
    using AfterNode assms(3) get_node [OF assms(1)]
    by (cases "move_after p t w") (simp_all add: run_move_def meth_n_after_def)
qed

lemma exec_move_missing:
  assumes "refines r w A" "find_target A pos = None \<or> find_node A i = None"
  shows "exec_cmd k (Move i pos) w = Some (fst (spec_cmd r (Move i pos) A), w) \<and> snd (spec_cmd r (Move i pos) A) = A"
  using assms(2) get_node [OF assms(1)] get_group [OF assms(1)]
  by (cases pos) (auto simp: find_target_def meth_n_before_def meth_n_after_def split: option.splits)

lemma moved_to [simp]: "moved (move_to pos t p) = p"
  by (cases pos) simp_all

lemma move_refines:
  assumes "refines r w A" "legal r (Move i pos) A"
  shows "step_ok r (exec_cmd k (Move i pos) w) (spec_cmd r (Move i pos) A)"
proof (cases "find_target A pos = None \<or> find_node A i = None")
  case True
  then show ?thesis using exec_move_missing [OF assms(1) True] assms(1) by (simp add: step_ok_def)
next
  case False
  then obtain t p g where f: "find_target A pos = Some t" "find_node A i = Some (p, g)" by auto
  note exec = exec_move [OF assms(1) f, of k]
  have inv: "world_inv r w (a_kids A)" using assms(1) by (simp add: refines_def)
  have leg: "p = r \<or> sensible (move_to pos t p) (a_kids A)" "p = t \<longrightarrow> action pos = 2" using assms(2) f by auto
  obtain n where n: "nodes w p = Some n" using refines_root [OF assms(1) f(2)] by blast
  show ?thesis
  proof (cases "p = t")
    case True
    then show ?thesis using exec leg(2) f assms(1) by (simp add: step_ok_def)
  next
    case pt: False
    then have tok: "target_ok (move_to pos t p) w" using find_target_move [OF assms(1) f(1)] by blast
    obtain w' where w': "run_move (move_to pos t p) w = Some w'"
        "world_inv r w' (if p = r then a_kids A else spec_move (move_to pos t p) (a_kids A))" "ident (nodes w') = ident (nodes w)"
        "frame w' = frame w" "mNumGroups w' = mNumGroups w" "mNumGraphs w' = mNumGraphs w"
    proof (cases "p = r")
      case True
      then show thesis using that move_root_ok [OF inv _ tok] by auto
    next
      case False
      then show thesis using that run_move_ok [OF inv _ tok] n leg(1) by auto
    qed
    have "refines r w' (A\<lparr>a_kids := (if p = r then a_kids A else spec_move (move_to pos t p) (a_kids A))\<rparr>)"
      using refines_ident [OF assms(1) w'(2-6)] .
    then show ?thesis using exec f pt w'(1) by (auto simp: step_ok_def)
  qed
qed

lemma bound_ok: "refines r w A \<Longrightarrow> 3 * nat (a_max A) \<le> k \<Longrightarrow> 3 * card (dom (nodes w)) \<le> k"
proof -
  assume a: "refines r w A" "3 * nat (a_max A) \<le> k"
  then have l: "lib_inv w" "mMaxItems (mNodeLib w) = a_max A" by (simp_all add: refines_def world_inv_def frame_def)
  then have "mNumItems (mNodeLib w) \<le> a_max A" by (auto simp: lib_inv_def fixed_inv_def tab_inv_def)
  then show ?thesis using lib_count [OF l(1)] a(2) by simp
qed

lemma free_refines:
  assumes "refines r w A" "3 * nat (a_max A) \<le> k"
  shows "step_ok r (exec_cmd k (Free i) w) (spec_cmd r (Free i) A)"
proof (cases "find_node A i")
  case None
  then show ?thesis using get_node [OF assms(1), of i] assms(1) by (simp add: step_ok_def)
next
  case (Some y)
  then obtain p g where f: "find_node A i = Some (p, g)" by (cases y) auto
  obtain n where n: "nodes w p = Some n" "mID n = 0 \<longleftrightarrow> p = r" using refines_root [OF assms(1) f] by blast
  have inv: "world_inv r w (a_kids A)" "counts w" using assms(1) by (simp_all add: refines_def)
  note k = bound_ok [OF assms]
  show ?thesis
  proof (cases "p = r")
    case True
    have "0 < card (dom (nodes w))"
      using n(1) inv(1) lib_finite by (auto simp: card_gt_0_iff world_inv_def)
    then have "Node_Delete k p w = Some w" using n True k by (intro Node_Delete_root) auto
    then show ?thesis using True f get_node [OF assms(1), of i] assms(1) by (simp add: step_ok_def)
  next
    case False
    then obtain w' ds where w': "Node_Delete k p w = Some w'" "world_inv r w' (cut_off p (a_kids A))"
        "deleted {} (cut_off p (a_kids A)) (subtree (a_kids A) p) ds w w'"
      using Node_Delete_ok [OF inv _ _ k, of p] n(1) by blast
    then show ?thesis
      using False f get_node [OF assms(1), of i] refines_deleted [OF assms(1) w'(3,2)] by (simp add: step_ok_def)
  qed
qed

lemma freeAll_refines:
  assumes "refines r w A" "3 * nat (a_max A) \<le> k"
  shows "step_ok r (exec_cmd k (FreeAll i) w) (spec_cmd r (FreeAll i) A)"
proof (cases "find_group A i")
  case None
  then show ?thesis using get_group [OF assms(1), of i] assms(1) by (simp add: step_ok_def)
next
  case (Some p)
  then obtain n where n: "nodes w p = Some n" "mIsGroup n" using find_group_iff [OF assms(1), of i p] by auto
  have inv: "world_inv r w (a_kids A)" "counts w" using assms(1) by (simp_all add: refines_def)
  obtain w' ds where w': "Group_DeleteAll k p w = Some w'" "world_inv r w' (emptied p (a_kids A))"
      "deleted {} (emptied p (a_kids A)) (subtree (a_kids A) p - {p}) ds w w'"
    using Group_DeleteAll_world [OF inv n bound_ok [OF assms]] by blast
  then show ?thesis
    using Some get_group [OF assms(1), of i] refines_deleted [OF assms(1) w'(3,2)] by (simp add: step_ok_def)
qed

section \<open>Creating\<close>

lemma refines_take_id:
  assumes "refines r w A" "-1 \<le> i"
  shows "refines r (take_id i w) (A\<lparr>a_hidden := (if i = -1 then new_id (a_hidden A) i else a_hidden A)\<rparr>)"
  using assms next_hidden_ok(1) by (auto simp: refines_def counts_def frame_def take_id_def new_id_def world_inv_def lib_inv_def node_key_def [abs_def])

lemma refines_fresh:
  assumes "refines r w A"
  shows "fresh_id w i \<longleftrightarrow> find_id A (new_id (a_hidden A) i) = None"
proof -
  have "mHiddenID w = a_hidden A" using assms by (simp add: refines_def frame_def)
  moreover have "find_id A j = None \<longleftrightarrow> (\<forall>q m. nodes w q = Some m \<longrightarrow> mID m \<noteq> j)" for j
    using find_id_iff [OF assms, of j] by (metis not_None_eq option.simps(3) surj_pair)
  ultimately show ?thesis by (simp add: fresh_id_def)
qed

text \<open>Linking a node in that was created: the root keeps no parent, and no cycle arises.\<close>

lemma place_new_ok:
  assumes "world_inv r w kids" "nodes w p = Some n" "mParent n = None" "mID n \<noteq> 0" "kids p = []" "p \<noteq> r" "target_ok (move_to pos t p) w" "t \<noteq> p"
  shows "\<exists>h. place_node (move_to pos t p) w = Some (w\<lparr>nodes := h\<rparr>) \<and> ident h = ident (nodes w) \<and>
    world_inv r (w\<lparr>nodes := h\<rparr>) (spec_place (move_to pos t p) kids)"
proof -
  let ?m = "move_to pos t p"
  have inv: "tree_inv {} (nodes w) kids" "lib_inv w" "acyclic (below kids)" using assms(1) by (simp_all add: world_inv_def)
  obtain h where h: "place_node ?m w = Some (w\<lparr>nodes := h\<rparr>)" "ident h = ident (nodes w)" "tree_inv {} h (spec_place ?m kids)"
    using place_node_ok [OF inv(1), of ?m n] assms(2-4,7) by auto
  have np: "p \<notin> set (kids g)" for g by (rule no_parent_no_list [OF inv(1) assms(2,3)])
  then have d: "detach p kids = kids" by (auto simp: detach_def remove1_idem)
  have "(q, p) \<notin> (below kids)\<^sup>+" for q using assms(5) by (auto simp: below_def elim: tranclE)
  moreover from this have "(q, p) \<notin> (below kids)\<^sup>*" if "q \<noteq> p" for q using that by (auto simp: rtrancl_eq_or_trancl)
  ultimately have "sensible ?m kids" using assms(8) by (cases pos) auto
  then have "acyclic (below (spec_place ?m kids))"
    using acyclic_move [OF inv(3), of ?m] tree_one_parent [OF inv(1)] spec_move_place [of ?m kids] d by fastforce
  moreover have "lib_inv (w\<lparr>nodes := h\<rparr>)" using lib_inv_ident [OF inv(2), of "w\<lparr>nodes := h\<rparr>"] h(2) by simp
  moreover have "\<exists>n. h r = Some n \<and> mID n = 0 \<and> mIsGroup n \<and> mParent n = None"
  proof -
    obtain nr where nr: "nodes w r = Some nr" "mID nr = 0" "mIsGroup nr" "mParent nr = None" using assms(1) by (auto simp: world_inv_def)
    obtain n2 where n2: "h r = Some n2" "mID n2 = 0" "mIsGroup n2" using ident_some [OF h(2) nr(1)] nr by auto
    have "r \<notin> set (kids g)" for g by (rule no_parent_no_list [OF inv(1) nr(1,4)])
    then have "r \<notin> set (spec_place ?m kids g)" for g using assms(6) by (cases pos) (auto simp: set_ins split: if_splits)
    then have "mParent n2 = None" using tree_child [OF h(3), of r] n2(1) by (cases "mParent n2") (auto simp: links_def)
    with n2 show ?thesis by blast
  qed
  ultimately show ?thesis using h by (auto simp: world_inv_def)
qed

definition created :: "addr \<Rightarrow> int \<Rightarrow> bool \<Rightarrow> position \<Rightarrow> addr \<Rightarrow> abs_server \<Rightarrow> abs_server" where
  "created p j b pos t A = A\<lparr>a_nodes := (p, j, b) # a_nodes A, a_recent := j, a_kids := spec_place (move_to pos t p) (a_kids A)\<rparr>"

lemma create_ok:
  assumes "refines r w A" "find_target A pos = Some t" "p \<notin> fst ` set (a_nodes A)" "-1 \<le> i"
    and "find_id A (new_id (a_hidden A) i) = None" "int (length (a_nodes A)) < a_max A"
  shows "\<exists>w1 w'. make_node b p i w = Some (kSCErr_None, w1) \<and> place_node (move_to pos t p) w1 = Some w' \<and>
    refines r w' (created p (new_id (a_hidden A) i) b pos t (A\<lparr>a_hidden := (if i = -1 then new_id (a_hidden A) i else a_hidden A)\<rparr>))"
proof -
  let ?j = "new_id (a_hidden A) i"
  have inv: "world_inv r w (a_kids A)" "counts w" "hidden_ok (mHiddenID w)" "frame w = (a_hidden A, a_recent A, a_max A)"
    using assms(1) by (simp_all add: refines_def)
  have new: "nodes w p = None" using assms(3) refines_dom(1) [OF assms(1)] by auto
  obtain w1 n where w1: "make_node b p i w = Some (kSCErr_None, w1)" "world_inv r w1 (a_kids A)" "counts w1"
      "frame w1 = (mHiddenID (take_id i w), ?j, a_max A)" "nodes w1 = (nodes w)(p \<mapsto> n)" "mID n = ?j" "mIsGroup n = b" "mParent n = None"
    using make_node_ok [OF inv(1,2) new inv(3), of b i] assms(4-6) refines_fresh [OF assms(1), of i] refines_dom(2) [OF assms(1)] inv(4)
    by (auto simp: frame_def)
  obtain nr where nr: "nodes w r = Some nr" "mID nr = 0" "mIsGroup nr" using inv(1) by (auto simp: world_inv_def)
  then have "find_id A 0 \<noteq> None" using find_id_iff [OF assms(1), of 0 r True] by auto
  then have j0: "?j \<noteq> 0" using assms(5) by auto
  have pr: "p \<noteq> r" using nr(1) new by auto
  have t: "\<exists>n. nodes w t = Some n \<and> (in_group pos \<longrightarrow> mIsGroup n)" by (rule find_target_ok [OF assms(1,2)])
  then have tp: "t \<noteq> p" using new by auto
  then have tok: "target_ok (move_to pos t p) w1" using t w1(5) by (cases pos) auto
  have kp: "a_kids A p = []" using tree_is_group [of "{}" "nodes w" "a_kids A" p] inv(1) new by (auto simp: world_inv_def ends_def)
  obtain h where h: "place_node (move_to pos t p) w1 = Some (w1\<lparr>nodes := h\<rparr>)" "ident h = ident (nodes w1)"
      "world_inv r (w1\<lparr>nodes := h\<rparr>) (spec_place (move_to pos t p) (a_kids A))"
    using place_new_ok [OF w1(2) _ w1(8) _ kp pr tok tp] w1(5,6) j0 by auto
  have "map_option id_kind \<circ> h = (map_option id_kind \<circ> nodes w)(p \<mapsto> (?j, b))"
    using id_kind_ident [of h _ "nodes w1"] h(2) w1(5-7) by (auto simp: fun_eq_iff id_kind_def)
  moreover have "mHiddenID (take_id i w) = (if i = -1 then ?j else a_hidden A)" using inv(4) by (simp add: take_id_def new_id_def frame_def)
  moreover have "hidden_ok (mHiddenID (take_id i w))" using inv(3) next_hidden_ok(1) by (simp add: take_id_def)
  moreover have "counts (w1\<lparr>nodes := h\<rparr>)" using counts_ident [of "w1\<lparr>nodes := h\<rparr>" w1] h(2) w1(3) by simp
  ultimately have "refines r (w1\<lparr>nodes := h\<rparr>) (created p ?j b pos t (A\<lparr>a_hidden := (if i = -1 then ?j else a_hidden A)\<rparr>))"
    using h(3) w1(4) assms(1,3) by (auto simp: refines_def created_def frame_def)
  then show ?thesis using w1(1) h(1) by blast
qed

definition place_test :: "position \<Rightarrow> addr \<Rightarrow> SC_World \<Rightarrow> addr \<Rightarrow> bool option" where
  "place_test pos t = (if in_group pos then parent_is t else same_parent t)"

lemma parent_iff:
  assumes "refines r w A" "nodes w q = Some n"
  shows "mParent n = Some g \<longleftrightarrow> q \<in> set (a_kids A g)"
proof -
  have inv: "tree_inv {} (nodes w) (a_kids A)" using assms(1) by (simp add: refines_def world_inv_def)
  show ?thesis using tree_child [OF inv, of q g] tree_kid [OF inv, of q g] assms(2) by (auto simp: links_def)
qed

lemma place_test_ok:
  assumes "refines r w A" "nodes w t = Some nt" "nodes w q = Some nq" "\<not> in_group pos \<Longrightarrow> \<exists>g. t \<in> set (a_kids A g)"
  shows "place_test pos t w q = Some (same_place A pos t q)"
proof (cases "in_group pos")
  case True
  then show ?thesis using assms(3) parent_iff [OF assms(1,3)] by (simp add: place_test_def parent_is_def same_place_def)
next
  case False
  then obtain gt where gt: "t \<in> set (a_kids A gt)" using assms(4) by blast
  have inv: "tree_inv {} (nodes w) (a_kids A)" "lib_inv w" using assms(1) by (simp_all add: refines_def world_inv_def)
  have ex: "\<exists>ng. nodes w g = Some ng" if "c \<in> set (a_kids A g)" for c g
  proof -
    have "a_kids A g \<noteq> []" using that by auto
    then show ?thesis using tree_is_group [OF inv(1), of g] by (auto simp: ends_def)
  qed
  have pt: "mParent nt = Some gt" using parent_iff [OF assms(1,2)] gt by simp
  obtain ngt where ngt: "nodes w gt = Some ngt" using ex [OF gt] by blast
  show ?thesis
  proof (cases "mParent nq")
    case None
    then have "q \<notin> set (a_kids A g)" for g using parent_iff [OF assms(1,3), of g] by simp
    then show ?thesis using None False assms(3) by (simp add: place_test_def same_parent_def same_place_def)
  next
    case (Some g)
    then have qg: "q \<in> set (a_kids A g)" using parent_iff [OF assms(1,3)] by simp
    obtain ng where ng: "nodes w g = Some ng" using ex [OF qg] by blast
    have "mID ng = mID ngt \<longleftrightarrow> g = gt" using lib_ids [OF inv(2) ng ngt] ng ngt by auto
    moreover have "(\<exists>g. q \<in> set (a_kids A g) \<and> t \<in> set (a_kids A g)) \<longleftrightarrow> g = gt"
      using tree_one_parent [OF inv(1)] qg gt by blast
    ultimately show ?thesis
      using Some False assms(2,3) pt ng ngt by (simp add: place_test_def same_parent_def same_place_def)
  qed
qed

lemma exec_new_synth:
  assumes "refines r w A"
  shows "exec_cmd k (New False p i pos) w = (case find_target A pos of
     None \<Rightarrow> Some (if in_group pos then kSCErr_GroupNotFound else kSCErr_NodeNotFound, w)
   | Some t \<Rightarrow> new_synth_in p i (\<lambda>p. place_node (move_to pos t p)) w)"
  using get_node [OF assms] get_group [OF assms]
  by (cases pos) (auto simp: meth_s_new_def s_new_def find_target_def new_synth_in_def split: option.split cong: if_cong)

lemma g_new_end: "meth_g_new k [] = (\<lambda>w. Some (kSCErr_None, w))"
  by (simp add: fun_eq_iff)

lemma exec_new_group:
  assumes "refines r w A"
  shows "exec_cmd k (New True p i pos) w = (case find_target A pos of
     None \<Rightarrow> Some (if in_group pos then kSCErr_GroupNotFound else kSCErr_TargetNodeNotFound, w)
   | Some t \<Rightarrow> do {
       (err, q, w) \<leftarrow> new_group_in p i (\<lambda>p. place_node (move_to pos t p)) (place_test pos t) w;
       if err \<noteq> kSCErr_None then Some (err, w) else do { w \<leftarrow> Node_StateMsg q kNode_Go w; Some (kSCErr_None, w) } })"
  using get_node [OF assms] get_group [OF assms]
  by (cases pos) (auto simp: g_new_step_def find_target_def new_group_in_def place_test_def g_new_end split: option.split cong: if_cong)

lemma state_msg_refines:
  assumes "refines r w A" "nodes w q \<noteq> None"
  shows "\<exists>w'. Node_StateMsg q st w = Some w' \<and> refines r w' A"
proof -
  have "tree_inv {} (nodes w) (a_kids A)" using assms(1) by (simp add: refines_def world_inv_def)
  then obtain ms where "Node_StateMsg q st w = Some (w\<lparr>mNodeEnds := ms\<rparr>)" using StateMsg_after assms(2) by blast
  then show ?thesis using assms(1) refines_msgs [where w = w and ms = ms] by auto
qed

text \<open>What \<open>make_node\<close> gives in the cases of the specification.\<close>

lemma make_fails:
  assumes "refines r w A" "p \<notin> fst ` set (a_nodes A)" "i < -1 \<or> find_id A (new_id (a_hidden A) i) \<noteq> None \<or> a_max A \<le> int (length (a_nodes A))"
  shows "make_node b p i w = Some (if i < -1 then kSCErr_ReservedNodeID
    else if find_id A (new_id (a_hidden A) i) \<noteq> None then kSCErr_DuplicateNodeID else kSCErr_TooManyNodes, take_id i w)"
proof -
  have inv: "world_inv r w (a_kids A)" "counts w" "hidden_ok (mHiddenID w)" "frame w = (a_hidden A, a_recent A, a_max A)"
    using assms(1) by (simp_all add: refines_def)
  have new: "nodes w p = None" using assms(2) refines_dom(1) [OF assms(1)] by auto
  show ?thesis
    using make_node_ok [OF inv(1,2) new inv(3), of b i] assms(3) refines_fresh [OF assms(1), of i] refines_dom(2) [OF assms(1)] inv(4)
    by (auto simp: frame_def split: if_splits)
qed

lemma new_refines:
  assumes "refines r w A" "legal r (New b p i pos) A"
  shows "step_ok r (exec_cmd k (New b p i pos) w) (spec_cmd r (New b p i pos) A)"
proof (cases "find_target A pos")
  case None
  then show ?thesis using exec_new_synth [OF assms(1)] exec_new_group [OF assms(1)] assms(1) by (cases b) (simp_all add: step_ok_def)
next
  case (Some t)
  let ?A = "A\<lparr>a_hidden := (if i = -1 then new_id (a_hidden A) i else a_hidden A)\<rparr>" and ?j = "new_id (a_hidden A) i"
  have p: "p \<notin> fst ` set (a_nodes A)" using assms(2) by simp
  have find: "find_id ?A = find_id A" "find_group ?A = find_group A" by (simp_all add: find_id_def find_node_def find_group_def fun_eq_iff)
  obtain nt where nt: "nodes w t = Some nt" using find_target_ok [OF assms(1) Some] by blast
  consider "i < -1" | "-1 \<le> i" "find_id A ?j \<noteq> None" | "-1 \<le> i" "find_id A ?j = None" "a_max A \<le> int (length (a_nodes A))"
    | "-1 \<le> i" "find_id A ?j = None" "int (length (a_nodes A)) < a_max A" by linarith
  then show ?thesis
  proof cases
    case 1
    then have "make_node b p i w = Some (kSCErr_ReservedNodeID, w)" using make_fails [OF assms(1) p] by (simp add: take_id_def)
    then show ?thesis
      using 1 Some exec_new_synth [OF assms(1)] exec_new_group [OF assms(1)] assms(1)
      by (cases b) (simp_all add: step_ok_def new_synth_in_def new_group_in_def make_node_def)
  next
    case 2
    then have m: "make_node b p i w = Some (kSCErr_DuplicateNodeID, take_id i w)" using make_fails [OF assms(1) p] by simp
    have ref: "refines r (take_id i w) ?A" using refines_take_id [OF assms(1) 2(1)] .
    show ?thesis
    proof (cases b)
      case False
      then show ?thesis
        using m 2 Some exec_new_synth [OF assms(1)] ref find
        by (auto simp: step_ok_def new_synth_in_def make_node_def Let_def split: option.split)
    next
      case True
      show ?thesis
      proof (cases "find_group A i")
        case None
        then show ?thesis
          using m 2 Some True exec_new_group [OF assms(1)] ref find get_group(2) [OF ref, of i]
          by (simp add: step_ok_def new_group_in_def make_node_def Let_def)
      next
        case q: (Some q)
        then obtain nq where nq: "nodes w q = Some nq" using find_group_iff [OF assms(1)] by blast
        have "\<not> in_group pos \<Longrightarrow> \<exists>g. t \<in> set (a_kids ?A g)" using assms(2) True Some by auto
        then have pt: "place_test pos t (take_id i w) q = Some (same_place ?A pos t q)" using place_test_ok [OF ref] nt nq by simp
        obtain w' where w': "Node_StateMsg q kNode_Go (take_id i w) = Some w'" "refines r w' ?A" using state_msg_refines [OF ref] nq by auto
        show ?thesis
          using m 2 Some True exec_new_group [OF assms(1)] ref find get_group(2) [OF ref, of i] q pt w'
          by (simp add: step_ok_def new_group_in_def make_node_def Let_def)
      qed
    qed
  next
    case 3
    then have m: "make_node b p i w = Some (kSCErr_TooManyNodes, take_id i w)" using make_fails [OF assms(1) p] by simp
    have ref: "refines r (take_id i w) ?A" using refines_take_id [OF assms(1) 3(1)] .
    then show ?thesis
      using m 3 Some exec_new_synth [OF assms(1)] exec_new_group [OF assms(1)] find
      by (cases b) (simp_all add: step_ok_def new_synth_in_def new_group_in_def make_node_def Let_def)
  next
    case 4
    obtain w1 w2 where w: "make_node b p i w = Some (kSCErr_None, w1)" "place_node (move_to pos t p) w1 = Some w2"
        "refines r w2 (created p ?j b pos t ?A)"
      using create_ok [OF assms(1) Some p 4] by blast
    have "p \<in> dom (nodes w2)" using refines_dom(1) [OF w(3)] by (simp add: created_def)
    then obtain w3 where w3: "Node_StateMsg p kNode_Go w2 = Some w3" "refines r w3 (created p ?j b pos t ?A)"
      using state_msg_refines [OF w(3)] by blast
    then show ?thesis
      using 4 w Some exec_new_synth [OF assms(1)] exec_new_group [OF assms(1)] find
      by (cases b) (simp_all add: step_ok_def new_synth_in_def new_group_in_def make_node_def Let_def created_def)
  qed
qed

section \<open>The server\<close>

lemma spec_max: "a_max (snd (spec_cmd r c A)) = a_max A"
  by (cases c) (auto simp: remove_nodes_def Let_def split: option.splits prod.splits if_splits)

definition related :: "nat \<Rightarrow> addr \<Rightarrow> SC_World \<Rightarrow> abs_server \<Rightarrow> bool" where
  "related k r w A \<longleftrightarrow> refines r w A \<and> 3 * nat (a_max A) \<le> k"

interpretation node_server: simulation "related k r" "legal r" "exec_cmd k" "spec_cmd r" for k r
proof
  fix w A c assume a: "related k r w A" "legal r c A"
  have "step_ok r (exec_cmd k c w) (spec_cmd r c A)"
    using a new_refines move_refines free_refines freeAll_refines by (cases c) (auto simp: related_def simp del: exec_cmd.simps spec_cmd.simps legal.simps)
  then show "\<exists>w'. exec_cmd k c w = Some (fst (spec_cmd r c A), w') \<and> related k r w' (snd (spec_cmd r c A))"
    using a(1) by (auto simp: step_ok_def related_def spec_max)
qed

text \<open>
  \<open>World_New\<close>, of which the node library, the counters and the root group are modelled (the
  library is set up before and the root group after the counters); \<open>p\<close> is the address of the root
  group.
\<close>

definition World_New :: "addr \<Rightarrow> int \<Rightarrow> bool \<Rightarrow> (SCErr \<times> SC_World) option" where
  "World_New p inMaxNodes inRealTime = do {
     lib \<leftarrow> HashTable_new inMaxNodes False;
     (err, w) \<leftarrow> Group_New p 0 \<lparr>nodes = Map.empty, mNodeLib = lib, mHiddenID = -8, mRecentID = -8, mNumGroups = 0, mNumGraphs = 0,
       mRealTime = False, mNodeEnds = [], unit_ctors = [], unit_dtors = []\<rparr>;
     Some (err, w\<lparr>mRealTime := inRealTime\<rparr>) }"

definition new_server :: "addr \<Rightarrow> int \<Rightarrow> abs_server" where
  "new_server r m = \<lparr>a_nodes = [(r, 0, True)], a_kids = (\<lambda>_. []), a_hidden = -8, a_recent = 0, a_max = m\<rparr>"

lemma World_New_ok:
  assumes "k < 30"
  shows "\<exists>w. World_New r (2 ^ k) rt = Some (kSCErr_None, w) \<and> refines r w (new_server r (2 ^ k))"
proof -
  let ?w = "\<lambda>lib. \<lparr>nodes = Map.empty, mNodeLib = lib, mHiddenID = -8, mRecentID = -8, mNumGroups = 0, mNumGraphs = 0,
       mRealTime = False, mNodeEnds = [], unit_ctors = [], unit_dtors = []\<rparr>"
  have key: "node_key (?w lib) = (\<lambda>_. (0, 0))" for lib by (simp add: node_key_def fun_eq_iff)
  obtain lib where lib: "HashTable_new (2 ^ k) False = Some lib" "tab_inv (node_key (?w lib)) lib" "items lib = {}"
      "mMaxItems lib = 2 ^ k" "\<not> mCanResize lib"
    using HashTable_new_ok [OF assms, of False "\<lambda>_. (0, 0 :: int)"] unfolding key by auto
  have "lib_inv (?w lib)" using lib by (simp add: lib_inv_def fixed_inv_def)
  moreover have "hidden_ok (-8)" by (simp add: hidden_ok_def)
  moreover have "fresh_id (?w lib) 0" by (simp add: fresh_id_def)
  ultimately obtain t where t: "Node_New r 0 (?w lib) = Some (kSCErr_None, (?w lib)\<lparr>nodes := [r \<mapsto> blank_node 0], mNodeLib := t, mRecentID := 0\<rparr>)"
      "mMaxItems t = 2 ^ k" "lib_inv ((?w lib)\<lparr>nodes := [r \<mapsto> blank_node 0], mNodeLib := t, mRecentID := 0\<rparr>)"
    using Node_New_ok [of "?w lib" r 0] lib(4) by (auto simp: take_id_def new_id_def)
  let ?n = "(blank_node 0)\<lparr>mCalcFunc := Group_Calc_func, mIsGroup := True, mHead := None, mTail := None\<rparr>"
  let ?v = "(?w lib)\<lparr>nodes := [r \<mapsto> ?n], mNodeLib := t, mRecentID := 0, mNumGroups := 1, mRealTime := rt\<rparr>"
  have "World_New r (2 ^ k) rt = Some (kSCErr_None, ?v)"
    using lib(1) t(1) by (simp add: World_New_def Group_New_def set_node_def)
  moreover have "lib_inv ?v"
  proof -
    have "node_key ?v = node_key ((?w lib)\<lparr>nodes := [r \<mapsto> blank_node 0], mNodeLib := t, mRecentID := 0\<rparr>)"
      by (auto simp: node_key_def fun_eq_iff)
    then show ?thesis using t(3) by (auto simp: lib_inv_def)
  qed
  moreover have "tree_inv {} Map.empty (\<lambda>_. [])" by (simp add: tree_inv_def links_def ends_def)
  then have "tree_inv {} [r \<mapsto> ?n] (\<lambda>_. [])" by (rule tree_fresh) simp_all
  moreover have "counts ?v"
  proof -
    have "members b (nodes ?v) = (if b then {r} else {})" for b by (auto simp: members_def ident_def)
    then show ?thesis by (simp add: counts_def)
  qed
  ultimately show ?thesis
    using t(2) by (auto simp: refines_def world_inv_def new_server_def frame_def hidden_ok_def id_kind_def below_def acyclic_def)
qed

section \<open>Inserting at an index\<close>

lemma insert_before_ok:
  assumes "dseg (nodes w) g pr (y # ys) None"
  shows "insert_before w (Some y) i = Some (hd_or (drop i (y # ys)) None)"
  using assms
proof (induction i arbitrary: y ys pr)
  case (Suc i)
  then show ?case by (cases ys) auto
qed simp

lemma Group_Insert_ok:
  assumes "tree_inv {} (nodes w) kids" "nodes w g = Some ng" "mIsGroup ng" "nodes w s = Some n" "mParent n = None" "mID n \<noteq> 0" "s \<noteq> g"
    and "index \<le> 0 \<or> kids g \<noteq> []"
  shows "Group_Insert g s index w = Some (w\<lparr>nodes := link_in g (take (nat index) (kids g)) s (drop (nat index) (kids g)) (nodes w)\<rparr>)"
proof (cases "index \<le> 0")
  case True
  then show ?thesis using Group_AddHead_ok [OF assms(1-3) _ assms(4-7)] assms(4,6) by (simp add: Group_Insert_def)
next
  case False
  let ?i = "nat index"
  have e: "ends (nodes w) g = Some (True, mHead ng, mTail ng)" using assms(2,3) by (simp add: ends_def)
  then have gr: "mHead ng = hd_or (kids g) None" "dseg (nodes w) g None (kids g) None" using tree_groupD [OF assms(1)] by auto
  obtain y ys where ys: "kids g = y # ys" using False assms(8) by (cases "kids g") auto
  then have b: "insert_before w (mHead ng) ?i = Some (hd_or (drop ?i (kids g)) None)" using insert_before_ok gr by simp
  show ?thesis
  proof (cases "drop ?i (kids g)")
    case Nil
    then show ?thesis
      using False b assms Group_AddTail_ok [OF assms(1-3) _ assms(4-7)] by (simp add: Group_Insert_def)
  next
    case (Cons z zs)
    then have k: "kids g = take ?i (kids g) @ z # zs" by (metis append_take_drop_id)
    then have "z \<in> set (kids g)" by (metis in_set_conv_decomp)
    then obtain nz where nz: "nodes w z = Some nz" "mParent nz = Some g"
      using tree_kid [OF assms(1), of z g] by (force simp: links_def)
    obtain us vs where u: "kids g = us @ z # vs" "Node_AddBefore s z w = Some (w\<lparr>nodes := link_in g us s (z # vs) (nodes w)\<rparr>)"
      using Node_AddBefore_ok [OF assms(1) nz _ assms(4-6)] by auto
    have "distinct (us @ z # vs)" using tree_distinct [OF assms(1), of g] u(1) by simp
    then have "us @ z # vs = take ?i (kids g) @ z # zs \<longleftrightarrow> us = take ?i (kids g) \<and> vs = zs" by (intro append_Cons_eq_iff) auto
    then have "us = take ?i (kids g) \<and> vs = zs" unfolding u(1) [symmetric] using k by blast
    then show ?thesis using False b Cons assms u(2) by (simp add: Group_Insert_def)
  qed
qed

section \<open>Cycles\<close>

definition in_cycle :: "addr \<Rightarrow> addr \<Rightarrow> SC_World \<Rightarrow> bool" where
  "in_cycle p q w \<longleftrightarrow> (\<exists>n. nodes w p = Some n \<and> mID n \<noteq> 0 \<and> mIsGroup n \<and> mHead n = Some q) \<and>
     (\<exists>n. nodes w q = Some n \<and> mID n \<noteq> 0 \<and> mIsGroup n \<and> mHead n = Some p)"

lemma cycle_stuck: "in_cycle p q w \<Longrightarrow> Node_Delete k p w = None"
proof (induction k arbitrary: p q w rule: less_induct)
  case (less k)
  show ?case
  proof (cases "\<exists>i. k = Suc (Suc (Suc i))")
    case True
    then obtain i where k: "k = Suc (Suc (Suc i))" by blast
    obtain n m where n: "nodes w p = Some n" "mID n \<noteq> 0" "mIsGroup n" "mHead n = Some q" "nodes w q = Some m"
      using less.prems by (auto simp: in_cycle_def)
    let ?w = "w\<lparr>nodes := (nodes w)(q \<mapsto> m\<lparr>mPrev := None, mNext := None, mParent := None\<rparr>)\<rparr>"
    have "in_cycle q p ?w" using less.prems n(5) by (auto simp: in_cycle_def)
    then have "Node_Delete i q ?w = None" using less.IH [of i q p ?w] k by simp
    then show ?thesis using n k by (simp add: set_node_def)
  next
    case False
    obtain n where "nodes w p = Some n" "mID n \<noteq> 0" "mIsGroup n" "mHead n = Some q" using less.prems by (auto simp: in_cycle_def)
    moreover have "k = 0 \<or> k = 1 \<or> k = 2" using False by (metis One_nat_def Suc_1 not0_implies_Suc)
    ultimately show ?thesis by (auto simp: numeral_2_eq_2)
  qed
qed

lemma g_head_cycle:
  assumes "refines r w A" "find_node A i = Some (p, True)" "p \<noteq> r" "find_group A j = Some q" "a_kids A p = q # qs"
  shows "\<exists>w'. meth_g_head [(ById j, ById i)] w = Some (kSCErr_None, w') \<and> in_cycle p q w'"
proof -
  have inv: "world_inv r w (a_kids A)" "tree_inv {} (nodes w) (a_kids A)" using assms(1) by (simp_all add: refines_def world_inv_def)
  obtain n where n: "nodes w p = Some n" "mIsGroup n" using find_node_iff [OF assms(1), of i p True] assms(2) by auto
  obtain nq where nq: "nodes w q = Some nq" "mIsGroup nq" using find_group_iff [OF assms(1), of j q] assms(4) by auto
  have n0: "mID n \<noteq> 0" using root_iff [OF inv(1) n(1)] assms(3) by simp
  have "q \<in> set (a_kids A p)" using assms(5) by simp
  then have "(q, p) \<in> below (a_kids A)" by (simp add: below_def)
  then have pq: "p \<noteq> q" "q \<noteq> r"
    using inv(1) root_not_below [OF inv(1), of p] assms(3) by (auto simp: world_inv_def acyclic_def)
  have q0: "mID nq \<noteq> 0" using root_iff [OF inv(1) nq(1)] pq(2) by simp
  let ?kids = "detach p (a_kids A)"
  obtain h n' where h: "Node_Remove p w = Some (w\<lparr>nodes := h\<rparr>)" "ident h = ident (nodes w)" "tree_inv {} h ?kids"
      "h p = Some n'" "mParent n' = None"
    using Node_Remove_ok [OF inv(2) n(1)] by auto
  obtain nq' where nq': "h q = Some nq'" "mIsGroup nq'" using ident_some [OF h(2) nq(1)] nq(2) by auto
  have "mID n' \<noteq> 0" using ident_some [OF h(2) n(1)] h(4) n0 by auto
  then obtain h2 where h2: "Group_AddHead q p (w\<lparr>nodes := h\<rparr>) = Some (w\<lparr>nodes := h2\<rparr>)" "ident h2 = ident (nodes w)"
      "tree_inv {} h2 (?kids(q := p # ?kids q))"
    using place_node_ok [of "w\<lparr>nodes := h\<rparr>" ?kids "Head q p" n'] h nq' pq by auto
  let ?w = "w\<lparr>nodes := h2\<rparr>"
  obtain m where m: "h2 p = Some m" "mIsGroup m" "mID m \<noteq> 0" using ident_some [OF h2(2) n(1)] n(2) n0 by auto
  obtain mq where mq: "h2 q = Some mq" "mIsGroup mq" "mID mq \<noteq> 0" using ident_some [OF h2(2) nq(1)] nq(2) q0 by auto
  have "mHead mq = Some p" using tree_groupD [OF h2(3), of q "mHead mq" "mTail mq"] mq by (simp add: ends_def)
  moreover have "mHead m = Some q"
    using tree_groupD [OF h2(3), of p "mHead m" "mTail m"] m pq(1) assms(5) by (simp add: ends_def detach_def)
  ultimately have "in_cycle p q ?w" using m mq by (simp add: in_cycle_def)
  moreover obtain ms where "run_move (Head q p) w = Some (?w\<lparr>mNodeEnds := ms\<rparr>)"
    using run_move_parts [of w "Head q p" n "w\<lparr>nodes := h\<rparr>" ?w] n(1) h(1) h2(1) StateMsg_after [of ?w] h2(3) m(1) by auto
  then have "meth_g_head [(ById j, ById i)] w = Some (kSCErr_None, ?w\<lparr>mNodeEnds := ms\<rparr>)"
    using get_group [OF assms(1), of j] get_node [OF assms(1), of i] assms(2,4) by (simp add: run_move_def)
  ultimately show ?thesis by (auto simp: in_cycle_def)
qed

section \<open>Properties\<close>

text \<open>A world with a group and a synth in it, for the examples.\<close>

lemma leaf_sensible: "kids p = [] \<Longrightarrow> t \<noteq> p \<Longrightarrow> sensible (move_to pos t p) kids"
proof -
  assume a: "kids p = []" "t \<noteq> p"
  have t: "(t, p) \<notin> (below kids)\<^sup>+" using a(1) by (auto simp: below_def elim: tranclE)
  moreover have "(t, p) \<notin> (below kids)\<^sup>*" using t a(2) by (auto simp: rtrancl_eq_or_trancl)
  ultimately show ?thesis by (cases pos) simp_all
qed

definition example_cmds :: "command list" where
  "example_cmds = [New True 1 10 (AtHead 0), New True 2 20 (AtHead 10), New False 3 30 (AtTail 20)]"

definition example_server :: abs_server where
  "example_server = \<lparr>a_nodes = [(3, 30, False), (2, 20, True), (1, 10, True), (0, 0, True)],
     a_kids = (\<lambda>_. [])(0 := [1], 1 := [2], 2 := [3]), a_hidden = -8, a_recent = 30, a_max = 4\<rparr>"

lemmas find_defs = find_target_def find_group_def find_node_def find_id_def new_id_def

lemma example_spec:
  "spec_cmds (spec_cmd 0) example_cmds (new_server 0 (2 ^ 2)) = ([kSCErr_None, kSCErr_None, kSCErr_None], example_server)"
  by (simp add: example_cmds_def example_server_def new_server_def find_defs Let_def fun_eq_iff)

lemma example_legal: "legal_cmds (legal 0) (spec_cmd 0) example_cmds (new_server 0 (2 ^ 2))"
  by (simp add: example_cmds_def new_server_def find_defs Let_def)

lemma example_world: "\<exists>w0 w. World_New 0 (2 ^ 2) False = Some (kSCErr_None, w0) \<and>
    run_cmds (exec_cmd 12) example_cmds w0 = Some ([kSCErr_None, kSCErr_None, kSCErr_None], w) \<and> refines 0 w example_server"
proof -
  obtain w0 where w0: "World_New 0 (2 ^ 2) False = Some (kSCErr_None, w0)" "refines 0 w0 (new_server 0 (2 ^ 2))"
    using World_New_ok [of 2 0 False] by auto
  then have "related 12 0 w0 (new_server 0 (2 ^ 2))" by (simp add: related_def new_server_def)
  then show ?thesis
    using node_server.run_refines [OF _ example_legal, of 12 w0] w0(1) example_spec by (auto simp: related_def)
qed





text \<open>
  C37. \<open>Group_Insert\<close> puts a node that is in no group in front of the child with the given index, and
  at the end of the group when it has no more children. With a positive index and a group
  without children it follows the null pointer of the missing first child instead.
\<close>

theorem group_insert_position:
  assumes "tree_inv {} (nodes w) kids" "nodes w g = Some ng" "mIsGroup ng" "nodes w s = Some n" "mParent n = None" "mID n \<noteq> 0" "s \<noteq> g"
  shows "if 0 < index \<and> kids g = [] then Group_Insert g s index w = None
    else \<exists>h. Group_Insert g s index w = Some (w\<lparr>nodes := h\<rparr>) \<and> ident h = ident (nodes w) \<and>
      tree_inv {} h (kids(g := take (nat index) (kids g) @ s # drop (nat index) (kids g)))"
proof (cases "0 < index \<and> kids g = []")
  case True
  have "mHead ng = None" using tree_groupD [OF assms(1), of g "mHead ng" "mTail ng"] assms(2,3) True by (simp add: ends_def)
  moreover obtain i where "nat index = Suc i" using True by (cases "nat index") auto
  ultimately show ?thesis using True assms by (simp add: Group_Insert_def)
next
  case False
  let ?xs = "take (nat index) (kids g)" and ?ys = "drop (nat index) (kids g)"
  have "Group_Insert g s index w = Some (w\<lparr>nodes := link_in g ?xs s ?ys (nodes w)\<rparr>)"
    using Group_Insert_ok [OF assms] False by auto
  moreover have "tree_inv {} (link_in g ?xs s ?ys (nodes w)) (kids(g := ?xs @ s # ?ys))"
    by (rule place_in_list [OF assms(1,4,5,2,3) _ refl]) simp
  ultimately show ?thesis using False by (intro if_not_P [THEN iffD2] exI conjI) (assumption | simp)+
qed

theorem group_insert_position_witness:
  "\<exists>w0 w. World_New 0 (2 ^ 2) False = Some (kSCErr_None, w0) \<and>
    run_cmds (exec_cmd 12) [New True 1 10 (AtHead 0), New False 2 20 (BeforeNode 0)] w0 = Some ([kSCErr_None, kSCErr_None], w) \<and>
    (\<exists>h. Group_Insert 0 2 1 w = Some (w\<lparr>nodes := h\<rparr>) \<and> tree_inv {} h ((\<lambda>_. [])(0 := [1, 2]))) \<and> Group_Insert 1 2 1 w = None"
proof -
  let ?cs = "[New True 1 10 (AtHead 0), New False 2 20 (BeforeNode 0)]"
  let ?A = "\<lparr>a_nodes = [(2, 20, False), (1, 10, True), (0, 0, True)], a_kids = (\<lambda>_. [])(0 := [1]), a_hidden = -8, a_recent = 20, a_max = 4\<rparr>"
  obtain w0 where w0: "World_New 0 (2 ^ 2) False = Some (kSCErr_None, w0)" "refines 0 w0 (new_server 0 (2 ^ 2))"
    using World_New_ok [of 2 0 False] by auto
  then have "related 12 0 w0 (new_server 0 (2 ^ 2))" by (simp add: related_def new_server_def)
  moreover have "legal_cmds (legal 0) (spec_cmd 0) ?cs (new_server 0 (2 ^ 2))" by (simp add: new_server_def find_defs Let_def)
  moreover have "spec_cmds (spec_cmd 0) ?cs (new_server 0 (2 ^ 2)) = ([kSCErr_None, kSCErr_None], ?A)"
    by (simp add: new_server_def find_defs Let_def fun_eq_iff)
  ultimately obtain w where w: "run_cmds (exec_cmd 12) ?cs w0 = Some ([kSCErr_None, kSCErr_None], w)" "refines 0 w ?A"
    using node_server.run_refines [of 12 0 w0 "new_server 0 (2 ^ 2)" ?cs] by (auto simp: related_def)
  have t: "tree_inv {} (nodes w) (a_kids ?A)" using w(2) by (simp add: refines_def world_inv_def)
  obtain n0 n1 n2 where n: "nodes w 0 = Some n0" "mIsGroup n0" "nodes w 1 = Some n1" "mIsGroup n1" "nodes w 2 = Some n2" "mID n2 = 20"
    using find_id_iff [OF w(2), of 0 0 True] find_id_iff [OF w(2), of 10 1 True] find_id_iff [OF w(2), of 20 2 False]
    by (auto simp: find_id_def)
  have p: "mParent n2 = None" using parent_iff [OF w(2) n(5)] by (cases "mParent n2") (auto split: if_splits)
  obtain h where "Group_Insert 0 2 1 w = Some (w\<lparr>nodes := h\<rparr>)" "tree_inv {} h ((\<lambda>_. [])(0 := [1, 2]))"
    using group_insert_position [OF t n(1,2,5) p, of 1] n(6) by auto
  moreover have "Group_Insert 1 2 1 w = None" using group_insert_position [OF t n(3,4,5) p, of 1] n(6) by simp
  ultimately show ?thesis using w0(1) w(1) by blast
qed

text \<open>
  C38. No command checks whether a group is moved into a group below it. \<open>/g_head\<close> with a group and
  its first child succeeds and makes each of the two groups the first child of the other; after
  that \<open>Node_Delete\<close> of the group calls itself without end, at whatever depth.
\<close>

theorem cycle_never_deleted:
  assumes "refines r w A" "find_node A i = Some (p, True)" "p \<noteq> r" "find_group A j = Some q" "a_kids A p = q # qs"
  shows "\<exists>w'. meth_g_head [(ById j, ById i)] w = Some (kSCErr_None, w') \<and> (\<forall>k. Node_Delete k p w' = None)"
  using g_head_cycle [OF assms] cycle_stuck by blast

theorem cycle_never_deleted_witness:
  "\<exists>w0 w w'. World_New 0 (2 ^ 2) False = Some (kSCErr_None, w0) \<and>
    run_cmds (exec_cmd 12) example_cmds w0 = Some ([kSCErr_None, kSCErr_None, kSCErr_None], w) \<and>
    meth_g_head [(ById 20, ById 10)] w = Some (kSCErr_None, w') \<and> (\<forall>k. Node_Delete k 1 w' = None)"
proof -
  obtain w0 w where w: "World_New 0 (2 ^ 2) False = Some (kSCErr_None, w0)"
      "run_cmds (exec_cmd 12) example_cmds w0 = Some ([kSCErr_None, kSCErr_None, kSCErr_None], w)" "refines 0 w example_server"
    using example_world by blast
  have "find_node example_server 10 = Some (1, True)" "find_group example_server 20 = Some 2" "a_kids example_server 1 = [2]"
    by (simp_all add: example_server_def find_defs)
  then show ?thesis using cycle_never_deleted [OF w(3), of 10 1 20 2 "[]"] w(1,2) by auto
qed

end
