(* ===== verification/SC_Scheduler.thy ===== *)
theory SC_Scheduler
  imports Vox_Prelude "HOL-Library.Multiset" "HOL-Library.Product_Lexorder"
begin

text \<open>
  The queue of scheduled events of the server (\<open>server/scsynth/PriorityQueue.h\<close>, with the events of
  \<open>SC_CoreAudio.h\<close>): a binary heap in an array, in which events of the same time keep the order in
  which they were added. A time is an \<open>int64\<close>; the largest one at index 0 marks the empty queue.
  Accesses outside of the array, and a counter that overflows, give \<open>None\<close>. Performing an event is
  an output.
\<close>

section \<open>State\<close>

record 'a Event =
  mTime :: int
  mStabilityCount :: int
  mPacket :: 'a

record 'a PQ =
  mSize :: int
  mEvents :: "'a Event list"
  mStabilityCounter :: int

definition kMaxInt64 :: int where
  "kMaxInt64 = 2 ^ 63 - 1"

definition key :: "'a Event \<Rightarrow> int \<times> int" where
  "key e = (mTime e, mStabilityCount e)"

text \<open>The operators of \<open>key_t\<close>.\<close>

definition key_less :: "int \<times> int \<Rightarrow> int \<times> int \<Rightarrow> bool" where
  "key_less a b = (if fst a < fst b then True else if fst a > fst b then False else snd a < snd b)"

definition key_greater :: "int \<times> int \<Rightarrow> int \<times> int \<Rightarrow> bool" where
  "key_greater a b = (if fst a > fst b then True else if fst a < fst b then False else snd a > snd b)"

section \<open>Operations\<close>

definition SetEmptyTime :: "'a PQ \<Rightarrow> 'a PQ option" where
  "SetEmptyTime q = do {
     e \<leftarrow> arr_get (mEvents q) 0;
     es \<leftarrow> arr_set (mEvents q) 0 (e\<lparr>mTime := kMaxInt64\<rparr>);
     Some (q\<lparr>mEvents := es, mStabilityCounter := 0\<rparr>) }"

definition Empty :: "'a PQ \<Rightarrow> 'a PQ option" where
  "Empty q = SetEmptyTime (q\<lparr>mSize := 0\<rparr>)"

text \<open>The constructor; \<open>es\<close> is what the array holds before.\<close>

definition PriorityQueue :: "'a Event list \<Rightarrow> 'a PQ option" where
  "PriorityQueue es = Empty \<lparr>mSize = 0, mEvents = es, mStabilityCounter = 0\<rparr>"

text \<open>The loop that moves the free slot \<open>me\<close> up.\<close>

function percolate :: "'a Event list \<Rightarrow> 'a Event \<Rightarrow> nat \<Rightarrow> 'a Event list option" where
  "percolate es e me =
     (if 0 < me then do {
        p \<leftarrow> arr_get es ((me - 1) div 2);
        if key_less (key e) (key p) then do {
          es \<leftarrow> arr_set es me p;
          percolate es e ((me - 1) div 2) }
        else arr_set es me e }
      else arr_set es me e)"
  by pat_completeness auto
termination by (relation "measure (\<lambda>(es, e, me). me)") auto

definition Add :: "'a Event \<Rightarrow> 'a PQ \<Rightarrow> (bool \<times> 'a PQ) option" where
  "Add e q =
     (if mSize q \<ge> int (length (mEvents q)) then Some (False, q)
      else if mStabilityCounter q = kMaxInt64 \<or> mSize q < 0 then None
      else do {
        es \<leftarrow> percolate (mEvents q) (e\<lparr>mStabilityCount := mStabilityCounter q\<rparr>) (nat (mSize q));
        Some (True, q\<lparr>mSize := mSize q + 1, mEvents := es, mStabilityCounter := mStabilityCounter q + 1\<rparr>) })"

definition NextTime :: "'a PQ \<Rightarrow> int option" where
  "NextTime q = map_option mTime (arr_get (mEvents q) 0)"

text \<open>The loop that moves the free slot \<open>mom\<close> down in a heap of \<open>n\<close> events; \<open>me\<close> is its first child.\<close>

function demote :: "nat \<Rightarrow> 'a Event list \<Rightarrow> 'a Event \<Rightarrow> nat \<Rightarrow> nat \<Rightarrow> 'a Event list option" where
  "demote n es temp mom me =
     (if me < n then do {
        a \<leftarrow> arr_get es me;
        me \<leftarrow> (if me + 1 < n then do {
            b \<leftarrow> arr_get es (me + 1);
            Some (if key_greater (key a) (key b) then me + 1 else me) } else Some me);
        m \<leftarrow> arr_get es me;
        if key_greater (key temp) (key m) then do {
          es \<leftarrow> arr_set es mom m;
          demote n es temp me (2 * me + 1) }
        else arr_set es mom temp }
      else arr_set es mom temp)"
  by pat_completeness auto
termination by (relation "measure (\<lambda>(n, es, temp, mom, me). n - me)") (auto split: if_splits Option.bind_splits)

declare percolate.simps [simp del] demote.simps [simp del]

definition Remove :: "'a PQ \<Rightarrow> ('a Event \<times> 'a PQ) option" where
  "Remove q = do {
     event \<leftarrow> arr_get (mEvents q) 0;
     let q = q\<lparr>mSize := mSize q - 1\<rparr>;
     if mSize q = 0 then do { q \<leftarrow> SetEmptyTime q; Some (event, q) }
     else if mSize q < 0 then None
     else do {
       temp \<leftarrow> arr_get (mEvents q) (nat (mSize q));
       es \<leftarrow> demote (nat (mSize q)) (mEvents q) temp 0 1;
       Some (event, q\<lparr>mEvents := es\<rparr>) } }"

text \<open>The events are performed in the order of the list.\<close>

partial_function (option) Perform :: "int \<Rightarrow> 'a PQ \<Rightarrow> ('a Event list \<times> 'a PQ) option" where
  "Perform inTime q = do {
     t \<leftarrow> NextTime q;
     if t \<le> inTime then do {
       (event, q) \<leftarrow> Remove q;
       (events, q) \<leftarrow> Perform inTime q;
       Some (event # events, q) }
     else Some ([], q) }"

definition Ready :: "int \<Rightarrow> 'a PQ \<Rightarrow> bool option" where
  "Ready inTime q = map_option (\<lambda>t. t \<le> inTime) (NextTime q)"

definition Flush :: "'a PQ \<Rightarrow> ('a Event list \<times> 'a PQ) option" where
  "Flush q = Perform kMaxInt64 q"

section \<open>Lemmas: the heap\<close>

lemma key_less_iff [simp]: "key_less a b \<longleftrightarrow> a < b" and key_greater_iff [simp]: "key_greater a b \<longleftrightarrow> b < a"
  by (cases a; cases b; auto simp: key_less_def key_greater_def less_prod_def')+

definition par :: "nat \<Rightarrow> nat" where
  "par i = (i - 1) div 2"

lemma par_less: "0 < i \<Longrightarrow> par i < i"
  by (simp add: par_def)

lemma par_children: "0 < i \<Longrightarrow> par i = m \<longleftrightarrow> i = 2 * m + 1 \<or> i = 2 * m + 2"
  by (auto simp: par_def)

definition is_heap :: "nat \<Rightarrow> 'a Event list \<Rightarrow> bool" where
  "is_heap n es \<longleftrightarrow> (\<forall>i. 0 < i \<longrightarrow> i < n \<longrightarrow> key (es ! par i) \<le> key (es ! i))"

text \<open>A heap with a free slot at \<open>m\<close>: the order holds around the slot, and across it.\<close>

definition hole :: "nat \<Rightarrow> 'a Event list \<Rightarrow> nat \<Rightarrow> bool" where
  "hole n es m \<longleftrightarrow> m < n \<and> n \<le> length es \<and>
     (\<forall>i. 0 < i \<longrightarrow> i < n \<longrightarrow> i \<noteq> m \<longrightarrow> par i \<noteq> m \<longrightarrow> key (es ! par i) \<le> key (es ! i)) \<and>
     (\<forall>i. 0 < m \<longrightarrow> 0 < i \<longrightarrow> i < n \<longrightarrow> par i = m \<longrightarrow> key (es ! par m) \<le> key (es ! i))"

definition above :: "nat \<Rightarrow> 'a Event list \<Rightarrow> nat \<Rightarrow> 'a Event \<Rightarrow> bool" where
  "above n es m e \<longleftrightarrow> (\<forall>i. 0 < i \<longrightarrow> i < n \<longrightarrow> par i = m \<longrightarrow> key e \<le> key (es ! i))"

lemma hole_filled:
  assumes "hole n es m" "above n es m e" "0 < m \<Longrightarrow> key (es ! par m) \<le> key e"
  shows "is_heap n (es[m := e])"
  unfolding is_heap_def
proof (intro allI impI)
  fix i assume i: "0 < i" "i < n"
  consider "i = m" | "i \<noteq> m" "par i = m" | "i \<noteq> m" "par i \<noteq> m" by blast
  then show "key (es[m := e] ! par i) \<le> key (es[m := e] ! i)"
  proof cases
    case 1
    then show ?thesis using assms(1,3) i par_less [of m] by (simp add: hole_def)
  next
    case 2
    then show ?thesis using assms(1,2) i by (simp add: hole_def above_def)
  next
    case 3
    then show ?thesis using assms(1) i by (simp add: hole_def)
  qed
qed

lemma hole_up:
  assumes "hole n es m" "above n es m e" "0 < m" "key e < key (es ! par m)"
  shows "hole n (es[m := es ! par m]) (par m) \<and> above n (es[m := es ! par m]) (par m) e"
proof -
  let ?p = "par m" and ?es = "es[m := es ! par m]"
  have p: "?p < m" "m < n" "n \<le> length es" using assms(1,3) par_less by (auto simp: hole_def)
  have g: "key (es ! par i) \<le> key (es ! i)" if "0 < i" "i < n" "i \<noteq> m" "par i \<noteq> m" for i using assms(1) that by (simp add: hole_def)
  have c: "key (es ! ?p) \<le> key (es ! i)" if "0 < i" "i < n" "par i = m" for i using assms(1,3) that by (simp add: hole_def)
  have "key (?es ! par i) \<le> key (?es ! i)" if "0 < i" "i < n" "i \<noteq> ?p" "par i \<noteq> ?p" for i
    using that g [of i] c [of i] p by (cases "i = m"; cases "par i = m") auto
  moreover have "key (?es ! par ?p) \<le> key (?es ! i)" if "0 < ?p" "0 < i" "i < n" "par i = ?p" for i
  proof -
    have "key (es ! par ?p) \<le> key (es ! ?p)" using g [of ?p] that(1) p par_less [of ?p] by simp
    moreover have "key (es ! ?p) \<le> key (es ! i)" if "i \<noteq> m" using g [of i] that \<open>0 < i\<close> \<open>i < n\<close> \<open>par i = ?p\<close> p by simp
    ultimately show ?thesis using p par_less [of ?p] that(1) by (cases "i = m") auto
  qed
  moreover have "key e \<le> key (?es ! i)" if "0 < i" "i < n" "par i = ?p" for i
    using g [of i] that p assms(4) by (cases "i = m") auto
  ultimately show ?thesis using p unfolding hole_def above_def by auto
qed

lemma mset_move:
  assumes "m < length es" "p < length es" "m \<noteq> p"
  shows "mset (es[m := es ! p, p := e]) = mset (es[m := e])"
proof -
  have "mset ((es[m := e])[p := es[m := e] ! m, m := es[m := e] ! p]) = mset (es[m := e])"
    using assms by (intro mset_swap) auto
  moreover have "(es[m := e])[p := es[m := e] ! m, m := es[m := e] ! p] = es[m := es ! p, p := e]"
    using assms by (intro nth_equalityI) (auto simp: nth_list_update)
  ultimately show ?thesis by simp
qed

lemma take_update: "m < n \<Longrightarrow> take n (es[m := e]) = (take n es)[m := e]"
  by (simp add: take_update_swap)

lemma percolate_ok:
  assumes "hole n es m" "above n es m e"
  shows "\<exists>es'. percolate es e m = Some es' \<and> is_heap n es' \<and> length es' = length es \<and>
    mset (take n es') = mset (take n (es[m := e]))"
  using assms
proof (induction es e m rule: percolate.induct)
  case (1 es e m)
  have m: "m < n" "n \<le> length es" using 1(2) by (simp_all add: hole_def)
  show ?case
  proof (cases "0 < m \<and> key e < key (es ! par m)")
    case True
    then have p: "par m < m" "arr_get es (par m) = Some (es ! par m)" "arr_set es m (es ! par m) = Some (es[m := es ! par m])"
      using par_less [of m] m True by simp_all
    have "hole n (es[m := es ! par m]) (par m)" "above n (es[m := es ! par m]) (par m) e"
      using hole_up [OF 1(2,3)] True by auto
    then obtain es' where es': "percolate (es[m := es ! par m]) e (par m) = Some es'" "is_heap n es'" "length es' = length es"
        "mset (take n es') = mset (take n (es[m := es ! par m, par m := e]))"
      using 1(1) [of "es ! par m" "es[m := es ! par m]"] True p by (auto simp: par_def)
    have "mset (take n (es[m := es ! par m, par m := e])) = mset (take n (es[m := e]))"
      using mset_move [of m "take n es" "par m" e] m p(1) by (simp add: take_update)
    moreover have "percolate es e m = Some es'"
      using True p(2,3) es'(1) by (subst percolate.simps) (simp add: par_def)
    ultimately show ?thesis using es' by simp
  next
    case False
    moreover have "arr_set es m e = Some (es[m := e])" using m by simp
    ultimately have "percolate es e m = Some (es[m := e])"
      using m par_less [of m] by (cases "m = 0"; subst percolate.simps) (simp_all add: par_def)
    moreover have "is_heap n (es[m := e])" by (rule hole_filled [OF 1(2,3)]) (use False in \<open>auto simp: not_less\<close>)
    ultimately show ?thesis by simp
  qed
qed

lemma hole_down:
  assumes "hole n es m" "0 < m \<Longrightarrow> key (es ! par m) \<le> key e" "c < n" "par c = m" "0 < c" "key (es ! c) < key e"
    and "\<And>i. 0 < i \<Longrightarrow> i < n \<Longrightarrow> par i = m \<Longrightarrow> key (es ! c) \<le> key (es ! i)"
  shows "hole n (es[m := es ! c]) c \<and> key (es[m := es ! c] ! par c) \<le> key e"
proof -
  let ?es = "es[m := es ! c]"
  have m: "m < n" "n \<le> length es" "m < c" using assms(1,4,5) par_less [of c] by (auto simp: hole_def)
  have g: "key (es ! par i) \<le> key (es ! i)" if "0 < i" "i < n" "i \<noteq> m" "par i \<noteq> m" for i using assms(1) that by (simp add: hole_def)
  have "key (?es ! par i) \<le> key (?es ! i)" if i: "0 < i" "i < n" "i \<noteq> c" "par i \<noteq> c" for i
  proof -
    consider "i = m" | "i \<noteq> m" "par i = m" | "i \<noteq> m" "par i \<noteq> m" by blast
    then show ?thesis
    proof cases
      case 1
      then have "key (es ! par m) \<le> key (es ! c)" using assms(1,3-5) i(1) by (simp add: hole_def)
      then show ?thesis using 1 i m par_less [of m] by simp
    next
      case 2
      then show ?thesis using assms(7) [of i] i m by simp
    next
      case 3
      then show ?thesis using g [of i] i m by simp
    qed
  qed
  moreover have "key (?es ! par c) \<le> key (?es ! i)" if "0 < i" "i < n" "par i = c" for i
    using g [of i] that m assms(4) par_less [of i] by (cases "i = m") auto
  ultimately show ?thesis using m assms(3,4,6) unfolding hole_def by auto
qed

lemma demote_ok:
  assumes "hole n es mom" "0 < mom \<Longrightarrow> key (es ! par mom) \<le> key temp" "me = 2 * mom + 1"
  shows "\<exists>es'. demote n es temp mom me = Some es' \<and> is_heap n es' \<and> length es' = length es \<and>
    mset (take n es') = mset (take n (es[mom := temp]))"
  using assms
proof (induction "n - me" arbitrary: es mom me rule: less_induct)
  case less
  have m: "mom < n" "n \<le> length es" using less.prems(1) by (simp_all add: hole_def)
  show ?case
  proof (cases "me < n")
    case False
    then have "demote n es temp mom me = Some (es[mom := temp])" using m by (subst demote.simps) simp
    moreover have "above n es mom temp" using False less.prems(3) par_children by (auto simp: above_def)
    then have "is_heap n (es[mom := temp])" using hole_filled [OF less.prems(1) _ less.prems(2)] by blast
    ultimately show ?thesis by simp
  next
    case True
    define c where "c = (if me + 1 < n \<and> key (es ! (me + 1)) < key (es ! me) then me + 1 else me)"
    have c: "c < n" "0 < c" "par c = mom" using True less.prems(3) par_children by (auto simp: c_def)
    have least: "key (es ! c) \<le> key (es ! i)" if "0 < i" "i < n" "par i = mom" for i
      using that par_children [of i mom] less.prems(3) True by (auto simp: c_def)
    have pick: "(if me + 1 < n then do { b \<leftarrow> arr_get es (me + 1); Some (if key_greater (key (es ! me)) (key b) then me + 1 else me) } else Some me) = Some c"
      using m by (simp add: c_def)
    show ?thesis
    proof (cases "key (es ! c) < key temp")
      case lt: True
      let ?es = "es[mom := es ! c]"
      have dec: "n - (2 * c + 1) < n - me" using True less.prems(3) by (auto simp: c_def)
      have h: "hole n ?es c \<and> key (?es ! par c) \<le> key temp"
        by (rule hole_down [OF less.prems(1) less.prems(2) c(1,3,2) lt]) (assumption | rule least)+
      obtain es' where es': "demote n ?es temp c (2 * c + 1) = Some es'" "is_heap n es'" "length es' = length es"
          "mset (take n es') = mset (take n (?es[c := temp]))"
        using less.hyps [of "2 * c + 1" ?es c] h dec by auto
      have "c \<noteq> mom" using c(3) par_less [OF c(2)] by auto
      then have "mset (take n (?es[c := temp])) = mset (take n (es[mom := temp]))"
        using mset_move [of mom "take n es" c temp] m c(1) by (simp add: take_update)
      moreover have "demote n es temp mom me = Some es'"
        using True pick c(1) m lt es'(1) by (subst demote.simps) simp
      ultimately show ?thesis using es' by simp
    next
      case False
      then have "demote n es temp mom me = Some (es[mom := temp])"
        using True pick c(1) m by (subst demote.simps) simp
      moreover have "above n es mom temp"
        unfolding above_def
      proof (intro allI impI)
        fix i assume "0 < i" "i < n" "par i = mom"
        from least [OF this] show "key temp \<le> key (es ! i)" using False by simp
      qed
      then have "is_heap n (es[mom := temp])" using hole_filled [OF less.prems(1) _ less.prems(2)] by blast
      ultimately show ?thesis by simp
    qed
  qed
qed

lemma heap_min: "is_heap n es \<Longrightarrow> i < n \<Longrightarrow> key (es ! 0) \<le> key (es ! i)"
proof (induction i rule: less_induct)
  case (less i)
  show ?case
  proof (cases "i = 0")
    case False
    then have "key (es ! 0) \<le> key (es ! par i)" using less par_less [of i] by (intro less.IH) auto
    also have "\<dots> \<le> key (es ! i)" using less.prems False by (simp add: is_heap_def)
    finally show ?thesis .
  qed simp
qed

section \<open>Lemmas: the queue\<close>

text \<open>The events in the order in which they are due.\<close>

definition due_order :: "'a Event list \<Rightarrow> bool" where
  "due_order ys \<longleftrightarrow> sorted_wrt (\<lambda>a b. key a < key b) ys"

definition pq_inv :: "nat \<Rightarrow> 'a PQ \<Rightarrow> 'a Event list \<Rightarrow> bool" where
  "pq_inv N q ys \<longleftrightarrow> mSize q = int (length ys) \<and> length ys \<le> N \<and> 0 < N \<and> length (mEvents q) = N \<and>
     is_heap (length ys) (mEvents q) \<and> mset (take (length ys) (mEvents q)) = mset ys \<and> due_order ys \<and>
     (\<forall>y \<in> set ys. mStabilityCount y < mStabilityCounter q) \<and>
     (ys = [] \<longrightarrow> mTime (mEvents q ! 0) = kMaxInt64 \<and> mStabilityCounter q = 0)"

definition insert_due :: "'a Event \<Rightarrow> 'a Event list \<Rightarrow> 'a Event list" where
  "insert_due e ys = takeWhile (\<lambda>y. mTime y \<le> mTime e) ys @ e # dropWhile (\<lambda>y. mTime y \<le> mTime e) ys"

lemma due_orderD: "due_order (y # ys) \<Longrightarrow> z \<in> set ys \<Longrightarrow> key y < key z"
  by (simp add: due_order_def)

lemma due_times: "due_order ys \<Longrightarrow> z \<in> set (dropWhile (\<lambda>y. mTime y \<le> t) ys) \<Longrightarrow> t < mTime z"
proof (induction ys)
  case (Cons y ys)
  show ?case
  proof (cases "mTime y \<le> t")
    case True
    then show ?thesis using Cons by (simp add: due_order_def)
  next
    case False
    then have "z = y \<or> key y < key z" using Cons.prems by (auto dest: due_orderD)
    then show ?thesis using False by (auto simp: key_def less_prod_def')
  qed
qed simp

lemma due_insert:
  assumes "due_order ys" "\<forall>y \<in> set ys. mStabilityCount y < mStabilityCount e"
  shows "due_order (insert_due e ys)"
proof -
  let ?P = "\<lambda>y. mTime y \<le> mTime e"
  have "key y < key e" if "y \<in> set (takeWhile ?P ys)" for y
    using that assms(2) set_takeWhileD [OF that] by (auto simp: key_def less_prod_def')
  moreover have "key e < key z" if "z \<in> set (dropWhile ?P ys)" for z
    using due_times [OF assms(1) that] by (simp add: key_def less_prod_def')
  moreover have "sorted_wrt (\<lambda>a b. key a < key b) (takeWhile ?P ys @ dropWhile ?P ys)"
    using assms(1) by (simp add: due_order_def)
  ultimately show ?thesis
    unfolding due_order_def insert_due_def by (auto simp: sorted_wrt_append simp del: takeWhile_dropWhile_id)
qed

lemma insert_due_simps [simp]: "length (insert_due e ys) = Suc (length ys)" "mset (insert_due e ys) = add_mset e (mset ys)"
    "set (insert_due e ys) = insert e (set ys)"
proof -
  let ?P = "\<lambda>y. mTime y \<le> mTime e"
  show m: "mset (insert_due e ys) = add_mset e (mset ys)"
    unfolding insert_due_def by (metis mset.simps(2) mset_append takeWhile_dropWhile_id union_mset_add_mset_right)
  from arg_cong [OF m, of size] show "length (insert_due e ys) = Suc (length ys)" by simp
  from arg_cong [OF m, of set_mset] show "set (insert_due e ys) = insert e (set ys)" by simp
qed

lemma Add_ok:
  assumes "pq_inv N q ys" "mStabilityCounter q < kMaxInt64"
  shows "\<exists>q'. Add e q = Some (length ys < N, q') \<and>
    (if length ys < N
     then pq_inv N q' (insert_due (e\<lparr>mStabilityCount := mStabilityCounter q\<rparr>) ys) \<and> mStabilityCounter q' = mStabilityCounter q + 1
     else q' = q)"
proof (cases "length ys < N")
  case False
  then show ?thesis using assms(1) by (simp add: Add_def pq_inv_def)
next
  case True
  let ?n = "length ys" and ?es = "mEvents q" and ?e = "e\<lparr>mStabilityCount := mStabilityCounter q\<rparr>"
  have inv: "length ?es = N" "is_heap ?n ?es" "mset (take ?n ?es) = mset ys" "due_order ys" "mSize q = int ?n"
      "\<forall>y \<in> set ys. mStabilityCount y < mStabilityCounter q"
    using assms(1) by (simp_all add: pq_inv_def)
  have none: "\<not> (0 < i \<and> i < Suc ?n \<and> par i = ?n)" for i using par_less [of i] by auto
  have "hole (Suc ?n) ?es ?n" using True inv(1,2) none unfolding hole_def is_heap_def by auto
  moreover have "above (Suc ?n) ?es ?n ?e" using none by (auto simp: above_def)
  ultimately obtain es' where es': "percolate ?es ?e ?n = Some es'" "is_heap (Suc ?n) es'" "length es' = N"
      "mset (take (Suc ?n) es') = mset (take (Suc ?n) (?es[?n := ?e]))"
    using percolate_ok inv(1) by metis
  have "take (Suc ?n) (?es[?n := ?e]) = take ?n ?es @ [?e]" using True inv(1) by (simp add: take_Suc_conv_app_nth)
  then have "mset (take (Suc ?n) es') = mset (insert_due ?e ys)" using es'(4) inv(3) by simp
  moreover have "due_order (insert_due ?e ys)" using inv(4,6) by (intro due_insert) auto
  moreover have "0 < N" using assms(1) by (simp add: pq_inv_def)
  moreover have ne: "insert_due ?e ys \<noteq> []" by (simp add: insert_due_def)
  ultimately have "pq_inv N (q\<lparr>mSize := int ?n + 1, mEvents := es', mStabilityCounter := mStabilityCounter q + 1\<rparr>) (insert_due ?e ys)"
    using True es'(2,3) inv(6) ne by (auto simp: pq_inv_def)
  then show ?thesis using True es'(1) inv(1,5) assms(2) by (simp add: Add_def)
qed

lemma first_due:
  assumes "pq_inv N q (y # ys)"
  shows "mEvents q ! 0 = y"
proof -
  let ?n = "Suc (length ys)" and ?es = "mEvents q"
  have inv: "?n \<le> length ?es" "is_heap ?n ?es" "mset (take ?n ?es) = mset (y # ys)" "due_order (y # ys)"
    using assms by (simp_all add: pq_inv_def)
  have s: "set (take ?n ?es) = insert y (set ys)" using arg_cong [OF inv(3), of set_mset] by simp
  have "?es ! 0 \<in> set (take ?n ?es)" using inv(1) by (cases ?es) auto
  then have "?es ! 0 = y \<or> key y < key (?es ! 0)" using s inv(4) due_orderD by auto
  moreover have "y \<in> set (take ?n ?es)" using s by simp
  then obtain i where "i < ?n" "?es ! i = y" using inv(1) by (auto simp: in_set_conv_nth)
  then have "key (?es ! 0) \<le> key y" using heap_min [OF inv(2)] by auto
  ultimately show ?thesis by auto
qed

lemma NextTime_ok: "pq_inv N q ys \<Longrightarrow> NextTime q = Some (case ys of [] \<Rightarrow> kMaxInt64 | y # _ \<Rightarrow> mTime y)"
  using first_due [of N q "hd ys" "tl ys"] by (cases ys) (auto simp: NextTime_def pq_inv_def)

lemma Remove_first:
  assumes "pq_inv N q (y # ys)"
  shows "\<exists>q'. Remove q = Some (y, q') \<and> pq_inv N q' ys \<and> mStabilityCounter q' = (if ys = [] then 0 else mStabilityCounter q)"
proof -
  let ?n = "length ys" and ?es = "mEvents q"
  have inv: "Suc ?n \<le> N" "length ?es = N" "is_heap (Suc ?n) ?es" "mset (take (Suc ?n) ?es) = mset (y # ys)" "due_order (y # ys)"
      "mSize q = int ?n + 1" "\<forall>x \<in> set (y # ys). mStabilityCount x < mStabilityCounter q"
    using assms by (simp_all add: pq_inv_def)
  have first: "arr_get ?es 0 = Some y" using first_due [OF assms] inv(1,2) by simp
  show ?thesis
  proof (cases "ys = []")
    case True
    let ?q = "q\<lparr>mSize := 0, mEvents := ?es[0 := y\<lparr>mTime := kMaxInt64\<rparr>], mStabilityCounter := 0\<rparr>"
    have "Remove q = Some (y, ?q)" using True first inv(1,2,6) by (simp add: Remove_def SetEmptyTime_def)
    moreover have "pq_inv N ?q ys" using True inv(1,2) by (simp add: pq_inv_def is_heap_def due_order_def)
    ultimately show ?thesis using True by auto
  next
    case False
    then have n: "0 < ?n" by simp
    let ?t = "?es ! ?n"
    have "hole ?n ?es 0" using inv(1-3) n par_less by (auto simp: hole_def is_heap_def)
    then obtain es' where es': "demote ?n ?es ?t 0 1 = Some es'" "is_heap ?n es'" "length es' = N" "mset (take ?n es') = mset (take ?n (?es[0 := ?t]))"
      using demote_ok [of ?n ?es 0 ?t 1] inv(2) by auto
    have "take (Suc ?n) ?es = y # tl (take ?n ?es) @ [?t]"
    proof -
      have "take (Suc ?n) ?es = take ?n ?es @ [?t]" using inv(1,2) by (simp add: take_Suc_conv_app_nth)
      moreover have "take ?n ?es = y # tl (take ?n ?es)"
        using n first_due [OF assms] inv(1,2) by (cases ?es; cases ?n) auto
      ultimately show ?thesis by simp
    qed
    then have "mset ys = mset (tl (take ?n ?es) @ [?t])" using inv(4) by simp
    moreover have "take ?n (?es[0 := ?t]) = ?t # tl (take ?n ?es)" using n inv(1,2) by (cases ?es; cases ?n) auto
    ultimately have m: "mset (take ?n es') = mset ys" using es'(4) by simp
    have "Remove q = Some (y, q\<lparr>mSize := int ?n, mEvents := es'\<rparr>)"
      using first n es'(1) inv(1,2,6) by (simp add: Remove_def Let_def)
    moreover have "pq_inv N (q\<lparr>mSize := int ?n, mEvents := es'\<rparr>) ys"
      using False m es'(2,3) inv(1,5,7) by (simp add: pq_inv_def due_order_def)
    ultimately show ?thesis using False by auto
  qed
qed

lemma Remove_empty:
  assumes "pq_inv N q []"
  shows "Remove q = None"
  using assms by (simp add: Remove_def pq_inv_def)

lemma Perform_ok:
  assumes "pq_inv N q ys" "t < kMaxInt64"
  shows "\<exists>q'. Perform t q = Some (takeWhile (\<lambda>y. mTime y \<le> t) ys, q') \<and> pq_inv N q' (dropWhile (\<lambda>y. mTime y \<le> t) ys) \<and>
    mStabilityCounter q' = (if dropWhile (\<lambda>y. mTime y \<le> t) ys = [] then 0 else mStabilityCounter q)"
  using assms(1)
proof (induction ys arbitrary: q)
  case Nil
  then show ?case using assms(2) NextTime_ok [OF Nil] by (subst Perform.simps) (simp add: pq_inv_def)
next
  case (Cons y ys)
  note next_time = NextTime_ok [OF Cons.prems]
  show ?case
  proof (cases "mTime y \<le> t")
    case False
    then show ?thesis using Cons.prems next_time by (subst Perform.simps) simp
  next
    case True
    obtain q1 where q1: "Remove q = Some (y, q1)" "pq_inv N q1 ys" "mStabilityCounter q1 = (if ys = [] then 0 else mStabilityCounter q)"
      using Remove_first [OF Cons.prems] by blast
    obtain q2 where "Perform t q1 = Some (takeWhile (\<lambda>y. mTime y \<le> t) ys, q2)" "pq_inv N q2 (dropWhile (\<lambda>y. mTime y \<le> t) ys)"
        "mStabilityCounter q2 = (if dropWhile (\<lambda>y. mTime y \<le> t) ys = [] then 0 else mStabilityCounter q1)"
      using Cons.IH [OF q1(2)] by blast
    then show ?thesis using True next_time q1 by (subst Perform.simps) auto
  qed
qed

lemma Flush_fails: "pq_inv N q ys \<Longrightarrow> \<forall>y \<in> set ys. mTime y \<le> kMaxInt64 \<Longrightarrow> Flush q = None"
  unfolding Flush_def
proof (induction ys arbitrary: q)
  case Nil
  then show ?case using NextTime_ok [OF Nil(1)] Remove_empty [OF Nil(1)] by (subst Perform.simps) simp
next
  case (Cons y ys)
  then show ?case using NextTime_ok [OF Cons.prems(1)] Remove_first [OF Cons.prems(1)] by (subst Perform.simps) auto
qed

section \<open>The schedule\<close>

text \<open>
  Commands to the queue, and their specification on a list of times and packets in the order in
  which they are due; the number counts the events that were added since the list was empty.
\<close>

datatype 'a sched_cmd = Schedule int 'a | Tick int

datatype 'a sched_out = Accepted bool | Performed "(int \<times> 'a) list"

definition due :: "'a Event \<Rightarrow> int \<times> 'a" where
  "due e = (mTime e, mPacket e)"

fun exec_sched :: "'a sched_cmd \<Rightarrow> 'a PQ \<Rightarrow> ('a sched_out \<times> 'a PQ) option" where
  "exec_sched (Schedule t a) q = do {
     (b, q) \<leftarrow> Add \<lparr>mTime = t, mStabilityCount = 0, mPacket = a\<rparr> q;
     Some (Accepted b, q) }"
| "exec_sched (Tick t) q = do { (es, q) \<leftarrow> Perform t q; Some (Performed (map due es), q) }"

fun spec_sched :: "nat \<Rightarrow> 'a sched_cmd \<Rightarrow> (int \<times> 'a) list \<times> int \<Rightarrow> 'a sched_out \<times> (int \<times> 'a) list \<times> int" where
  "spec_sched N (Schedule t a) (xs, c) =
     (if N \<le> length xs then (Accepted False, xs, c)
      else (Accepted True, takeWhile (\<lambda>x. fst x \<le> t) xs @ (t, a) # dropWhile (\<lambda>x. fst x \<le> t) xs, c + 1))"
| "spec_sched N (Tick t) (xs, c) =
     (let rest = dropWhile (\<lambda>x. fst x \<le> t) xs
      in (Performed (takeWhile (\<lambda>x. fst x \<le> t) xs), rest, if rest = [] then 0 else c))"

text \<open>The largest time is never reached, and the counter does not overflow.\<close>

fun legal_sched :: "'a sched_cmd \<Rightarrow> (int \<times> 'a) list \<times> int \<Rightarrow> bool" where
  "legal_sched (Schedule t a) (xs, c) \<longleftrightarrow> c < kMaxInt64"
| "legal_sched (Tick t) (xs, c) \<longleftrightarrow> t < kMaxInt64"

definition schedules :: "nat \<Rightarrow> 'a PQ \<Rightarrow> (int \<times> 'a) list \<times> int \<Rightarrow> bool" where
  "schedules N q A \<longleftrightarrow> (\<exists>ys. pq_inv N q ys \<and> A = (map due ys, mStabilityCounter q))"

lemma due_while: "takeWhile (\<lambda>x. fst x \<le> t) (map due ys) = map due (takeWhile (\<lambda>y. mTime y \<le> t) ys)"
    "dropWhile (\<lambda>x. fst x \<le> t) (map due ys) = map due (dropWhile (\<lambda>y. mTime y \<le> t) ys)"
  by (induction ys) (auto simp: due_def)

interpretation schedule: simulation "schedules N" legal_sched exec_sched "spec_sched N" for N
proof
  fix q :: "'a PQ" and A c assume "schedules N q A" and leg: "legal_sched c A"
  then obtain ys where ys: "pq_inv N q ys" "A = (map due ys, mStabilityCounter q)" by (auto simp: schedules_def)
  show "\<exists>q'. exec_sched c q = Some (fst (spec_sched N c A), q') \<and> schedules N q' (snd (spec_sched N c A))"
  proof (cases c)
    case (Schedule t a)
    let ?e = "\<lparr>mTime = t, mStabilityCount = 0, mPacket = a\<rparr>"
    have "mStabilityCounter q < kMaxInt64" using leg ys(2) Schedule by simp
    then obtain q' where q': "Add ?e q = Some (length ys < N, q')"
        "if length ys < N then pq_inv N q' (insert_due (?e\<lparr>mStabilityCount := mStabilityCounter q\<rparr>) ys) \<and>
           mStabilityCounter q' = mStabilityCounter q + 1 else q' = q"
      using Add_ok [OF ys(1), of ?e] by blast
    have "map due (insert_due (?e\<lparr>mStabilityCount := mStabilityCounter q\<rparr>) ys) =
        takeWhile (\<lambda>x. fst x \<le> t) (map due ys) @ (t, a) # dropWhile (\<lambda>x. fst x \<le> t) (map due ys)"
      unfolding due_while by (simp add: insert_due_def due_def)
    then show ?thesis using Schedule q' ys by (cases "length ys < N") (auto simp: schedules_def)
  next
    case (Tick t)
    then obtain q' where q': "Perform t q = Some (takeWhile (\<lambda>y. mTime y \<le> t) ys, q')" "pq_inv N q' (dropWhile (\<lambda>y. mTime y \<le> t) ys)"
        "mStabilityCounter q' = (if dropWhile (\<lambda>y. mTime y \<le> t) ys = [] then 0 else mStabilityCounter q)"
      using Perform_ok [OF ys(1), of t] leg ys(2) by auto
    have "schedules N q' (map due (dropWhile (\<lambda>y. mTime y \<le> t) ys), mStabilityCounter q')" using q'(2) by (auto simp: schedules_def)
    then show ?thesis using Tick q'(1,3) ys(2) by (simp add: due_while Let_def)
  qed
qed

lemma PriorityQueue_ok:
  assumes "es \<noteq> []"
  shows "\<exists>q. PriorityQueue es = Some q \<and> schedules (length es) q ([], 0)"
proof -
  let ?q = "\<lparr>mSize = 0, mEvents = es[0 := (es ! 0)\<lparr>mTime := kMaxInt64\<rparr>], mStabilityCounter = 0\<rparr>"
  have "PriorityQueue es = Some ?q" using assms by (simp add: PriorityQueue_def Empty_def SetEmptyTime_def)
  moreover have "pq_inv (length es) ?q []" using assms by (simp add: pq_inv_def is_heap_def due_order_def)
  ultimately show ?thesis by (auto simp: schedules_def)
qed

section \<open>Properties\<close>

text \<open>
  C9. The queue of scheduled events refines a list in the order in which the events are due. For every
  sequence of additions and ticks, an event is refused exactly when the queue is full, a tick
  performs exactly the events whose time has come, earlier ones first and those of the same time
  in the order in which they were added, and no access leaves the array. Ticks have to be before
  the largest time.
\<close>

theorem schedule_in_order:
  assumes "es \<noteq> []" "legal_cmds legal_sched (spec_sched (length es)) cs ([], 0)"
  shows "\<exists>q0 q. PriorityQueue es = Some q0 \<and>
    run_cmds exec_sched cs q0 = Some (fst (spec_cmds (spec_sched (length es)) cs ([], 0)), q) \<and>
    schedules (length es) q (snd (spec_cmds (spec_sched (length es)) cs ([], 0)))"
  using PriorityQueue_ok [OF assms(1)] schedule.run_refines [OF _ assms(2)] by blast

theorem schedule_in_order_witness:
  "\<exists>q0 q. PriorityQueue (replicate 4 \<lparr>mTime = 0, mStabilityCount = 0, mPacket = CHR ''x''\<rparr>) = Some q0 \<and>
    run_cmds exec_sched [Schedule 7 CHR ''a'', Schedule 5 CHR ''b'', Schedule 7 CHR ''c'', Schedule 5 CHR ''d'', Schedule 9 CHR ''e'', Tick 6, Tick 8] q0 =
      Some ([Accepted True, Accepted True, Accepted True, Accepted True, Accepted False,
        Performed [(5, CHR ''b''), (5, CHR ''d'')], Performed [(7, CHR ''a''), (7, CHR ''c'')]], q)"
  using schedule_in_order [of "replicate 4 \<lparr>mTime = 0, mStabilityCount = 0, mPacket = CHR ''x''\<rparr>"
      "[Schedule 7 CHR ''a'', Schedule 5 CHR ''b'', Schedule 7 CHR ''c'', Schedule 5 CHR ''d'', Schedule 9 CHR ''e'', Tick 6, Tick 8]"]
  by (simp add: kMaxInt64_def del: exec_sched.simps run_cmds.simps) blast

text \<open>
  \<open>Flush\<close> never works: the marker of the empty queue is the largest time, and \<open>Flush\<close> performs the
  events up to and including that time, so after the last event it removes one more from the empty
  queue and reads in front of the array.
\<close>

theorem flush_overruns:
  assumes "pq_inv N q ys" "\<forall>y \<in> set ys. mTime y \<le> kMaxInt64"
  shows "Flush q = None"
  using Flush_fails [OF assms] .

theorem flush_overruns_witness:
  "\<exists>q. PriorityQueue [\<lparr>mTime = 0, mStabilityCount = 0, mPacket = ()\<rparr>] = Some q \<and> Flush q = None"
proof -
  obtain q where q: "PriorityQueue [\<lparr>mTime = 0, mStabilityCount = 0, mPacket = ()\<rparr>] = Some q" "pq_inv 1 q []"
    using PriorityQueue_ok [of "[\<lparr>mTime = 0, mStabilityCount = 0, mPacket = ()\<rparr>]"] by (auto simp: schedules_def)
  then show ?thesis using flush_overruns [OF q(2)] by auto
qed

end
