(* ===== verification/C_Floats.thy ===== *)
theory C_Floats
  imports Vox_Prelude "HOL-Library.Word"
begin

text \<open>
  The types \<open>float\<close> and \<open>double\<close> by the bits of their representation, as the OSC code of the server
  sees them through its unions, and the conversions of the language between them and integers.
  A format has \<open>mb\<close> bits of mantissa and \<open>eb\<close> bits of exponent. Conversions round to the nearest
  value, ties to even; one from a value that is not a number gives the default quiet one.
\<close>

section \<open>Formats\<close>

text \<open>The value \<open>Fin s m e\<close> is \<open>m * 2 ^ e\<close>, negative when \<open>s\<close> holds.\<close>

datatype fl = Nan | Inf bool | Fin bool nat int

definition bias :: "nat \<Rightarrow> int" where
  "bias eb = 2 ^ (eb - 1) - 1"

text \<open>The exponent of the last place of the smallest numbers.\<close>

definition emin :: "nat \<Rightarrow> nat \<Rightarrow> int" where
  "emin mb eb = 1 - bias eb - int mb"

definition decode :: "nat \<Rightarrow> nat \<Rightarrow> nat \<Rightarrow> fl" where
  "decode mb eb w =
     (let M = w mod 2 ^ mb; E = w div 2 ^ mb mod 2 ^ eb; s = odd (w div 2 ^ (mb + eb)) in
      if E = 2 ^ eb - 1 then (if M = 0 then Inf s else Nan)
      else if E = 0 then Fin s M (emin mb eb)
      else Fin s (M + 2 ^ mb) (int E - 1 + emin mb eb))"

fun nbits :: "nat \<Rightarrow> nat" where
  "nbits n = (if n = 0 then 0 else Suc (nbits (n div 2)))"

declare nbits.simps [simp del]

definition round_even :: "nat \<Rightarrow> nat \<Rightarrow> nat" where
  "round_even m k =
     (let q = m div 2 ^ k; r = m mod 2 ^ k in
      if 2 * r > 2 ^ k \<or> 2 * r = 2 ^ k \<and> odd q then q + 1 else q)"

text \<open>The number \<open>m * 2 ^ e\<close> in units of \<open>2 ^ f\<close>.\<close>

definition scaled :: "nat \<Rightarrow> int \<Rightarrow> int \<Rightarrow> nat" where
  "scaled m e f = (if f \<le> e then m * 2 ^ nat (e - f) else round_even m (nat (f - e)))"

definition last_place :: "nat \<Rightarrow> nat \<Rightarrow> nat \<Rightarrow> int \<Rightarrow> int" where
  "last_place mb eb m e = max (e + int (nbits m) - int mb - 1) (emin mb eb)"

text \<open>
  The exponent of the last place of the result is \<open>f\<close>, and its mantissa, with the leading bit,
  is \<open>r\<close>; the bits of exponent and mantissa are \<open>(f - emin) * 2 ^ mb + r\<close>, for small numbers and when
  rounding carries into the exponent too.
\<close>

definition encode :: "nat \<Rightarrow> nat \<Rightarrow> fl \<Rightarrow> nat" where
  "encode mb eb x =
     (case x of
        Nan \<Rightarrow> (2 ^ eb - 1) * 2 ^ mb + 2 ^ (mb - 1)
      | Inf s \<Rightarrow> of_bool s * 2 ^ (mb + eb) + (2 ^ eb - 1) * 2 ^ mb
      | Fin s m e \<Rightarrow> of_bool s * 2 ^ (mb + eb) +
          (if m = 0 then 0
           else let f = last_place mb eb m e
                in min (nat (f - emin mb eb) * 2 ^ mb + scaled m e f) ((2 ^ eb - 1) * 2 ^ mb)))"

section \<open>Conversions\<close>

type_synonym float32 = "32 word"

type_synonym float64 = "64 word"

definition f32 :: "float32 \<Rightarrow> fl" where
  "f32 x = decode 23 8 (unat x)"

definition f64 :: "float64 \<Rightarrow> fl" where
  "f64 x = decode 52 11 (unat x)"

definition to_f32 :: "fl \<Rightarrow> float32" where
  "to_f32 x = of_nat (encode 23 8 x)"

definition to_f64 :: "fl \<Rightarrow> float64" where
  "to_f64 x = of_nat (encode 52 11 x)"

definition narrow :: "float64 \<Rightarrow> float32" where
  "narrow x = to_f32 (f64 x)"

definition widen :: "float32 \<Rightarrow> float64" where
  "widen x = to_f64 (f32 x)"

definition fl_of_int :: "int \<Rightarrow> fl" where
  "fl_of_int i = Fin (i < 0) (nat \<bar>i\<bar>) 0"

definition fl_mult :: "fl \<Rightarrow> fl \<Rightarrow> fl" where
  "fl_mult x y =
     (case (x, y) of
        (Nan, _) \<Rightarrow> Nan | (_, Nan) \<Rightarrow> Nan
      | (Inf s, Inf t) \<Rightarrow> Inf (s \<noteq> t)
      | (Inf s, Fin t m e) \<Rightarrow> if m = 0 then Nan else Inf (s \<noteq> t)
      | (Fin s m e, Inf t) \<Rightarrow> if m = 0 then Nan else Inf (s \<noteq> t)
      | (Fin s m e, Fin t n f) \<Rightarrow> Fin (s \<noteq> t) (m * n) (e + f))"

text \<open>Conversion to an integer cuts off the fraction; \<open>None\<close> when the result does not fit into \<open>b\<close> bits.\<close>

definition fl_to_int :: "nat \<Rightarrow> fl \<Rightarrow> int option" where
  "fl_to_int b x =
     (case x of
        Fin s m e \<Rightarrow>
          (let n = (if 0 \<le> e then m * 2 ^ nat e else m div 2 ^ nat (- e)); i = (if s then - int n else int n) in
           if - (2 ^ (b - 1)) \<le> i \<and> i < 2 ^ (b - 1) then Some i else None)
      | _ \<Rightarrow> None)"

section \<open>Lemmas\<close>

lemma nbits_bounds: "0 < n \<Longrightarrow> 2 ^ (nbits n - 1) \<le> n \<and> n < 2 ^ nbits n \<and> 0 < nbits n"
proof (induction n rule: nbits.induct)
  case (1 n)
  show ?case
  proof (cases "n div 2 = 0")
    case True
    then have "n = 1" using 1 by simp
    then show ?thesis by (simp add: nbits.simps [of "Suc 0"] nbits.simps [of 0])
  next
    case False
    then have IH: "2 ^ (nbits (n div 2) - 1) \<le> n div 2" "n div 2 < 2 ^ nbits (n div 2)" "0 < nbits (n div 2)"
      using 1 by auto
    have n: "nbits n = Suc (nbits (n div 2))" using 1 by (simp add: nbits.simps)
    obtain k where k: "nbits (n div 2) = Suc k" using IH(3) by (cases "nbits (n div 2)") auto
    have "a \<le> n div 2 \<Longrightarrow> n div 2 < b \<Longrightarrow> 2 * a \<le> n \<and> n < 2 * b" for a b by linarith
    from this [OF IH(1,2)] show ?thesis using n k by simp
  qed
qed

lemma nbits_eq: "2 ^ k \<le> n \<Longrightarrow> n < 2 ^ Suc k \<Longrightarrow> nbits n = Suc k"
proof -
  assume *: "2 ^ k \<le> n" "n < 2 ^ Suc k"
  have "0 < n" using *(1) by (metis gr0I not_one_le_zero one_le_numeral one_le_power le_trans)
  note b = nbits_bounds [OF this]
  have "k < nbits n" using *(1) b by (meson le_less_trans nat_power_less_imp_less zero_less_numeral)
  moreover have "nbits n - 1 < Suc k" using *(2) b by (meson le_less_trans nat_power_less_imp_less zero_less_numeral)
  ultimately show ?thesis by simp
qed

lemma nbits_shift: "0 < n \<Longrightarrow> nbits (n * 2 ^ k) = nbits n + k"
proof -
  assume "0 < n"
  note b = nbits_bounds [OF this]
  obtain l where l: "nbits n = Suc l" using b by (cases "nbits n") auto
  have "2 ^ (l + k) \<le> n * 2 ^ k" "n * 2 ^ k < 2 ^ Suc (l + k)" using b l by (auto simp: power_add)
  then show ?thesis using l nbits_eq by fastforce
qed

lemma nbits_le: "n < 2 ^ k \<Longrightarrow> nbits n \<le> k"
proof (cases "n = 0")
  case False
  assume "n < 2 ^ k"
  then have "2 ^ (nbits n - 1) < (2::nat) ^ k" using nbits_bounds [of n] False by linarith
  then have "nbits n - 1 < k" by (rule nat_power_less_imp_less [rotated]) simp
  then show ?thesis by simp
qed (simp add: nbits.simps)

lemma round_even_exact: "j \<le> k \<Longrightarrow> round_even (m * 2 ^ k) j = m * 2 ^ (k - j)"
proof -
  assume "j \<le> k"
  then have "m * 2 ^ k = (m * 2 ^ (k - j)) * 2 ^ j" by (simp flip: power_add)
  then show ?thesis by (simp only: round_even_def Let_def) simp
qed

lemma round_even_shift: "round_even (m * 2 ^ k) (j + k) = round_even m j"
proof -
  have "m * 2 ^ k div 2 ^ (j + k) = m div 2 ^ j" "m * 2 ^ k mod 2 ^ (j + k) = (m mod 2 ^ j) * 2 ^ k"
    by (simp_all add: power_add mult_mod_left)
  moreover have "2 * (m mod 2 ^ j * 2 ^ k) > 2 ^ (j + k) \<longleftrightarrow> 2 * (m mod 2 ^ j) > 2 ^ j"
    "2 * (m mod 2 ^ j * 2 ^ k) = 2 ^ (j + k) \<longleftrightarrow> 2 * (m mod 2 ^ j) = 2 ^ j"
    by (simp_all add: power_add flip: mult.assoc)
  ultimately show ?thesis by (simp add: round_even_def Let_def)
qed

text \<open>The result depends on the value only, not on how mantissa and exponent share it.\<close>

lemma encode_shift:
  assumes "0 < m"
  shows "encode mb eb (Fin s (m * 2 ^ k) (e - int k)) = encode mb eb (Fin s m e)"
proof -
  have f: "last_place mb eb (m * 2 ^ k) (e - int k) = last_place mb eb m e"
    using nbits_shift [OF assms] by (simp add: last_place_def)
  have "scaled (m * 2 ^ k) (e - int k) f = scaled m e f" for f
  proof -
    consider "f \<le> e - int k" | "e - int k < f" "f \<le> e" | "e < f" by linarith
    then show ?thesis
    proof cases
      case 1
      then have "nat (e - f) = k + nat (e - int k - f)" by simp
      then show ?thesis using 1 by (simp add: scaled_def power_add)
    next
      case 2
      then have "nat (f - (e - int k)) \<le> k" "k - nat (f - (e - int k)) = nat (e - f)" by auto
      then show ?thesis using 2 by (simp add: scaled_def round_even_exact)
    next
      case 3
      then have "nat (f - (e - int k)) = nat (f - e) + k" by simp
      then show ?thesis using 3 by (simp add: scaled_def round_even_shift)
    qed
  qed
  then show ?thesis using assms by (simp add: encode_def Let_def f)
qed

lemma scaled_same [simp]: "scaled m e e = m"
  by (simp add: scaled_def)

lemma word_parts:
  fixes w :: nat
  assumes "w < 2 ^ (mb + eb + 1)"
  shows "of_bool (odd (w div 2 ^ (mb + eb))) * 2 ^ (mb + eb) + (w div 2 ^ mb mod 2 ^ eb) * 2 ^ mb + w mod 2 ^ mb = w"
proof -
  have "w div 2 ^ (mb + eb) < 2" using assms by (simp add: less_mult_imp_div_less)
  then have "of_bool (odd (w div 2 ^ (mb + eb))) = w div 2 ^ (mb + eb)"
    by (metis One_nat_def even_zero less_2_cases odd_one of_bool_eq(1) of_bool_eq(2))
  moreover have "w div 2 ^ (mb + eb) = w div 2 ^ mb div 2 ^ eb" by (simp add: power_add div_mult2_eq)
  moreover have "a * 2 ^ (mb + eb) + b * 2 ^ mb = (a * 2 ^ eb + b) * 2 ^ mb" for a b :: nat
    by (simp add: algebra_simps power_add)
  ultimately show ?thesis by (simp only: div_mult_mod_eq)
qed

lemma encode_decode:
  assumes "w < 2 ^ (mb + eb + 1)" "decode mb eb w = Fin s m e"
  shows "encode mb eb (Fin s m e) = w"
proof -
  define M E where "M = w mod 2 ^ mb" and "E = w div 2 ^ mb mod 2 ^ eb"
  have w: "of_bool (odd (w div 2 ^ (mb + eb))) * 2 ^ (mb + eb) + E * 2 ^ mb + M = w"
    using word_parts [OF assms(1)] by (simp add: M_def E_def)
  have M: "M < 2 ^ mb" by (simp add: M_def)
  have dec: "decode mb eb w =
      (if E = 2 ^ eb - 1 then (if M = 0 then Inf (odd (w div 2 ^ (mb + eb))) else Nan)
       else if E = 0 then Fin (odd (w div 2 ^ (mb + eb))) M (emin mb eb)
       else Fin (odd (w div 2 ^ (mb + eb))) (M + 2 ^ mb) (int E - 1 + emin mb eb))"
    by (simp add: decode_def Let_def M_def E_def)
  have "E < 2 ^ eb" by (simp add: E_def)
  moreover have ne: "E \<noteq> 2 ^ eb - 1" using assms(2) by (auto simp: dec simp del: One_nat_def split: if_splits)
  ultimately have E: "Suc E \<le> 2 ^ eb - 1" by linarith
  then have "Suc E * 2 ^ mb \<le> (2 ^ eb - 1) * 2 ^ mb" by (rule mult_le_mono1)
  then have cap: "E * 2 ^ mb + M \<le> (2 ^ eb - 1) * 2 ^ mb" using M by simp
  show ?thesis
  proof (cases "E = 0")
    case True
    then have d: "s = odd (w div 2 ^ (mb + eb))" "m = M" "e = emin mb eb"
      using assms(2) ne by (simp_all only: dec) simp_all
    have "last_place mb eb m e = e" using nbits_le [OF M] d by (simp add: last_place_def)
    then show ?thesis using w cap d True by (simp add: encode_def Let_def)
  next
    case False
    then have d: "s = odd (w div 2 ^ (mb + eb))" "m = M + 2 ^ mb" "e = int E - 1 + emin mb eb"
      using assms(2) ne by (simp_all only: dec) simp_all
    have "nbits m = Suc mb" using M d by (intro nbits_eq) auto
    then have "last_place mb eb m e = e" using d False by (simp add: last_place_def)
    moreover have "nat (e - emin mb eb) * 2 ^ mb + m = E * 2 ^ mb + M"
      using d False by (cases E) auto
    ultimately show ?thesis using w cap d by (simp add: encode_def Let_def)
  qed
qed

text \<open>A number that fits into the format is represented exactly.\<close>

lemma decode_encode:
  assumes "0 < m" "nbits m \<le> Suc mb" "emin mb eb \<le> e" "2 \<le> eb"
    and "e + int (nbits m) - int mb - emin mb eb < 2 ^ eb - 1"
  shows "\<exists>k. decode mb eb (encode mb eb (Fin s m e)) = Fin s (m * 2 ^ k) (e - int k) \<and>
    encode mb eb (Fin s m e) < 2 ^ (mb + eb + 1)"
proof -
  define f where "f = last_place mb eb m e"
  define r where "r = m * 2 ^ nat (e - f)"
  have f: "f \<le> e" "emin mb eb \<le> f" "e + int (nbits m) - int mb - 1 \<le> f"
      "f = e + int (nbits m) - int mb - 1 \<or> f = emin mb eb"
    using assms(2,3) by (auto simp: f_def last_place_def max_def)
  have nb: "nbits r = nbits m + nat (e - f)" using nbits_shift [OF assms(1)] by (simp add: r_def)
  have r0: "0 < r" using assms(1) by (simp add: r_def)
  have "nbits r \<le> Suc mb" using nb f(1,3) by linarith
  then have "(2::nat) ^ nbits r \<le> 2 ^ Suc mb" by (rule power_increasing) simp
  then have r: "r < 2 ^ Suc mb" using nbits_bounds [OF r0] by linarith
  define E where "E = nat (f - emin mb eb) + r div 2 ^ mb"
  define M where "M = r mod 2 ^ mb"
  have b: "nat (f - emin mb eb) * 2 ^ mb + r = E * 2 ^ mb + M" and M: "M < 2 ^ mb"
    by (simp_all add: E_def M_def algebra_simps)
  have top: "r div 2 ^ mb \<le> 1" using r by (simp add: less_mult_imp_div_less less_Suc_eq_le [symmetric])
  have big: "f = emin mb eb \<or> r div 2 ^ mb = 1"
  proof (cases "r < 2 ^ mb")
    case True
    then have "nbits r \<le> mb" by (rule nbits_le)
    then show ?thesis using nb f by linarith
  next
    case False
    then have "1 \<le> r div 2 ^ mb" by (simp add: div_greater_zero_iff Suc_le_eq)
    then show ?thesis using top by simp
  qed
  have "(2::int) ^ 2 \<le> 2 ^ eb" using assms(4) by (rule power_increasing) simp
  then have "int E < 2 ^ eb - 1" using f(2,4) assms(5) top by (auto simp: E_def)
  then have "int E < int (2 ^ eb - 1)" by (simp add: of_nat_diff)
  then have E: "E < 2 ^ eb - 1" by (simp only: of_nat_less_iff)
  have "Suc E * 2 ^ mb \<le> (2 ^ eb - 1) * 2 ^ mb" using E by (intro mult_le_mono1) simp
  then have "E * 2 ^ mb + M \<le> (2 ^ eb - 1) * 2 ^ mb" using M by simp
  then have enc: "encode mb eb (Fin s m e) = of_bool s * 2 ^ (mb + eb) + (E * 2 ^ mb + M)"
    using assms(1) f(1) b by (simp add: encode_def Let_def scaled_def flip: f_def r_def)
  have low: "E * 2 ^ mb + M < 2 ^ (mb + eb)"
  proof -
    have "Suc E * 2 ^ mb \<le> 2 ^ eb * 2 ^ mb" using E by (intro mult_le_mono1) simp
    then show ?thesis using M by (simp add: power_add mult.commute)
  qed
  have Elt: "E < 2 ^ eb" using E by linarith
  have sum: "of_bool s * 2 ^ (mb + eb) + (E * 2 ^ mb + M) = (of_bool s * 2 ^ eb + E) * 2 ^ mb + M"
    by (simp add: power_add algebra_simps)
  have parts: "odd ((of_bool s * 2 ^ (mb + eb) + (E * 2 ^ mb + M)) div 2 ^ (mb + eb)) = s"
      "(of_bool s * 2 ^ (mb + eb) + (E * 2 ^ mb + M)) div 2 ^ mb mod 2 ^ eb = E"
      "(of_bool s * 2 ^ (mb + eb) + (E * 2 ^ mb + M)) mod 2 ^ mb = M"
  proof -
    show "odd ((of_bool s * 2 ^ (mb + eb) + (E * 2 ^ mb + M)) div 2 ^ (mb + eb)) = s"
    proof -
      have "odd ((of_bool s * n + x) div n) = s" if "x < n" for n x :: nat
        using that by (cases s) (simp_all add: div_add_self1)
      then show ?thesis using low by blast
    qed
    show "(of_bool s * 2 ^ (mb + eb) + (E * 2 ^ mb + M)) div 2 ^ mb mod 2 ^ eb = E"
      unfolding sum using M Elt by (cases s) simp_all
    show "(of_bool s * 2 ^ (mb + eb) + (E * 2 ^ mb + M)) mod 2 ^ mb = M"
      unfolding sum using M by simp
  qed
  have "decode mb eb (encode mb eb (Fin s m e)) = Fin s r f"
  proof (cases "E = 0")
    case True
    then have "f = emin mb eb" "r = M" using f(2) b by (auto simp: E_def)
    then show ?thesis using True E unfolding enc decode_def Let_def parts by simp
  next
    case False
    then have "r div 2 ^ mb = 1" using big top f(2) by (auto simp: E_def)
    then have "r = M + 2 ^ mb" "f = int E - 1 + emin mb eb"
      using f(2) div_mult_mod_eq [of r "2 ^ mb"] by (simp_all add: E_def M_def)
    then show ?thesis using False E unfolding enc decode_def Let_def parts by simp
  qed
  then have "decode mb eb (encode mb eb (Fin s m e)) = Fin s (m * 2 ^ nat (e - f)) (e - int (nat (e - f)))"
    using f(1) by (simp add: r_def)
  moreover have "encode mb eb (Fin s m e) < 2 ^ (mb + eb + 1)"
    using low unfolding enc by (cases s) simp_all
  ultimately show ?thesis by blast
qed

lemma f32_range: "f32 x = Fin s m e \<Longrightarrow> nbits m \<le> 24 \<and> - 149 \<le> e \<and> e \<le> 104"
proof -
  assume *: "f32 x = Fin s m e"
  have "unat x div 2 ^ 23 mod 2 ^ 8 < 2 ^ 8" by simp
  then have "unat x div 2 ^ 23 mod 2 ^ 8 \<noteq> 2 ^ 8 - 1 \<Longrightarrow> unat x div 2 ^ 23 mod 2 ^ 8 \<le> 254" by simp
  moreover have "unat x mod 2 ^ 23 < 2 ^ 23" by simp
  then have "nbits (unat x mod 2 ^ 23) \<le> 24" "nbits (unat x mod 2 ^ 23 + 2 ^ 23) \<le> 24"
    using nbits_le [of "unat x mod 2 ^ 23" 24] nbits_le [of "unat x mod 2 ^ 23 + 2 ^ 23" 24] by simp_all
  ultimately show ?thesis
    using * by (auto simp: f32_def decode_def Let_def emin_def bias_def split: if_splits)
qed

lemma unat_to_f64: "encode 52 11 x < 2 ^ 64 \<Longrightarrow> unat (to_f64 x) = encode 52 11 x"
  by (simp add: to_f64_def unat_of_nat)

text \<open>A \<open>float\<close> survives the way through a \<open>double\<close>.\<close>

lemma narrow_widen:
  assumes "f32 x \<noteq> Nan"
  shows "narrow (widen x) = x"
proof -
  have same: "to_f32 (f32 x) = x"
  proof (cases "f32 x")
    case (Fin s m e)
    have "unat x < 2 ^ (23 + 8 + 1)" using unsigned_less [of x, where ?'a = nat] by simp
    then have "encode 23 8 (Fin s m e) = unat x" by (rule encode_decode) (use Fin in \<open>simp add: f32_def\<close>)
    then show ?thesis by (simp add: to_f32_def Fin)
  next
    case (Inf s)
    then have M: "unat x mod 2 ^ 23 = 0" and E: "unat x div 2 ^ 23 mod 2 ^ 8 = 2 ^ 8 - 1" and s: "s = odd (unat x div 2 ^ 31)"
      by (auto simp: f32_def decode_def Let_def split: if_splits)
    have "of_bool (odd (unat x div 2 ^ (23 + 8))) * 2 ^ (23 + 8) + (unat x div 2 ^ 23 mod 2 ^ 8) * 2 ^ 23 + unat x mod 2 ^ 23 = unat x"
      using unsigned_less [of x, where ?'a = nat] by (intro word_parts) simp
    then have "encode 23 8 (f32 x) = unat x" unfolding Inf M E by (simp add: encode_def s)
    then show ?thesis by (simp add: to_f32_def)
  qed (use assms in simp)
  show ?thesis
  proof (cases "f32 x")
    case (Fin s m e)
    show ?thesis
    proof (cases "m = 0")
      case True
      then have "f64 (widen x) = Fin s 0 (emin 52 11)"
        by (cases s) (simp_all add: f64_def widen_def Fin unat_to_f64 encode_def decode_def)
      moreover have "encode 23 8 (Fin s 0 (emin 52 11)) = encode 23 8 (f32 x)" using Fin True by (simp add: encode_def)
      ultimately show ?thesis using same by (simp add: narrow_def to_f32_def)
    next
      case False
      note r = f32_range [OF Fin]
      obtain k where k: "decode 52 11 (encode 52 11 (Fin s m e)) = Fin s (m * 2 ^ k) (e - int k)"
          "encode 52 11 (Fin s m e) < 2 ^ 64"
        using decode_encode [of m 52 11 e s] False r by (auto simp: emin_def bias_def)
      then have "f64 (widen x) = Fin s (m * 2 ^ k) (e - int k)"
        by (simp add: f64_def widen_def Fin unat_to_f64)
      then show ?thesis using encode_shift [of m 23 8 s k e] False same by (simp add: narrow_def to_f32_def Fin)
    qed
  next
    case (Inf s)
    then show ?thesis using same by (cases s) (simp_all add: narrow_def widen_def f64_def unat_to_f64 encode_def decode_def)
  qed (use assms in simp)
qed

end
