(* ===== verification/SC_Packets.thy ===== *)
theory SC_Packets
  imports C_Floats
begin

text \<open>
  OSC packets: the writer \<open>scpacket\<close> (\<open>common/scsynthsend.h\<close>) and the reader \<open>sc_msg_iter\<close>
  (\<open>include/plugin\_interface/sc\_msg\_iter.h\<close>). Memory is a list of bytes. The writer counts its
  positions in words of 32 bits, as the pointers of the code do, its tags in bytes; the reader
  counts in bytes from the start of the memory it reads. Names and strings are lists of bytes
  without their terminator. Numbers of type \<open>float\<close> and \<open>double\<close> are the bits of their representation.
\<close>

section \<open>Bytes\<close>

type_synonym byte = "8 word"

definition bytes_of :: "string \<Rightarrow> byte list" where
  "bytes_of s = map of_char s"

text \<open>The bytes of a number that \<open>sc_htonl\<close> has converted, and the number that \<open>sc_ntohl\<close> gives for bytes.\<close>

definition sc_htonl :: "32 word \<Rightarrow> byte list" where
  "sc_htonl w = [ucast (drop_bit 24 w), ucast (drop_bit 16 w), ucast (drop_bit 8 w), ucast w]"

definition sc_ntohl :: "byte list \<Rightarrow> 32 word" where
  "sc_ntohl bs = foldl (\<lambda>w b. push_bit 8 w + ucast b) 0 bs"

section \<open>The writer\<close>

record packet =
  wrpos :: nat
  msgsizepos :: "nat option"
  tagwrpos :: "nat option"
  inbundle :: int
  buf :: "byte list"

text \<open>
  \<open>Overflow\<close> is the exception of the code, with the packet as it is then, \<open>Undefined\<close> an access
  outside of the buffer.
\<close>

datatype pk_err = Overflow packet | Undefined

definition kBufSize :: "packet \<Rightarrow> nat" where
  "kBufSize pk = length (buf pk) div 4"

definition pk_reset :: "packet \<Rightarrow> packet" where
  "pk_reset pk = pk\<lparr>wrpos := 0, inbundle := 0\<rparr>"

text \<open>The constructor; \<open>mem\<close> is what the buffer holds before.\<close>

definition scpacket :: "byte list \<Rightarrow> packet" where
  "scpacket mem = pk_reset \<lparr>wrpos = 0, msgsizepos = None, tagwrpos = None, inbundle = 0, buf = mem\<rparr>"

definition store :: "int \<Rightarrow> byte list \<Rightarrow> packet \<Rightarrow> pk_err + packet" where
  "store p bs pk =
     (if 0 \<le> p \<and> nat p + length bs \<le> length (buf pk)
      then Inr (pk\<lparr>buf := take (nat p) (buf pk) @ bs @ drop (nat p + length bs) (buf pk)\<rparr>)
      else Inl Undefined)"

definition store_word :: "32 word \<Rightarrow> packet \<Rightarrow> pk_err + packet" where
  "store_word w pk = res_bind (store (4 * int (wrpos pk)) (sc_htonl w) pk) (\<lambda>pk. Inr (pk\<lparr>wrpos := wrpos pk + 1\<rparr>))"

definition addi :: "32 word \<Rightarrow> packet \<Rightarrow> pk_err + packet" where
  "addi i pk = (if wrpos pk \<ge> kBufSize pk then Inl (Overflow pk) else store_word i pk)"

definition addii :: "64 word \<Rightarrow> packet \<Rightarrow> pk_err + packet" where
  "addii ii pk = res_bind (addi (ucast (drop_bit 32 ii)) pk) (addi (ucast ii))"

definition addf :: "float32 \<Rightarrow> packet \<Rightarrow> pk_err + packet" where
  "addf f pk = (if wrpos pk \<ge> kBufSize pk then Inl (Overflow pk) else store_word f pk)"

definition addd :: "float64 \<Rightarrow> packet \<Rightarrow> pk_err + packet" where
  "addd f pk =
     (if wrpos pk \<ge> kBufSize pk then Inl (Overflow pk)
      else res_bind (store_word (ucast (drop_bit 32 f)) pk) (store_word (ucast f)))"

text \<open>The last of \<open>n\<close> words is cleared, then \<open>bs\<close> is copied over them.\<close>

definition put_string :: "nat \<Rightarrow> byte list \<Rightarrow> packet \<Rightarrow> pk_err + packet" where
  "put_string n bs pk =
     (if wrpos pk + n > kBufSize pk then Inl (Overflow pk)
      else res_bind (store (4 * (int (wrpos pk + n) - 1)) (replicate 4 0) pk) (\<lambda>q.
           res_bind (store (4 * int (wrpos pk)) bs q) (\<lambda>q.
           Inr (q\<lparr>wrpos := wrpos pk + n\<rparr>))))"

text \<open>\<open>adds\<close> with a length; the string may contain zeros.\<close>

definition adds_len :: "byte list \<Rightarrow> packet \<Rightarrow> pk_err + packet" where
  "adds_len src pk =
     put_string ((length src + 4) div 4) src pk"

definition adds :: "byte list \<Rightarrow> packet \<Rightarrow> pk_err + packet" where
  "adds src = adds_len (takeWhile (\<lambda>b. b \<noteq> 0) src)"

definition adds_slpre :: "byte list \<Rightarrow> packet \<Rightarrow> pk_err + packet" where
  "adds_slpre src pk =
     (let src = takeWhile (\<lambda>b. b \<noteq> 0) src in put_string ((length src + 5) div 4) (bytes_of ''/'' @ src) pk)"

text \<open>The word that is cleared is the last one before the size is counted.\<close>

definition addb :: "byte list \<Rightarrow> packet \<Rightarrow> pk_err + packet" where
  "addb src pk =
     (let len4 = (length src + 3) div 4 in
      if wrpos pk + (len4 + 1) > kBufSize pk then Inl (Overflow pk)
      else res_bind (store (4 * (int (wrpos pk + len4) - 1)) (replicate 4 0) pk) (\<lambda>pk.
           res_bind (store_word (of_nat (length src)) pk) (\<lambda>pk.
           res_bind (store (4 * int (wrpos pk)) src pk) (\<lambda>pk.
           Inr (pk\<lparr>wrpos := wrpos pk + len4\<rparr>)))))"

definition addtag :: "byte \<Rightarrow> packet \<Rightarrow> pk_err + packet" where
  "addtag c pk =
     (case tagwrpos pk of None \<Rightarrow> Inl Undefined
      | Some t \<Rightarrow> res_bind (store (int t) [c] pk) (\<lambda>pk. Inr (pk\<lparr>tagwrpos := Some (t + 1)\<rparr>)))"

definition pk_skip :: "nat \<Rightarrow> packet \<Rightarrow> pk_err + packet" where
  "pk_skip n pk = (if wrpos pk + n > kBufSize pk then Inl (Overflow pk) else Inr (pk\<lparr>wrpos := wrpos pk + n\<rparr>))"

definition maketags :: "nat \<Rightarrow> packet \<Rightarrow> pk_err + packet" where
  "maketags n pk =
     res_bind (pk_skip ((n + 4) div 4) (pk\<lparr>tagwrpos := Some (4 * wrpos pk)\<rparr>)) (\<lambda>pk.
     store (4 * (int (wrpos pk) - 1)) (replicate 4 0) pk)"

definition psize :: "packet \<Rightarrow> nat" where
  "psize pk = 4 * wrpos pk"

definition pdata :: "packet \<Rightarrow> byte list" where
  "pdata pk = take (psize pk) (buf pk)"

definition OpenBundle :: "64 word \<Rightarrow> packet \<Rightarrow> pk_err + packet" where
  "OpenBundle time pk =
     res_bind (adds (bytes_of ''#bundle'') (pk\<lparr>inbundle := inbundle pk + 1\<rparr>)) (addii time)"

definition CloseBundle :: "packet \<Rightarrow> packet" where
  "CloseBundle pk = (if inbundle pk \<noteq> 0 then pk\<lparr>inbundle := inbundle pk - 1\<rparr> else pk)"

definition BeginMsg :: "packet \<Rightarrow> pk_err + packet" where
  "BeginMsg pk = (if inbundle pk \<noteq> 0 then addi 0 (pk\<lparr>msgsizepos := Some (wrpos pk)\<rparr>) else Inr pk)"

definition EndMsg :: "packet \<Rightarrow> pk_err + packet" where
  "EndMsg pk =
     (if inbundle pk \<noteq> 0
      then (case msgsizepos pk of None \<Rightarrow> Inl Undefined
            | Some m \<Rightarrow> store (4 * int m) (sc_htonl (of_int ((int (wrpos pk) - int m - 1) * 4))) pk)
      else Inr pk)"

section \<open>The reader\<close>

text \<open>Reading outside of the memory is \<open>None\<close>; positions are relative to its start.\<close>

definition read_byte :: "byte list \<Rightarrow> int \<Rightarrow> byte option" where
  "read_byte m p = (if 0 \<le> p then arr_get m (nat p) else None)"

definition read_bytes :: "byte list \<Rightarrow> int \<Rightarrow> nat \<Rightarrow> byte list option" where
  "read_bytes m p n = (if 0 \<le> p \<and> nat p + n \<le> length m then Some (take n (drop (nat p) m)) else None)"

function OSCstrskip :: "byte list \<Rightarrow> int \<Rightarrow> int option" where
  "OSCstrskip m p =
     (if 0 \<le> p + 3 \<and> p + 3 < int (length m)
      then (if m ! nat (p + 3) = 0 then Some (p + 4) else OSCstrskip m (p + 4))
      else None)"
  by pat_completeness auto
termination by (relation "measure (\<lambda>(m, p). nat (int (length m) - p))") auto

declare OSCstrskip.simps [simp del]

definition OSCstrlen :: "byte list \<Rightarrow> int \<Rightarrow> int option" where
  "OSCstrlen m p = map_option (\<lambda>q. q - p) (OSCstrskip m p)"

definition OSCint :: "byte list \<Rightarrow> int \<Rightarrow> 32 word option" where
  "OSCint m p = map_option sc_ntohl (read_bytes m p 4)"

definition OSCfloat :: "byte list \<Rightarrow> int \<Rightarrow> float32 option" where
  "OSCfloat m p = map_option sc_ntohl (read_bytes m p 4)"

definition OSCtime :: "byte list \<Rightarrow> int \<Rightarrow> 64 word option" where
  "OSCtime m p = do {
     hi \<leftarrow> OSCint m p;
     lo \<leftarrow> OSCint m (p + 4);
     Some (push_bit 32 (ucast hi) + ucast lo) }"

definition OSCdouble :: "byte list \<Rightarrow> int \<Rightarrow> float64 option" where
  "OSCdouble m p = do {
     hi \<leftarrow> OSCint m p;
     lo \<leftarrow> OSCint m (p + 4);
     Some (push_bit 32 (ucast hi) + ucast lo) }"

record msg_iter =
  mem :: "byte list"
  rdpos :: int
  endpos :: int
  tags :: "int option"
  count :: int

definition msg_init :: "byte list \<Rightarrow> int \<Rightarrow> int \<Rightarrow> msg_iter option" where
  "msg_init m inSize inData = do {
     c \<leftarrow> read_byte m inData;
     if c = of_char (CHR '','') then do {
       p \<leftarrow> OSCstrskip m inData;
       Some \<lparr>mem = m, rdpos = p, endpos = inData + inSize, tags = Some (inData + 1), count = 0\<rparr> }
     else Some \<lparr>mem = m, rdpos = inData, endpos = inData + inSize, tags = None, count = 0\<rparr> }"

text \<open>The difference of the pointers as a \<open>size_t\<close>.\<close>

definition remain :: "msg_iter \<Rightarrow> nat" where
  "remain it = nat ((endpos it - rdpos it) mod 2 ^ 64)"

definition nextTag :: "byte \<Rightarrow> msg_iter \<Rightarrow> byte option" where
  "nextTag d it = (case tags it of None \<Rightarrow> Some d | Some t \<Rightarrow> read_byte (mem it) (t + count it))"

definition advance :: "int \<Rightarrow> msg_iter \<Rightarrow> msg_iter" where
  "advance n it = it\<lparr>rdpos := rdpos it + n\<rparr>"

definition counted :: "msg_iter \<Rightarrow> msg_iter" where
  "counted it = it\<lparr>count := count it + 1\<rparr>"

definition skip_string :: "msg_iter \<Rightarrow> msg_iter option" where
  "skip_string it = do { p \<leftarrow> OSCstrskip (mem it) (rdpos it); Some (it\<lparr>rdpos := p\<rparr>) }"

definition blob_words4 :: "64 word \<Rightarrow> 64 word" where
  "blob_words4 len = and (len + 3) (- 4)"

definition skipb :: "msg_iter \<Rightarrow> msg_iter option" where
  "skipb it = do {
     t \<leftarrow> tags it;
     c \<leftarrow> read_byte (mem it) (t + count it);
     (len, it) \<leftarrow>
       (if c = of_char (CHR ''b'') then do { i \<leftarrow> OSCint (mem it) (rdpos it); Some (scast i, advance 4 it) }
        else Some (if c = of_char (CHR ''m'') then 4 else 0, it));
     Some (counted (advance (sint (blob_words4 len)) it)) }"

definition gett :: "64 word \<Rightarrow> msg_iter \<Rightarrow> (64 word \<times> msg_iter) option" where
  "gett d it =
     (if remain it = 0 then Some (d, it)
      else do {
        c \<leftarrow> nextTag (of_char (CHR ''t'')) it;
        (v, it) \<leftarrow>
          (if c = of_char (CHR ''t'') then do { v \<leftarrow> OSCtime (mem it) (rdpos it); Some (v, advance 8 it) }
           else Some (d, it));
        Some (v, counted it) })"

text \<open>A \<open>float\<close> whose integer part does not fit into an \<open>int32\<close> has no conversion.\<close>

definition geti :: "32 word \<Rightarrow> msg_iter \<Rightarrow> (32 word \<times> msg_iter) option" where
  "geti d it =
     (if remain it = 0 then Some (d, it)
      else do {
        c \<leftarrow> nextTag (of_char (CHR ''i'')) it;
        (v, it) \<leftarrow>
          (if c = of_char (CHR ''i'') then do { v \<leftarrow> OSCint (mem it) (rdpos it); Some (v, advance 4 it) }
           else if c = of_char (CHR ''f'') then do {
             f \<leftarrow> OSCfloat (mem it) (rdpos it);
             v \<leftarrow> fl_to_int 32 (f32 f);
             Some (of_int v, advance 4 it) }
           else if c = of_char (CHR ''s'') then do { it \<leftarrow> skip_string it; Some (d, it) }
           else if c = of_char (CHR ''b'') then do { it \<leftarrow> skipb it; Some (d, it) }
           else Some (d, it));
        Some (v, counted it) })"

definition getf :: "float32 \<Rightarrow> msg_iter \<Rightarrow> (float32 \<times> msg_iter) option" where
  "getf d it =
     (if remain it = 0 then Some (d, it)
      else do {
        c \<leftarrow> nextTag (of_char (CHR ''f'')) it;
        (v, it) \<leftarrow>
          (if c = of_char (CHR ''f'') then do { v \<leftarrow> OSCfloat (mem it) (rdpos it); Some (v, advance 4 it) }
           else if c = of_char (CHR ''d'') then do { v \<leftarrow> OSCdouble (mem it) (rdpos it); Some (narrow v, advance 8 it) }
           else if c = of_char (CHR ''i'') then do {
             v \<leftarrow> OSCint (mem it) (rdpos it);
             Some (to_f32 (fl_of_int (sint v)), advance 4 it) }
           else if c = of_char (CHR ''s'') then do { it \<leftarrow> skip_string it; Some (d, it) }
           else if c = of_char (CHR ''b'') then do { it \<leftarrow> skipb it; Some (d, it) }
           else Some (d, it));
        Some (v, counted it) })"

definition getd :: "float64 \<Rightarrow> msg_iter \<Rightarrow> (float64 \<times> msg_iter) option" where
  "getd d it =
     (if remain it = 0 then Some (d, it)
      else do {
        c \<leftarrow> nextTag (of_char (CHR ''d'')) it;
        (v, it) \<leftarrow>
          (if c = of_char (CHR ''f'') then do { v \<leftarrow> OSCfloat (mem it) (rdpos it); Some (widen v, advance 4 it) }
           else if c = of_char (CHR ''d'') then do { v \<leftarrow> OSCdouble (mem it) (rdpos it); Some (v, advance 8 it) }
           else if c = of_char (CHR ''i'') then do {
             v \<leftarrow> OSCint (mem it) (rdpos it);
             Some (to_f64 (fl_of_int (sint v)), advance 4 it) }
           else if c = of_char (CHR ''s'') then do { it \<leftarrow> skip_string it; Some (d, it) }
           else if c = of_char (CHR ''b'') then do { it \<leftarrow> skipb it; Some (d, it) }
           else Some (d, it));
        Some (v, counted it) })"

text \<open>The value is a pointer; with nothing left it is null, whatever the default is.\<close>

definition gets :: "int option \<Rightarrow> msg_iter \<Rightarrow> (int option \<times> msg_iter) option" where
  "gets d it =
     (if remain it = 0 then Some (None, it)
      else do {
        c \<leftarrow> nextTag (of_char (CHR ''s'')) it;
        (v, it) \<leftarrow>
          (if c = of_char (CHR ''s'') then do { q \<leftarrow> skip_string it; Some (Some (rdpos it), q) }
           else Some (d, it));
        Some (v, counted it) })"

definition getbsize :: "msg_iter \<Rightarrow> 64 word option" where
  "getbsize it =
     (if remain it = 0 then Some 0
      else case tags it of
        None \<Rightarrow> Some 0
      | Some t \<Rightarrow> do {
          c \<leftarrow> read_byte (mem it) (t + count it);
          if c = of_char (CHR ''b'') then map_option scast (OSCint (mem it) (rdpos it))
          else Some (if c = of_char (CHR ''m'') then 4 else 0) })"

text \<open>The first result is what is copied to an array of the size, if it is.\<close>

definition getb :: "64 word \<Rightarrow> msg_iter \<Rightarrow> (byte list option \<times> msg_iter) option" where
  "getb arraySize it = do {
     t \<leftarrow> tags it;
     c \<leftarrow> read_byte (mem it) (t + count it);
     (len, q) \<leftarrow>
       (if c = of_char (CHR ''b'') then do { i \<leftarrow> OSCint (mem it) (rdpos it); Some (scast i, advance 4 it) }
        else Some (if c = of_char (CHR ''m'') then 4 else 0, it));
     if arraySize < len then Some (None, it)
     else do {
       bs \<leftarrow> read_bytes (mem q) (rdpos q) (unat arraySize);
       Some (Some bs, counted (advance (sint (blob_words4 len)) q)) } }"

text \<open>The C string at a position.\<close>

definition cstring :: "byte list \<Rightarrow> int \<Rightarrow> byte list option" where
  "cstring m p =
     (if 0 \<le> p \<and> 0 \<in> set (drop (nat p) m) then Some (takeWhile (\<lambda>b. b \<noteq> 0) (drop (nat p) m)) else None)"

section \<open>Lemmas: the writer\<close>

text \<open>Writing the bytes \<open>bs\<close>, a multiple of a word, at the position of the packet.\<close>

definition emit :: "byte list \<Rightarrow> packet \<Rightarrow> packet" where
  "emit bs pk = pk\<lparr>wrpos := wrpos pk + length bs div 4,
     buf := take (4 * wrpos pk) (buf pk) @ bs @ drop (4 * wrpos pk + length bs) (buf pk)\<rparr>"

text \<open>There is room for \<open>n\<close> more words.\<close>

definition room :: "packet \<Rightarrow> nat \<Rightarrow> bool" where
  "room pk n \<longleftrightarrow> 4 dvd length (buf pk) \<and> 4 * (wrpos pk + n) \<le> length (buf pk)"

lemma room_words: "room pk n \<Longrightarrow> wrpos pk + n \<le> kBufSize pk"
  by (auto simp: room_def kBufSize_def)

lemma room_mono: "room pk n \<Longrightarrow> m \<le> n \<Longrightarrow> room pk m"
  by (auto simp: room_def)

lemma length_htonl [simp]: "length (sc_htonl w) = 4"
  by (simp add: sc_htonl_def)

lemma emit_simps [simp]:
  "wrpos (emit bs pk) = wrpos pk + length bs div 4" "msgsizepos (emit bs pk) = msgsizepos pk"
  "tagwrpos (emit bs pk) = tagwrpos pk" "inbundle (emit bs pk) = inbundle pk"
  by (simp_all add: emit_def)

lemma length_emit: "room pk (length bs div 4) \<Longrightarrow> 4 dvd length bs \<Longrightarrow> length (buf (emit bs pk)) = length (buf pk)"
  by (auto simp: emit_def room_def)

lemma room_emit: "room pk n \<Longrightarrow> 4 dvd length bs \<Longrightarrow> length bs div 4 + m \<le> n \<Longrightarrow> room (emit bs pk) m"
  using length_emit [of pk bs] room_mono [of pk n "length bs div 4"]
  by (auto simp: room_def)

lemma pdata_emit: "room pk (length bs div 4) \<Longrightarrow> 4 dvd length bs \<Longrightarrow> pdata (emit bs pk) = pdata pk @ bs"
  by (auto simp: pdata_def psize_def emit_def room_def)

lemma emit_emit:
  assumes "room pk (length as div 4)" "4 dvd length as"
  shows "emit bs (emit as pk) = emit (as @ bs) pk"
proof -
  have "length as div 4 * 4 = length as" using assms(2) by simp
  then have "4 * (wrpos pk + length as div 4) = 4 * wrpos pk + length as" by simp
  moreover have "(length as + length bs) div 4 = length as div 4 + length bs div 4" using assms(2) by auto
  ultimately show ?thesis using assms(1) by (simp add: emit_def room_def ac_simps)
qed

lemma store_ok: "p + length bs \<le> length (buf pk) \<Longrightarrow>
    store (int p) bs pk = Inr (pk\<lparr>buf := take p (buf pk) @ bs @ drop (p + length bs) (buf pk)\<rparr>)"
  by (simp add: store_def)

lemma store_word_ok: "room pk 1 \<Longrightarrow> store_word w pk = Inr (emit (sc_htonl w) pk)"
  using store_ok [of "4 * wrpos pk" "sc_htonl w" pk] by (simp add: store_word_def room_def emit_def)

lemma addi_ok: "room pk 1 \<Longrightarrow> addi i pk = Inr (emit (sc_htonl i) pk)"
  using room_words [of pk 1] by (simp add: addi_def store_word_ok)

lemma addf_ok: "room pk 1 \<Longrightarrow> addf f pk = Inr (emit (sc_htonl f) pk)"
  using room_words [of pk 1] by (simp add: addf_def store_word_ok)

definition htonll :: "64 word \<Rightarrow> byte list" where
  "htonll w = sc_htonl (ucast (drop_bit 32 w)) @ sc_htonl (ucast w)"

lemma length_htonll [simp]: "length (htonll w) = 8"
  by (simp add: htonll_def)

lemma addii_ok: "room pk 2 \<Longrightarrow> addii i pk = Inr (emit (htonll i) pk)"
  using room_mono [of pk 2 1] room_emit [of pk 2 "sc_htonl w" 1 for w]
  by (simp add: addii_def addi_ok emit_emit htonll_def)

lemma addd_ok: "room pk 2 \<Longrightarrow> addd f pk = Inr (emit (htonll f) pk)"
  using room_mono [of pk 2 1] room_emit [of pk 2 "sc_htonl w" 1 for w] room_words [of pk 2]
  by (simp add: addd_def store_word_ok emit_emit htonll_def)

text \<open>A string with its terminator, filled up to a multiple of a word.\<close>

definition osc_pad :: "byte list \<Rightarrow> byte list" where
  "osc_pad s = s @ replicate (4 - length s mod 4) 0"

lemma length_pad: "length (osc_pad s) = 4 * ((length s + 4) div 4)"
proof -
  have "n + (4 - n mod 4) = 4 * ((n + 4) div 4)" for n :: nat by presburger
  then show ?thesis by (simp add: osc_pad_def)
qed

lemma length_pad_words: "length (osc_pad s) div 4 = (length s + 4) div 4" "4 dvd length (osc_pad s)"
  by (simp_all add: length_pad)

lemma put_string_ok:
  assumes "room pk ((length s + 4) div 4)"
  shows "put_string ((length s + 4) div 4) s pk = Inr (emit (osc_pad s) pk)"
proof -
  define p q where "p = 4 * wrpos pk" and "q = length (osc_pad s) - 4"
  have q: "length (osc_pad s) = q + 4" using length_pad [of s] by (simp add: q_def)
  have s: "q \<le> length s" "length s \<le> q + 4" "osc_pad s = s @ replicate (q + 4 - length s) 0"
    using q length_pad [of s] by (auto simp: osc_pad_def)
  have b: "p + (q + 4) \<le> length (buf pk)" using assms q by (simp add: room_def p_def length_pad)
  have "4 * (int (wrpos pk + (length s + 4) div 4) - 1) = int (p + q)"
    using q by (simp add: p_def length_pad)
  then have 1: "store (4 * (int (wrpos pk + (length s + 4) div 4) - 1)) (replicate 4 0) pk
      = Inr (pk\<lparr>buf := take (p + q) (buf pk) @ replicate 4 0 @ drop (p + (q + 4)) (buf pk)\<rparr>)"
    using store_ok [of "p + q" "replicate 4 0" pk] b by (simp add: add.assoc)
  define pk1 where "pk1 = pk\<lparr>buf := take (p + q) (buf pk) @ replicate 4 0 @ drop (p + (q + 4)) (buf pk)\<rparr>"
  have "length (buf pk1) = length (buf pk)" using b by (simp add: pk1_def)
  moreover have "drop (p + length s) (buf pk1) = replicate (q + 4 - length s) 0 @ drop (p + (q + 4)) (buf pk)"
    "take p (buf pk1) = take p (buf pk)"
    using s b by (simp_all add: pk1_def min_absorb2)
  ultimately have 2: "store (int p) s pk1 = Inr (pk1\<lparr>buf := take p (buf pk) @ osc_pad s @ drop (p + (q + 4)) (buf pk)\<rparr>)"
    using s b by (simp add: store_ok)
  show ?thesis
    using room_words [OF assms] 1 [folded pk1_def] 2 q length_pad_words(1) [of s]
    by (simp add: put_string_def emit_def p_def) (simp add: pk1_def p_def)
qed

lemma adds_len_ok: "room pk ((length s + 4) div 4) \<Longrightarrow> adds_len s pk = Inr (emit (osc_pad s) pk)"
  by (simp add: adds_len_def put_string_ok)

lemma takeWhile_nonzero: "0 \<notin> set s \<Longrightarrow> takeWhile (\<lambda>b. b \<noteq> 0) s = s"
  by (metis (mono_tags, lifting) takeWhile_eq_all_conv)

lemma adds_ok: "room pk ((length s + 4) div 4) \<Longrightarrow> 0 \<notin> set s \<Longrightarrow> adds s pk = Inr (emit (osc_pad s) pk)"
  by (simp add: adds_def takeWhile_nonzero adds_len_ok)

lemma length_slash [simp]: "length (bytes_of s) = length s"
  by (simp add: bytes_of_def)

lemma adds_slpre_ok:
  "room pk ((length s + 5) div 4) \<Longrightarrow> 0 \<notin> set s \<Longrightarrow> adds_slpre s pk = Inr (emit (osc_pad (bytes_of ''/'' @ s)) pk)"
  using put_string_ok [of pk "bytes_of ''/'' @ s"] by (simp add: adds_slpre_def takeWhile_nonzero add.commute)

lemma update_inside:
  assumes "p \<le> q" "q + length z \<le> p + n" "p + n \<le> length b"
  shows "take p (take q b @ z @ drop (q + length z) b) = take p b"
    "drop (p + n) (take q b @ z @ drop (q + length z) b) = drop (p + n) b"
    "length (take q b @ z @ drop (q + length z) b) = length b"
  using assms by (simp_all add: min_absorb2)

text \<open>
  A blob is its size and its bytes. The bytes that fill up the last word are not written: they are
  what the buffer held before.
\<close>

definition blob_junk :: "nat \<Rightarrow> packet \<Rightarrow> byte list" where
  "blob_junk n pk = take (4 * ((n + 3) div 4) - n) (drop (4 * wrpos pk + 4 + n) (buf pk))"

definition osc_blob :: "byte list \<Rightarrow> byte list \<Rightarrow> byte list" where
  "osc_blob bs junk = sc_htonl (of_nat (length bs)) @ bs @ junk"

lemma blob_words: "4 * ((n + 3) div 4) < n + 4" "n \<le> 4 * ((n + 3) div 4)" for n :: nat
  by presburger+

lemma length_blob:
  assumes "room pk ((length bs + 3) div 4 + 1)"
  shows "length (osc_blob bs (blob_junk (length bs) pk)) = 4 * ((length bs + 3) div 4 + 1)"
proof -
  define k where "k = 4 * ((length bs + 3) div 4)"
  have "length bs \<le> k" "4 * wrpos pk + k + 4 \<le> length (buf pk)"
    using assms blob_words [of "length bs"] by (simp_all add: room_def k_def)
  then show ?thesis by (simp add: osc_blob_def blob_junk_def flip: k_def)
qed

lemma addb_ok:
  assumes "bs \<noteq> []" "room pk ((length bs + 3) div 4 + 1)"
  shows "addb bs pk = Inr (emit (osc_blob bs (blob_junk (length bs) pk)) pk)"
proof -
  define p n q where "p = 4 * wrpos pk" and "n = length bs" and "q = 4 * ((length bs + 3) div 4 - 1)"
  have words: "0 < (length bs + 3) div 4" using assms(1) by (cases bs) auto
  then have q: "4 * ((length bs + 3) div 4) = q + 4" by (simp add: q_def)
  have b: "p + (q + 8) \<le> length (buf pk)" using assms(2) q by (simp add: room_def p_def)
  have le: "q < n" "n \<le> q + 4" using blob_words [of "length bs"] q by (auto simp: n_def)
  define pk1 where "pk1 = pk\<lparr>buf := take (p + q) (buf pk) @ replicate 4 0 @ drop (p + q + 4) (buf pk)\<rparr>"
  have "4 * (int (wrpos pk + (length bs + 3) div 4) - 1) = int (p + q)" using q by (simp add: p_def)
  then have 1: "store (4 * (int (wrpos pk + (length bs + 3) div 4) - 1)) (replicate 4 0) pk = Inr pk1"
    using store_ok [of "p + q" "replicate 4 0" pk] b by (simp add: pk1_def)
  have len1: "length (buf pk1) = length (buf pk)" using b by (simp add: pk1_def)
  have w1: "wrpos pk1 = wrpos pk" by (simp add: pk1_def)
  define pk2 where "pk2 = emit (sc_htonl (of_nat n)) pk1"
  have "room pk1 1" using assms(2) len1 w1 by (auto simp: room_def)
  then have 2: "store_word (of_nat (length bs)) pk1 = Inr pk2" by (simp add: store_word_ok pk2_def n_def)
  have len2: "length (buf pk2) = length (buf pk)"
    using length_emit [of pk1 "sc_htonl (of_nat n)"] \<open>room pk1 1\<close> len1 by (simp add: pk2_def)
  have 3: "store (4 * int (wrpos pk2)) bs pk2
      = Inr (pk2\<lparr>buf := take (p + 4) (buf pk2) @ bs @ drop (p + 4 + n) (buf pk2)\<rparr>)"
    using store_ok [of "p + 4" bs pk2] b le len2 w1 by (simp add: pk2_def p_def n_def add.commute)
  have cover: "take p (buf pk1) = take p (buf pk)" "drop (p + 4 + n) (buf pk1) = drop (p + 4 + n) (buf pk)"
    using update_inside [of p "p + q" "replicate 4 0" "4 + n" "buf pk"] b le by (simp_all add: pk1_def ac_simps)
  have "take (p + 4) (buf pk2) = take p (buf pk) @ sc_htonl (of_nat n)"
    using w1 len1 b cover(1) by (simp add: pk2_def emit_def p_def)
  moreover have "drop (p + 4 + n) (buf pk2) = drop (p + 4 + n) (buf pk)"
    using w1 len1 b cover(2) le by (simp add: pk2_def emit_def p_def ac_simps)
  moreover have "drop (p + 4 + n) (buf pk) = blob_junk n pk @ drop (p + (q + 8)) (buf pk)"
  proof -
    have "q + 4 - n + (p + 4 + n) = p + (q + 8)" using le by simp
    then have "drop (p + 4 + n) (buf pk) = take (q + 4 - n) (drop (p + 4 + n) (buf pk)) @ drop (p + (q + 8)) (buf pk)"
      by (metis append_take_drop_id drop_drop)
    then show ?thesis unfolding blob_junk_def using q by (simp add: n_def p_def)
  qed
  ultimately have 4: "store (4 * int (wrpos pk2)) bs pk2
      = Inr (pk2\<lparr>buf := take p (buf pk) @ sc_htonl (of_nat n) @ bs @ blob_junk n pk @ drop (p + (q + 8)) (buf pk)\<rparr>)"
    using 3 by simp
  have "wrpos pk2 = wrpos pk + 1" using w1 by (simp add: pk2_def)
  then have "addb bs pk = Inr (pk\<lparr>wrpos := wrpos pk + 1 + (length bs + 3) div 4,
      buf := take p (buf pk) @ sc_htonl (of_nat n) @ bs @ blob_junk n pk @ drop (p + (q + 8)) (buf pk)\<rparr>)"
    unfolding addb_def Let_def 1 res_bind_simps 2 4 using room_words [OF assms(2)]
    by (simp add: pk2_def pk1_def emit_def)
  moreover have "length (osc_blob bs (blob_junk n pk)) = q + 8" "(q + 8) div 4 = 1 + (length bs + 3) div 4"
    using length_blob [OF assms(2)] q by (simp_all add: n_def)
  ultimately show ?thesis by (simp add: emit_def p_def n_def) (simp add: osc_blob_def)
qed

text \<open>An empty blob clears the word in front of it.\<close>

lemma addb_empty:
  assumes "room pk 1"
  shows "addb [] pk =
    (if wrpos pk = 0 then Inl Undefined
     else Inr (emit (sc_htonl 0) (pk\<lparr>buf := take (4 * (wrpos pk - 1)) (buf pk) @ replicate 4 0 @ drop (4 * wrpos pk) (buf pk)\<rparr>)))"
proof (cases "wrpos pk")
  case 0
  then show ?thesis using room_words [OF assms] by (simp add: addb_def store_def)
next
  case (Suc w)
  define pk1 where "pk1 = pk\<lparr>buf := take (4 * w) (buf pk) @ replicate 4 0 @ drop (4 * wrpos pk) (buf pk)\<rparr>"
  have "4 * (int (wrpos pk) - 1) = int (4 * w)" using Suc by simp
  then have "store (4 * (int (wrpos pk) - 1)) (replicate 4 0) pk = Inr pk1"
    using store_ok [of "4 * w" "replicate 4 0" pk] assms Suc by (simp add: pk1_def room_def add.commute)
  moreover have len: "length (buf pk1) = length (buf pk)" "wrpos pk1 = Suc w"
    using assms Suc by (simp_all add: pk1_def room_def)
  then have room1: "room pk1 1" using assms Suc by (simp add: room_def)
  moreover have "store (4 * int (wrpos (emit (sc_htonl 0) pk1))) [] (emit (sc_htonl 0) pk1) = Inr (emit (sc_htonl 0) pk1)"
    using length_emit [of pk1 "sc_htonl 0"] room1 len by (auto simp: store_def room_def nat_le_iff)
  ultimately show ?thesis
    using room_words [OF assms] Suc by (simp add: addb_def store_word_ok) (simp add: pk1_def)
qed

text \<open>
  A packet whose tags are being written: in front of the tags are the bytes \<open>A\<close>, \<open>ts\<close> are the tags so
  far in an area that was reserved for them, behind it is the data \<open>B\<close>.
\<close>

definition tagging :: "packet \<Rightarrow> byte list \<Rightarrow> byte list \<Rightarrow> byte list \<Rightarrow> byte list \<Rightarrow> bool" where
  "tagging pk A ts area B \<longleftrightarrow> room pk 0 \<and> pdata pk = A @ ts @ drop (length ts) area @ B \<and>
     tagwrpos pk = Some (length A + length ts) \<and> length ts \<le> length area"

definition place_kept :: "packet \<Rightarrow> packet \<Rightarrow> bool" where
  "place_kept pk' pk \<longleftrightarrow> wrpos pk' = wrpos pk \<and> msgsizepos pk' = msgsizepos pk \<and> inbundle pk' = inbundle pk \<and>
     length (buf pk') = length (buf pk)"

lemma place_kept_room: "place_kept pk' pk \<Longrightarrow> room pk' n = room pk n"
  by (simp add: place_kept_def room_def)

lemma length_pdata: "room pk 0 \<Longrightarrow> length (pdata pk) = 4 * wrpos pk"
  by (simp add: pdata_def psize_def room_def)

lemma pdata_update: "i < 4 * wrpos pk \<Longrightarrow> pdata (pk\<lparr>buf := (buf pk)[i := c]\<rparr>) = (pdata pk)[i := c]"
  by (simp add: pdata_def psize_def take_update_swap)

lemma addtag_ok:
  assumes "tagging pk A ts area B" "length ts < length area"
  shows "\<exists>pk'. addtag c pk = Inr pk' \<and> tagging pk' A (ts @ [c]) area B \<and> place_kept pk' pk"
proof -
  have r: "room pk 0" and d: "pdata pk = A @ ts @ drop (length ts) area @ B" and t: "tagwrpos pk = Some (length A + length ts)"
    using assms(1) by (auto simp: tagging_def)
  let ?t = "length A + length ts"
  have lt: "?t < 4 * wrpos pk" using length_pdata [OF r] assms(2) by (simp add: d)
  then have lb: "?t < length (buf pk)" using r by (simp add: room_def)
  have "addtag c pk = Inr (pk\<lparr>buf := (buf pk)[?t := c], tagwrpos := Some (?t + 1)\<rparr>)"
    using store_ok [of ?t "[c]" pk] lb by (simp add: addtag_def t upd_conv_take_nth_drop)
  moreover have "pdata (pk\<lparr>buf := (buf pk)[?t := c], tagwrpos := Some (?t + 1)\<rparr>) = pdata (pk\<lparr>buf := (buf pk)[?t := c]\<rparr>)"
    by (simp add: pdata_def psize_def)
  then have "pdata (pk\<lparr>buf := (buf pk)[?t := c], tagwrpos := Some (?t + 1)\<rparr>) = A @ (ts @ [c]) @ drop (length (ts @ [c])) area @ B"
    using pdata_update [OF lt] assms(2) Cons_nth_drop_Suc [OF assms(2), symmetric]
    by (simp add: d list_update_append)
  ultimately show ?thesis using r assms(2) by (simp add: tagging_def place_kept_def room_def)
qed

lemma tagging_emit:
  assumes "tagging pk A ts area B" "room pk (length bs div 4)" "4 dvd length bs"
  shows "tagging (emit bs pk) A ts area (B @ bs)"
  using assms pdata_emit [OF assms(2,3)] room_emit [OF assms(2,3), of 0]
  by (simp add: tagging_def)

lemma take_overwrite:
  "p + length bs \<le> m \<Longrightarrow> m \<le> length b \<Longrightarrow>
    take m (take p b @ bs @ drop (p + length bs) b) = take p (take m b) @ bs @ drop (p + length bs) (take m b)"
  by (simp add: drop_take min_absorb1 min_absorb2)

lemma store_pdata:
  assumes "p + length bs \<le> 4 * wrpos pk" "room pk 0"
  shows "\<exists>pk'. store (int p) bs pk = Inr pk' \<and> place_kept pk' pk \<and> tagwrpos pk' = tagwrpos pk \<and>
    pdata pk' = take p (pdata pk) @ bs @ drop (p + length bs) (pdata pk)"
proof -
  have le: "4 * wrpos pk \<le> length (buf pk)" using assms by (simp add: room_def)
  let ?pk' = "pk\<lparr>buf := take p (buf pk) @ bs @ drop (p + length bs) (buf pk)\<rparr>"
  have "store (int p) bs pk = Inr ?pk'" using assms(1) le by (simp add: store_ok)
  moreover have "pdata ?pk' = take p (pdata pk) @ bs @ drop (p + length bs) (pdata pk)"
    using take_overwrite [OF assms(1) le] by (simp add: pdata_def psize_def)
  moreover have "place_kept ?pk' pk" using assms(1) le by (simp add: place_kept_def)
  ultimately show ?thesis by auto
qed

lemma maketags_ok:
  assumes "room pk ((n + 4) div 4)"
  shows "\<exists>pk' area. maketags n pk = Inr pk' \<and> tagging pk' (pdata pk) [] area [] \<and>
    length area = 4 * ((n + 4) div 4) \<and> drop (4 * (n div 4)) area = replicate 4 0 \<and>
    wrpos pk' = wrpos pk + (n + 4) div 4 \<and> msgsizepos pk' = msgsizepos pk \<and> inbundle pk' = inbundle pk \<and>
    length (buf pk') = length (buf pk)"
proof -
  define w where "w = n div 4"
  have w: "(n + 4) div 4 = w + 1" by (simp add: w_def)
  define pk1 where "pk1 = pk\<lparr>tagwrpos := Some (4 * wrpos pk), wrpos := wrpos pk + (w + 1)\<rparr>"
  have 1: "pk_skip ((n + 4) div 4) (pk\<lparr>tagwrpos := Some (4 * wrpos pk)\<rparr>) = Inr pk1"
    using room_words [OF assms] by (simp add: pk_skip_def kBufSize_def pk1_def w)
  have r1: "room pk1 0" and l1: "4 * wrpos pk + 4 * w + 4 \<le> 4 * wrpos pk1"
    using assms by (simp_all add: room_def pk1_def w)
  have p1: "pdata pk1 = pdata pk @ take (4 * w + 4) (drop (4 * wrpos pk) (buf pk))"
    by (simp add: pdata_def psize_def pk1_def take_add [symmetric] ac_simps)
  have lp: "length (pdata pk) = 4 * wrpos pk" using assms by (intro length_pdata) (simp add: room_def)
  obtain pk' where 2: "store (int (4 * wrpos pk + 4 * w)) (replicate 4 0) pk1 = Inr pk'" "place_kept pk' pk1"
      "tagwrpos pk' = tagwrpos pk1"
      "pdata pk' = take (4 * wrpos pk + 4 * w) (pdata pk1) @ replicate 4 0 @ drop (4 * wrpos pk + 4 * w + 4) (pdata pk1)"
    using store_pdata [of "4 * wrpos pk + 4 * w" "replicate 4 0" pk1] r1 l1 by auto
  define area where "area = take (4 * w) (drop (4 * wrpos pk) (buf pk)) @ replicate 4 0"
  have "4 * w \<le> length (buf pk) - 4 * wrpos pk" using assms by (auto simp: room_def w)
  then have la: "length area = 4 * w + 4" by (simp add: area_def min_absorb2)
  have "drop (4 * wrpos pk + 4 * w + 4) (pdata pk1) = []" using length_pdata [OF r1] by (simp add: pk1_def)
  then have "pdata pk' = pdata pk @ area" using 2(4) lp by (simp add: p1 area_def min_absorb1)
  moreover have "4 * (int (wrpos pk1) - 1) = int (4 * wrpos pk + 4 * w)" by (simp add: pk1_def)
  then have "maketags n pk = Inr pk'" using 1 2(1) by (simp add: maketags_def)
  moreover have "drop (4 * w) area = replicate 4 0" using la by (simp add: area_def)
  ultimately show ?thesis
    using 2(2,3) la r1 place_kept_room [OF 2(2)] lp w
    by (intro exI [of _ pk'] exI [of _ area]) (simp add: tagging_def place_kept_def pk1_def flip: w_def)
qed

section \<open>Lemmas: the reader\<close>

lemma ntohl_htonl [simp]: "sc_ntohl (sc_htonl w) = w"
proof -
  have "push_bit 8 (push_bit 8 (push_bit 8 (ucast (ucast (drop_bit 24 w) :: byte)) + ucast (ucast (drop_bit 16 w) :: byte))
      + ucast (ucast (drop_bit 8 w) :: byte)) + ucast (ucast w :: byte) = (w :: 32 word)"
  proof -
    have 1: "push_bit 8 x + ucast (b :: byte) = or (push_bit 8 x) (ucast b)" for x :: "32 word" and b
      by (rule disjunctive_add) (auto simp: bit_simps dest: bit_imp_le_length)
    show ?thesis
      unfolding 1
    proof (rule bit_word_eqI)
      fix n assume n: "n < LENGTH(32)"
      have "n < 8 \<or> 8 \<le> n \<and> n < 16 \<or> 16 \<le> n \<and> n < 24 \<or> 24 \<le> n" by linarith
      then show "bit (or (push_bit 8 (or (push_bit 8 (or (push_bit 8 (ucast (ucast (drop_bit 24 w) :: byte)))
          (ucast (ucast (drop_bit 16 w) :: byte)))) (ucast (ucast (drop_bit 8 w) :: byte)))) (ucast (ucast w :: byte)) :: 32 word) n = bit w n"
        using n by (elim disjE) (auto simp: bit_simps)
    qed
  qed
  then show ?thesis by (simp add: sc_ntohl_def sc_htonl_def)
qed

lemma word64_parts: "push_bit 32 (ucast (ucast (drop_bit 32 w) :: 32 word)) + ucast (ucast w :: 32 word) = (w :: 64 word)"
proof -
  have 1: "push_bit 32 x + ucast (b :: 32 word) = or (push_bit 32 x) (ucast b)" for x :: "64 word" and b
    by (rule disjunctive_add) (auto simp: bit_simps dest: bit_imp_le_length)
  show ?thesis by (rule bit_word_eqI) (auto simp: 1 bit_simps)
qed

lemma read_bytes_at: "read_bytes (A @ bs @ B) (int (length A)) (length bs) = Some bs"
  by (simp add: read_bytes_def)

lemma read_byte_at: "read_byte (A @ c # B) (int (length A)) = Some c"
  by (simp add: read_byte_def)

lemma OSCint_at [simp]: "OSCint (A @ sc_htonl w @ B) (int (length A)) = Some w"
  using read_bytes_at [of A "sc_htonl w" B] by (simp add: OSCint_def)

lemma OSCfloat_at [simp]: "OSCfloat (A @ sc_htonl w @ B) (int (length A)) = Some w"
  using read_bytes_at [of A "sc_htonl w" B] by (simp add: OSCfloat_def)

lemma OSCtime_at [simp]: "OSCtime (A @ htonll w @ B) (int (length A)) = Some w"
  using OSCint_at [of A "ucast (drop_bit 32 w)" "sc_htonl (ucast w) @ B"]
    OSCint_at [of "A @ sc_htonl (ucast (drop_bit 32 w))" "ucast w" B]
  by (simp add: OSCtime_def htonll_def word64_parts)

lemma OSCdouble_at [simp]: "OSCdouble (A @ htonll w @ B) (int (length A)) = Some w"
  using OSCtime_at [of A w B] by (simp add: OSCdouble_def OSCtime_def)

lemma takeWhile_string: "0 \<notin> set s \<Longrightarrow> takeWhile (\<lambda>b. b \<noteq> (0 :: byte)) (s @ 0 # B) = s"
  by (induction s) auto

lemma pad_zero: "\<exists>z. osc_pad s = s @ 0 # z"
  by (cases "4 - length s mod 4") (auto simp: osc_pad_def)

lemma cstring_at:
  assumes "0 \<notin> set s"
  shows "cstring (A @ osc_pad s @ B) (int (length A)) = Some s"
proof -
  obtain z where "osc_pad s = s @ 0 # z" using pad_zero by blast
  then show ?thesis using takeWhile_string [OF assms, of "z @ B"] by (simp add: cstring_def)
qed

lemma strskip_at:
  "0 \<notin> set s \<Longrightarrow> OSCstrskip (A @ osc_pad s @ B) (int (length A)) = Some (int (length A + length (osc_pad s)))"
proof (induction s arbitrary: A rule: measure_induct_rule [of length])
  case (less s)
  show ?case
  proof (cases "length s < 4")
    case True
    then have p: "osc_pad s = s @ replicate (4 - length s) 0" by (simp add: osc_pad_def)
    then have "(A @ osc_pad s @ B) ! (length A + 3) = 0" using True diff_less_mono [of 3 4 "length s"] by (simp add: nth_append)
    then show ?thesis using True p by (simp add: OSCstrskip.simps [of _ "int (length A)"] nat_add_distrib)
  next
    case False
    define h t where "h = take 4 s" and "t = drop 4 s"
    have s: "s = h @ t" "length h = 4" using False by (simp_all add: h_def t_def)
    then have p: "osc_pad s = h @ osc_pad t" by (simp add: osc_pad_def)
    have "h ! 3 \<in> set h" using s(2) by (intro nth_mem) simp
    then have "h ! 3 \<noteq> 0" using less.prems s(1) by auto
    then have nz: "(A @ osc_pad s @ B) ! (length A + 3) \<noteq> 0" using s(2) p by (simp add: nth_append)
    have "OSCstrskip (A @ osc_pad s @ B) (int (length A)) = OSCstrskip ((A @ h) @ osc_pad t @ B) (int (length (A @ h)))"
      using nz s(2) p by (simp add: OSCstrskip.simps [of _ "int (length A)"] nat_add_distrib add.commute)
    also have "\<dots> = Some (int (length (A @ h) + length (osc_pad t)))"
      using less.prems s by (intro less.IH) auto
    finally show ?thesis using p s(2) by simp
  qed
qed

lemma string_at:
  assumes "0 \<notin> set s"
  shows "cstring (A @ s @ 0 # B) (int (length A)) = Some s"
  using takeWhile_string [OF assms, of B] by (simp add: cstring_def)

lemma OSCint_in: "M = A @ sc_htonl w @ B \<Longrightarrow> p = int (length A) \<Longrightarrow> OSCint M p = Some w"
  by simp

text \<open>The size of a blob survives the conversions between \<open>int32\<close> and \<open>size_t\<close>.\<close>

lemma blob_size:
  assumes "n < 2 ^ 31"
  shows "scast (of_nat n :: 32 word) = (of_nat n :: 64 word)" "ucast (of_nat n :: 64 word) = (of_nat n :: 32 word)"
    "sint (of_nat n :: 32 word) = int n" "unat (of_nat n :: 64 word) = n"
    "sint (blob_words4 (of_nat n)) = 4 * int ((n + 3) div 4)"
proof -
  show s: "sint (of_nat n :: 32 word) = int n"
    using assms by (simp add: signed_of_nat signed_take_bit_int_eq_self)
  have "(scast (of_nat n :: 32 word) :: 64 word) = of_int (sint (of_nat n :: 32 word))" by simp
  then show "scast (of_nat n :: 32 word) = (of_nat n :: 64 word)" unfolding s by simp
  show "ucast (of_nat n :: 64 word) = (of_nat n :: 32 word)"
    using assms by (simp add: unsigned_of_nat take_bit_nat_eq_self)
  show "unat (of_nat n :: 64 word) = n" using assms by (simp add: unat_of_nat)
  define k where "k = (n + 3) div 4"
  have k: "4 * k < 2 ^ 33" using assms by (simp add: k_def)
  have neg: "(- 4 :: 64 word) = not (mask 2)" by (simp add: mask_eq_exp_minus_1 not_eq_complement)
  have "and x (- 4) = push_bit 2 (drop_bit 2 x)" for x :: "64 word"
  proof (unfold neg, rule bit_word_eqI)
    fix i assume "i < LENGTH(64)"
    moreover have "2 \<le> i \<Longrightarrow> Suc (Suc (i - 2)) = i" by simp
    ultimately show "bit (and x (not (mask 2))) i = bit (push_bit 2 (drop_bit 2 x)) i" by (auto simp: bit_simps)
  qed
  moreover have "(of_nat n + 3 :: 64 word) = of_nat (n + 3)" by simp
  moreover have "drop_bit 2 (of_nat (n + 3) :: 64 word) = of_nat k"
  proof -
    have u: "unat (of_nat (n + 3) :: 64 word) = n + 3" "unat (of_nat k :: 64 word) = k"
      using assms k by (simp_all add: unat_of_nat del: of_nat_add)
    show ?thesis unfolding word_unat_eq_iff unat_drop_bit_eq u by (simp add: drop_bit_eq_div k_def)
  qed
  moreover have "push_bit 2 (of_nat k :: 64 word) = of_nat (4 * k)" by (simp add: push_bit_eq_mult)
  ultimately have "blob_words4 (of_nat n) = of_nat (4 * k)" by (simp only: blob_words4_def)
  moreover have "sint (of_nat (4 * k) :: 64 word) = int (4 * k)"
    using k by (simp add: signed_of_nat signed_take_bit_int_eq_self del: of_nat_mult)
  ultimately show "sint (blob_words4 (of_nat n)) = 4 * int ((n + 3) div 4)" by (simp add: k_def)
qed

section \<open>Properties\<close>

text \<open>
  C39. Adding an empty blob destroys what was added before it: the word that \<open>addb\<close> clears is then
  the one in front of the blob, so a number loses its value and a message with an empty blob as
  its first argument loses its tags.
\<close>

theorem empty_blob_clobbers:
  assumes "room pk 1" "0 < wrpos pk"
  shows "\<exists>pk'. addb [] pk = Inr pk' \<and>
    pdata pk' = take (4 * (wrpos pk - 1)) (pdata pk) @ replicate 4 0 @ sc_htonl 0"
proof -
  obtain w where w: "wrpos pk = Suc w" using assms(2) by (cases "wrpos pk") auto
  let ?pk1 = "pk\<lparr>buf := take (4 * w) (buf pk) @ replicate 4 0 @ drop (4 * wrpos pk) (buf pk)\<rparr>"
  have len: "length (buf ?pk1) = length (buf pk)" using assms(1) w by (simp add: room_def)
  then have r: "room ?pk1 1" using assms(1) by (simp add: room_def)
  have "pdata ?pk1 = take (4 * w) (pdata pk) @ replicate 4 0"
    using assms(1) w by (simp add: pdata_def psize_def room_def min_absorb2)
  then show ?thesis using addb_empty [OF assms(1)] pdata_emit [of ?pk1 "sc_htonl 0"] r w by simp
qed

theorem empty_blob_clobbers_witness:
  "\<exists>pk pk'. addi 5 (scpacket (replicate 8 0)) = Inr pk \<and> pdata pk = [0, 0, 0, 5] \<and>
    addb [] pk = Inr pk' \<and> pdata pk' = [0, 0, 0, 0, 0, 0, 0, 0]"
proof -
  let ?pk = "emit (sc_htonl 5) (scpacket (replicate 8 0))"
  have r: "room (scpacket (replicate 8 0)) 2" by (simp add: room_def scpacket_def pk_reset_def)
  have a: "addi 5 (scpacket (replicate 8 0)) = Inr ?pk" using addi_ok [OF room_mono [OF r]] by simp
  have p: "pdata ?pk = [0, 0, 0, 5]"
    by (simp add: emit_def scpacket_def pk_reset_def pdata_def psize_def sc_htonl_def)
  have "room ?pk 1" "wrpos ?pk = 1" using room_emit [OF r, of "sc_htonl 5" 1] by (simp_all add: scpacket_def pk_reset_def)
  moreover have "replicate 4 (0 :: byte) = [0, 0, 0, 0]" by (simp add: eval_nat_numeral)
  ultimately obtain pk' where "addb [] ?pk = Inr pk'" "pdata pk' = [0, 0, 0, 0, 0, 0, 0, 0]"
    using empty_blob_clobbers [of ?pk] by (auto simp: sc_htonl_def)
  then show ?thesis using a p by blast
qed

text \<open>
  C40. A double is written past the end of the buffer exactly when one word is left: \<open>addd\<close> tests for
  one word and writes two. With no word left it throws, otherwise it writes.
\<close>

theorem double_overruns:
  assumes "room pk 0"
  shows "(addd f pk = Inl Undefined \<longleftrightarrow> wrpos pk + 1 = kBufSize pk) \<and>
    (addd f pk = Inl (Overflow pk) \<longleftrightarrow> wrpos pk = kBufSize pk)"
proof -
  have le: "wrpos pk \<le> kBufSize pk" using room_words [OF assms] by simp
  have buf: "length (buf pk) = 4 * kBufSize pk" using assms by (auto simp: room_def kBufSize_def)
  consider "wrpos pk = kBufSize pk" | "wrpos pk + 1 = kBufSize pk" | "wrpos pk + 2 \<le> kBufSize pk" using le by linarith
  then show ?thesis
  proof cases
    case 1
    then show ?thesis by (simp add: addd_def)
  next
    case 2
    then have r: "room pk 1" using buf by (auto simp: room_def)
    let ?pk = "emit (sc_htonl (ucast (drop_bit 32 f))) pk"
    have "store (4 * int (wrpos ?pk)) (sc_htonl (ucast f)) ?pk = Inl Undefined"
      using length_emit [of pk "sc_htonl (ucast (drop_bit 32 f))"] r buf 2 by (auto simp: store_def)
    then have "store_word (ucast f) ?pk = Inl Undefined" by (simp add: store_word_def)
    then have "addd f pk = Inl Undefined"
      using 2 store_word_ok [OF r, of "ucast (drop_bit 32 f)"] by (simp add: addd_def)
    then show ?thesis using 2 by simp
  next
    case 3
    then have "room pk 2" using buf by (auto simp: room_def)
    then show ?thesis using 3 addd_ok [of pk f] by simp
  qed
qed

theorem double_overruns_witness:
  "addd 1 (scpacket (replicate 4 0)) = Inl Undefined"
  using double_overruns [of "scpacket (replicate 4 0)" 1]
  by (simp add: scpacket_def pk_reset_def room_def kBufSize_def)

end
