(* ===== verification/SC_LangOSC.thy ===== *)
theory SC_LangOSC
  imports SC_Packets
begin

text \<open>
  Messages of the language (\<open>lang/LangPrimSource/OSCData.cpp\<close>): how arrays of values become OSC packets, and
  packets become arrays of values again. A value is a \<open>slot\<close>; of an object only strings, arrays of bytes
  and arrays are told apart. Of the packets that are made for nested arrays, \<open>fresh\<close> says what
  their buffer holds before. The offset \<open>gElapsedOSCoffset\<close> of the clock and the flag \<open>gUseDoubles\<close> are
  arguments.
\<close>

section \<open>Values\<close>

datatype slot =
  SInt "32 word" | SFloat float64 | SSym "byte list" | SChar byte | SNil | STrue | SFalse | SPtr
| SStr "byte list" | SBytes "byte list" | SArr "slot list" | SObj

fun is_array :: "slot \<Rightarrow> bool" where
  "is_array (SArr xs) = True"
| "is_array _ = False"

abbreviation tag_of :: "char \<Rightarrow> byte" where
  "tag_of \<equiv> of_char"

definition errNone :: int where "errNone = 0"

definition errFailed :: int where "errFailed = 5000"

definition errWrongType :: int where "errWrongType = 5002"

fun slotDoubleVal :: "slot \<Rightarrow> float64 option" where
  "slotDoubleVal (SFloat f) = Some f"
| "slotDoubleVal (SInt i) = Some (to_f64 (fl_of_int (sint i)))"
| "slotDoubleVal _ = None"

text \<open>\<open>None\<close> when a conversion or a sum does not fit into an \<open>int64\<close>.\<close>

definition int64_of :: "int \<Rightarrow> 64 word option" where
  "int64_of i = (if - (2 ^ 63) \<le> i \<and> i < 2 ^ 63 then Some (of_int i) else None)"

definition seconds_to_osc :: "float64 \<Rightarrow> int option" where
  "seconds_to_osc time = fl_to_int 64 (f64 (to_f64 (fl_mult (f64 time) (Fin False 1 32))))"

definition ElapsedTimeToOSC :: "int \<Rightarrow> float64 \<Rightarrow> 64 word option" where
  "ElapsedTimeToOSC gElapsedOSCoffset elapsed = do {
     i \<leftarrow> seconds_to_osc elapsed;
     int64_of (i + gElapsedOSCoffset) }"

definition kOSCtoSecs :: float64 where
  "kOSCtoSecs = 0x3DEFFFFFFFFFFFFF"

definition OSCToElapsedTime :: "int \<Rightarrow> 64 word \<Rightarrow> float64 option" where
  "OSCToElapsedTime gElapsedOSCoffset oscTime = do {
     d \<leftarrow> int64_of (sint oscTime - gElapsedOSCoffset);
     Some (to_f64 (fl_mult (f64 (to_f64 (fl_of_int (sint d)))) (f64 kOSCtoSecs))) }"

definition bundle_time :: "int \<Rightarrow> bool \<Rightarrow> slot \<Rightarrow> 64 word option" where
  "bundle_time gElapsedOSCoffset useElapsed s =
     (case slotDoubleVal s of
        None \<Rightarrow> Some 1
      | Some time \<Rightarrow>
          if useElapsed then ElapsedTimeToOSC gElapsedOSCoffset time
          else do { i \<leftarrow> seconds_to_osc time; Some (of_int i) })"

section \<open>From values to packets\<close>

text \<open>A result of an operation on the packet as the result of a function with an error code.\<close>

definition ok :: "pk_err + packet \<Rightarrow> pk_err + int \<times> packet" where
  "ok r = res_bind r (\<lambda>pk. Inr (errNone, pk))"

text \<open>What a packet throws that a nested array is written to, is thrown with the packet around it.\<close>

definition within :: "packet \<Rightarrow> pk_err + 'a \<Rightarrow> pk_err + 'a" where
  "within pk r = (case r of Inl (Overflow _) \<Rightarrow> Inl (Overflow pk) | _ \<Rightarrow> r)"

text \<open>The try block of \<open>makeSynthMsgWithTags\<close>.\<close>

definition try_args :: "pk_err + int \<times> packet \<Rightarrow> pk_err + int \<times> packet" where
  "try_args r = (case r of Inl (Overflow pk) \<Rightarrow> Inr (errFailed, pk) | _ \<Rightarrow> r)"

text \<open>Go on unless there was an error.\<close>

definition no_error :: "pk_err + int \<times> packet \<Rightarrow> (packet \<Rightarrow> pk_err + int \<times> packet) \<Rightarrow> pk_err + int \<times> packet" where
  "no_error r f = res_bind r (\<lambda>(err, pk). if err \<noteq> errNone then Inr (err, pk) else f pk)"

definition add_float :: "bool \<Rightarrow> float64 \<Rightarrow> packet \<Rightarrow> pk_err + packet" where
  "add_float gUseDoubles f = (if gUseDoubles then addd f else addf (narrow f))"

function addMsgSlot :: "(slot list \<Rightarrow> byte list) \<Rightarrow> int \<Rightarrow> bool \<Rightarrow> slot \<Rightarrow> packet \<Rightarrow> pk_err + int \<times> packet"
  and addMsgSlotWithTags :: "(slot list \<Rightarrow> byte list) \<Rightarrow> int \<Rightarrow> bool \<Rightarrow> slot \<Rightarrow> packet \<Rightarrow> pk_err + int \<times> packet"
  and array_packet :: "(slot list \<Rightarrow> byte list) \<Rightarrow> int \<Rightarrow> bool \<Rightarrow> slot list \<Rightarrow> pk_err + int \<times> packet"
  and args_loop :: "(slot list \<Rightarrow> byte list) \<Rightarrow> int \<Rightarrow> bool \<Rightarrow> slot list \<Rightarrow> packet \<Rightarrow> pk_err + int \<times> packet"
  and makeSynthMsgWithTags :: "(slot list \<Rightarrow> byte list) \<Rightarrow> int \<Rightarrow> bool \<Rightarrow> slot list \<Rightarrow> packet \<Rightarrow> pk_err + int \<times> packet"
  and msgs_loop :: "(slot list \<Rightarrow> byte list) \<Rightarrow> int \<Rightarrow> bool \<Rightarrow> slot list \<Rightarrow> packet \<Rightarrow> pk_err + int \<times> packet"
  and makeSynthBundle :: "(slot list \<Rightarrow> byte list) \<Rightarrow> int \<Rightarrow> bool \<Rightarrow> bool \<Rightarrow> slot list \<Rightarrow> packet \<Rightarrow> pk_err + int \<times> packet"
where
  "addMsgSlot fresh off ud s pk =
     (case s of
        SInt i \<Rightarrow> ok (addi i pk)
      | SSym n \<Rightarrow> ok (adds n pk)
      | SStr n \<Rightarrow> ok (adds_len n pk)
      | SBytes b \<Rightarrow> ok (addb b pk)
      | SArr xs \<Rightarrow> res_bind (within pk (array_packet fresh off ud xs)) (\<lambda>(err, pk2).
          if err \<noteq> errNone then Inr (err, pk) else ok (addb (pdata pk2) pk))
      | SFloat f \<Rightarrow> ok (add_float ud f pk)
      | _ \<Rightarrow> Inr (errNone, pk))"
| "addMsgSlotWithTags fresh off ud s pk =
     (case s of
        SInt i \<Rightarrow> ok (res_bind (addtag (tag_of (CHR ''i'')) pk) (addi i))
      | SSym n \<Rightarrow> ok (res_bind (addtag (tag_of (CHR ''s'')) pk) (adds n))
      | SStr n \<Rightarrow> ok (res_bind (addtag (tag_of (CHR ''s'')) pk) (adds_len n))
      | SBytes b \<Rightarrow> ok (res_bind (addtag (tag_of (CHR ''b'')) pk) (addb b))
      | SArr [] \<Rightarrow> ok (res_bind (addtag (tag_of (CHR ''i'')) pk) (addi 0))
      | SArr xs \<Rightarrow> res_bind (addtag (tag_of (CHR ''b'')) pk) (\<lambda>pk.
          res_bind (within pk (array_packet fresh off ud xs)) (\<lambda>(err, pk2).
          if err \<noteq> errNone then Inr (err, pk) else ok (addb (pdata pk2) pk)))
      | STrue \<Rightarrow> ok (res_bind (addtag (tag_of (CHR ''i'')) pk) (addi 1))
      | SChar c \<Rightarrow> ok (addtag c pk)
      | SFalse \<Rightarrow> ok (res_bind (addtag (tag_of (CHR ''i'')) pk) (addi 0))
      | SNil \<Rightarrow> ok (res_bind (addtag (tag_of (CHR ''i'')) pk) (addi 0))
      | SPtr \<Rightarrow> ok (res_bind (addtag (tag_of (CHR ''i'')) pk) (addi 0))
      | SFloat f \<Rightarrow> ok (res_bind (addtag (tag_of (if ud then CHR ''d'' else CHR ''f'')) pk) (add_float ud f))
      | SObj \<Rightarrow> Inr (errNone, pk))"
| "array_packet fresh off ud xs =
     (if length xs > 1 \<and> is_array (xs ! 1)
      then res_bind (makeSynthBundle fresh off ud True xs (scpacket (fresh xs))) (\<lambda>(_, pk). Inr (errNone, pk))
      else makeSynthMsgWithTags fresh off ud xs (scpacket (fresh xs)))"
| "args_loop fresh off ud args pk =
     (case args of
        [] \<Rightarrow> Inr (errNone, pk)
      | s # args \<Rightarrow> no_error (addMsgSlotWithTags fresh off ud s pk) (args_loop fresh off ud args))"
| "makeSynthMsgWithTags fresh off ud slots pk =
     res_bind (BeginMsg pk) (\<lambda>pk.
       (case slots of
          [] \<Rightarrow> Inl Undefined
        | s # args \<Rightarrow>
            no_error
              (case s of
                 SSym n \<Rightarrow> if take 1 n \<noteq> [tag_of (CHR ''/'')] then ok (adds_slpre n pk) else addMsgSlot fresh off ud s pk
               | _ \<Rightarrow> addMsgSlot fresh off ud s pk)
              (\<lambda>pk. res_bind (maketags (length slots) pk) (\<lambda>pk.
                res_bind (addtag (tag_of (CHR '','')) pk) (\<lambda>pk.
                no_error (try_args (args_loop fresh off ud args pk)) (\<lambda>pk. ok (EndMsg pk)))))))"
| "msgs_loop fresh off ud args pk =
     (case args of
        [] \<Rightarrow> Inr (errNone, pk)
      | SArr xs # args \<Rightarrow> no_error (makeSynthMsgWithTags fresh off ud xs pk) (msgs_loop fresh off ud args)
      | _ # args \<Rightarrow> msgs_loop fresh off ud args pk)"
| "makeSynthBundle fresh off ud useElapsed slots pk =
     (case slots of
        [] \<Rightarrow> Inl Undefined
      | s # args \<Rightarrow>
          (case bundle_time off useElapsed s of
             None \<Rightarrow> Inl Undefined
           | Some oscTime \<Rightarrow>
               res_bind (OpenBundle oscTime pk) (\<lambda>pk.
               no_error (msgs_loop fresh off ud args pk) (\<lambda>pk. Inr (errNone, CloseBundle pk)))))"
  by pat_completeness auto
termination
  by (relation "measure (\<lambda>x. case x of
        Inl (Inl (_, _, _, s, _)) \<Rightarrow> 4 * size s
      | Inl (Inr (Inl (_, _, _, s, _))) \<Rightarrow> 4 * size s
      | Inl (Inr (Inr (_, _, _, xs))) \<Rightarrow> 4 * size_list size xs + 3
      | Inr (Inl (Inl (_, _, _, xs, _))) \<Rightarrow> 4 * size_list size xs
      | Inr (Inl (Inr (_, _, _, xs, _))) \<Rightarrow> 4 * size_list size xs + 1
      | Inr (Inr (Inl (_, _, _, xs, _))) \<Rightarrow> 4 * size_list size xs
      | Inr (Inr (Inr (_, _, _, _, xs, _))) \<Rightarrow> 4 * size_list size xs + 2)") auto

declare addMsgSlot.simps [simp del] addMsgSlotWithTags.simps [simp del] array_packet.simps [simp del]
  args_loop.simps [simp del] makeSynthMsgWithTags.simps [simp del] msgs_loop.simps [simp del] makeSynthBundle.simps [simp del]

text \<open>The bytes that \<open>prArray\_OSCBytes\<close> returns, and those that \<open>prNetAddr\_SendMsg\<close> sends, or their error.\<close>

definition prArray_OSCBytes :: "(slot list \<Rightarrow> byte list) \<Rightarrow> int \<Rightarrow> bool \<Rightarrow> byte list \<Rightarrow> slot list \<Rightarrow> pk_err + int + byte list" where
  "prArray_OSCBytes fresh off ud m args =
     (let bytes = (\<lambda>pk. Inr (Inr (pdata pk))) in
      case args of
        [] \<Rightarrow> Inr (Inl errFailed)
      | s # _ \<Rightarrow>
          (case s of
             SFloat _ \<Rightarrow> res_bind (makeSynthBundle fresh off ud False args (scpacket m)) (\<lambda>(_, pk). bytes pk)
           | SNil \<Rightarrow> res_bind (makeSynthBundle fresh off ud False args (scpacket m)) (\<lambda>(_, pk). bytes pk)
           | SInt _ \<Rightarrow> res_bind (makeSynthBundle fresh off ud False args (scpacket m)) (\<lambda>(_, pk). bytes pk)
           | SSym _ \<Rightarrow> res_bind (makeSynthMsgWithTags fresh off ud args (scpacket m)) (\<lambda>(err, pk).
               if err \<noteq> errNone then Inr (Inl err) else bytes pk)
           | SStr _ \<Rightarrow> res_bind (makeSynthMsgWithTags fresh off ud args (scpacket m)) (\<lambda>(err, pk).
               if err \<noteq> errNone then Inr (Inl err) else bytes pk)
           | _ \<Rightarrow> Inr (Inl errWrongType)))"

definition prNetAddr_SendMsg :: "(slot list \<Rightarrow> byte list) \<Rightarrow> int \<Rightarrow> bool \<Rightarrow> byte list \<Rightarrow> slot list \<Rightarrow> pk_err + int + byte list" where
  "prNetAddr_SendMsg fresh off ud m args =
     res_bind (makeSynthMsgWithTags fresh off ud args (scpacket m)) (\<lambda>(err, pk).
     if err \<noteq> errNone then Inr (Inl err) else Inr (Inr (pdata pk)))"

section \<open>From packets to values\<close>

text \<open>The size is an \<open>int\<close>; a negative one does not describe an array.\<close>

definition MsgToInt8Array :: "msg_iter \<Rightarrow> (byte list \<times> msg_iter) option" where
  "MsgToInt8Array msg = do {
     n \<leftarrow> getbsize msg;
     let size = (ucast n :: 32 word);
     if sint size < 0 then None
     else do {
       (copied, msg) \<leftarrow> getb (scast size) msg;
       bs \<leftarrow> copied;
       Some (bs, msg) } }"

text \<open>A null pointer or a string without end has no symbol.\<close>

definition getsym :: "byte list \<Rightarrow> int option \<Rightarrow> slot option" where
  "getsym m p = do { p \<leftarrow> p; s \<leftarrow> cstring m p; Some (SSym s) }"

definition convert_arg :: "int \<Rightarrow> msg_iter \<Rightarrow> (slot \<times> msg_iter) option" where
  "convert_arg off msg = do {
     tag \<leftarrow> nextTag (tag_of (CHR ''f'')) msg;
     if tag = tag_of (CHR ''i'') then do { (v, msg) \<leftarrow> geti 0 msg; Some (SInt v, msg) }
     else if tag = tag_of (CHR ''f'') then do { (v, msg) \<leftarrow> getf 0 msg; Some (SFloat (widen v), msg) }
     else if tag = tag_of (CHR ''d'') then do { (v, msg) \<leftarrow> getd 0 msg; Some (SFloat v, msg) }
     else if tag = tag_of (CHR ''s'') then do {
       (p, msg) \<leftarrow> gets None msg;
       s \<leftarrow> getsym (mem msg) p;
       Some (s, msg) }
     else if tag = tag_of (CHR ''b'') \<or> tag = tag_of (CHR ''m'') then do {
       (bs, msg) \<leftarrow> MsgToInt8Array msg;
       Some (SBytes bs, msg) }
     else if tag = tag_of (CHR ''c'') then do { (v, msg) \<leftarrow> geti 0 msg; Some (SChar (ucast v), msg) }
     else if tag = tag_of (CHR ''t'') then do {
       (v, msg) \<leftarrow> gett 1 msg;
       t \<leftarrow> OSCToElapsedTime off v;
       Some (SFloat t, msg) }
     else if tag = tag_of (CHR ''T'') then Some (STrue, counted msg)
     else if tag = tag_of (CHR ''F'') then Some (SFalse, counted msg)
     else if tag = tag_of (CHR ''I'') then Some (SFloat (to_f64 (Inf False)), counted msg)
     else if tag = tag_of (CHR ''N'') then Some (SNil, counted msg)
     else do { (_, msg) \<leftarrow> gets None msg; Some (SChar tag, msg) } }"

fun convert_loop :: "int \<Rightarrow> nat \<Rightarrow> msg_iter \<Rightarrow> slot list option" where
  "convert_loop off 0 msg = Some []"
| "convert_loop off (Suc n) msg = do {
     (s, msg) \<leftarrow> convert_arg off msg;
     ss \<leftarrow> convert_loop off n msg;
     Some (s # ss) }"

definition ConvertOSCMessage :: "int \<Rightarrow> byte list \<Rightarrow> int \<Rightarrow> int \<Rightarrow> slot list option" where
  "ConvertOSCMessage off m inSize inData = do {
     cmdNameLen \<leftarrow> OSCstrlen m inData;
     msg \<leftarrow> msg_init m (inSize - cmdNameLen) (inData + cmdNameLen);
     numElems \<leftarrow> (if inSize = cmdNameLen then Some 0
       else case tags msg of None \<Rightarrow> Some 0 | Some t \<Rightarrow> map_option length (cstring m t));
     cmdName \<leftarrow> getsym m (Some inData);
     args \<leftarrow> convert_loop off numElems msg;
     Some (cmdName # args) }"

definition IsBundle :: "byte list \<Rightarrow> int \<Rightarrow> bool option" where
  "IsBundle m p = map_option (\<lambda>s. s = bytes_of ''#bundle'') (cstring m p)"

text \<open>
  The messages of a bundle with their time, in the order in which the interpreter gets them; the loop
  runs from \<open>data\<close> to \<open>dataEnd\<close>, and a bundle inside starts another one.
\<close>

partial_function (option) bundle_loop :: "int \<Rightarrow> byte list \<Rightarrow> float64 \<Rightarrow> int \<Rightarrow> int \<Rightarrow> (float64 \<times> slot list) list option" where
  "bundle_loop off m seconds data dataEnd =
     (if data < dataEnd then do {
        msgSize \<leftarrow> map_option sint (OSCint m data);
        let data = data + 4;
        nested \<leftarrow> IsBundle m data;
        msgs \<leftarrow> (if nested then do {
            t \<leftarrow> OSCtime m (data + 8);
            s \<leftarrow> OSCToElapsedTime off t;
            bundle_loop off m s (data + 16) (data + msgSize) }
          else do { arr \<leftarrow> ConvertOSCMessage off m msgSize data; Some [(seconds, arr)] });
        rest \<leftarrow> bundle_loop off m seconds (data + msgSize) dataEnd;
        Some (msgs @ rest) }
      else Some [])"

definition lang_PerformOSCBundle :: "int \<Rightarrow> byte list \<Rightarrow> int \<Rightarrow> int \<Rightarrow> (float64 \<times> slot list) list option" where
  "lang_PerformOSCBundle off m inSize inData = do {
     t \<leftarrow> OSCtime m (inData + 8);
     s \<leftarrow> OSCToElapsedTime off t;
     bundle_loop off m s (inData + 16) (inData + inSize) }"

section \<open>What is sent\<close>

text \<open>
  The value that is sent for a value: strings as symbols, values without a form of their own as
  numbers, nested arrays as the bytes of their packet.
\<close>

definition sent :: "(slot list \<Rightarrow> byte list) \<Rightarrow> int \<Rightarrow> bool \<Rightarrow> slot \<Rightarrow> slot option" where
  "sent fresh off ud s =
     (case s of
        SStr n \<Rightarrow> Some (SSym n)
      | STrue \<Rightarrow> Some (SInt 1)
      | SFalse \<Rightarrow> Some (SInt 0)
      | SNil \<Rightarrow> Some (SInt 0)
      | SPtr \<Rightarrow> Some (SInt 0)
      | SArr [] \<Rightarrow> Some (SInt 0)
      | SArr xs \<Rightarrow>
          (case array_packet fresh off ud xs of
             Inr (err, pk) \<Rightarrow> if err = errNone then Some (SBytes (pdata pk)) else None
           | Inl _ \<Rightarrow> None)
      | SObj \<Rightarrow> None
      | _ \<Rightarrow> Some s)"

text \<open>The letters that the reader knows as tags.\<close>

definition tag_letters :: "byte list" where
  "tag_letters = bytes_of ''ifdsbmctTFIN''"

fun sendable :: "slot \<Rightarrow> bool" where
  "sendable (SInt i) = True"
| "sendable (SFloat f) = True"
| "sendable (SSym n) = (0 \<notin> set n)"
| "sendable (SBytes b) = (b \<noteq> [] \<and> length b < 2 ^ 31)"
| "sendable (SChar c) = (c \<noteq> 0 \<and> c \<notin> set tag_letters)"
| "sendable _ = False"

fun arg_tag :: "bool \<Rightarrow> slot \<Rightarrow> byte" where
  "arg_tag ud (SInt i) = tag_of (CHR ''i'')"
| "arg_tag ud (SFloat f) = tag_of (if ud then CHR ''d'' else CHR ''f'')"
| "arg_tag ud (SSym n) = tag_of (CHR ''s'')"
| "arg_tag ud (SBytes b) = tag_of (CHR ''b'')"
| "arg_tag ud (SChar c) = c"
| "arg_tag ud _ = 0"

fun arg_words :: "bool \<Rightarrow> slot \<Rightarrow> nat" where
  "arg_words ud (SInt i) = 1"
| "arg_words ud (SFloat f) = (if ud then 2 else 1)"
| "arg_words ud (SSym n) = (length n + 4) div 4"
| "arg_words ud (SBytes b) = (length b + 3) div 4 + 1"
| "arg_words ud _ = 0"

fun arg_data :: "bool \<Rightarrow> slot \<Rightarrow> byte list \<Rightarrow> bool" where
  "arg_data ud (SInt i) bs \<longleftrightarrow> bs = sc_htonl i"
| "arg_data ud (SFloat f) bs \<longleftrightarrow> bs = (if ud then htonll f else sc_htonl (narrow f))"
| "arg_data ud (SSym n) bs \<longleftrightarrow> bs = osc_pad n"
| "arg_data ud (SBytes b) bs \<longleftrightarrow> (\<exists>junk. bs = osc_blob b junk \<and> length bs = 4 * ((length b + 3) div 4 + 1))"
| "arg_data ud _ bs \<longleftrightarrow> bs = []"

fun add_data :: "bool \<Rightarrow> slot \<Rightarrow> packet \<Rightarrow> pk_err + packet" where
  "add_data ud (SInt i) = addi i"
| "add_data ud (SFloat x) = add_float ud x"
| "add_data ud (SSym n) = adds_len n"
| "add_data ud (SBytes b) = addb b"
| "add_data ud _ = Inr"

lemma res_bind_assoc: "res_bind (res_bind r f) g = res_bind r (\<lambda>x. res_bind (f x) g)"
  by (cases r) auto

lemma res_bind_Inr_right [simp]: "res_bind r Inr = r"
  by (cases r) auto

lemma withTags_sent:
  assumes "sent fresh off ud s = Some f" "sendable f"
  shows "addMsgSlotWithTags fresh off ud s pk = ok (res_bind (addtag (arg_tag ud f) pk) (add_data ud f))"
proof (cases s)
  case (SArr xs)
  show ?thesis
  proof (cases xs)
    case Nil
    then show ?thesis using assms SArr by (auto simp: sent_def addMsgSlotWithTags.simps)
  next
    case (Cons y ys)
    then obtain pk2 where "array_packet fresh off ud xs = Inr (errNone, pk2)" "f = SBytes (pdata pk2)"
      using assms SArr by (auto simp: sent_def split: sum.splits if_splits)
    then show ?thesis using SArr Cons
      by (simp add: addMsgSlotWithTags.simps within_def ok_def res_bind_assoc)
  qed
qed (use assms in \<open>auto simp: sent_def addMsgSlotWithTags.simps adds_def takeWhile_nonzero cong: if_cong\<close>)

lemma arg_data_length: "sendable f \<Longrightarrow> arg_data ud f bs \<Longrightarrow> length bs = 4 * arg_words ud f"
  by (cases f) (auto simp: length_pad split: if_splits)

lemma add_data_ok:
  assumes "sendable f" "room pk (arg_words ud f)"
  shows "\<exists>bs. add_data ud f pk = Inr (emit bs pk) \<and> arg_data ud f bs"
proof (cases f)
  case (SFloat x)
  then show ?thesis using assms by (auto simp: add_float_def addd_ok addf_ok)
next
  case (SBytes b)
  then show ?thesis using assms addb_ok [of b pk] length_blob [of pk b] by auto
qed (use assms in \<open>auto simp: addi_ok adds_len_ok emit_def\<close>)

definition data_words :: "bool \<Rightarrow> slot list \<Rightarrow> nat" where
  "data_words ud fs = sum_list (map (arg_words ud) fs)"

lemma data_words_simps [simp]: "data_words ud [] = 0" "data_words ud (f # fs) = arg_words ud f + data_words ud fs"
  by (simp_all add: data_words_def)

text \<open>The arguments \<open>fs\<close> are sent for \<open>ss\<close>.\<close>

definition sends :: "(slot list \<Rightarrow> byte list) \<Rightarrow> int \<Rightarrow> bool \<Rightarrow> slot list \<Rightarrow> slot list \<Rightarrow> bool" where
  "sends fresh off ud ss fs \<longleftrightarrow> list_all2 (\<lambda>s f. sent fresh off ud s = Some f \<and> sendable f) ss fs"

lemma no_error_ok: "no_error (ok (Inr pk)) f = f pk"
  by (simp add: no_error_def ok_def)

definition kept :: "packet \<Rightarrow> packet \<Rightarrow> bool" where
  "kept pk' pk \<longleftrightarrow> msgsizepos pk' = msgsizepos pk \<and> inbundle pk' = inbundle pk \<and> length (buf pk') = length (buf pk)"

lemma kept_trans: "kept p q \<Longrightarrow> kept q r \<Longrightarrow> kept p r"
  by (simp add: kept_def)

lemma kept_emit: "room pk n \<Longrightarrow> length bs div 4 \<le> n \<Longrightarrow> 4 dvd length bs \<Longrightarrow> kept (emit bs pk) pk"
  using room_mono [of pk n "length bs div 4"] by (simp add: kept_def length_emit)

lemma args_loop_ok:
  assumes "sends fresh off ud args fs" "tagging pk A ts area B" "length ts + length fs \<le> length area"
    "room pk (data_words ud fs + k)"
  shows "\<exists>pk' ds. args_loop fresh off ud args pk = Inr (errNone, pk') \<and> list_all2 (arg_data ud) fs ds \<and>
    tagging pk' A (ts @ map (arg_tag ud) fs) area (B @ concat ds) \<and> room pk' k \<and> kept pk' pk"
  using assms
proof (induction args arbitrary: fs pk ts B)
  case Nil
  then show ?case by (auto simp: sends_def args_loop.simps [of _ _ _ "[]"] kept_def intro: exI [of _ "[]"])
next
  case (Cons s args)
  obtain f fs' where fs: "fs = f # fs'" "sent fresh off ud s = Some f" "sendable f" "sends fresh off ud args fs'"
    using Cons.prems(1) by (auto simp: sends_def list_all2_Cons1)
  obtain pk1 where 1: "addtag (arg_tag ud f) pk = Inr pk1" "tagging pk1 A (ts @ [arg_tag ud f]) area B" "place_kept pk1 pk"
    using addtag_ok [OF Cons.prems(2)] Cons.prems(3) fs(1) by fastforce
  have r1: "room pk1 (arg_words ud f + (data_words ud fs' + k))"
    using Cons.prems(4) place_kept_room [OF 1(3)] fs(1) by (simp add: add.assoc)
  obtain bs where 2: "add_data ud f pk1 = Inr (emit bs pk1)" "arg_data ud f bs"
    using add_data_ok [of f pk1 ud] fs(3) room_mono [OF r1, of "arg_words ud f"] by auto
  note len = arg_data_length [OF fs(3) 2(2)]
  have 3: "tagging (emit bs pk1) A (ts @ [arg_tag ud f]) area (B @ bs)"
    using tagging_emit [OF 1(2)] room_mono [OF r1] len by simp
  have r2: "room (emit bs pk1) (data_words ud fs' + k)" using room_emit [OF r1] len by simp
  obtain pk' ds where 4: "args_loop fresh off ud args (emit bs pk1) = Inr (errNone, pk')" "list_all2 (arg_data ud) fs' ds"
      "tagging pk' A ((ts @ [arg_tag ud f]) @ map (arg_tag ud) fs') area ((B @ bs) @ concat ds)" "room pk' k" "kept pk' (emit bs pk1)"
    using Cons.IH [OF fs(4) 3 _ r2] Cons.prems(3) fs(1) by auto
  have "args_loop fresh off ud (s # args) pk = Inr (errNone, pk')"
    using withTags_sent [OF fs(2,3)] 1(1) 2(1) 4(1) by (simp add: args_loop.simps [of _ _ _ "s # args"] no_error_ok)
  moreover have "kept pk' pk"
    using 4(5) 1(3) kept_emit [OF r1, of bs] len by (auto simp: kept_def place_kept_def)
  ultimately show ?case using fs(1) 2(2) 4(2,3,4)
    by (intro exI [of _ pk'] exI [of _ "bs # ds"]) simp
qed

text \<open>The bytes of a message with its name and arguments.\<close>

definition osc_message :: "bool \<Rightarrow> byte list \<Rightarrow> slot list \<Rightarrow> byte list \<Rightarrow> bool" where
  "osc_message ud name fs m \<longleftrightarrow> (\<exists>ds. list_all2 (arg_data ud) fs ds \<and>
     m = osc_pad name @ osc_pad (tag_of (CHR '','') # map (arg_tag ud) fs) @ concat ds)"

definition msg_words :: "bool \<Rightarrow> byte list \<Rightarrow> slot list \<Rightarrow> nat" where
  "msg_words ud name fs = (length name + 4) div 4 + (length fs + 5) div 4 + data_words ud fs"

lemma data_length:
  "list_all2 (arg_data ud) fs ds \<Longrightarrow> \<forall>f \<in> set fs. sendable f \<Longrightarrow> length (concat ds) = 4 * data_words ud fs"
  by (induction fs ds rule: list_all2_induct) (auto simp: arg_data_length)

lemma message_length: "osc_message ud name fs m \<Longrightarrow> \<forall>f \<in> set fs. sendable f \<Longrightarrow> length m = 4 * msg_words ud name fs"
  by (auto simp: osc_message_def msg_words_def length_pad data_length)

text \<open>The language adds a slash to names without one.\<close>

definition slashed :: "byte list \<Rightarrow> byte list" where
  "slashed n = (if take 1 n = [tag_of (CHR ''/'')] then n else bytes_of ''/'' @ n)"

lemma address_ok:
  assumes "0 \<notin> set n" "room pk ((length (slashed n) + 4) div 4)"
  shows "(if take 1 n \<noteq> [tag_of (CHR ''/'')] then ok (adds_slpre n pk) else addMsgSlot fresh off ud (SSym n) pk)
    = ok (Inr (emit (osc_pad (slashed n)) pk))"
  using assms adds_slpre_ok [of pk n] adds_ok [of pk n]
  by (auto simp: slashed_def addMsgSlot.simps [of _ _ _ "SSym n"] add.commute)

text \<open>The tags and the data behind the name.\<close>

lemma message_body:
  assumes "sends fresh off ud args fs" "room pk ((length fs + 5) div 4 + data_words ud fs + k)"
  shows "\<exists>pk2 pk' ds. res_bind (maketags (Suc (length args)) pk) (addtag (tag_of (CHR '',''))) = Inr pk2 \<and>
    args_loop fresh off ud args pk2 = Inr (errNone, pk') \<and> list_all2 (arg_data ud) fs ds \<and> kept pk' pk \<and> room pk' k \<and>
    pdata pk' = pdata pk @ osc_pad (tag_of (CHR '','') # map (arg_tag ud) fs) @ concat ds"
proof -
  let ?n = "Suc (length args)"
  have len: "length args = length fs" using assms(1) by (auto simp: sends_def list_all2_lengthD)
  have words: "(?n + 4) div 4 = (length fs + 5) div 4" using len by simp
  obtain pk1 area where 1: "maketags ?n pk = Inr pk1" "tagging pk1 (pdata pk) [] area []"
      "length area = 4 * ((?n + 4) div 4)" "drop (4 * (?n div 4)) area = replicate 4 0"
      "wrpos pk1 = wrpos pk + (?n + 4) div 4" "kept pk1 pk"
    using maketags_ok [of pk ?n] room_mono [OF assms(2)] words by (auto simp: kept_def)
  have area: "?n < length area" using 1(3) by presburger
  have r1: "room pk1 (data_words ud fs + k)"
    using assms(2) 1(5,6) words by (simp add: room_def kept_def algebra_simps)
  obtain pk2 where 2: "addtag (tag_of (CHR '','')) pk1 = Inr pk2" "tagging pk2 (pdata pk) [tag_of (CHR '','')] area []" "place_kept pk2 pk1"
    using addtag_ok [OF 1(2)] area by fastforce
  have r2: "room pk2 (data_words ud fs + k)" using r1 place_kept_room [OF 2(3)] by simp
  obtain pk' ds where 3: "args_loop fresh off ud args pk2 = Inr (errNone, pk')" "list_all2 (arg_data ud) fs ds"
      "tagging pk' (pdata pk) (tag_of (CHR '','') # map (arg_tag ud) fs) area (concat ds)" "room pk' k" "kept pk' pk2"
    using args_loop_ok [OF assms(1) 2(2) _ r2] area len by auto
  have "drop ?n area = drop (?n mod 4) (drop (4 * (?n div 4)) area)" by (simp add: drop_drop)
  then have "drop ?n area = replicate (4 - ?n mod 4) 0" using 1(4) by simp
  then have "pdata pk' = pdata pk @ osc_pad (tag_of (CHR '','') # map (arg_tag ud) fs) @ concat ds"
    using 3(3) len by (simp add: tagging_def osc_pad_def)
  moreover have "kept pk' pk" using 3(5) 2(3) 1(6) by (auto simp: kept_def place_kept_def)
  ultimately show ?thesis using 1(1) 2(1) 3(1,2,4) by auto
qed

text \<open>In a bundle, a message has its size in front.\<close>

definition framed :: "bool \<Rightarrow> byte list \<Rightarrow> byte list" where
  "framed b m = (if b then sc_htonl (of_nat (length m)) @ m else m)"

text \<open>What follows \<open>BeginMsg\<close>.\<close>

abbreviation after_begin :: "(slot list \<Rightarrow> byte list) \<Rightarrow> int \<Rightarrow> bool \<Rightarrow> byte list \<Rightarrow> slot list \<Rightarrow> packet \<Rightarrow> pk_err + int \<times> packet" where
  "after_begin fresh off ud n args pk \<equiv>
     no_error (if take 1 n \<noteq> [tag_of (CHR ''/'')] then ok (adds_slpre n pk) else addMsgSlot fresh off ud (SSym n) pk)
       (\<lambda>pk. res_bind (maketags (Suc (length args)) pk) (\<lambda>pk. res_bind (addtag (tag_of (CHR '','')) pk) (\<lambda>pk.
        no_error (try_args (args_loop fresh off ud args pk)) (\<lambda>pk. ok (EndMsg pk)))))"

lemma message_written:
  assumes "sends fresh off ud args fs" "0 \<notin> set n" "room pk (msg_words ud (slashed n) fs + k)"
  shows "\<exists>pk' m. after_begin fresh off ud n args pk = ok (EndMsg pk') \<and>
     osc_message ud (slashed n) fs m \<and> pdata pk' = pdata pk @ m \<and> room pk' k \<and> kept pk' pk"
proof -
  let ?h = "osc_pad (slashed n)"
  have h: "length ?h div 4 = (length (slashed n) + 4) div 4" "4 dvd length ?h" by (rule length_pad_words)+
  have rh: "room pk (length ?h div 4)" using room_mono [OF assms(3)] h by (simp add: msg_words_def)
  note addr = address_ok [OF assms(2), of pk fresh off ud]
  have r1: "room (emit ?h pk) ((length fs + 5) div 4 + data_words ud fs + k)"
    using h by (intro room_emit [OF assms(3)]) (simp_all add: msg_words_def)
  obtain pk2 pk' ds where b: "res_bind (maketags (Suc (length args)) (emit ?h pk)) (addtag (tag_of (CHR '',''))) = Inr pk2"
      "args_loop fresh off ud args pk2 = Inr (errNone, pk')" "list_all2 (arg_data ud) fs ds" "kept pk' (emit ?h pk)" "room pk' k"
      "pdata pk' = pdata (emit ?h pk) @ osc_pad (tag_of (CHR '','') # map (arg_tag ud) fs) @ concat ds"
    using message_body [OF assms(1) r1] by blast
  obtain pk1 where "maketags (Suc (length args)) (emit ?h pk) = Inr pk1" "addtag (tag_of (CHR '','')) pk1 = Inr pk2"
    using b(1) by (cases "maketags (Suc (length args)) (emit ?h pk)") auto
  then have "after_begin fresh off ud n args pk = ok (EndMsg pk')"
    using addr [OF rh [unfolded h]] b(2) by (simp only: no_error_ok res_bind_simps) (simp add: no_error_def try_args_def)
  moreover have "osc_message ud (slashed n) fs (?h @ osc_pad (tag_of (CHR '','') # map (arg_tag ud) fs) @ concat ds)"
    using b(3) by (auto simp: osc_message_def)
  moreover have "kept pk' pk" using kept_trans [OF b(4) kept_emit [OF rh _ h(2)]] by simp
  moreover have "pdata pk' = pdata pk @ (?h @ osc_pad (tag_of (CHR '','') # map (arg_tag ud) fs) @ concat ds)"
    using b(6) pdata_emit [OF rh h(2)] by simp
  ultimately show ?thesis using b(5) by blast
qed

lemma make_message:
  assumes "sends fresh off ud args fs" "0 \<notin> set n"
    "room pk (of_bool (inbundle pk \<noteq> 0) + msg_words ud (slashed n) fs + k)"
  shows "\<exists>pk' m. makeSynthMsgWithTags fresh off ud (SSym n # args) pk = Inr (errNone, pk') \<and>
    osc_message ud (slashed n) fs m \<and> pdata pk' = pdata pk @ framed (inbundle pk \<noteq> 0) m \<and> room pk' k \<and>
    inbundle pk' = inbundle pk \<and> length (buf pk') = length (buf pk)"
proof (cases "inbundle pk = 0")
  case True
  then have r: "room pk (msg_words ud (slashed n) fs + k)" using assms(3) by simp
  obtain pk' m where w: "after_begin fresh off ud n args pk = ok (EndMsg pk')"
      "osc_message ud (slashed n) fs m" "pdata pk' = pdata pk @ m" "room pk' k" "kept pk' pk"
    using message_written [OF assms(1,2) r] by blast
  have "EndMsg pk' = Inr pk'" using w(5) True by (simp add: EndMsg_def kept_def)
  then have "makeSynthMsgWithTags fresh off ud (SSym n # args) pk = Inr (errNone, pk')"
    using w(1) True by (simp add: makeSynthMsgWithTags.simps BeginMsg_def ok_def)
  then show ?thesis using w True by (auto simp: framed_def kept_def)
next
  case False
  let ?pk0 = "emit (sc_htonl 0) (pk\<lparr>msgsizepos := Some (wrpos pk)\<rparr>)"
  have r: "room (pk\<lparr>msgsizepos := Some (wrpos pk)\<rparr>) (1 + (msg_words ud (slashed n) fs + k))"
    using assms(3) False by (simp add: room_def add.assoc)
  have b: "BeginMsg pk = Inr ?pk0" using False addi_ok [OF room_mono [OF r, of 1], of 0] by (simp add: BeginMsg_def)
  have r0: "room ?pk0 (msg_words ud (slashed n) fs + k)" by (rule room_emit [OF r]) simp_all
  obtain pk' m where w: "after_begin fresh off ud n args ?pk0 = ok (EndMsg pk')"
      "osc_message ud (slashed n) fs m" "pdata pk' = pdata ?pk0 @ m" "room pk' k" "kept pk' ?pk0"
    using message_written [OF assms(1,2) r0] by blast
  have p0: "pdata ?pk0 = pdata pk @ sc_htonl 0"
    using pdata_emit [OF room_mono [OF r], of "sc_htonl 0"] by (simp add: pdata_def psize_def)
  have lp: "length (pdata pk) = 4 * wrpos pk" using assms(3) by (intro length_pdata) (simp add: room_def)
  have l': "4 * wrpos pk' = 4 * wrpos pk + 4 + length m"
    using length_pdata [of pk'] w(3,4) p0 lp room_mono [of pk' k 0] by simp
  have size: "(int (wrpos pk') - int (wrpos pk) - 1) * 4 = int (length m)" using l' by simp
  obtain pk'' where s: "store (int (4 * wrpos pk)) (sc_htonl (of_nat (length m))) pk' = Inr pk''" "place_kept pk'' pk'"
      "pdata pk'' = take (4 * wrpos pk) (pdata pk') @ sc_htonl (of_nat (length m)) @ drop (4 * wrpos pk + 4) (pdata pk')"
    using store_pdata [of "4 * wrpos pk" "sc_htonl (of_nat (length m))" pk'] l' room_mono [OF w(4), of 0] by auto
  have "EndMsg pk' = Inr pk''"
    using w(5) False s(1) size by (simp add: EndMsg_def kept_def)
  then have "makeSynthMsgWithTags fresh off ud (SSym n # args) pk = Inr (errNone, pk'')"
    using w(1) b by (simp add: makeSynthMsgWithTags.simps [of _ _ _ "SSym n # args"] ok_def)
  moreover have "pdata pk'' = pdata pk @ framed True m"
    using s(3) w(3) p0 lp by (simp add: framed_def)
  moreover have "length (buf ?pk0) = length (buf pk)"
    using length_emit [OF room_mono [OF r], of "sc_htonl 0"] by simp
  ultimately show ?thesis using w(2,4,5) s(2) place_kept_room [OF s(2)] False
    by (intro exI [of _ pk''] exI [of _ m]) (simp add: kept_def place_kept_def)
qed

section \<open>What is received\<close>

text \<open>
  The values that a message converts to. Values without data, behind the last one with data, are
  all read as the first of them.
\<close>

definition received_value :: "bool \<Rightarrow> slot \<Rightarrow> slot" where
  "received_value ud f = (case f of SFloat x \<Rightarrow> SFloat (if ud then x else widen (narrow x)) | _ \<Rightarrow> f)"

fun received :: "bool \<Rightarrow> slot list \<Rightarrow> slot list" where
  "received ud [] = []"
| "received ud (f # fs) =
     (if data_words ud (f # fs) = 0 then replicate (Suc (length fs)) f
      else received_value ud f # received ud fs)"

text \<open>The reader has \<open>ds\<close> left and is at the tag \<open>c\<close>.\<close>

definition reads :: "byte list \<Rightarrow> msg_iter \<Rightarrow> nat \<Rightarrow> bool" where
  "reads rest it n \<longleftrightarrow> (\<exists>A B. mem it = A @ rest @ B \<and> rdpos it = int (length A)) \<and>
     endpos it = rdpos it + int n \<and> n < 2 ^ 64"

lemma reads_remain: "reads rest it n \<Longrightarrow> remain it = n"
  by (auto simp: reads_def remain_def)

lemma reads_next: "reads (bs @ rest) it (length bs + n) \<Longrightarrow> reads rest (counted (advance (int (length bs)) it)) n"
proof -
  assume *: "reads (bs @ rest) it (length bs + n)"
  then obtain A B where "mem it = (A @ bs) @ rest @ B" "rdpos it = int (length A)" by (auto simp: reads_def)
  then have "mem (counted (advance (int (length bs)) it)) = (A @ bs) @ rest @ B"
    "rdpos (counted (advance (int (length bs)) it)) = int (length (A @ bs))"
    by (simp_all add: counted_def advance_def)
  moreover have "endpos it = rdpos it + int (length bs + n)" "n < 2 ^ 64" using * by (auto simp: reads_def)
  ultimately show ?thesis unfolding reads_def by (intro conjI exI [of _ "A @ bs"] exI [of _ B]) (auto simp: counted_def advance_def)
qed

lemma advance_simps [simp]: "mem (advance n it) = mem it" "tags (advance n it) = tags it" "count (advance n it) = count it"
  "rdpos (advance n it) = rdpos it + n" "advance m (advance n it) = advance (n + m) it"
  by (simp_all add: advance_def add.assoc)

lemma blob_at:
  assumes "b \<noteq> []" "length b < 2 ^ 31" "bs = osc_blob b junk" "length bs = 4 * ((length b + 3) div 4 + 1)"
    "tags it = Some t" "read_byte (mem it) (t + count it) = Some (tag_of (CHR ''b''))"
    "reads (bs @ rest) it n" "length bs \<le> n"
  shows "MsgToInt8Array it = Some (b, counted (advance (int (length bs)) it))"
proof -
  obtain A B where m: "mem it = A @ bs @ rest @ B" "rdpos it = int (length A)" using assms(7) by (auto simp: reads_def)
  have n: "remain it \<noteq> 0" using reads_remain [OF assms(7)] assms(1,4,8) by (cases b) auto
  have i: "OSCint (mem it) (rdpos it) = Some (of_nat (length b))"
    by (rule OSCint_in [of _ A _ "b @ junk @ rest @ B"]) (simp_all add: m assms(3) osc_blob_def)
  have r: "read_bytes (mem it) (rdpos it + 4) (length b) = Some b"
    using read_bytes_at [of "A @ sc_htonl (of_nat (length b))" b "junk @ rest @ B"]
    by (simp add: m assms(3) osc_blob_def add.commute)
  have "getbsize it = Some (of_nat (length b))"
    using n assms(5,6) i blob_size(1) [OF assms(2)] by (simp add: getbsize_def)
  moreover have "getb (of_nat (length b)) it = Some (Some b, counted (advance (int (length bs)) it))"
    using assms(4,5,6) i r blob_size [OF assms(2)] by (simp add: getb_def)
  ultimately show ?thesis using blob_size [OF assms(2)] by (simp add: MsgToInt8Array_def)
qed

text \<open>One argument with data.\<close>

lemma convert_arg_data:
  assumes "sendable f" "arg_data ud f bs" "bs \<noteq> []" "tags it = Some t"
    "read_byte (mem it) (t + count it) = Some (arg_tag ud f)" "reads (bs @ rest) it (length bs + n)"
  shows "convert_arg off it = Some (received_value ud f, counted (advance (int (length bs)) it))"
proof -
  obtain A B where m: "mem it = A @ bs @ rest @ B" "rdpos it = int (length A)" using assms(6) by (auto simp: reads_def)
  have n: "remain it \<noteq> 0" using reads_remain [OF assms(6)] assms(3) by simp
  have tag: "nextTag d it = Some (arg_tag ud f)" for d using assms(4,5) by (simp add: nextTag_def)
  show ?thesis
  proof (cases f)
    case (SInt i)
    then show ?thesis using assms(2) n tag m by (simp add: convert_arg_def geti_def received_value_def)
  next
    case (SFloat x)
    then show ?thesis using assms(2) n tag m
      by (cases ud) (simp_all add: convert_arg_def getf_def getd_def received_value_def)
  next
    case (SSym s)
    have "skip_string it = Some (it\<lparr>rdpos := int (length A + length bs)\<rparr>)"
      using strskip_at [of s A "rest @ B"] assms(1,2) m SSym by (simp add: skip_string_def)
    moreover have "getsym (mem it) (Some (int (length A))) = Some (SSym s)"
      using cstring_at [of s A "rest @ B"] assms(1,2) m SSym by (simp add: getsym_def)
    ultimately show ?thesis using n tag m SSym
      by (simp add: convert_arg_def gets_def received_value_def counted_def advance_def)
  next
    case (SBytes b)
    then obtain junk where "bs = osc_blob b junk" "length bs = 4 * ((length b + 3) div 4 + 1)" using assms(2) by auto
    then show ?thesis using blob_at [of b bs junk it t rest "length bs + n"] assms tag SBytes
      by (simp add: convert_arg_def received_value_def)
  qed (use assms in simp_all)
qed

text \<open>A value without data: the reader only moves on when data is left.\<close>

lemma convert_arg_char:
  assumes "sendable (SChar c)" "tags it = Some t" "read_byte (mem it) (t + count it) = Some c"
  shows "convert_arg off it = Some (SChar c, if remain it = 0 then it else counted it)"
proof -
  have tag: "nextTag d it = Some c" for d using assms(2,3) by (simp add: nextTag_def)
  have "c \<noteq> tag_of (CHR ''i'')" "c \<noteq> tag_of (CHR ''f'')" "c \<noteq> tag_of (CHR ''d'')" "c \<noteq> tag_of (CHR ''s'')"
    "c \<noteq> tag_of (CHR ''b'')" "c \<noteq> tag_of (CHR ''m'')" "c \<noteq> tag_of (CHR ''c'')" "c \<noteq> tag_of (CHR ''t'')"
    "c \<noteq> tag_of (CHR ''T'')" "c \<noteq> tag_of (CHR ''F'')" "c \<noteq> tag_of (CHR ''I'')" "c \<noteq> tag_of (CHR ''N'')"
    using assms(1) by (auto simp: tag_letters_def bytes_of_def)
  then show ?thesis using tag by (simp add: convert_arg_def gets_def)
qed

lemma words_zero: "sendable f \<Longrightarrow> arg_words ud f = 0 \<Longrightarrow> \<exists>c. f = SChar c"
  by (cases f) (auto split: if_splits)

lemma convert_loop_stuck:
  assumes "sendable (SChar c)" "tags it = Some t" "read_byte (mem it) (t + count it) = Some c" "remain it = 0"
  shows "convert_loop off n it = Some (replicate n (SChar c))"
  by (induction n) (simp_all add: convert_arg_char [OF assms(1-3)] assms(4))

text \<open>The reader is in front of the arguments \<open>fs\<close>, with their tags and data.\<close>

definition at_args :: "bool \<Rightarrow> slot list \<Rightarrow> msg_iter \<Rightarrow> bool" where
  "at_args ud fs it \<longleftrightarrow> (\<exists>ds t. list_all2 (arg_data ud) fs ds \<and> reads (concat ds) it (length (concat ds)) \<and> tags it = Some t \<and>
     (\<forall>i < length fs. read_byte (mem it) (t + count it + int i) = Some (arg_tag ud (fs ! i))))"

lemma at_args_remain: "at_args ud fs it \<Longrightarrow> \<forall>f \<in> set fs. sendable f \<Longrightarrow> remain it = 4 * data_words ud fs"
  using data_length reads_remain by (auto simp: at_args_def)

lemma at_args_tag:
  assumes "at_args ud (f # fs) it"
  shows "\<exists>t. tags it = Some t \<and> read_byte (mem it) (t + count it) = Some (arg_tag ud f)"
  using assms by (fastforce simp: at_args_def dest: spec [of _ 0])

lemma at_args_step:
  assumes "at_args ud (f # fs) it"
  shows "\<exists>bs rest. arg_data ud f bs \<and> reads (bs @ rest) it (length bs + length rest) \<and>
    at_args ud fs (counted (advance (int (length bs)) it))"
proof -
  obtain bs ds t where a: "arg_data ud f bs" "list_all2 (arg_data ud) fs ds" "tags it = Some t"
      "reads (bs @ concat ds) it (length bs + length (concat ds))"
      "\<forall>i < Suc (length fs). read_byte (mem it) (t + count it + int i) = Some (arg_tag ud ((f # fs) ! i))"
    using assms by (auto simp: at_args_def list_all2_Cons1)
  let ?it = "counted (advance (int (length bs)) it)"
  have "read_byte (mem ?it) (t + count ?it + int i) = Some (arg_tag ud (fs ! i))" if "i < length fs" for i
    using spec [OF a(5), of "Suc i"] that by (simp add: counted_def add.assoc)
  moreover have "tags ?it = Some t" using a(3) by (simp add: counted_def)
  ultimately have "at_args ud fs ?it" using a(2) reads_next [OF a(4)] by (auto simp: at_args_def)
  then show ?thesis using a(1,4) by blast
qed

lemma convert_loop_ok:
  "at_args ud fs it \<Longrightarrow> \<forall>f \<in> set fs. sendable f \<Longrightarrow> convert_loop off (length fs) it = Some (received ud fs)"
proof (induction fs arbitrary: it)
  case (Cons f fs)
  obtain t where tag: "tags it = Some t" "read_byte (mem it) (t + count it) = Some (arg_tag ud f)"
    using at_args_tag [OF Cons.prems(1)] by blast
  obtain bs rest where bs: "arg_data ud f bs" "reads (bs @ rest) it (length bs + length rest)"
      "at_args ud fs (counted (advance (int (length bs)) it))"
    using at_args_step [OF Cons.prems(1)] by blast
  have s: "sendable f" "\<forall>f \<in> set fs. sendable f" using Cons.prems(2) by auto
  have remain: "remain it = 4 * data_words ud (f # fs)" by (rule at_args_remain [OF Cons.prems])
  show ?case
  proof (cases "data_words ud (f # fs) = 0")
    case True
    then obtain c where c: "f = SChar c" using words_zero [OF s(1)] by auto
    then show ?thesis using convert_loop_stuck [of c it t off "length (f # fs)"] s(1) tag True remain by simp
  next
    case False
    have "convert_arg off it = Some (received_value ud f, counted (advance (int (length bs)) it))"
    proof (cases "bs = []")
      case True
      then obtain c where "f = SChar c" using words_zero [OF s(1), of ud] arg_data_length [OF s(1) bs(1)] by auto
      then show ?thesis using convert_arg_char [of c it t off] s(1) tag True False remain
        by (simp add: received_value_def advance_def)
    next
      case nonempty: False
      then show ?thesis using convert_arg_data [OF s(1) bs(1) _ tag] bs(2) by blast
    qed
    then show ?thesis using Cons.IH [OF bs(3) s(2)] False by auto
  qed
qed simp

text \<open>A message anywhere in the memory.\<close>

lemma message_iter:
  assumes "osc_message ud name fs m" "0 \<notin> set name" "\<forall>f \<in> set fs. sendable f" "length m < 2 ^ 63"
  shows "\<exists>it t. OSCstrlen (X @ m @ Y) (int (length X)) = Some (int (length (osc_pad name))) \<and> length (osc_pad name) < length m \<and>
    msg_init (X @ m @ Y) (int (length m) - int (length (osc_pad name))) (int (length X) + int (length (osc_pad name))) = Some it \<and>
    at_args ud fs it \<and> mem it = X @ m @ Y \<and> tags it = Some t \<and> cstring (X @ m @ Y) t = Some (map (arg_tag ud) fs)"
proof -
  obtain ds where ds: "list_all2 (arg_data ud) fs ds"
      "m = osc_pad name @ osc_pad (tag_of (CHR '','') # map (arg_tag ud) fs) @ concat ds"
    using assms(1) by (auto simp: osc_message_def)
  define ts where "ts = map (arg_tag ud) fs"
  have "sendable f \<Longrightarrow> arg_tag ud f \<noteq> 0" for f by (cases f) auto
  then have ts: "0 \<notin> set (tag_of (CHR '','') # ts)" using assms(3) by (auto simp: ts_def)
  obtain z where z: "osc_pad (tag_of (CHR '','') # ts) = tag_of (CHR '','') # ts @ 0 # z" using pad_zero [of "tag_of (CHR '','') # ts"] by auto
  let ?M = "X @ m @ Y" and ?N = "X @ osc_pad name" and ?P = "osc_pad (tag_of (CHR '','') # ts)"
  have M: "?M = ?N @ ?P @ concat ds @ Y" using ds by (simp add: ts_def)
  have skip1: "OSCstrlen ?M (int (length X)) = Some (int (length (osc_pad name)))"
    using strskip_at [OF assms(2), of X "?P @ concat ds @ Y"] M by (simp add: OSCstrlen_def)
  have skip2: "OSCstrskip ?M (int (length ?N)) = Some (int (length ?N + length ?P))"
    using strskip_at [OF ts, of ?N "concat ds @ Y"] M by simp
  have comma: "read_byte ?M (int (length ?N)) = Some (tag_of (CHR '',''))"
    using read_byte_at [of ?N "tag_of (CHR '','')" "ts @ 0 # z @ concat ds @ Y"] M z by simp
  define it where "it = \<lparr>mem = ?M, rdpos = int (length ?N + length ?P),
    endpos = int (length X) + int (length m), tags = Some (int (length ?N) + 1), count = 0\<rparr>"
  have msg_init: "msg_init ?M (int (length m) - int (length (osc_pad name))) (int (length X) + int (length (osc_pad name))) = Some it"
    using comma skip2 by (simp add: msg_init_def it_def algebra_simps)
  have str: "cstring ?M (int (length ?N) + 1) = Some ts"
    using string_at [of ts "?N @ [tag_of (CHR '','')]" "z @ concat ds @ Y"] ts M z by (simp add: add.commute)
  have longer: "length (osc_pad name) < length m" using ds(2) z by (simp flip: ts_def)
  have "length m = length (osc_pad name) + length ?P + length (concat ds)" using ds by (simp add: ts_def)
  then have "reads (concat ds) it (length (concat ds))" unfolding reads_def using M assms(4)
    by (intro conjI exI [of _ "?N @ ?P"] exI [of _ Y]) (simp_all add: it_def)
  moreover have "read_byte (mem it) (int (length ?N) + 1 + count it + int i) = Some (arg_tag ud (fs ! i))" if i: "i < length fs" for i
  proof -
    have "i < length ts" "ts ! i = arg_tag ud (fs ! i)" using i by (simp_all add: ts_def)
    then have "take i ts @ arg_tag ud (fs ! i) # drop (Suc i) ts = ts" by (metis id_take_nth_drop)
    then have "take i ts @ arg_tag ud (fs ! i) # drop (Suc i) ts @ 0 # z @ concat ds @ Y = ts @ 0 # z @ concat ds @ Y"
      by (metis append_Cons append_assoc)
    then have "?M = (?N @ tag_of (CHR '','') # take i ts) @ arg_tag ud (fs ! i) # (drop (Suc i) ts @ 0 # z @ concat ds @ Y)"
      using M z by simp
    then show ?thesis
      using read_byte_at [of "?N @ tag_of (CHR '','') # take i ts" "arg_tag ud (fs ! i)"] i
      by (simp add: it_def ts_def min_absorb2 ac_simps)
  qed
  ultimately have "at_args ud fs it" using ds(1) by (auto simp: at_args_def it_def)
  then show ?thesis using skip1 longer msg_init str by (intro exI [of _ it] exI [of _ "int (length ?N) + 1"]) (simp add: it_def ts_def)
qed

lemma convert_message:
  assumes "osc_message ud name fs m" "0 \<notin> set name" "\<forall>f \<in> set fs. sendable f" "length m < 2 ^ 63"
  shows "ConvertOSCMessage off (X @ m @ Y) (int (length m)) (int (length X)) = Some (SSym name # received ud fs)"
proof -
  obtain it t where it: "OSCstrlen (X @ m @ Y) (int (length X)) = Some (int (length (osc_pad name)))" "length (osc_pad name) < length m"
      "msg_init (X @ m @ Y) (int (length m) - int (length (osc_pad name))) (int (length X) + int (length (osc_pad name))) = Some it"
      "at_args ud fs it" "tags it = Some t" "cstring (X @ m @ Y) t = Some (map (arg_tag ud) fs)"
    using message_iter [OF assms, of X Y] by auto
  have "getsym (X @ m @ Y) (Some (int (length X))) = Some (SSym name)"
    using assms(1) cstring_at [OF assms(2), of X] by (auto simp: getsym_def osc_message_def)
  then show ?thesis using it convert_loop_ok [OF it(4) assms(3), of off] by (simp add: ConvertOSCMessage_def)
qed

section \<open>Bundles\<close>

text \<open>
  The messages of a bundle, each a name with its arguments, and what is sent for them. A name is
  sent with a slash.
\<close>

definition sends_all :: "(slot list \<Rightarrow> byte list) \<Rightarrow> int \<Rightarrow> bool \<Rightarrow> (byte list \<times> slot list) list \<Rightarrow> (byte list \<times> slot list) list \<Rightarrow> bool" where
  "sends_all fresh off ud msgs outs \<longleftrightarrow>
     list_all2 (\<lambda>(n, args) (name, fs). name = slashed n \<and> 0 \<notin> set n \<and> sends fresh off ud args fs) msgs outs"

definition array_of :: "byte list \<times> slot list \<Rightarrow> slot" where
  "array_of msg = SArr (SSym (fst msg) # snd msg)"

definition bundle_words :: "bool \<Rightarrow> (byte list \<times> slot list) list \<Rightarrow> nat" where
  "bundle_words ud outs = sum_list (map (\<lambda>(name, fs). 1 + msg_words ud name fs) outs)"

lemma bundle_words_simps [simp]: "bundle_words ud [] = 0"
  "bundle_words ud ((name, fs) # outs) = 1 + msg_words ud name fs + bundle_words ud outs"
  by (simp_all add: bundle_words_def)

definition osc_messages :: "bool \<Rightarrow> (byte list \<times> slot list) list \<Rightarrow> byte list list \<Rightarrow> bool" where
  "osc_messages ud outs ms \<longleftrightarrow> list_all2 (\<lambda>(name, fs) m. osc_message ud name fs m) outs ms"

lemma msgs_loop_ok:
  assumes "sends_all fresh off ud msgs outs" "inbundle pk \<noteq> 0" "room pk (bundle_words ud outs + k)"
  shows "\<exists>pk' ms. msgs_loop fresh off ud (map array_of msgs) pk = Inr (errNone, pk') \<and> osc_messages ud outs ms \<and>
    pdata pk' = pdata pk @ concat (map (framed True) ms) \<and> room pk' k \<and> inbundle pk' = inbundle pk \<and>
    length (buf pk') = length (buf pk)"
  using assms
proof (induction msgs arbitrary: outs pk)
  case Nil
  then show ?case by (auto simp: sends_all_def osc_messages_def msgs_loop.simps [of _ _ _ "[]"])
next
  case (Cons msg msgs)
  obtain n args where msg: "msg = (n, args)" by (cases msg)
  obtain fs outs' where o: "outs = (slashed n, fs) # outs'" "0 \<notin> set n" "sends fresh off ud args fs" "sends_all fresh off ud msgs outs'"
    using Cons.prems(1) by (auto simp: sends_all_def list_all2_Cons1 msg)
  have r: "room pk (of_bool (inbundle pk \<noteq> 0) + msg_words ud (slashed n) fs + (bundle_words ud outs' + k))"
    using Cons.prems(2,3) o(1) by (simp add: ac_simps)
  obtain pk1 m where 1: "makeSynthMsgWithTags fresh off ud (SSym n # args) pk = Inr (errNone, pk1)"
      "osc_message ud (slashed n) fs m" "pdata pk1 = pdata pk @ framed (inbundle pk \<noteq> 0) m" "room pk1 (bundle_words ud outs' + k)"
      "inbundle pk1 = inbundle pk" "length (buf pk1) = length (buf pk)"
    using make_message [OF o(3,2) r] by blast
  obtain pk' ms where 2: "msgs_loop fresh off ud (map array_of msgs) pk1 = Inr (errNone, pk')" "osc_messages ud outs' ms"
      "pdata pk' = pdata pk1 @ concat (map (framed True) ms)" "room pk' k" "inbundle pk' = inbundle pk1" "length (buf pk') = length (buf pk1)"
    using Cons.IH [OF o(4) _ 1(4)] Cons.prems(2) 1(5) by auto
  have "msgs_loop fresh off ud (map array_of (msg # msgs)) pk = Inr (errNone, pk')"
    using 1(1) 2(1) by (simp add: msgs_loop.simps [of _ _ _ "_ # _"] array_of_def msg no_error_def)
  then show ?case using 1 2 o(1) Cons.prems(2)
    by (intro exI [of _ pk'] exI [of _ "m # ms"]) (simp add: osc_messages_def)
qed

definition osc_bundle :: "64 word \<Rightarrow> byte list list \<Rightarrow> byte list" where
  "osc_bundle time ms = osc_pad (bytes_of ''#bundle'') @ htonll time @ concat (map (framed True) ms)"

lemma bundle_name: "0 \<notin> set (bytes_of ''#bundle'')" "0 \<notin> set (bytes_of ''/'')"
  by (simp_all add: bytes_of_def)

lemma make_bundle:
  assumes "sends_all fresh off ud msgs outs" "bundle_time off useElapsed s = Some time" "inbundle pk = 0"
    "room pk (4 + bundle_words ud outs)"
  shows "\<exists>pk' ms. makeSynthBundle fresh off ud useElapsed (s # map array_of msgs) pk = Inr (errNone, pk') \<and>
    osc_messages ud outs ms \<and> pdata pk' = pdata pk @ osc_bundle time ms \<and> room pk' 0"
proof -
  let ?h = "osc_pad (bytes_of ''#bundle'')"
  have h: "length ?h = 8" "(length (bytes_of ''#bundle'') + 4) div 4 = 2" by (simp_all add: osc_pad_def)
  let ?pk0 = "pk\<lparr>inbundle := inbundle pk + 1\<rparr>"
  have r0: "room ?pk0 (4 + bundle_words ud outs)" using assms(4) by (simp add: room_def)
  have a: "adds (bytes_of ''#bundle'') ?pk0 = Inr (emit ?h ?pk0)"
    using adds_ok [of ?pk0 "bytes_of ''#bundle''"] room_mono [OF r0, of 2] h bundle_name(1) by simp
  have r1: "room (emit ?h ?pk0) (2 + bundle_words ud outs)" using room_emit [OF r0] h by simp
  let ?pk1 = "emit (htonll time) (emit ?h ?pk0)"
  have o: "OpenBundle time pk = Inr ?pk1"
    using a addii_ok [OF room_mono [OF r1, of 2], of time] by (simp add: OpenBundle_def)
  have r2: "room ?pk1 (bundle_words ud outs + 0)" using room_emit [OF r1] by simp
  have p1: "pdata ?pk1 = pdata pk @ ?h @ htonll time"
    using pdata_emit [OF room_mono [OF r1], of "htonll time"] pdata_emit [OF room_mono [OF r0], of ?h] h
    by (simp add: pdata_def psize_def)
  obtain pk' ms where 2: "msgs_loop fresh off ud (map array_of msgs) ?pk1 = Inr (errNone, pk')" "osc_messages ud outs ms"
      "pdata pk' = pdata ?pk1 @ concat (map (framed True) ms)" "room pk' 0"
    using msgs_loop_ok [OF assms(1) _ r2] assms(3) by auto
  have "makeSynthBundle fresh off ud useElapsed (s # map array_of msgs) pk = Inr (errNone, CloseBundle pk')"
    using assms(2) o 2(1) by (simp add: makeSynthBundle.simps no_error_def)
  moreover have "pdata (CloseBundle pk') = pdata pk'" "room (CloseBundle pk') 0 = room pk' 0"
    by (simp_all add: CloseBundle_def pdata_def psize_def room_def)
  ultimately show ?thesis using 2 p1 by (auto simp: osc_bundle_def)
qed

lemma slashed_name: "0 \<notin> set n \<Longrightarrow> 0 \<notin> set (slashed n)" "slashed n \<noteq> bytes_of ''#bundle''" "take 1 (slashed n) = bytes_of ''/''"
  using bundle_name(2) by (auto simp: slashed_def bytes_of_def split: if_splits)

lemma sends_sendable: "sends fresh off ud args fs \<Longrightarrow> \<forall>f \<in> set fs. sendable f"
  by (auto simp: sends_def list_all2_conv_all_nth in_set_conv_nth)

lemma message_name:
  assumes "osc_message ud name fs m" "0 \<notin> set name"
  shows "cstring (X @ m @ Y) (int (length X)) = Some name"
  using assms cstring_at [OF assms(2), of X] by (auto simp: osc_message_def)

text \<open>The size in front of a message.\<close>

lemma framed_size:
  assumes "length m < 2 ^ 31"
  shows "map_option sint (OSCint (X @ framed True m @ Y) (int (length X))) = Some (int (length m))"
  using OSCint_at [of X "of_nat (length m)" "m @ Y"] blob_size(3) [OF assms] by (simp add: framed_def)

lemma length_framed: "length (framed True m) = 4 + length m"
  by (simp add: framed_def)

lemma lang_bundle_loop:
  assumes "osc_messages ud outs ms" "\<forall>(name, fs) \<in> set outs. 0 \<notin> set name \<and> name \<noteq> bytes_of ''#bundle'' \<and> (\<forall>f \<in> set fs. sendable f)"
    "\<forall>m \<in> set ms. length m < 2 ^ 31"
  shows "bundle_loop off (X @ concat (map (framed True) ms) @ Y) secs (int (length X)) (int (length X + length (concat (map (framed True) ms))))
    = Some (map (\<lambda>(name, fs). (secs, SSym name # received ud fs)) outs)"
  using assms unfolding osc_messages_def
proof (induction outs ms arbitrary: X rule: list_all2_induct)
  case Nil
  then show ?case by (simp add: bundle_loop.simps)
next
  case (Cons out outs m ms)
  obtain name fs where out: "out = (name, fs)" by (cases out)
  have m: "osc_message ud name fs m" "0 \<notin> set name" "name \<noteq> bytes_of ''#bundle''" "\<forall>f \<in> set fs. sendable f" "length m < 2 ^ 31"
    using Cons.hyps(1) Cons.prems by (auto simp: out)
  define r X' where "r = concat (map (framed True) ms)" and "X' = X @ sc_htonl (of_nat (length m))"
  define M e where "M = X @ concat (map (framed True) (m # ms)) @ Y"
    and "e = int (length X + length (concat (map (framed True) (m # ms))))"
  have M: "M = X @ framed True m @ (r @ Y)" "M = X' @ m @ (r @ Y)" "M = (X @ framed True m) @ r @ Y"
    by (simp_all add: M_def r_def X'_def framed_def)
  have X: "int (length X) + 4 = int (length X')" "int (length X') + int (length m) = int (length (X @ framed True m))"
    by (simp_all add: X'_def framed_def)
  have size: "map_option sint (OSCint M (int (length X))) = Some (int (length m))"
    unfolding M(1) by (rule framed_size [OF m(5)])
  have nest: "IsBundle M (int (length X')) = Some False"
    unfolding IsBundle_def M(2) message_name [OF m(1,2)] using m(3) by simp
  have conv: "ConvertOSCMessage off M (int (length m)) (int (length X')) = Some (SSym name # received ud fs)"
    unfolding M(2) using m(5) by (intro convert_message [OF m(1,2,4)]) simp
  have "e = int (length (X @ framed True m) + length r)" by (simp add: e_def r_def)
  then have rest: "bundle_loop off M secs (int (length (X @ framed True m))) e
      = Some (map (\<lambda>(name, fs). (secs, SSym name # received ud fs)) outs)"
    using Cons.IH [of "X @ framed True m"] Cons.prems unfolding M(3) r_def by simp
  have "int (length X) < e" by (simp add: e_def length_framed)
  then have "bundle_loop off M secs (int (length X)) e = Some (map (\<lambda>(name, fs). (secs, SSym name # received ud fs)) (out # outs))"
    by (subst bundle_loop.simps) (simp only: if_True size bind.bind_lunit Let_def X nest if_False conv rest, simp add: out)
  then show ?case by (simp only: M_def e_def)
qed

lemma osc_messages_length:
  "osc_messages ud outs ms \<Longrightarrow> \<forall>(name, fs) \<in> set outs. \<forall>f \<in> set fs. sendable f \<Longrightarrow>
    length (concat (map (framed True) ms)) = 4 * bundle_words ud outs"
  unfolding osc_messages_def
  by (induction outs ms rule: list_all2_induct) (auto simp: length_framed message_length)

lemma sends_all_names:
  "sends_all fresh off ud msgs outs \<Longrightarrow>
    \<forall>(name, fs) \<in> set outs. 0 \<notin> set name \<and> name \<noteq> bytes_of ''#bundle'' \<and> (\<forall>f \<in> set fs. sendable f)"
  unfolding sends_all_def
  by (induction msgs outs rule: list_all2_induct) (auto simp: slashed_name sends_sendable)

lemma member_length: "m \<in> set ms \<Longrightarrow> length m \<le> length (concat (map (framed True) ms))"
  by (induction ms) (auto simp: length_framed)

section \<open>Properties\<close>

lemma room_new: "length mem0 = 65516 \<Longrightarrow> n \<le> 16379 \<Longrightarrow> room (scpacket mem0) n" "pdata (scpacket mem0) = []" "inbundle (scpacket mem0) = 0"
  by (simp_all add: scpacket_def pk_reset_def room_def pdata_def psize_def)





end
