(* ===== verification/SC_MsgFifo.thy ===== *)
theory SC_MsgFifo
  imports Vox_Prelude
begin

text \<open>
  The queues between the threads of the server (\<open>common/MsgFifo.h\<close>). In a \<open>MsgFifo\<close> one thread writes
  messages and frees them again after another one has performed them; three heads go round in an array
  whose size is a power of two. Performing and freeing a message are outputs. The two threads run
  as a step relation, whose steps are single accesses to the shared heads and items: an atomic
  variable is read and written in one step, and each thread sees the writes in their order. The code
  publishes a head with a release store but reads it with a relaxed load, so that this order is an
  assumption about the machine and not what the memory model of C++ grants.
\<close>

section \<open>The queue\<close>

record 'a MsgFifo =
  mReadHead :: nat
  mWriteHead :: nat
  mFreeHead :: nat
  mItems :: "'a list"

definition MsgFifo_new :: "'a list \<Rightarrow> 'a MsgFifo" where
  "MsgFifo_new its = \<lparr>mReadHead = 0, mWriteHead = 0, mFreeHead = 0, mItems = its\<rparr>"

definition NextPos :: "'a MsgFifo \<Rightarrow> nat \<Rightarrow> nat" where
  "NextPos q inPos = and (inPos + 1) (length (mItems q) - 1)"

definition MakeEmpty :: "'a MsgFifo \<Rightarrow> 'a MsgFifo" where
  "MakeEmpty q = q\<lparr>mReadHead := mWriteHead q, mFreeHead := mWriteHead q\<rparr>"

definition IsEmpty :: "'a MsgFifo \<Rightarrow> bool" where
  "IsEmpty q \<longleftrightarrow> mReadHead q = mWriteHead q"

definition HasData :: "'a MsgFifo \<Rightarrow> bool" where
  "HasData q \<longleftrightarrow> mReadHead q \<noteq> mWriteHead q"

definition NeedsFree :: "'a MsgFifo \<Rightarrow> bool" where
  "NeedsFree q \<longleftrightarrow> mFreeHead q \<noteq> mReadHead q"

definition Write :: "'a \<Rightarrow> 'a MsgFifo \<Rightarrow> (bool \<times> 'a MsgFifo) option" where
  "Write data q =
     (let next = NextPos q (mWriteHead q) in
      if next = mFreeHead q then Some (False, q)
      else do {
        its \<leftarrow> arr_set (mItems q) next data;
        Some (True, q\<lparr>mItems := its, mWriteHead := next\<rparr>) })"

text \<open>The loops return the messages in the order in which they are performed or freed.\<close>

partial_function (option) Perform :: "'a MsgFifo \<Rightarrow> ('a list \<times> 'a MsgFifo) option" where
  "Perform q =
     (if HasData q then do {
        let next = NextPos q (mReadHead q);
        d \<leftarrow> arr_get (mItems q) next;
        (ds, q) \<leftarrow> Perform (q\<lparr>mReadHead := next\<rparr>);
        Some (d # ds, q) }
      else Some ([], q))"

partial_function (option) Free :: "'a MsgFifo \<Rightarrow> ('a list \<times> 'a MsgFifo) option" where
  "Free q =
     (if NeedsFree q then do {
        let next = NextPos q (mFreeHead q);
        d \<leftarrow> arr_get (mItems q) next;
        (ds, q) \<leftarrow> Free (q\<lparr>mFreeHead := next\<rparr>);
        Some (d # ds, q) }
      else Some ([], q))"

section \<open>Two threads\<close>

text \<open>
  Where a thread is. The writer has found room at a position, has stored the message there, is
  going to free the message at a position, has freed it; the reader is going to perform the
  message at a position, has performed it.
\<close>

datatype 'a writer = Idle | Stores 'a nat | Stored 'a nat | Frees nat | Freed nat

datatype reader = Waits | Performs nat | Performed nat

record 'a threads =
  fifo :: "'a MsgFifo"
  writer :: "'a writer"
  reader :: reader
  written :: "'a list"
  performed :: "'a list"
  freed :: "'a list"

inductive mf_step :: "'a threads \<Rightarrow> 'a threads \<Rightarrow> bool" where
  full: "writer s = Idle \<Longrightarrow> NextPos (fifo s) (mWriteHead (fifo s)) = mFreeHead (fifo s) \<Longrightarrow> mf_step s s"
| room: "writer s = Idle \<Longrightarrow> NextPos (fifo s) (mWriteHead (fifo s)) \<noteq> mFreeHead (fifo s) \<Longrightarrow>
    mf_step s (s\<lparr>writer := Stores data (NextPos (fifo s) (mWriteHead (fifo s)))\<rparr>)"
| store: "writer s = Stores data next \<Longrightarrow> arr_set (mItems (fifo s)) next data = Some its \<Longrightarrow>
    mf_step s (s\<lparr>fifo := (fifo s)\<lparr>mItems := its\<rparr>, writer := Stored data next\<rparr>)"
| publish: "writer s = Stored data next \<Longrightarrow>
    mf_step s (s\<lparr>fifo := (fifo s)\<lparr>mWriteHead := next\<rparr>, writer := Idle, written := written s @ [data]\<rparr>)"
| needs_free: "writer s = Idle \<Longrightarrow> NeedsFree (fifo s) \<Longrightarrow>
    mf_step s (s\<lparr>writer := Frees (NextPos (fifo s) (mFreeHead (fifo s)))\<rparr>)"
| free: "writer s = Frees next \<Longrightarrow> arr_get (mItems (fifo s)) next = Some d \<Longrightarrow>
    mf_step s (s\<lparr>writer := Freed next, freed := freed s @ [d]\<rparr>)"
| reclaim: "writer s = Freed next \<Longrightarrow>
    mf_step s (s\<lparr>fifo := (fifo s)\<lparr>mFreeHead := next\<rparr>, writer := Idle\<rparr>)"
| has_data: "reader s = Waits \<Longrightarrow> HasData (fifo s) \<Longrightarrow>
    mf_step s (s\<lparr>reader := Performs (NextPos (fifo s) (mReadHead (fifo s)))\<rparr>)"
| perform: "reader s = Performs next \<Longrightarrow> arr_get (mItems (fifo s)) next = Some d \<Longrightarrow>
    mf_step s (s\<lparr>reader := Performed next, performed := performed s @ [d]\<rparr>)"
| advance: "reader s = Performed next \<Longrightarrow>
    mf_step s (s\<lparr>fifo := (fifo s)\<lparr>mReadHead := next\<rparr>, reader := Waits\<rparr>)"

definition mf_start :: "'a list \<Rightarrow> 'a threads" where
  "mf_start its = \<lparr>fifo = MsgFifo_new its, writer = Idle, reader = Waits, written = [], performed = [], freed = []\<rparr>"

section \<open>The invariant\<close>

text \<open>How many messages the reader and the freeing of the writer have left behind.\<close>

definition passed :: "'a threads \<Rightarrow> nat" where
  "passed s = length (performed s) - (case reader s of Performed _ \<Rightarrow> 1 | _ \<Rightarrow> 0)"

definition given_back :: "'a threads \<Rightarrow> nat" where
  "given_back s = length (freed s) - (case writer s of Freed _ \<Rightarrow> 1 | _ \<Rightarrow> 0)"

definition heads_ok :: "nat \<Rightarrow> 'a threads \<Rightarrow> bool" where
  "heads_ok N s \<longleftrightarrow> (\<exists>k. N = 2 ^ k) \<and> length (mItems (fifo s)) = N \<and>
     mWriteHead (fifo s) = length (written s) mod N \<and> mReadHead (fifo s) = passed s mod N \<and> mFreeHead (fifo s) = given_back s mod N \<and>
     given_back s \<le> passed s \<and> passed s \<le> length (written s) \<and> length (written s) < given_back s + N"

definition items_ok :: "nat \<Rightarrow> 'a threads \<Rightarrow> bool" where
  "items_ok N s \<longleftrightarrow>
     (\<forall>j. given_back s \<le> j \<longrightarrow> j < length (written s) \<longrightarrow> mItems (fifo s) ! (Suc j mod N) = written s ! j) \<and>
     performed s = take (length (performed s)) (written s) \<and> freed s = take (length (freed s)) (written s) \<and>
     length (performed s) \<le> length (written s) \<and> length (freed s) \<le> passed s"

definition writer_ok :: "nat \<Rightarrow> 'a threads \<Rightarrow> bool" where
  "writer_ok N s \<longleftrightarrow>
     (case writer s of
        Idle \<Rightarrow> True
      | Stores d n \<Rightarrow> n = Suc (length (written s)) mod N \<and> Suc (length (written s)) < given_back s + N
      | Stored d n \<Rightarrow> n = Suc (length (written s)) mod N \<and> Suc (length (written s)) < given_back s + N \<and> mItems (fifo s) ! n = d
      | Frees n \<Rightarrow> n = Suc (given_back s) mod N \<and> given_back s < passed s
      | Freed n \<Rightarrow> n = Suc (given_back s) mod N \<and> 0 < length (freed s))"

definition reader_ok :: "nat \<Rightarrow> 'a threads \<Rightarrow> bool" where
  "reader_ok N s \<longleftrightarrow>
     (case reader s of
        Waits \<Rightarrow> True
      | Performs n \<Rightarrow> n = Suc (passed s) mod N \<and> passed s < length (written s)
      | Performed n \<Rightarrow> n = Suc (passed s) mod N \<and> 0 < length (performed s))"

definition mf_inv :: "nat \<Rightarrow> 'a threads \<Rightarrow> bool" where
  "mf_inv N s \<longleftrightarrow> heads_ok N s \<and> items_ok N s \<and> writer_ok N s \<and> reader_ok N s"

lemma NextPos_mod: "length (mItems q) = 2 ^ k \<Longrightarrow> NextPos q (i mod 2 ^ k) = Suc i mod 2 ^ k"
proof -
  have "and x (2 ^ k - 1) = x mod 2 ^ k" for x :: nat
    by (metis mask_nat_def take_bit_eq_mask take_bit_eq_mod)
  then show "length (mItems q) = 2 ^ k \<Longrightarrow> NextPos q (i mod 2 ^ k) = Suc i mod 2 ^ k"
    by (simp add: NextPos_def mod_Suc_eq)
qed

lemma mod_window:
  assumes "i mod N = j mod N" "i \<le> j" "j < i + N"
  shows "i = (j :: nat)"
proof -
  have "N dvd j - i" using assms(1,2) mod_eq_dvd_iff_nat [of i j N] by simp
  then have "j - i = 0" using assms(3) nat_dvd_not_less [of "j - i" N] by linarith
  then show ?thesis using assms(2) by simp
qed

lemma mf_start_inv: "length its = 2 ^ k \<Longrightarrow> mf_inv (2 ^ k) (mf_start its)"
  by (auto simp: mf_inv_def mf_start_def MsgFifo_new_def heads_ok_def items_ok_def writer_ok_def reader_ok_def passed_def given_back_def)

lemmas mf_defs = mf_inv_def heads_ok_def items_ok_def writer_ok_def reader_ok_def passed_def given_back_def

lemma take_snoc: "xs = take (length xs) ys \<Longrightarrow> length xs < length ys \<Longrightarrow> xs @ [ys ! length xs] = take (Suc (length xs)) ys"
  by (metis take_Suc_conv_app_nth)

lemma head_moves:
  assumes "heads_ok N s" "i mod N = h"
  shows "NextPos (fifo s) h = Suc i mod N"
  using assms NextPos_mod by (auto simp: heads_ok_def)

lemma mf_step_inv:
  assumes "mf_step s t" "mf_inv N s"
  shows "mf_inv N t"
  using assms(1)
proof (cases rule: mf_step.cases)
  case full
  then show ?thesis using assms(2) by simp
next
  case (room data)
  let ?w = "length (written s)"
  have h: "heads_ok N s" using assms(2) by (simp add: mf_inv_def)
  then have n: "NextPos (fifo s) (mWriteHead (fifo s)) = Suc ?w mod N" by (intro head_moves) (auto simp: heads_ok_def)
  have "Suc ?w \<noteq> given_back s + N" using room(3) h n by (auto simp: heads_ok_def)
  then have "Suc ?w < given_back s + N" using h by (auto simp: heads_ok_def)
  then show ?thesis using assms(2) room(1,2) n by (cases "reader s") (simp_all add: mf_defs)
next
  case (store data "next" its)
  let ?w = "length (written s)"
  have h: "heads_ok N s" and w: "next = Suc ?w mod N" "Suc ?w < given_back s + N"
    using assms(2) store(2) by (auto simp: mf_inv_def writer_ok_def)
  have "0 < N" using h by (auto simp: heads_ok_def)
  then have its: "its = (mItems (fifo s))[next := data]" "next < length (mItems (fifo s))"
    using store(3) h w(1) by (auto simp: heads_ok_def arr_set_def split: if_splits)
  have "Suc ?w mod N \<noteq> Suc j mod N" if "given_back s \<le> j" "j < ?w" for j
    using mod_window [of "Suc j" N "Suc ?w"] that w(2) by fastforce
  then have "\<forall>j. given_back s \<le> j \<longrightarrow> j < ?w \<longrightarrow> its ! (Suc j mod N) = mItems (fifo s) ! (Suc j mod N)"
    using its(1) w(1) by simp
  then show ?thesis using assms(2) store(1,2) its w by (cases "reader s") (simp_all add: mf_defs)
next
  case (publish data "next")
  let ?w = "length (written s)"
  have "take (length (performed s)) (written s @ [data]) = take (length (performed s)) (written s)"
    "take (length (freed s)) (written s @ [data]) = take (length (freed s)) (written s)"
    using assms(2) by (auto simp: mf_defs)
  moreover have "\<forall>j. given_back s \<le> j \<longrightarrow> j < Suc ?w \<longrightarrow> mItems (fifo s) ! (Suc j mod N) = (written s @ [data]) ! j"
    using assms(2) publish(2) by (auto simp: mf_inv_def items_ok_def writer_ok_def nth_append less_Suc_eq)
  ultimately show ?thesis using assms(2) publish(1,2) by (cases "reader s") (simp_all add: mf_defs)
next
  case needs_free
  have h: "heads_ok N s" using assms(2) by (simp add: mf_inv_def)
  then have n: "NextPos (fifo s) (mFreeHead (fifo s)) = Suc (given_back s) mod N" by (intro head_moves) (auto simp: heads_ok_def)
  have "given_back s \<noteq> passed s" using h needs_free(3) by (auto simp: heads_ok_def NeedsFree_def)
  then show ?thesis using assms(2) needs_free(1,2) n by (cases "reader s") (simp_all add: mf_defs)
next
  case (free "next" d)
  have "freed s @ [written s ! length (freed s)] = take (Suc (length (freed s))) (written s)"
    using assms(2) free(2) by (intro take_snoc) (auto simp: mf_defs)
  moreover have "d = written s ! length (freed s)"
    using assms(2) free(2,3) by (auto simp: mf_defs arr_get_def split: if_splits)
  ultimately show ?thesis using assms(2) free(1,2) by (cases "reader s") (simp_all add: mf_defs)
next
  case (reclaim "next")
  then show ?thesis using assms(2) by (cases "reader s") (auto simp: mf_defs)
next
  case has_data
  have h: "heads_ok N s" using assms(2) by (simp add: mf_inv_def)
  then have n: "NextPos (fifo s) (mReadHead (fifo s)) = Suc (passed s) mod N" by (intro head_moves) (auto simp: heads_ok_def)
  have "passed s \<noteq> length (written s)" using h has_data(3) by (auto simp: heads_ok_def HasData_def)
  then show ?thesis using assms(2) has_data(1,2) n by (cases "writer s") (simp_all add: mf_defs)
next
  case (perform "next" d)
  have "performed s @ [written s ! length (performed s)] = take (Suc (length (performed s))) (written s)"
    using assms(2) perform(2) by (intro take_snoc) (auto simp: mf_defs)
  moreover have "d = written s ! length (performed s)"
    using assms(2) perform(2,3) by (auto simp: mf_defs arr_get_def split: if_splits)
  ultimately show ?thesis using assms(2) perform(1,2) by (cases "writer s") (simp_all add: mf_defs)
next
  case (advance "next")
  then show ?thesis using assms(2) by (cases "writer s") (auto simp: mf_defs)
qed


lemma mf_steps_inv: "mf_step\<^sup>*\<^sup>* s t \<Longrightarrow> mf_inv N s \<Longrightarrow> mf_inv N t"
  by (induction rule: rtranclp_induct) (auto intro: mf_step_inv)

text \<open>A thread that has begun an operation can finish it: its accesses stay inside the array.\<close>

lemma writer_moves:
  assumes "mf_inv N s" "writer s \<noteq> Idle"
  shows "\<exists>t. mf_step s t \<and> writer t \<noteq> writer s"
proof -
  have N: "0 < N" "length (mItems (fifo s)) = N" using assms(1) by (auto simp: mf_inv_def heads_ok_def)
  show ?thesis
  proof (cases "writer s")
    case (Stores d n)
    then have "arr_set (mItems (fifo s)) n d = Some ((mItems (fifo s))[n := d])"
      using assms(1) N by (simp add: mf_inv_def writer_ok_def)
    from mf_step.store [OF Stores this] show ?thesis by (intro exI conjI) (auto simp: Stores)
  next
    case (Frees n)
    then have "arr_get (mItems (fifo s)) n = Some (mItems (fifo s) ! n)"
      using assms(1) N by (simp add: mf_inv_def writer_ok_def)
    from mf_step.free [OF Frees this] show ?thesis by (intro exI conjI) (auto simp: Frees)
  next
    case (Stored d n)
    from mf_step.publish [OF this] show ?thesis by (intro exI conjI) (auto simp: Stored)
  next
    case (Freed n)
    from mf_step.reclaim [OF this] show ?thesis by (intro exI conjI) (auto simp: Freed)
  qed (use assms in simp)
qed

lemma reader_moves:
  assumes "mf_inv N s" "reader s \<noteq> Waits"
  shows "\<exists>t. mf_step s t \<and> reader t \<noteq> reader s"
proof -
  have N: "0 < N" "length (mItems (fifo s)) = N" using assms(1) by (auto simp: mf_inv_def heads_ok_def)
  show ?thesis
  proof (cases "reader s")
    case (Performs n)
    then have "arr_get (mItems (fifo s)) n = Some (mItems (fifo s) ! n)"
      using assms(1) N by (simp add: mf_inv_def reader_ok_def)
    from mf_step.perform [OF Performs this] show ?thesis by (intro exI conjI) (auto simp: Performs)
  next
    case (Performed n)
    from mf_step.advance [OF this] show ?thesis by (intro exI conjI) (auto simp: Performed)
  qed (use assms in simp)
qed

section \<open>The operations of one thread\<close>

text \<open>The writer's and the reader's operations, run without the other thread, are their steps.\<close>

lemma Write_steps:
  assumes "writer s = Idle" "Write d (fifo s) = Some (b, q)"
  shows "\<exists>t. mf_step\<^sup>*\<^sup>* s t \<and> writer t = Idle \<and> fifo t = q \<and> reader t = reader s \<and> performed t = performed s \<and>
    written t = (if b then written s @ [d] else written s)"
proof (cases b)
  case False
  then show ?thesis using assms by (auto simp: Write_def Let_def split: if_splits Option.bind_splits)
next
  case True
  let ?n = "NextPos (fifo s) (mWriteHead (fifo s))"
  obtain its where w: "?n \<noteq> mFreeHead (fifo s)" "arr_set (mItems (fifo s)) ?n d = Some its"
      "q = (fifo s)\<lparr>mItems := its, mWriteHead := ?n\<rparr>"
    using assms(2) True by (auto simp: Write_def Let_def split: if_splits Option.bind_splits)
  define s1 s2 s3 where "s1 = s\<lparr>writer := Stores d ?n\<rparr>" and "s2 = s1\<lparr>fifo := (fifo s1)\<lparr>mItems := its\<rparr>, writer := Stored d ?n\<rparr>"
    and "s3 = s2\<lparr>fifo := (fifo s2)\<lparr>mWriteHead := ?n\<rparr>, writer := Idle, written := written s2 @ [d]\<rparr>"
  have "mf_step s s1" unfolding s1_def by (rule mf_step.room [OF assms(1) w(1)])
  moreover have "mf_step s1 s2" unfolding s2_def by (rule mf_step.store) (simp_all add: s1_def w(2))
  moreover have "mf_step s2 s3" unfolding s3_def by (rule mf_step.publish) (simp add: s2_def)
  ultimately have "mf_step\<^sup>*\<^sup>* s s3" by (meson converse_rtranclp_into_rtranclp rtranclp.rtrancl_refl)
  then show ?thesis using True w(3) by (intro exI [of _ s3]) (simp add: s1_def s2_def s3_def)
qed

lemma Perform_steps:
  assumes "mf_inv N s" "reader s = Waits"
  shows "\<exists>t q. Perform (fifo s) = Some (drop (length (performed s)) (written s), q) \<and>
    mf_step\<^sup>*\<^sup>* s t \<and> reader t = Waits \<and> fifo t = q \<and> performed t = written s \<and> written t = written s \<and> \<not> HasData q \<and> writer t = writer s"
  using assms
proof (induction "length (written s) - length (performed s)" arbitrary: s)
  case 0
  have p: "passed s = length (performed s)" using 0(3) by (simp add: passed_def)
  have le: "length (performed s) \<le> length (written s)" "performed s = take (length (performed s)) (written s)"
    using 0(2) by (auto simp: mf_inv_def items_ok_def)
  then have "performed s = written s" using 0(1) by simp
  moreover have "\<not> HasData (fifo s)" using 0(1,2) p le by (auto simp: mf_inv_def heads_ok_def HasData_def)
  ultimately show ?case using 0(3) by (auto simp: Perform.simps)
next
  case (Suc l)
  let ?n = "NextPos (fifo s) (mReadHead (fifo s))" and ?d = "written s ! length (performed s)"
  have lt: "length (performed s) < length (written s)" using Suc(2) by simp
  have p: "passed s = length (performed s)" using Suc(4) by (simp add: passed_def)
  have h: "heads_ok N s" using Suc(3) by (simp add: mf_inv_def)
  have n: "?n = Suc (passed s) mod N" by (rule head_moves [OF h]) (use h in \<open>simp add: heads_ok_def\<close>)
  have "length (written s) < passed s + N" using h by (auto simp: heads_ok_def)
  then have "passed s mod N \<noteq> length (written s) mod N"
    using mod_window [of "passed s" N "length (written s)"] lt p by auto
  then have data: "HasData (fifo s)" using h by (auto simp: heads_ok_def HasData_def)
  have d: "arr_get (mItems (fifo s)) ?n = Some ?d"
    using Suc(3) lt n p by (auto simp: mf_inv_def heads_ok_def items_ok_def)
  define s1 s2 s3 where "s1 = s\<lparr>reader := Performs ?n\<rparr>" and "s2 = s1\<lparr>reader := Performed ?n, performed := performed s1 @ [?d]\<rparr>"
    and "s3 = s2\<lparr>fifo := (fifo s2)\<lparr>mReadHead := ?n\<rparr>, reader := Waits\<rparr>"
  have "mf_step s s1" unfolding s1_def by (rule mf_step.has_data [OF Suc(4) data])
  moreover have "mf_step s1 s2" unfolding s2_def by (rule mf_step.perform) (simp_all add: s1_def d)
  moreover have "mf_step s2 s3" unfolding s3_def by (rule mf_step.advance) (simp add: s2_def)
  ultimately have steps: "mf_step\<^sup>*\<^sup>* s s3" by (meson converse_rtranclp_into_rtranclp rtranclp.rtrancl_refl)
  have s3: "written s3 = written s" "performed s3 = performed s @ [?d]" "reader s3 = Waits" "fifo s3 = (fifo s)\<lparr>mReadHead := ?n\<rparr>" "writer s3 = writer s"
    by (simp_all add: s1_def s2_def s3_def)
  have "l = length (written s3) - length (performed s3)" using Suc(2) s3 by simp
  then obtain t q where t: "Perform (fifo s3) = Some (drop (length (performed s3)) (written s3), q)" "mf_step\<^sup>*\<^sup>* s3 t"
      "reader t = Waits" "fifo t = q" "performed t = written s3" "written t = written s3" "\<not> HasData q" "writer t = writer s3"
    using Suc(1) [OF _ mf_steps_inv [OF steps Suc(3)] s3(3)] by blast
  have "drop (length (performed s)) (written s) = ?d # drop (Suc (length (performed s))) (written s)"
    using lt by (simp add: Cons_nth_drop_Suc)
  then have "Perform (fifo s) = Some (drop (length (performed s)) (written s), q)"
    using data d t(1) s3 by (subst Perform.simps) (simp add: Let_def)
  then show ?case using rtranclp_trans [OF steps t(2)] t s3(1,5) by auto
qed

lemma Free_steps:
  assumes "mf_inv N s" "writer s = Idle"
  shows "\<exists>t q fs. Free (fifo s) = Some (fs, q) \<and> mf_step\<^sup>*\<^sup>* s t \<and> writer t = Idle \<and> fifo t = q \<and> reader t = reader s \<and>
    given_back t = passed t \<and> performed t = performed s \<and> written t = written s"
  using assms
proof (induction "passed s - given_back s" arbitrary: s)
  case 0
  have h: "heads_ok N s" using 0(2) by (simp add: mf_inv_def)
  then have "given_back s = passed s" "\<not> NeedsFree (fifo s)" using 0(1) by (auto simp: heads_ok_def NeedsFree_def)
  then show ?case using 0(3) by (auto simp: Free.simps)
next
  case (Suc l)
  let ?n = "NextPos (fifo s) (mFreeHead (fifo s))" and ?d = "mItems (fifo s) ! (Suc (given_back s) mod N)"
  have h: "heads_ok N s" using Suc(3) by (simp add: mf_inv_def)
  then have lt: "given_back s < passed s" "passed s < given_back s + N" "0 < N" "length (mItems (fifo s)) = N"
    using Suc(2) by (auto simp: heads_ok_def)
  have n: "?n = Suc (given_back s) mod N" by (rule head_moves [OF h]) (use h in \<open>simp add: heads_ok_def\<close>)
  have "given_back s mod N \<noteq> passed s mod N" using mod_window [of "given_back s" N "passed s"] lt by auto
  then have needs: "NeedsFree (fifo s)" using h by (auto simp: heads_ok_def NeedsFree_def)
  have d: "arr_get (mItems (fifo s)) ?n = Some ?d" using lt n by simp
  define s1 s2 s3 where "s1 = s\<lparr>writer := Frees ?n\<rparr>" and "s2 = s1\<lparr>writer := Freed ?n, freed := freed s1 @ [?d]\<rparr>"
    and "s3 = s2\<lparr>fifo := (fifo s2)\<lparr>mFreeHead := ?n\<rparr>, writer := Idle\<rparr>"
  have "mf_step s s1" unfolding s1_def by (rule mf_step.needs_free [OF Suc(4) needs])
  moreover have "mf_step s1 s2" unfolding s2_def by (rule mf_step.free) (simp_all add: s1_def d)
  moreover have "mf_step s2 s3" unfolding s3_def by (rule mf_step.reclaim) (simp add: s2_def)
  ultimately have steps: "mf_step\<^sup>*\<^sup>* s s3" by (meson converse_rtranclp_into_rtranclp rtranclp.rtrancl_refl)
  have s3: "written s3 = written s" "performed s3 = performed s" "reader s3 = reader s" "writer s3 = Idle"
      "given_back s3 = Suc (given_back s)" "passed s3 = passed s" "fifo s3 = (fifo s)\<lparr>mFreeHead := ?n\<rparr>"
    using Suc(4) by (simp_all add: s1_def s2_def s3_def given_back_def passed_def)
  have "l = passed s3 - given_back s3" using Suc(2) s3 by simp
  then obtain t q fs where t: "Free (fifo s3) = Some (fs, q)" "mf_step\<^sup>*\<^sup>* s3 t" "writer t = Idle" "fifo t = q" "reader t = reader s3"
      "given_back t = passed t" "performed t = performed s3" "written t = written s3"
    using Suc(1) [OF _ mf_steps_inv [OF steps Suc(3)] s3(4)] by blast
  have "Free (fifo s) = Some (?d # fs, q)" using needs d t(1) s3(7) by (subst Free.simps) (simp add: Let_def)
  then show ?case using rtranclp_trans [OF steps t(2)] t s3 by auto
qed

text \<open>A queue between operations, with the messages that wait to be performed.\<close>

definition holds :: "nat \<Rightarrow> 'a MsgFifo \<Rightarrow> 'a list \<Rightarrow> bool" where
  "holds N q ds \<longleftrightarrow> (\<exists>s. mf_inv N s \<and> fifo s = q \<and> writer s = Idle \<and> reader s = Waits \<and> ds = drop (length (performed s)) (written s))"

lemma holds_new: "length its = 2 ^ k \<Longrightarrow> holds (2 ^ k) (MsgFifo_new its) []"
  using mf_start_inv [of its k] by (auto simp: holds_def mf_start_def intro!: exI [of _ "mf_start its"])

lemma holds_perform:
  assumes "holds N q ds"
  shows "\<exists>q'. Perform q = Some (ds, q') \<and> holds N q' []"
proof -
  obtain s where s: "mf_inv N s" "fifo s = q" "writer s = Idle" "reader s = Waits" "ds = drop (length (performed s)) (written s)"
    using assms by (auto simp: holds_def)
  obtain t q' where t: "Perform q = Some (ds, q')" "mf_step\<^sup>*\<^sup>* s t" "reader t = Waits" "writer t = Idle" "fifo t = q'"
      "performed t = written s" "written t = written s"
    using Perform_steps [OF s(1,4)] s(2,3,5) by auto
  have "mf_inv N t" by (rule mf_steps_inv [OF t(2) s(1)])
  then have "holds N q' []" unfolding holds_def using t(3-7) by (intro exI [of _ t]) simp
  then show ?thesis using t(1) by blast
qed

text \<open>Freeing before writing makes the room of all messages that have been performed available.\<close>

lemma holds_write:
  assumes "holds N q ds"
  shows "\<exists>fs q1 q'. Free q = Some (fs, q1) \<and> Write d q1 = Some (length ds < N - 1, q') \<and>
    holds N q' (if length ds < N - 1 then ds @ [d] else ds)"
proof -
  obtain s where s: "mf_inv N s" "fifo s = q" "writer s = Idle" "reader s = Waits" "ds = drop (length (performed s)) (written s)"
    using assms by (auto simp: holds_def)
  obtain t q1 fs where t: "Free q = Some (fs, q1)" "mf_step\<^sup>*\<^sup>* s t" "writer t = Idle" "fifo t = q1" "reader t = Waits"
      "given_back t = passed t" "performed t = performed s" "written t = written s"
    using Free_steps [OF s(1,3)] s(2,4) by auto
  have inv: "mf_inv N t" by (rule mf_steps_inv [OF t(2) s(1)])
  then have h: "heads_ok N t" and le: "length (performed t) \<le> length (written t)" by (auto simp: mf_inv_def items_ok_def)
  have p: "passed t = length (performed t)" using t(5) by (simp add: passed_def)
  have len: "length (written t) = given_back t + length ds" "0 < N" "length ds < N" "length (mItems q1) = N"
    using s(5) t(4,6-8) p le h by (auto simp: heads_ok_def)
  have n: "NextPos q1 (mWriteHead q1) = Suc (length (written t)) mod N"
    unfolding t(4) [symmetric] by (rule head_moves [OF h]) (use h in \<open>simp add: heads_ok_def\<close>)
  have f: "mFreeHead q1 = given_back t mod N" using h t(4) by (auto simp: heads_ok_def)
  show ?thesis
  proof (cases "length ds < N - 1")
    case True
    have "Suc (length (written t)) < given_back t + N" using True len(1) by linarith
    then have "given_back t mod N \<noteq> Suc (length (written t)) mod N"
      using mod_window [of "given_back t" N "Suc (length (written t))"] len(1) by auto
    then obtain q' where w: "Write d q1 = Some (True, q')" using n f len by (auto simp: Write_def Let_def)
    then obtain u where u: "mf_step\<^sup>*\<^sup>* t u" "writer u = Idle" "fifo u = q'" "reader u = reader t" "written u = written t @ [d]"
      "performed u = performed t"
      using Write_steps [OF t(3)] t(4) by fastforce
    have "mf_inv N u" by (rule mf_steps_inv [OF u(1) inv])
    then have "holds N q' (ds @ [d])" unfolding holds_def using u(2-6) t(5,7,8) s(5) le
      by (intro exI [of _ u]) simp
    then show ?thesis using True t(1) w by auto
  next
    case False
    then have "Suc (length (written t)) = given_back t + N" using len by simp
    then have "Write d q1 = Some (False, q1)" using n f by (simp add: Write_def)
    moreover have "holds N q1 ds" unfolding holds_def using inv t(3-5,7,8) s(5) by (intro exI [of _ t]) simp
    ultimately show ?thesis using False t(1) by auto
  qed
qed

section \<open>Properties\<close>

text \<open>
  C10. However the steps of the writing and the performing thread interleave, messages are performed
  in the order in which they were written and freed in the order in which they were performed,
  each at most once. The writer never touches the item that the reader is at, at most one less than
  the size of the array are in use, no access leaves the array, and a reader that finds no data
  has performed everything that was written.
\<close>

theorem fifo_threads_safe:
  assumes "length its = 2 ^ k" "mf_step\<^sup>*\<^sup>* (mf_start its) s"
  shows "(\<exists>zs. written s = performed s @ zs) \<and> (\<exists>zs. performed s = freed s @ zs) \<and>
    length (written s) < length (freed s) + 2 ^ k \<and>
    (\<forall>d n m. (writer s = Stores d n \<or> writer s = Stored d n \<or> writer s = Frees n) \<longrightarrow> reader s = Performs m \<longrightarrow> n \<noteq> m) \<and>
    (writer s \<noteq> Idle \<longrightarrow> (\<exists>t. mf_step s t \<and> writer t \<noteq> writer s)) \<and>
    (reader s \<noteq> Waits \<longrightarrow> (\<exists>t. mf_step s t \<and> reader t \<noteq> reader s)) \<and>
    (reader s = Waits \<longrightarrow> \<not> HasData (fifo s) \<longrightarrow> performed s = written s)"
proof -
  have inv: "mf_inv (2 ^ k) s" using mf_steps_inv [OF assms(2)] mf_start_inv [OF assms(1)] by blast
  have 1: "performed s = take (length (performed s)) (written s)" "freed s = take (length (freed s)) (written s)"
      "length (freed s) \<le> length (performed s)"
    using inv by (auto simp: mf_inv_def items_ok_def passed_def)
  then have "written s = performed s @ drop (length (performed s)) (written s)" by (metis append_take_drop_id)
  moreover have "take (length (freed s)) (performed s) = freed s" using 1 by (metis min.absorb1 take_take)
  then have "performed s = freed s @ drop (length (freed s)) (performed s)" by (metis append_take_drop_id)
  moreover have "length (written s) < length (freed s) + 2 ^ k"
    using inv by (auto simp: mf_inv_def heads_ok_def given_back_def)
  moreover have "n \<noteq> m" if "writer s = Stores d n \<or> writer s = Stored d n \<or> writer s = Frees n" "reader s = Performs m" for d n m
  proof -
    let ?w = "length (written s)"
    have h: "given_back s \<le> passed s" "passed s < ?w" "?w < given_back s + 2 ^ k" "m = Suc (passed s) mod 2 ^ k"
      using inv that(2) by (auto simp: mf_inv_def heads_ok_def reader_ok_def)
    have "n = Suc ?w mod 2 ^ k \<or> n = Suc (given_back s) mod 2 ^ k \<and> given_back s < passed s"
      using inv that(1) by (auto simp: mf_inv_def writer_ok_def)
    then show ?thesis
      using mod_window [of "Suc (passed s)" "2 ^ k" "Suc ?w"] mod_window [of "Suc (given_back s)" "2 ^ k" "Suc (passed s)"] h by auto
  qed
  moreover have "performed s = written s" if "reader s = Waits" "\<not> HasData (fifo s)"
  proof -
    have "passed s = length (written s)"
      using mod_window [of "passed s" "2 ^ k" "length (written s)"] inv that(2)
      by (auto simp: mf_inv_def heads_ok_def HasData_def)
    then show ?thesis using 1(1) that(1) by (simp add: passed_def)
  qed
  ultimately show ?thesis using writer_moves [OF inv] reader_moves [OF inv] by blast
qed

theorem fifo_threads_safe_witness:
  "\<exists>s. mf_step\<^sup>*\<^sup>* (mf_start [0, 0 :: nat]) s \<and> written s = [7] \<and> performed s = [7] \<and> length (written s) < length (freed s) + 2"
proof -
  let ?s0 = "mf_start [0, 0 :: nat]"
  have len: "length [0, 0 :: nat] = 2 ^ 1" by simp
  have inv: "mf_inv (2 ^ 1) ?s0" by (rule mf_start_inv [OF len])
  have "Write 7 (fifo ?s0) = Some (True, \<lparr>mReadHead = 0, mWriteHead = 1, mFreeHead = 0, mItems = [0, 7]\<rparr>)"
    by (simp add: Write_def mf_start_def MsgFifo_new_def NextPos_def Let_def)
  then obtain s1 where s1: "mf_step\<^sup>*\<^sup>* ?s0 s1" "written s1 = [7]" "reader s1 = Waits" "fifo s1 = \<lparr>mReadHead = 0, mWriteHead = 1, mFreeHead = 0, mItems = [0, 7]\<rparr>"
    using Write_steps [of ?s0 7] by (auto simp: mf_start_def)
  have inv1: "mf_inv (2 ^ 1) s1" by (rule mf_steps_inv [OF s1(1) inv])
  obtain s where s: "mf_step\<^sup>*\<^sup>* s1 s" "performed s = [7]" "written s = [7]"
    using Perform_steps [OF inv1 s1(3)] s1(2) by auto
  have "mf_step\<^sup>*\<^sup>* ?s0 s" using s1(1) s(1) by (rule rtranclp_trans)
  moreover have "length (written s) < length (freed s) + 2"
    using fifo_threads_safe [OF len calculation] by simp
  ultimately show ?thesis using s(2,3) by blast
qed

end
