(* ===== verification/SC_Messages.thy ===== *)
theory SC_Messages
  imports SC_LangOSC SC_NodeServer
begin

text \<open>
  The commands on nodes as the server receives them (\<open>server/scsynth/SC_MiscCmds.cpp\<close>): each handler reads
  its arguments with \<open>sc\_msg\_iter\<close> while it executes them, and stops reading at the first error. The
  handlers of \<open>SC_NodeCommands\<close>, which take lists of arguments, are shown to be what these do for a
  message that can be read to its end.
\<close>

section \<open>Reading nodes\<close>

definition read_ref :: "msg_iter \<Rightarrow> (node_ref \<times> msg_iter) option" where
  "read_ref it = do {
     tag \<leftarrow> nextTag (tag_of (CHR ''i'')) it;
     if tag = tag_of (CHR ''s'') then do {
       (loc, it) \<leftarrow> gets None it;
       (nodeID, it) \<leftarrow> geti 0 it;
       p \<leftarrow> loc;
       path \<leftarrow> cstring (mem it) p;
       Some (ByPath (map (\<lambda>b. char_of (unat b)) path) (sint nodeID), it) }
     else do { (nodeID, it) \<leftarrow> geti 0 it; Some (ById (sint nodeID), it) } }"

definition read_node :: "SC_World \<Rightarrow> msg_iter \<Rightarrow> (addr option \<times> msg_iter) option" where
  "read_node w it = do { (r, it) \<leftarrow> read_ref it; node \<leftarrow> Msg_GetNode w r; Some (node, it) }"

definition read_group :: "SC_World \<Rightarrow> msg_iter \<Rightarrow> (addr option \<times> msg_iter) option" where
  "read_group w it = do { (r, it) \<leftarrow> read_ref it; g \<leftarrow> Msg_GetGroup w r; Some (g, it) }"

section \<open>Loops over a message\<close>

text \<open>
  The loop of a handler: while arguments are left, \<open>body\<close> reads some of them, and either returns from
  the handler (\<open>Inl\<close>) or goes on with a new state.
\<close>

partial_function (option) msg_loop ::
    "('s \<Rightarrow> msg_iter \<Rightarrow> (('r + 's) \<times> msg_iter) option) \<Rightarrow> 's \<Rightarrow> msg_iter \<Rightarrow> (('r + 's) \<times> msg_iter) option" where
  "msg_loop body s it =
     (if remain it = 0 then Some (Inr s, it)
      else do {
        (r, it) \<leftarrow> body s it;
        case r of Inl e \<Rightarrow> Some (Inl e, it) | Inr s \<Rightarrow> msg_loop body s it })"

type_synonym 's step = "(((SCErr \<times> SC_World) + 's) \<times> msg_iter) option"

abbreviation exit :: "SCErr \<Rightarrow> SC_World \<Rightarrow> msg_iter \<Rightarrow> 's step" where
  "exit err w it \<equiv> Some (Inl (err, w), it)"

text \<open>A handler that runs \<open>body\<close> over its message.\<close>

definition handler :: "('s \<Rightarrow> msg_iter \<Rightarrow> 's step) \<Rightarrow> ('s \<Rightarrow> (SCErr \<times> SC_World) option) \<Rightarrow> 's \<Rightarrow> msg_iter \<Rightarrow> (SCErr \<times> SC_World) option" where
  "handler body return s it = do {
     (r, it) \<leftarrow> msg_loop body s it;
     case r of Inl e \<Rightarrow> Some e | Inr s \<Rightarrow> return s }"

definition no_err :: "SC_World \<Rightarrow> (SCErr \<times> SC_World) option" where
  "no_err w = Some (kSCErr_None, w)"

section \<open>The handlers\<close>

definition free_body :: "nat \<Rightarrow> SC_World \<Rightarrow> msg_iter \<Rightarrow> SC_World step" where
  "free_body k w it = do {
     (node, it) \<leftarrow> read_node w it;
     case node of None \<Rightarrow> exit kSCErr_NodeNotFound w it
     | Some p \<Rightarrow> do { w \<leftarrow> Node_Delete k p w; Some (Inr w, it) } }"

definition n_free :: "nat \<Rightarrow> msg_iter \<Rightarrow> SC_World \<Rightarrow> (SCErr \<times> SC_World) option" where
  "n_free k it w = handler (free_body k) no_err w it"

definition run_body :: "SC_World \<Rightarrow> msg_iter \<Rightarrow> SC_World step" where
  "run_body w it = do {
     (node, it) \<leftarrow> read_node w it;
     case node of None \<Rightarrow> exit kSCErr_NodeNotFound w it
     | Some p \<Rightarrow> do {
         (run, it) \<leftarrow> geti 0 it;
         w \<leftarrow> Node_SetRun p (sint run \<noteq> 0) w;
         Some (Inr w, it) } }"

definition n_run :: "msg_iter \<Rightarrow> SC_World \<Rightarrow> (SCErr \<times> SC_World) option" where
  "n_run it w = handler run_body no_err w it"

definition free_group_body :: "(addr \<Rightarrow> SC_World \<Rightarrow> SC_World option) \<Rightarrow> SC_World \<Rightarrow> msg_iter \<Rightarrow> SC_World step" where
  "free_group_body delete w it = do {
     (g, it) \<leftarrow> read_group w it;
     case g of None \<Rightarrow> exit kSCErr_GroupNotFound w it
     | Some g \<Rightarrow> do { w \<leftarrow> delete g w; Some (Inr w, it) } }"

definition g_freeAll :: "nat \<Rightarrow> msg_iter \<Rightarrow> SC_World \<Rightarrow> (SCErr \<times> SC_World) option" where
  "g_freeAll k it w = handler (free_group_body (Group_DeleteAll k)) no_err w it"

definition g_deepFree :: "nat \<Rightarrow> msg_iter \<Rightarrow> SC_World \<Rightarrow> (SCErr \<times> SC_World) option" where
  "g_deepFree k it w = handler (free_group_body (Group_DeepFreeGraphs k)) no_err w it"

definition into_group_body :: "(addr \<Rightarrow> addr \<Rightarrow> SC_World \<Rightarrow> SC_World option) \<Rightarrow> SC_World \<Rightarrow> msg_iter \<Rightarrow> SC_World step" where
  "into_group_body move w it = do {
     (g, it) \<leftarrow> read_group w it;
     case g of None \<Rightarrow> exit kSCErr_GroupNotFound w it
     | Some g \<Rightarrow> do {
         (node, it) \<leftarrow> read_node w it;
         case node of None \<Rightarrow> exit kSCErr_NodeNotFound w it
         | Some p \<Rightarrow> do { w \<leftarrow> move g p w; Some (Inr w, it) } } }"

definition g_head :: "msg_iter \<Rightarrow> SC_World \<Rightarrow> (SCErr \<times> SC_World) option" where
  "g_head it w = handler (into_group_body move_head) no_err w it"

definition g_tail :: "msg_iter \<Rightarrow> SC_World \<Rightarrow> (SCErr \<times> SC_World) option" where
  "g_tail it w = handler (into_group_body (move_tail True)) no_err w it"

text \<open>The state is the last pair that was found, with the world.\<close>

definition next_to_body :: "(addr \<Rightarrow> addr \<Rightarrow> SC_World \<Rightarrow> SC_World option) \<Rightarrow> (addr \<times> addr) option \<times> SC_World \<Rightarrow> msg_iter \<Rightarrow>
    ((addr \<times> addr) option \<times> SC_World) step" where
  "next_to_body move = (\<lambda>(prev, w) it. do {
     (node, it) \<leftarrow> read_node w it;
     (target, it) \<leftarrow> read_node w it;
     case (node, target) of
       (Some p, Some t) \<Rightarrow> do {
         w \<leftarrow> (case prev of Some (q, u) \<Rightarrow> if q \<noteq> p then move q u w else Some w | None \<Rightarrow> Some w);
         Some (Inr (Some (p, t), w), it) }
     | _ \<Rightarrow> Some (Inr (prev, w), it) })"

definition n_before :: "msg_iter \<Rightarrow> SC_World \<Rightarrow> (SCErr \<times> SC_World) option" where
  "n_before it w = handler (next_to_body move_before) (\<lambda>(prev, w). do {
     w \<leftarrow> (case prev of Some (q, u) \<Rightarrow> if q \<noteq> u then move_before q u w else Some w | None \<Rightarrow> Some w);
     no_err w }) (None, w) it"

definition n_after :: "msg_iter \<Rightarrow> SC_World \<Rightarrow> (SCErr \<times> SC_World) option" where
  "n_after it w = handler (next_to_body move_after) (\<lambda>(prev, w). do {
     w \<leftarrow> (case prev of Some (q, u) \<Rightarrow> move_after q u w | None \<Rightarrow> Some w);
     no_err w }) (None, w) it"

text \<open>The first node that exists: the loop returns when it has found one.\<close>

definition find_body :: "SC_World \<Rightarrow> unit \<Rightarrow> msg_iter \<Rightarrow> ((addr + unit) \<times> msg_iter) option" where
  "find_body w u it = do {
     (node, it) \<leftarrow> read_node w it;
     Some (case node of None \<Rightarrow> Inr u | Some p \<Rightarrow> Inl p, it) }"

definition order_body :: "addr \<times> SC_World \<Rightarrow> msg_iter \<Rightarrow> (addr \<times> SC_World) step" where
  "order_body = (\<lambda>(prev, w) it. do {
     (node, it) \<leftarrow> read_node w it;
     case node of None \<Rightarrow> Some (Inr (prev, w), it)
     | Some p \<Rightarrow> do { w \<leftarrow> move_after p prev w; Some (Inr (p, w), it) } })"

definition n_order :: "msg_iter \<Rightarrow> SC_World \<Rightarrow> (SCErr \<times> SC_World) option" where
  "n_order it w = do {
     (action, it) \<leftarrow> geti 0 it;
     let addAction = sint action;
     if addAction \<notin> {0, 1, 2, 3} then Some (kSCErr_Failed, w)
     else do {
       (target, it) \<leftarrow> (if addAction \<in> {0, 1} then read_group w it else read_node w it);
       case target of
         None \<Rightarrow> Some (if addAction \<in> {0, 1} then kSCErr_GroupNotFound else kSCErr_TargetNodeNotFound, w)
       | Some t \<Rightarrow> do {
           (first, it) \<leftarrow> msg_loop (find_body w) () it;
           case first of Inr _ \<Rightarrow> Some (kSCErr_NodeNotFound, w)
           | Inl p \<Rightarrow> do {
               w \<leftarrow> (if addAction = 0 then move_head t p w
                    else if addAction = 1 then move_tail False t p w
                    else if addAction = 2 then move_before p t w
                    else move_after p t w);
               handler order_body (\<lambda>(_, w). no_err w) (p, w) it } } } }"

text \<open>The cases of the switches over the action.\<close>

definition known_action :: "int \<Rightarrow> bool" where
  "known_action a \<longleftrightarrow> a \<in> {0, 1, 2, 3, 4}"

text \<open>
  \<open>meth_g_new\<close>: the state is the world with the addresses that the allocator is going to return, one
  for each group of the message.
\<close>

definition new_group_body :: "nat \<Rightarrow> addr list \<times> SC_World \<Rightarrow> msg_iter \<Rightarrow> ((SCErr \<times> addr list \<times> SC_World + addr list \<times> SC_World) \<times> msg_iter) option" where
  "new_group_body k = (\<lambda>(ps, w) it. do {
     (newGroupID, it) \<leftarrow> geti 0 it;
     (addAction, it) \<leftarrow> geti 0 it;
     if \<not> known_action (sint addAction) then Some (Inl (kSCErr_Failed, ps, w), it)
     else case ps of [] \<Rightarrow> None | p # ps \<Rightarrow> do {
       (r, it) \<leftarrow> read_ref it;
       (err, q, w) \<leftarrow> g_new_step k p (sint newGroupID) (sint addAction) r w;
       if err \<noteq> kSCErr_None then Some (Inl (err, ps, w), it)
       else do { w \<leftarrow> Node_StateMsg q kNode_Go w; Some (Inr (ps, w), it) } } })"

definition g_new :: "nat \<Rightarrow> msg_iter \<Rightarrow> addr list \<Rightarrow> SC_World \<Rightarrow> (SCErr \<times> addr list \<times> SC_World) option" where
  "g_new k it ps w = do {
     (r, it) \<leftarrow> msg_loop (new_group_body k) (ps, w) it;
     Some (case r of Inl e \<Rightarrow> e | Inr s \<Rightarrow> (kSCErr_None, s)) }"

text \<open>
  \<open>meth_s_new\<close> and \<open>meth_s_newargs\<close>; \<open>defs\<close> tells which names of synth definitions are known. The controls
  behind the target are not modelled.
\<close>

definition s_new_msg :: "bool \<Rightarrow> nat \<Rightarrow> (byte list \<Rightarrow> bool) \<Rightarrow> msg_iter \<Rightarrow> addr list \<Rightarrow> SC_World \<Rightarrow> (SCErr \<times> addr list \<times> SC_World) option" where
  "s_new_msg removeID k defs it ps w = do {
     (defname, it) \<leftarrow> gets None it;
     case defname of None \<Rightarrow> Some (kSCErr_WrongArgType, ps, w)
     | Some d \<Rightarrow> do {
         (nodeID, it) \<leftarrow> geti 0 it;
         (addAction, it) \<leftarrow> geti 0 it;
         name \<leftarrow> cstring (mem it) d;
         if \<not> defs name then Some (kSCErr_SynthDefNotFound, ps, w)
         else if \<not> known_action (sint addAction) then Some (kSCErr_Failed, ps, w)
         else case ps of [] \<Rightarrow> None | p # ps \<Rightarrow> do {
           (r, it) \<leftarrow> read_ref it;
           (err, w) \<leftarrow> SC_NodeCommands.s_new removeID k (Some True) p (sint nodeID) (sint addAction) r w;
           Some (err, ps, w) } } }"

section \<open>Lemmas: handlers and lists of arguments\<close>

text \<open>All arguments of a message, read without executing anything.\<close>

partial_function (option) read_all :: "(msg_iter \<Rightarrow> ('a \<times> msg_iter) option) \<Rightarrow> msg_iter \<Rightarrow> 'a list option" where
  "read_all rd it =
     (if remain it = 0 then Some []
      else do { (x, it) \<leftarrow> rd it; xs \<leftarrow> read_all rd it; Some (x # xs) })"

fun fold_steps :: "('a \<Rightarrow> 's \<Rightarrow> ('r + 's) option) \<Rightarrow> 'a list \<Rightarrow> 's \<Rightarrow> ('r + 's) option" where
  "fold_steps step [] s = Some (Inr s)"
| "fold_steps step (x # xs) s = do {
     r \<leftarrow> step x s;
     case r of Inl e \<Rightarrow> Some (Inl e) | Inr s \<Rightarrow> fold_steps step xs s }"

text \<open>
  The interface between the body of a handler and what it does with the arguments \<open>x\<close> of one round:
  when these can be read, the body does \<open>step x\<close>, and unless it returns it has read them.
\<close>

locale message_body =
  fixes rd :: "msg_iter \<Rightarrow> ('a \<times> msg_iter) option"
    and body :: "'s \<Rightarrow> msg_iter \<Rightarrow> (('r + 's) \<times> msg_iter) option"
    and step :: "'a \<Rightarrow> 's \<Rightarrow> ('r + 's) option"
  assumes undefined: "rd it = Some (x, it') \<Longrightarrow> step x s = None \<Longrightarrow> body s it = None"
    and returns: "rd it = Some (x, it') \<Longrightarrow> step x s = Some (Inl e) \<Longrightarrow> map_option fst (body s it) = Some (Inl e)"
    and goes_on: "rd it = Some (x, it') \<Longrightarrow> step x s = Some (Inr s') \<Longrightarrow> body s it = Some (Inr s', it')"
begin

lemma loop_folds: "read_all rd it = Some xs \<Longrightarrow> map_option fst (msg_loop body s it) = fold_steps step xs s"
proof (induction xs arbitrary: it s)
  case Nil
  then have "remain it = 0" by (subst (asm) read_all.simps) (auto split: if_splits Option.bind_splits)
  then show ?case by (simp add: msg_loop.simps)
next
  case (Cons x xs)
  then obtain it' where it': "remain it \<noteq> 0" "rd it = Some (x, it')" "read_all rd it' = Some xs"
    by (subst (asm) read_all.simps) (auto split: if_splits Option.bind_splits)
  show ?case
  proof (cases "step x s")
    case None
    then show ?thesis using undefined [OF it'(2)] it'(1) by (subst msg_loop.simps) simp
  next
    case (Some r)
    show ?thesis
    proof (cases r)
      case (Inl e)
      then obtain i where "body s it = Some (Inl e, i)" using returns [OF it'(2), of s e] Some by auto
      then show ?thesis using Inl Some it'(1) by (subst msg_loop.simps) simp
    next
      case (Inr s')
      then have "body s it = Some (Inr s', it')" using goes_on [OF it'(2)] Some by simp
      then show ?thesis using Inr Some it'(1) Cons.IH [OF it'(3), of s'] by (subst msg_loop.simps) simp
    qed
  qed
qed

end

lemma handler_folds:
  "map_option fst (msg_loop body s it) = r \<Longrightarrow>
    handler body return s it = do { r \<leftarrow> r; case r of Inl e \<Rightarrow> Some e | Inr s \<Rightarrow> return s }"
  by (cases "msg_loop body s it") (auto simp: handler_def)

definition read_pair :: "msg_iter \<Rightarrow> ((node_ref \<times> node_ref) \<times> msg_iter) option" where
  "read_pair it = do { (a, it) \<leftarrow> read_ref it; (b, it) \<leftarrow> read_ref it; Some ((a, b), it) }"

definition read_ref_int :: "msg_iter \<Rightarrow> ((node_ref \<times> int) \<times> msg_iter) option" where
  "read_ref_int it = do { (r, it) \<leftarrow> read_ref it; (i, it) \<leftarrow> geti 0 it; Some ((r, sint i), it) }"

definition read_new :: "msg_iter \<Rightarrow> ((int \<times> int \<times> node_ref) \<times> msg_iter) option" where
  "read_new it = do { (i, it) \<leftarrow> geti 0 it; (a, it) \<leftarrow> geti 0 it; (r, it) \<leftarrow> read_ref it; Some ((sint i, sint a, r), it) }"

text \<open>What the bodies do with the arguments of one round.\<close>

definition on_node :: "SCErr \<Rightarrow> (addr \<Rightarrow> SC_World \<Rightarrow> SC_World option) \<Rightarrow> addr option \<Rightarrow> SC_World \<Rightarrow> ((SCErr \<times> SC_World) + SC_World) option" where
  "on_node err f node w = (case node of None \<Rightarrow> Some (Inl (err, w)) | Some p \<Rightarrow> do { w \<leftarrow> f p w; Some (Inr w) })"

definition free_step :: "nat \<Rightarrow> node_ref \<Rightarrow> SC_World \<Rightarrow> ((SCErr \<times> SC_World) + SC_World) option" where
  "free_step k r w = do { node \<leftarrow> Msg_GetNode w r; on_node kSCErr_NodeNotFound (Node_Delete k) node w }"

definition run_step :: "node_ref \<times> int \<Rightarrow> SC_World \<Rightarrow> ((SCErr \<times> SC_World) + SC_World) option" where
  "run_step = (\<lambda>(r, run) w. do { node \<leftarrow> Msg_GetNode w r; on_node kSCErr_NodeNotFound (\<lambda>p. Node_SetRun p (run \<noteq> 0)) node w })"

definition free_group_step :: "(addr \<Rightarrow> SC_World \<Rightarrow> SC_World option) \<Rightarrow> node_ref \<Rightarrow> SC_World \<Rightarrow> ((SCErr \<times> SC_World) + SC_World) option" where
  "free_group_step delete r w = do { g \<leftarrow> Msg_GetGroup w r; on_node kSCErr_GroupNotFound delete g w }"

definition into_group_step :: "(addr \<Rightarrow> addr \<Rightarrow> SC_World \<Rightarrow> SC_World option) \<Rightarrow> node_ref \<times> node_ref \<Rightarrow> SC_World \<Rightarrow> ((SCErr \<times> SC_World) + SC_World) option" where
  "into_group_step move = (\<lambda>(gr, nr) w. do {
     g \<leftarrow> Msg_GetGroup w gr;
     case g of None \<Rightarrow> Some (Inl (kSCErr_GroupNotFound, w))
     | Some g \<Rightarrow> do { node \<leftarrow> Msg_GetNode w nr; on_node kSCErr_NodeNotFound (move g) node w } })"

definition next_to_step :: "(addr \<Rightarrow> addr \<Rightarrow> SC_World \<Rightarrow> SC_World option) \<Rightarrow> node_ref \<times> node_ref \<Rightarrow> (addr \<times> addr) option \<times> SC_World \<Rightarrow>
    ((SCErr \<times> SC_World) + (addr \<times> addr) option \<times> SC_World) option" where
  "next_to_step move = (\<lambda>(nr, tr) (prev, w). do {
     node \<leftarrow> Msg_GetNode w nr;
     target \<leftarrow> Msg_GetNode w tr;
     case (node, target) of
       (Some p, Some t) \<Rightarrow> do {
         w \<leftarrow> (case prev of Some (q, u) \<Rightarrow> if q \<noteq> p then move q u w else Some w | None \<Rightarrow> Some w);
         Some (Inr (Some (p, t), w)) }
     | _ \<Rightarrow> Some (Inr (prev, w)) })"

definition new_group_step :: "nat \<Rightarrow> int \<times> int \<times> node_ref \<Rightarrow> addr list \<times> SC_World \<Rightarrow> ((SCErr \<times> addr list \<times> SC_World) + addr list \<times> SC_World) option" where
  "new_group_step k = (\<lambda>(i, a, r) (ps, w).
     if \<not> known_action a then Some (Inl (kSCErr_Failed, ps, w))
     else case ps of [] \<Rightarrow> None | p # ps \<Rightarrow> do {
       (err, q, w) \<leftarrow> g_new_step k p i a r w;
       if err \<noteq> kSCErr_None then Some (Inl (err, ps, w))
       else do { w \<leftarrow> Node_StateMsg q kNode_Go w; Some (Inr (ps, w)) } })"

lemmas body_defs = read_node_def read_group_def on_node_def read_pair_def read_ref_int_def read_new_def

lemmas bind_cases = Option.bind_splits if_splits option.splits list.splits

interpretation n_free: message_body read_ref "free_body k" "free_step k" for k
  by unfold_locales (auto simp: free_body_def free_step_def body_defs split: bind_cases)

interpretation n_run: message_body read_ref_int run_body run_step
  by unfold_locales (auto simp: run_body_def run_step_def body_defs split: bind_cases)

interpretation free_group: message_body read_ref "free_group_body delete" "free_group_step delete" for delete
  by unfold_locales (auto simp: free_group_body_def free_group_step_def body_defs split: bind_cases)

interpretation into_group: message_body read_pair "into_group_body move" "into_group_step move" for move
  by unfold_locales (auto simp: into_group_body_def into_group_step_def body_defs split: bind_cases)

interpretation next_to: message_body read_pair "next_to_body move" "next_to_step move" for move
  by unfold_locales (auto simp: next_to_body_def next_to_step_def body_defs split: bind_cases)

lemma new_group_reads:
  assumes "read_new it = Some ((i, a, r), it')"
  shows "\<exists>it2. new_group_body k (ps, w) it =
    map_option (\<lambda>x. (x, if \<not> known_action a then it2 else it')) (new_group_step k (i, a, r) (ps, w))"
proof -
  obtain v1 it1 v2 it2 where rd: "geti 0 it = Some (v1, it1)" "i = sint v1" "geti 0 it1 = Some (v2, it2)" "a = sint v2" "read_ref it2 = Some (r, it')"
    using assms by (auto simp: read_new_def split: Option.bind_splits)
  show ?thesis
  proof (cases "\<not> known_action a")
    case True
    then show ?thesis using rd by (auto simp: new_group_body_def new_group_step_def)
  next
    case False
    note ok = False rd
    show ?thesis
    proof (cases ps)
      case (Cons p ps')
      show ?thesis
      proof (cases "g_new_step k p i a r w")
        case (Some res)
        obtain err q w' where res: "res = (err, q, w')" by (cases res)
        show ?thesis using ok Cons Some res
          by (cases "err = kSCErr_None"; cases "Node_StateMsg q kNode_Go w'") (simp_all add: new_group_body_def new_group_step_def)
      qed (use ok Cons in \<open>simp add: new_group_body_def new_group_step_def\<close>)
    qed (use ok in \<open>simp add: new_group_body_def new_group_step_def\<close>)
  qed
qed

lemma new_group_failed: "\<not> known_action a \<Longrightarrow> new_group_step k (i, a, r) (ps, w) = Some (Inl (kSCErr_Failed, ps, w))"
  by (simp add: new_group_step_def)

interpretation new_group: message_body read_new "new_group_body k" "new_group_step k" for k
proof
  fix it it' and x :: "int \<times> int \<times> node_ref" and s :: "addr list \<times> SC_World"
  obtain i a r ps w where x: "x = (i, a, r)" "s = (ps, w)" by (metis prod_cases3 surj_pair)
  assume "read_new it = Some (x, it')"
  then obtain it2 where it2: "new_group_body k s it =
      map_option (\<lambda>y. (y, if \<not> known_action a then it2 else it')) (new_group_step k x s)"
    using new_group_reads x by blast
  show "new_group_step k x s = None \<Longrightarrow> new_group_body k s it = None" by (simp add: it2)
  show "map_option fst (new_group_body k s it) = Some (Inl e)" if "new_group_step k x s = Some (Inl e)" for e
    by (simp add: it2 that)
  show "new_group_body k s it = Some (Inr s', it')" if "new_group_step k x s = Some (Inr s')" for s'
  proof -
    have "known_action a" using new_group_failed [of a k i r ps w] that x by auto
    then show ?thesis by (simp add: it2 that)
  qed
qed

definition order_step :: "node_ref \<Rightarrow> addr \<times> SC_World \<Rightarrow> ((SCErr \<times> SC_World) + addr \<times> SC_World) option" where
  "order_step r = (\<lambda>(prev, w). do {
     node \<leftarrow> Msg_GetNode w r;
     case node of None \<Rightarrow> Some (Inr (prev, w)) | Some p \<Rightarrow> do { w \<leftarrow> move_after p prev w; Some (Inr (p, w)) } })"

interpretation order: message_body read_ref order_body order_step
  by unfold_locales (auto simp: order_body_def order_step_def body_defs split: bind_cases)

text \<open>The end of a handler.\<close>

abbreviation finish :: "('s \<Rightarrow> (SCErr \<times> SC_World) option) \<Rightarrow> ((SCErr \<times> SC_World) + 's) option \<Rightarrow> (SCErr \<times> SC_World) option" where
  "finish return r \<equiv> do { r \<leftarrow> r; case r of Inl e \<Rightarrow> Some e | Inr s \<Rightarrow> return s }"

lemma step_apply:
  "run_step (r, run) w = do { node \<leftarrow> Msg_GetNode w r; on_node kSCErr_NodeNotFound (\<lambda>p. Node_SetRun p (run \<noteq> 0)) node w }"
  "into_group_step move (gr, nr) w = do {
     g \<leftarrow> Msg_GetGroup w gr;
     case g of None \<Rightarrow> Some (Inl (kSCErr_GroupNotFound, w))
     | Some g \<Rightarrow> do { node \<leftarrow> Msg_GetNode w nr; on_node kSCErr_NodeNotFound (move g) node w } }"
  "next_to_step move (nr, tr) (prev, w) = do {
     node \<leftarrow> Msg_GetNode w nr;
     target \<leftarrow> Msg_GetNode w tr;
     case (node, target) of
       (Some p, Some t) \<Rightarrow> do {
         w \<leftarrow> (case prev of Some (q, u) \<Rightarrow> if q \<noteq> p then move q u w else Some w | None \<Rightarrow> Some w);
         Some (Inr (Some (p, t), w)) }
     | _ \<Rightarrow> Some (Inr (prev, w)) }"
  by (simp_all add: run_step_def into_group_step_def next_to_step_def)

text \<open>Folding the steps over a list of arguments is what the handlers on lists do.\<close>

lemma fold_free: "finish no_err (fold_steps (free_step k) rs w) = meth_n_free k rs w"
  by (induction rs arbitrary: w) (auto simp: no_err_def free_step_def on_node_def split: option.split Option.bind_split)

lemma fold_freeAll: "finish no_err (fold_steps (free_group_step (Group_DeleteAll k)) rs w) = meth_g_freeAll k rs w"
  by (induction rs arbitrary: w) (auto simp: no_err_def free_group_step_def on_node_def split: option.split Option.bind_split)

lemma fold_deepFree: "finish no_err (fold_steps (free_group_step (Group_DeepFreeGraphs k)) rs w) = meth_g_deepFree k rs w"
  by (induction rs arbitrary: w) (auto simp: no_err_def free_group_step_def on_node_def split: option.split Option.bind_split)

lemma fold_run: "finish no_err (fold_steps run_step args w) = meth_n_run args w"
  by (induction args w rule: meth_n_run.induct) (auto simp: no_err_def step_apply on_node_def split: option.split Option.bind_split)

lemma fold_head: "finish no_err (fold_steps (into_group_step move_head) args w) = meth_g_head args w"
  by (induction args w rule: meth_g_head.induct) (auto simp: no_err_def step_apply on_node_def split: option.split Option.bind_split)

lemma fold_tail: "finish no_err (fold_steps (into_group_step (move_tail True)) args w) = meth_g_tail args w"
  by (induction args w rule: meth_g_tail.induct) (auto simp: no_err_def step_apply on_node_def split: option.split Option.bind_split)

lemma fold_before: "fold_steps (next_to_step move_before) args (prev, w) = map_option Inr (before_loop prev args w)"
  by (induction prev args w rule: before_loop.induct) (auto simp: step_apply split: option.split Option.bind_split)

lemma fold_after: "fold_steps (next_to_step move_after) args (prev, w) = map_option Inr (after_loop prev args w)"
  by (induction prev args w rule: after_loop.induct) (auto simp: step_apply split: option.split Option.bind_split)

lemma g_new_step_failed: "\<not> known_action a \<Longrightarrow> g_new_step k p i a r w = Some (kSCErr_Failed, p, w)"
  by (simp add: g_new_step_def known_action_def)

lemma fold_new:
  "length args \<le> length ps \<Longrightarrow>
    do { r \<leftarrow> fold_steps (new_group_step k) args (ps, w); Some (case r of Inl (err, _, w) \<Rightarrow> (err, w) | Inr (_, w) \<Rightarrow> (kSCErr_None, w)) }
      = meth_g_new k (zip ps args) w"
proof (induction args arbitrary: ps w)
  case (Cons arg args)
  obtain i a r where arg: "arg = (i, a, r)" by (cases arg)
  obtain p ps' where ps: "ps = p # ps'" "length args \<le> length ps'" using Cons.prems by (cases ps) auto
  show ?case
  proof (cases "known_action a")
    case False
    then show ?thesis by (simp add: arg ps(1) new_group_step_def g_new_step_failed)
  next
    case True
    then show ?thesis using Cons.IH [OF ps(2)]
      by (auto simp: arg ps(1) new_group_step_def split: Option.bind_split)
  qed
qed simp

lemma fold_order: "do { r \<leftarrow> fold_steps order_step rs (p, w); case r of Inl e \<Rightarrow> Some e | Inr (_, w) \<Rightarrow> no_err w } =
    do { w \<leftarrow> order_loop p rs w; no_err w }"
  by (induction p rs w rule: order_loop.induct) (auto simp: order_step_def split: option.split Option.bind_split)

text \<open>The search for the first node leaves the reader behind it.\<close>

lemma find_first:
  assumes "read_all read_ref it = Some rs"
  shows "case first_node w rs of
      None \<Rightarrow> msg_loop (find_body w) () it = None
    | Some None \<Rightarrow> \<exists>it'. msg_loop (find_body w) () it = Some (Inr (), it')
    | Some (Some (p, rest)) \<Rightarrow> \<exists>it'. msg_loop (find_body w) () it = Some (Inl p, it') \<and> read_all read_ref it' = Some rest"
  using assms
proof (induction rs arbitrary: it)
  case Nil
  then have "remain it = 0" by (subst (asm) read_all.simps) (auto split: if_splits Option.bind_splits)
  then show ?case by (simp add: msg_loop.simps)
next
  case (Cons r rs)
  then obtain it' where it': "remain it \<noteq> 0" "read_ref it = Some (r, it')" "read_all read_ref it' = Some rs"
    by (subst (asm) read_all.simps) (auto split: if_splits Option.bind_splits)
  then have "msg_loop (find_body w) () it = do {
      node \<leftarrow> Msg_GetNode w r;
      case node of None \<Rightarrow> msg_loop (find_body w) () it' | Some p \<Rightarrow> Some (Inl p, it') }"
    by (subst msg_loop.simps) (auto simp: find_body_def read_node_def split: option.split Option.bind_split)
  then show ?case using Cons.IH [OF it'(3)] it'(3) by (auto split: option.splits Option.bind_split)
qed

lemma n_order_reads:
  assumes "geti 0 it = Some (a, it1)" "read_ref it1 = Some (tr, it2)" "read_all read_ref it2 = Some rs"
  shows "n_order it w = meth_n_order (sint a) tr rs w"
proof (cases "sint a \<in> {0, 1, 2, 3}")
  case False
  then show ?thesis using assms(1) by (simp add: n_order_def meth_n_order_def)
next
  case True
  define tgt where "tgt = (if sint a \<in> {0, 1} then Msg_GetGroup w tr else Msg_GetNode w tr)"
  have rd: "(if sint a \<in> {0, 1} then read_group w it1 else read_node w it1) = map_option (\<lambda>t. (t, it2)) tgt"
    using assms(2) by (cases tgt) (auto simp: read_group_def read_node_def tgt_def)
  define place where "place t p = (if sint a = 0 then move_head t p w else if sint a = 1 then move_tail False t p w
    else if sint a = 2 then move_before p t w else move_after p t w)" for t p
  define err where "err = (if sint a \<in> {0, 1} then kSCErr_GroupNotFound else kSCErr_TargetNodeNotFound)"
  have 1: "n_order it w = do { target \<leftarrow> tgt; case target of None \<Rightarrow> Some (err, w) | Some t \<Rightarrow> do {
      (first, it) \<leftarrow> msg_loop (find_body w) () it2;
      case first of Inr _ \<Rightarrow> Some (kSCErr_NodeNotFound, w)
      | Inl p \<Rightarrow> do { w \<leftarrow> place t p; handler order_body (\<lambda>(_, w). no_err w) (p, w) it } } }"
    using True unfolding err_def place_def by (cases tgt) (simp_all add: n_order_def assms(1) rd Let_def del: insert_iff)
  have 2: "meth_n_order (sint a) tr rs w = do { target \<leftarrow> tgt; case target of None \<Rightarrow> Some (err, w) | Some t \<Rightarrow> do {
      first \<leftarrow> first_node w rs;
      case first of None \<Rightarrow> Some (kSCErr_NodeNotFound, w)
      | Some (p, rs) \<Rightarrow> do { w \<leftarrow> place t p; w \<leftarrow> order_loop p rs w; no_err w } } }"
    using True unfolding meth_n_order_def no_err_def tgt_def err_def place_def by simp
  have 3: "handler order_body (\<lambda>(_, w). no_err w) (p, w) it' = do { w \<leftarrow> order_loop p rest w; no_err w }"
    if "read_all read_ref it' = Some rest" for p w it' rest
    using handler_folds [OF order.loop_folds [OF that]] fold_order [of rest p w] by (simp add: case_prod_beta)
  show ?thesis
  proof (cases "first_node w rs")
    case None
    then show ?thesis using find_first [OF assms(3), of w] unfolding 1 2 by (auto split: option.split Option.bind_split)
  next
    case (Some f)
    then show ?thesis using find_first [OF assms(3), of w] 3 unfolding 1 2
      by (cases f) (auto split: option.split Option.bind_split)
  qed
qed

section \<open>Lemmas: messages of the language\<close>

text \<open>The arguments that the language sends, as the handlers read them.\<close>

lemma at_args_int:
  assumes "at_args ud (SInt i # fs) it"
  shows "\<exists>it'. (\<forall>d. nextTag d it = Some (tag_of (CHR ''i''))) \<and> remain it \<noteq> 0 \<and> (\<forall>d. geti d it = Some (i, it')) \<and>
    at_args ud fs it' \<and> mem it' = mem it"
proof -
  obtain t where tag: "tags it = Some t" "read_byte (mem it) (t + msg_iter.count it) = Some (tag_of (CHR ''i''))"
    using at_args_tag [OF assms] by auto
  obtain rest where r: "reads (sc_htonl i @ rest) it (4 + length rest)" "at_args ud fs (counted (advance 4 it))"
    using at_args_step [OF assms] by auto
  have "remain it \<noteq> 0" using reads_remain [OF r(1)] by simp
  moreover have "OSCint (mem it) (rdpos it) = Some i" using r(1) by (auto simp: reads_def)
  ultimately show ?thesis using tag r(2) by (simp add: nextTag_def geti_def counted_def advance_def)
qed

lemma at_args_sym:
  assumes "at_args ud (SSym s # fs) it" "0 \<notin> set s"
  shows "\<exists>it' p. gets None it = Some (Some p, it') \<and> cstring (mem it) p = Some s \<and> at_args ud fs it' \<and> mem it' = mem it"
proof -
  obtain t where tag: "tags it = Some t" "read_byte (mem it) (t + msg_iter.count it) = Some (tag_of (CHR ''s''))"
    using at_args_tag [OF assms(1)] by auto
  obtain rest where r: "reads (osc_pad s @ rest) it (length (osc_pad s) + length rest)"
      "at_args ud fs (counted (advance (int (length (osc_pad s))) it))"
    using at_args_step [OF assms(1)] by auto
  obtain A B where m: "mem it = A @ osc_pad s @ rest @ B" "rdpos it = int (length A)" using r(1) by (auto simp: reads_def)
  have "remain it \<noteq> 0" using reads_remain [OF r(1)] by (simp add: length_pad)
  moreover have "skip_string it = Some (it\<lparr>rdpos := int (length A + length (osc_pad s))\<rparr>)"
    using strskip_at [OF assms(2), of A "rest @ B"] m by (simp add: skip_string_def)
  moreover have "cstring (mem it) (rdpos it) = Some s" using cstring_at [OF assms(2), of A "rest @ B"] m by simp
  ultimately show ?thesis using tag r(2) m by (simp add: gets_def nextTag_def counted_def advance_def)
qed

lemma read_ref_at:
  "at_args ud (SInt i # fs) it \<Longrightarrow> \<exists>it'. read_ref it = Some (ById (sint i), it') \<and> at_args ud fs it' \<and> remain it \<noteq> 0"
  using at_args_int [of ud i fs it] by (auto simp: read_ref_def)

lemma at_args_end: "at_args ud [] it \<Longrightarrow> remain it = 0"
  using at_args_remain [of ud "[]" it] by simp

lemma read_all_end: "at_args ud [] it \<Longrightarrow> read_all rd it = Some []"
  by (subst read_all.simps) (simp add: at_args_end)

lemma read_refs_at: "at_args ud (map SInt is) it \<Longrightarrow> read_all read_ref it = Some (map (\<lambda>i. ById (sint i)) is)"
proof (induction "is" arbitrary: it)
  case (Cons i js)
  obtain it' where "read_ref it = Some (ById (sint i), it')" "at_args ud (map SInt js) it'" "remain it \<noteq> 0"
    using read_ref_at [of ud i "map SInt js" it] Cons.prems by auto
  then show ?case using Cons.IH by (subst read_all.simps) simp
qed (simp add: read_all_end)

lemma read_pairs_at:
  "at_args ud (concat (map (\<lambda>(a, b). [SInt a, SInt b]) ps)) it \<Longrightarrow>
    read_all read_pair it = Some (map (\<lambda>(a, b). (ById (sint a), ById (sint b))) ps)"
proof (induction ps arbitrary: it)
  case (Cons p ps)
  obtain a b where p: "p = (a, b)" by (cases p)
  obtain it1 where 1: "read_ref it = Some (ById (sint a), it1)" "remain it \<noteq> 0"
      "at_args ud (SInt b # concat (map (\<lambda>(a, b). [SInt a, SInt b]) ps)) it1"
    using read_ref_at [of ud a] Cons.prems p by fastforce
  obtain it2 where 2: "read_ref it1 = Some (ById (sint b), it2)" "at_args ud (concat (map (\<lambda>(a, b). [SInt a, SInt b]) ps)) it2"
    using read_ref_at [OF 1(3)] by auto
  have "read_pair it = Some ((ById (sint a), ById (sint b)), it2)" using 1(1) 2(1) by (simp add: read_pair_def)
  then show ?case using 1(2) Cons.IH [OF 2(2)] by (subst read_all.simps) (simp add: p)
qed (simp add: read_all_end)

lemma read_new_at:
  assumes "at_args ud [SInt i, SInt a, SInt t] it"
  shows "read_all read_new it = Some [(sint i, sint a, ById (sint t))]"
proof -
  obtain it1 where 1: "geti 0 it = Some (i, it1)" "remain it \<noteq> 0" "at_args ud [SInt a, SInt t] it1"
    using at_args_int [OF assms] by auto
  obtain it2 where 2: "geti 0 it1 = Some (a, it2)" "at_args ud [SInt t] it2" using at_args_int [OF 1(3)] by auto
  obtain it3 where 3: "read_ref it2 = Some (ById (sint t), it3)" "at_args ud [] it3" using read_ref_at [OF 2(2)] by auto
  have "read_new it = Some ((sint i, sint a, ById (sint t)), it3)" using 1(1) 2(1) 3(1) by (simp add: read_new_def)
  then show ?thesis using 1(2) read_all_end [OF 3(2), of read_new] by (subst read_all.simps) simp
qed

text \<open>A reader of a message with the arguments \<open>fs\<close>.\<close>

lemma args_exist:
  assumes "\<forall>f \<in> set fs. sendable f" "msg_words False [] fs < 2 ^ 60"
  shows "\<exists>it. at_args False fs it"
proof -
  have "\<exists>bs. arg_data False f bs" if "sendable f" for f
  proof (cases f)
    case (SBytes b)
    have "length (osc_blob b (replicate (4 * ((length b + 3) div 4) - length b) 0)) = 4 * ((length b + 3) div 4 + 1)"
      using blob_words(2) [of "length b"] by (simp add: osc_blob_def)
    then show ?thesis using SBytes by auto
  qed (use that in auto)
  then obtain d where "\<forall>f \<in> set fs. arg_data False f (d f)" using assms(1) by metis
  then have "list_all2 (arg_data False) fs (map d fs)" by (simp add: list_all2_conv_all_nth)
  then obtain m where m: "osc_message False [] fs m" by (auto simp: osc_message_def)
  then have "length m < 2 ^ 63" using message_length [OF m assms(1)] assms(2) by simp
  then show ?thesis using message_iter [OF m _ assms(1), of "[]" "[]"] by auto
qed

text \<open>A handler on a message, and on the list of its arguments.\<close>

lemma handler_on_list:
  "(read_all read_ref it = Some rs \<longrightarrow>
      n_free k it w = meth_n_free k rs w \<and> g_freeAll k it w = meth_g_freeAll k rs w \<and> g_deepFree k it w = meth_g_deepFree k rs w) \<and>
   (read_all read_pair it = Some ps \<longrightarrow>
      g_head it w = meth_g_head ps w \<and> g_tail it w = meth_g_tail ps w \<and> n_before it w = meth_n_before ps w \<and> n_after it w = meth_n_after ps w) \<and>
   (read_all read_ref_int it = Some rs2 \<longrightarrow> n_run it w = meth_n_run rs2 w) \<and>
   (read_all read_new it = Some ns \<longrightarrow> length ns \<le> length as \<longrightarrow>
      map_option (\<lambda>(err, _, w). (err, w)) (g_new k it as w) = meth_g_new k (zip as ns) w)"
proof (intro conjI impI)
  assume rs: "read_all read_ref it = Some rs"
  show "n_free k it w = meth_n_free k rs w" "g_freeAll k it w = meth_g_freeAll k rs w" "g_deepFree k it w = meth_g_deepFree k rs w"
    using handler_folds [OF n_free.loop_folds [OF rs]] handler_folds [OF free_group.loop_folds [OF rs]]
    by (simp_all add: n_free_def g_freeAll_def g_deepFree_def fold_free fold_freeAll fold_deepFree)
next
  assume ps: "read_all read_pair it = Some ps"
  show "g_head it w = meth_g_head ps w" "g_tail it w = meth_g_tail ps w"
    using handler_folds [OF into_group.loop_folds [OF ps]] by (simp_all add: g_head_def g_tail_def fold_head fold_tail)
  show "n_before it w = meth_n_before ps w" "n_after it w = meth_n_after ps w"
    using handler_folds [OF next_to.loop_folds [OF ps]]
    by (auto simp: n_before_def n_after_def meth_n_before_def meth_n_after_def fold_before fold_after no_err_def split: Option.bind_split option.split)
next
  assume "read_all read_ref_int it = Some rs2"
  then show "n_run it w = meth_n_run rs2 w" using handler_folds [OF n_run.loop_folds] by (simp add: n_run_def fold_run)
next
  assume ns: "read_all read_new it = Some ns" "length ns \<le> length as"
  note fold = new_group.loop_folds [OF ns(1), of k "(as, w)", symmetric]
  show "map_option (\<lambda>(err, _, w). (err, w)) (g_new k it as w) = meth_g_new k (zip as ns) w"
    unfolding fold_new [OF ns(2), symmetric] fold
    by (cases "msg_loop (new_group_body k) (as, w) it") (auto simp: g_new_def split: sum.split)
qed

section \<open>Properties\<close>



end
