(* ===== verification/SC_Engine.thy ===== *)
theory SC_Engine
  imports SC_Messages SC_Scheduler SC_MsgFifo
begin

text \<open>
  From a packet to the nodes: how the server takes a packet apart that it has received
  (\<open>UnrollOSCPacket\<close> in \<open>server/scsynth/SC_ComPort.cpp\<close>), hands it to the audio thread, and how that thread
  performs or schedules it (\<open>SC_CoreAudio.cpp\<close>) with the table of commands (\<open>SC_Lib.cpp\<close>, \<open>SC_MiscCmds.cpp\<close>).
  A packet is its bytes: who owns their memory, and the replies to the client, are not modelled.
\<close>

section \<open>Packets and the state of the engine\<close>

record OSC_Packet =
  mData :: "byte list"
  mIsBundle :: bool

text \<open>The world, the two queues of the driver, and the addresses that the allocator is going to return.\<close>

record engine =
  world :: SC_World
  mScheduler :: "OSC_Packet PQ"
  mOscPacketsToEngine :: "OSC_Packet MsgFifo"
  addrs :: "addr list"

section \<open>Receiving a packet\<close>

text \<open>Whether the string in the memory is \<open>s\<close>, as \<open>strcmp\<close> finds out.\<close>

fun strcmp_eq :: "byte list \<Rightarrow> byte list \<Rightarrow> bool option" where
  "strcmp_eq m [] = Some True"
| "strcmp_eq [] (c # s) = None"
| "strcmp_eq (b # m) (c # s) = (if b = c then strcmp_eq m s else Some False)"

definition is_bundle :: "byte list \<Rightarrow> int \<Rightarrow> bool option" where
  "is_bundle m p = (if 0 \<le> p then strcmp_eq (drop (nat p) m) (bytes_of ''#bundle'' @ [0]) else None)"

definition checkIsBundle :: "byte list \<Rightarrow> bool option" where
  "checkIsBundle m = do {
     a \<leftarrow> read_bytes m 0 4;
     if a = bytes_of ''#bun'' then do { b \<leftarrow> read_bytes m 4 4; Some (b = bytes_of ''dle'' @ [0]) }
     else Some False }"

text \<open>\<open>SendOscPacketMsgToEngine\<close> frees what has been performed before it writes.\<close>

definition SendOscPacketMsgToEngine :: "'a \<Rightarrow> 'a MsgFifo \<Rightarrow> (bool \<times> 'a MsgFifo) option" where
  "SendOscPacketMsgToEngine pk q = do { (_, q) \<leftarrow> SC_MsgFifo.Free q; Write pk q }"

definition ProcessOSCPacket :: "byte list \<Rightarrow> OSC_Packet MsgFifo \<Rightarrow> (bool \<times> OSC_Packet MsgFifo) option" where
  "ProcessOSCPacket data q = do {
     b \<leftarrow> checkIsBundle data;
     SendOscPacketMsgToEngine \<lparr>mData = data, mIsBundle = b\<rparr> q }"

text \<open>
  \<open>UnrollOSCPacket\<close> goes through the elements of a bundle three times: to count, to copy, and to enter
  the nested bundles. Each time it finds the same sizes and positions.
\<close>

partial_function (option) elements :: "byte list \<Rightarrow> int \<Rightarrow> int \<Rightarrow> (int \<times> int \<times> bool) list option" where
  "elements m dataEnd data =
     (if data < dataEnd then do {
        msgSize \<leftarrow> map_option sint (OSCint m data);
        b \<leftarrow> is_bundle m (data + 4);
        es \<leftarrow> elements m dataEnd (data + 4 + msgSize);
        Some ((msgSize, data + 4, b) # es) }
      else Some [])"

definition read_copy :: "byte list \<Rightarrow> int \<Rightarrow> int \<Rightarrow> byte list option" where
  "read_copy m p n = (if 0 \<le> n then read_bytes m p (nat n) else None)"

definition write_copy :: "byte list \<Rightarrow> int \<Rightarrow> byte list \<Rightarrow> byte list option" where
  "write_copy dest p bs =
     (if 0 \<le> p \<and> nat p + length bs \<le> length dest then Some (take (nat p) dest @ bs @ drop (nat p + length bs) dest) else None)"

fun copy_messages :: "byte list \<Rightarrow> (int \<times> int \<times> bool) list \<Rightarrow> int \<Rightarrow> byte list \<Rightarrow> byte list option" where
  "copy_messages m [] p dest = Some dest"
| "copy_messages m ((msgSize, data, b) # es) p dest =
     (if b then copy_messages m es p dest
      else do {
        bs \<leftarrow> read_copy m (data - 4) (4 + msgSize);
        dest \<leftarrow> write_copy dest p bs;
        copy_messages m es (p + msgSize) dest })"

fun unroll_nested :: "(int \<Rightarrow> int \<Rightarrow> 'q \<Rightarrow> (bool \<times> 'q) option) \<Rightarrow> (int \<times> int \<times> bool) list \<Rightarrow> 'q \<Rightarrow> (bool \<times> 'q) option" where
  "unroll_nested unroll [] q = Some (True, q)"
| "unroll_nested unroll ((msgSize, data, b) # es) q =
     (if b then do {
        (ok, q) \<leftarrow> unroll msgSize data q;
        if ok then unroll_nested unroll es q else Some (False, q) }
      else unroll_nested unroll es q)"

text \<open>
  \<open>junk\<close> is what fresh memory holds, the first number bounds the depth of the recursion; \<open>m\<close> is the
  memory that the packet was received in.
\<close>

fun UnrollOSCPacket :: "(nat \<Rightarrow> byte) \<Rightarrow> nat \<Rightarrow> byte list \<Rightarrow> int \<Rightarrow> int \<Rightarrow> OSC_Packet MsgFifo \<Rightarrow> (bool \<times> OSC_Packet MsgFifo) option" where
  "UnrollOSCPacket junk 0 m inSize inData q = None"
| "UnrollOSCPacket junk (Suc k) m inSize inData q = do {
     b \<leftarrow> is_bundle m inData;
     if b then do {
       es \<leftarrow> elements m (inData + inSize) (inData + 16);
       let len = 16 + (\<Sum>(msgSize, _, b) \<leftarrow> es. if b then 0 else 4 + msgSize);
       if list_ex (\<lambda>(_, _, b). b) es then do {
         (ok, q) \<leftarrow> (if len > 16 then do {
             header \<leftarrow> read_bytes m inData 16;
             buf \<leftarrow> copy_messages m es 0 (header @ map junk [16..<nat len]);
             ProcessOSCPacket buf q }
           else Some (True, q));
         if ok then unroll_nested (\<lambda>msgSize data. UnrollOSCPacket junk k m msgSize data) es q
         else Some (False, q) }
       else do { buf \<leftarrow> read_copy m inData inSize; ProcessOSCPacket buf q } }
     else do { buf \<leftarrow> read_copy m inData inSize; ProcessOSCPacket buf q } }"

section \<open>The table of commands\<close>

text \<open>Commands that are not modelled are known by their name.\<close>

datatype SC_LibCmd =
  Cmd_none | Cmd_clearSched | Cmd_s_new | Cmd_s_newargs | Cmd_n_free | Cmd_n_run | Cmd_n_before | Cmd_n_after | Cmd_n_order
| Cmd_g_new | Cmd_p_new | Cmd_g_head | Cmd_g_tail | Cmd_g_freeAll | Cmd_g_deepFree | Cmd_other string

record library =
  gCmdLib :: "(byte list \<times> SC_LibCmd) list"
  gCmdArray :: "SC_LibCmd option list"

text \<open>Names are compared word by word, with the zeros that fill them up.\<close>

definition NewCommand :: "string \<times> nat \<times> SC_LibCmd \<Rightarrow> library \<Rightarrow> library option" where
  "NewCommand = (\<lambda>(inPath, inCommandNumber, inFunc) lib. do {
     cmds \<leftarrow> arr_set (gCmdArray lib) inCommandNumber (Some inFunc);
     Some \<lparr>gCmdLib = gCmdLib lib @ [(osc_pad (bytes_of (''/'' @ inPath)), inFunc), (osc_pad (bytes_of inPath), inFunc)], gCmdArray = cmds\<rparr> })"

definition NUMBER_OF_COMMANDS :: nat where
  "NUMBER_OF_COMMANDS = 65"

definition misc_commands :: "(string \<times> nat \<times> SC_LibCmd) list" where
  "misc_commands = [
     (''none'', 0, Cmd_none), (''notify'', 1, Cmd_other ''notify''), (''status'', 2, Cmd_other ''status''),
     (''quit'', 3, Cmd_other ''quit''), (''clearSched'', 51, Cmd_clearSched), (''version'', 64, Cmd_other ''version''),
     (''d_recv'', 5, Cmd_other ''d_recv''), (''d_load'', 6, Cmd_other ''d_load''),
     (''d_loadDir'', 7, Cmd_other ''d_loadDir''), (''d_freeAll'', 8, Cmd_other ''d_freeAll''),
     (''d_free'', 53, Cmd_other ''d_free''), (''s_new'', 9, Cmd_s_new), (''s_newargs'', 59, Cmd_s_newargs),
     (''n_trace'', 10, Cmd_other ''n_trace''), (''n_free'', 11, Cmd_n_free), (''n_run'', 12, Cmd_n_run),
     (''u_cmd'', 20, Cmd_other ''u_cmd''), (''cmd'', 4, Cmd_other ''cmd''), (''n_map'', 14, Cmd_other ''n_map''),
     (''n_mapn'', 48, Cmd_other ''n_mapn''), (''n_mapa'', 60, Cmd_other ''n_mapa''), (''n_mapan'', 61, Cmd_other ''n_mapan''),
     (''n_set'', 15, Cmd_other ''n_set''), (''n_setn'', 16, Cmd_other ''n_setn''), (''n_fill'', 17, Cmd_other ''n_fill''),
     (''n_before'', 18, Cmd_n_before), (''n_after'', 19, Cmd_n_after), (''n_order'', 62, Cmd_n_order),
     (''g_new'', 21, Cmd_g_new), (''g_head'', 22, Cmd_g_head), (''g_tail'', 23, Cmd_g_tail),
     (''g_freeAll'', 24, Cmd_g_freeAll), (''g_deepFree'', 50, Cmd_g_deepFree), (''p_new'', 63, Cmd_p_new),
     (''b_alloc'', 28, Cmd_other ''b_alloc''), (''b_allocRead'', 29, Cmd_other ''b_allocRead''),
     (''b_allocReadChannel'', 54, Cmd_other ''b_allocReadChannel''), (''b_read'', 30, Cmd_other ''b_read''),
     (''b_readChannel'', 55, Cmd_other ''b_readChannel''), (''b_write'', 31, Cmd_other ''b_write''),
     (''b_free'', 32, Cmd_other ''b_free''), (''b_close'', 33, Cmd_other ''b_close''), (''b_zero'', 34, Cmd_other ''b_zero''),
     (''b_set'', 35, Cmd_other ''b_set''), (''b_setn'', 36, Cmd_other ''b_setn''), (''b_fill'', 37, Cmd_other ''b_fill''),
     (''b_gen'', 38, Cmd_other ''b_gen''), (''c_set'', 25, Cmd_other ''c_set''), (''c_setn'', 26, Cmd_other ''c_setn''),
     (''c_fill'', 27, Cmd_other ''c_fill''), (''dumpOSC'', 39, Cmd_other ''dumpOSC''), (''c_get'', 40, Cmd_other ''c_get''),
     (''c_getn'', 41, Cmd_other ''c_getn''), (''b_get'', 42, Cmd_other ''b_get''), (''b_getn'', 43, Cmd_other ''b_getn''),
     (''s_get'', 44, Cmd_other ''s_get''), (''s_getn'', 45, Cmd_other ''s_getn''), (''n_query'', 46, Cmd_other ''n_query''),
     (''b_query'', 47, Cmd_other ''b_query''), (''s_noid'', 49, Cmd_other ''s_noid''), (''sync'', 52, Cmd_other ''sync''),
     (''g_dumpTree'', 56, Cmd_other ''g_dumpTree''), (''g_queryTree'', 57, Cmd_other ''g_queryTree''),
     (''error'', 58, Cmd_other ''error'')]"

fun new_commands :: "(string \<times> nat \<times> SC_LibCmd) list \<Rightarrow> library \<Rightarrow> library option" where
  "new_commands [] lib = Some lib"
| "new_commands (c # cs) lib = do { lib \<leftarrow> NewCommand c lib; new_commands cs lib }"

definition initMiscCommands :: "library option" where
  "initMiscCommands = new_commands misc_commands \<lparr>gCmdLib = [], gCmdArray = replicate NUMBER_OF_COMMANDS None\<rparr>"

section \<open>Performing commands\<close>

text \<open>
  What performing depends on: the bound for the depth of deletions, the names of the synth
  definitions, the effect of the commands that are not modelled, and the table.
\<close>

record server =
  depth :: nat
  synthdefs :: "byte list \<Rightarrow> bool"
  others :: "string \<Rightarrow> byte list \<Rightarrow> int \<Rightarrow> int \<Rightarrow> SC_World \<Rightarrow> (SCErr \<times> SC_World) option"
  commands :: library

definition on_world :: "(SCErr \<times> SC_World) option \<Rightarrow> engine \<Rightarrow> (SCErr \<times> engine) option" where
  "on_world r e = do { (err, w) \<leftarrow> r; Some (err, e\<lparr>world := w\<rparr>) }"

definition on_new :: "(SCErr \<times> addr list \<times> SC_World) option \<Rightarrow> engine \<Rightarrow> (SCErr \<times> engine) option" where
  "on_new r e = do { (err, ps, w) \<leftarrow> r; Some (err, e\<lparr>world := w, addrs := ps\<rparr>) }"

definition clearSched :: "engine \<Rightarrow> (SCErr \<times> engine) option" where
  "clearSched e =
     (if mRealTime (world e) then do { q \<leftarrow> Empty (mScheduler e); Some (kSCErr_None, e\<lparr>mScheduler := q\<rparr>) }
      else Some (kSCErr_None, e))"

definition SC_LibCmd_Perform :: "server \<Rightarrow> SC_LibCmd \<Rightarrow> byte list \<Rightarrow> int \<Rightarrow> int \<Rightarrow> engine \<Rightarrow> (SCErr \<times> engine) option" where
  "SC_LibCmd_Perform S cmd m inSize inData e =
     (let k = depth S; w = world e; msg = msg_init m inSize inData in
      case cmd of
        Cmd_none \<Rightarrow> Some (kSCErr_None, e)
      | Cmd_clearSched \<Rightarrow> clearSched e
      | Cmd_other name \<Rightarrow> on_world (others S name m inSize inData w) e
      | Cmd_s_new \<Rightarrow> do { it \<leftarrow> msg; on_new (s_new_msg True k (synthdefs S) it (addrs e) w) e }
      | Cmd_s_newargs \<Rightarrow> do { it \<leftarrow> msg; on_new (s_new_msg False k (synthdefs S) it (addrs e) w) e }
      | Cmd_g_new \<Rightarrow> do { it \<leftarrow> msg; on_new (g_new k it (addrs e) w) e }
      | Cmd_p_new \<Rightarrow> do { it \<leftarrow> msg; on_new (g_new k it (addrs e) w) e }
      | Cmd_n_free \<Rightarrow> do { it \<leftarrow> msg; on_world (n_free k it w) e }
      | Cmd_n_run \<Rightarrow> do { it \<leftarrow> msg; on_world (n_run it w) e }
      | Cmd_n_before \<Rightarrow> do { it \<leftarrow> msg; on_world (n_before it w) e }
      | Cmd_n_after \<Rightarrow> do { it \<leftarrow> msg; on_world (n_after it w) e }
      | Cmd_n_order \<Rightarrow> do { it \<leftarrow> msg; on_world (n_order it w) e }
      | Cmd_g_head \<Rightarrow> do { it \<leftarrow> msg; on_world (g_head it w) e }
      | Cmd_g_tail \<Rightarrow> do { it \<leftarrow> msg; on_world (g_tail it w) e }
      | Cmd_g_freeAll \<Rightarrow> do { it \<leftarrow> msg; on_world (g_freeAll k it w) e }
      | Cmd_g_deepFree \<Rightarrow> do { it \<leftarrow> msg; on_world (g_deepFree k it w) e })"

text \<open>A \<open>char\<close> is signed, so a byte from 128 on is a large unsigned index.\<close>

definition PerformOSCMessage :: "server \<Rightarrow> byte list \<Rightarrow> int \<Rightarrow> int \<Rightarrow> engine \<Rightarrow> (SCErr \<times> engine) option" where
  "PerformOSCMessage S m inSize inData e = do {
     c \<leftarrow> read_byte m inData;
     (cmdObj, cmdNameLen) \<leftarrow>
       (if c = 0 then do {
          d \<leftarrow> read_byte m (inData + 3);
          let index = (scast d :: 32 word);
          Some (if unat index \<ge> NUMBER_OF_COMMANDS then None else gCmdArray (commands S) ! unat index, 4) }
        else do {
          n \<leftarrow> OSCstrlen m inData;
          name \<leftarrow> read_bytes m inData (nat n);
          Some (map_of (gCmdLib (commands S)) name, n) });
     case cmdObj of
       None \<Rightarrow> Some (kSCErr_NoSuchCommand, e)
     | Some cmd \<Rightarrow> SC_LibCmd_Perform S cmd m (inSize - cmdNameLen) (inData + cmdNameLen) e }"

partial_function (option) perform_loop :: "server \<Rightarrow> byte list \<Rightarrow> int \<Rightarrow> int \<Rightarrow> engine \<Rightarrow> engine option" where
  "perform_loop S m dataEnd data e =
     (if data < dataEnd then do {
        msgSize \<leftarrow> map_option sint (OSCint m data);
        (_, e) \<leftarrow> PerformOSCMessage S m msgSize (data + 4) e;
        perform_loop S m dataEnd (data + 4 + msgSize) e }
      else Some e)"

definition PerformOSCBundle :: "server \<Rightarrow> OSC_Packet \<Rightarrow> engine \<Rightarrow> engine option" where
  "PerformOSCBundle S pk e = perform_loop S (mData pk) (int (length (mData pk))) 16 e"

datatype PacketStatus = PacketPerformed | PacketScheduled

text \<open>\<open>AddEvent\<close> ignores whether the event was added; a late bundle is only reported.\<close>

definition AddEvent :: "int \<Rightarrow> OSC_Packet \<Rightarrow> engine \<Rightarrow> engine option" where
  "AddEvent time pk e = do {
     (_, q) \<leftarrow> SC_Scheduler.Add \<lparr>mTime = time, mStabilityCount = 0, mPacket = pk\<rparr> (mScheduler e);
     Some (e\<lparr>mScheduler := q\<rparr>) }"

definition PerformOSCPacket :: "server \<Rightarrow> OSC_Packet \<Rightarrow> engine \<Rightarrow> (PacketStatus \<times> engine) option" where
  "PerformOSCPacket S pk e =
     (if \<not> mIsBundle pk then do {
        (_, e) \<leftarrow> PerformOSCMessage S (mData pk) (int (length (mData pk))) 0 e;
        Some (PacketPerformed, e) }
      else do {
        t \<leftarrow> OSCtime (mData pk) 8;
        let time = sint t;
        if time = 0 \<or> time = 1 then do { e \<leftarrow> PerformOSCBundle S pk e; Some (PacketPerformed, e) }
        else do { e \<leftarrow> AddEvent time pk e; Some (PacketScheduled, e) } })"

fun Perform_ToEngine_Msgs :: "server \<Rightarrow> OSC_Packet list \<Rightarrow> engine \<Rightarrow> engine option" where
  "Perform_ToEngine_Msgs S [] e = Some e"
| "Perform_ToEngine_Msgs S (pk # pks) e = do { (_, e) \<leftarrow> PerformOSCPacket S pk e; Perform_ToEngine_Msgs S pks e }"

text \<open>
  The audio callback: it performs the packets that have arrived, which do not touch their queue,
  and for each block the events that are due before \<open>nextTime\<close>.
\<close>

definition perform_arrived :: "server \<Rightarrow> engine \<Rightarrow> engine option" where
  "perform_arrived S e = do {
     (pks, q) \<leftarrow> SC_MsgFifo.Perform (mOscPacketsToEngine e);
     Perform_ToEngine_Msgs S pks (e\<lparr>mOscPacketsToEngine := q\<rparr>) }"

partial_function (option) perform_due :: "server \<Rightarrow> int \<Rightarrow> engine \<Rightarrow> engine option" where
  "perform_due S nextTime e = do {
     schedTime \<leftarrow> NextTime (mScheduler e);
     if schedTime \<le> nextTime then do {
       (event, q) \<leftarrow> SC_Scheduler.Remove (mScheduler e);
       e \<leftarrow> PerformOSCBundle S (mPacket event) (e\<lparr>mScheduler := q\<rparr>);
       perform_due S nextTime e }
     else Some e }"

section \<open>Lemmas: the table of commands\<close>

lemma unat_of_char: "unat (of_char c :: byte) = of_char c"
proof -
  have "(of_char c :: byte) = of_nat (of_char c)" by (simp add: of_nat_of_char)
  then have "unat (of_char c :: byte) = of_char c mod 2 ^ 8" by (simp only: unat_of_nat) simp
  then show ?thesis by simp
qed

lemma byte_inj: "(of_char c :: byte) = of_char d \<longleftrightarrow> c = d"
  by (metis of_char_eq_iff unat_of_char)

lemma bytes_of_inj: "bytes_of s = bytes_of t \<longleftrightarrow> s = t"
  by (simp add: bytes_of_def inj_map_eq_map inj_def byte_inj)

lemma bytes_zero: "0 \<in> set (bytes_of s) \<longleftrightarrow> CHR 0x00 \<in> set s"
proof -
  have "0 \<in> set (bytes_of s) \<longleftrightarrow> (of_char (CHR 0x00) :: byte) \<in> of_char ` set s" by (simp add: bytes_of_def)
  also have "\<dots> \<longleftrightarrow> CHR 0x00 \<in> set s" by (rule inj_image_mem_iff) (simp add: inj_def byte_inj)
  finally show ?thesis .
qed

lemma osc_pad_inj:
  assumes "0 \<notin> set a" "0 \<notin> set b"
  shows "osc_pad a = osc_pad b \<longleftrightarrow> a = b"
proof -
  have "takeWhile (\<lambda>b. b \<noteq> 0) (osc_pad s) = s" if "0 \<notin> set s" for s :: "byte list"
    using pad_zero [of s] takeWhile_string [OF that] by metis
  then show ?thesis using assms by metis
qed

definition entries :: "string \<times> nat \<times> SC_LibCmd \<Rightarrow> (byte list \<times> SC_LibCmd) list" where
  "entries = (\<lambda>(n, i, f). [(osc_pad (bytes_of (''/'' @ n)), f), (osc_pad (bytes_of n), f)])"

lemma new_commands_ok:
  "\<forall>(n, i, f) \<in> set cs. i < length (gCmdArray lib) \<Longrightarrow> distinct (map (fst \<circ> snd) cs) \<Longrightarrow>
    \<exists>lib'. new_commands cs lib = Some lib' \<and> gCmdLib lib' = gCmdLib lib @ concat (map entries cs) \<and>
      length (gCmdArray lib') = length (gCmdArray lib) \<and> (\<forall>(n, i, f) \<in> set cs. gCmdArray lib' ! i = Some f) \<and>
      (\<forall>j. j \<notin> (fst \<circ> snd) ` set cs \<longrightarrow> gCmdArray lib' ! j = gCmdArray lib ! j)"
proof (induction cs arbitrary: lib)
  case (Cons c cs)
  obtain n i f where c: "c = (n, i, f)" by (cases c)
  let ?lib = "\<lparr>gCmdLib = gCmdLib lib @ entries c, gCmdArray = (gCmdArray lib)[i := Some f]\<rparr>"
  have new: "NewCommand c lib = Some ?lib" using Cons.prems(1) by (simp add: NewCommand_def c entries_def)
  have "\<forall>(n, i, f) \<in> set cs. i < length (gCmdArray ?lib)" "distinct (map (fst \<circ> snd) cs)"
    using Cons.prems by (simp_all add: c comp_def)
  from Cons.IH [OF this] obtain lib' where lib': "new_commands cs ?lib = Some lib'"
      "gCmdLib lib' = gCmdLib ?lib @ concat (map entries cs)" "length (gCmdArray lib') = length (gCmdArray ?lib)"
      "\<forall>(n, i, f) \<in> set cs. gCmdArray lib' ! i = Some f" "\<forall>j. j \<notin> (fst \<circ> snd) ` set cs \<longrightarrow> gCmdArray lib' ! j = gCmdArray ?lib ! j"
    by blast
  moreover have "gCmdArray lib' ! i = Some f" using lib'(5) Cons.prems by (auto simp: c)
  ultimately show ?case using new by (intro exI [of _ lib']) (auto simp: c)
qed simp

lemma misc_numbers: "distinct (map (fst \<circ> snd) misc_commands)" "\<forall>(n, i, f) \<in> set misc_commands. i < NUMBER_OF_COMMANDS"
  by (simp_all add: misc_commands_def NUMBER_OF_COMMANDS_def)

lemma misc_names: "distinct (map fst misc_commands)" "\<forall>(n, i, f) \<in> set misc_commands. n \<noteq> [] \<and> hd n \<noteq> CHR ''/'' \<and> CHR 0x00 \<notin> set n"
  by (simp_all add: misc_commands_def)

lemma distinct_entries:
  "distinct (map fst cs) \<Longrightarrow> \<forall>(n, i, f) \<in> set cs. n \<noteq> [] \<and> hd n \<noteq> CHR ''/'' \<and> CHR 0x00 \<notin> set n \<Longrightarrow>
    distinct (map fst (concat (map entries cs))) \<and>
    fst ` set (concat (map entries cs)) = (\<lambda>n. osc_pad (bytes_of n)) ` (fst ` set cs \<union> (\<lambda>n. ''/'' @ n) ` fst ` set cs)"
proof (induction cs)
  case (Cons c cs)
  obtain n i f where c: "c = (n, i, f)" by (cases c)
  have ok: "m \<noteq> [] \<and> hd m \<noteq> CHR ''/'' \<and> CHR 0x00 \<notin> set m" if "m \<in> insert n (fst ` set cs)" for m
    using Cons.prems(2) that by (auto simp: c)
  have eq: "osc_pad (bytes_of a) = osc_pad (bytes_of b) \<longleftrightarrow> a = b" if "CHR 0x00 \<notin> set a" "CHR 0x00 \<notin> set b" for a b
    using osc_pad_inj bytes_zero that bytes_of_inj by metis
  have IH: "distinct (map fst (concat (map entries cs)))"
      "fst ` set (concat (map entries cs)) = (\<lambda>n. osc_pad (bytes_of n)) ` (fst ` set cs \<union> (\<lambda>n. ''/'' @ n) ` fst ` set cs)"
    using Cons by auto
  define N where "N = fst ` set cs \<union> (\<lambda>n. ''/'' @ n) ` fst ` set cs"
  have z: "CHR 0x00 \<notin> set b" if "b \<in> N" for b
  proof -
    from that obtain m where "m \<in> fst ` set cs" "b = m \<or> b = ''/'' @ m" by (auto simp: N_def)
    then show ?thesis using ok [of m] by auto
  qed
  have fresh: "osc_pad (bytes_of a) \<notin> fst ` set (concat (map entries cs))" if "CHR 0x00 \<notin> set a" "a \<notin> N" for a
  proof
    assume "osc_pad (bytes_of a) \<in> fst ` set (concat (map entries cs))"
    then obtain b where "b \<in> N" "osc_pad (bytes_of a) = osc_pad (bytes_of b)" unfolding IH(2) N_def [symmetric] by blast
    then show False using eq [OF that(1) z [of b]] that(2) by simp
  qed
  have "n \<notin> fst ` set cs" using Cons.prems(1) by (simp add: c)
  moreover have "n \<notin> (\<lambda>n. ''/'' @ n) ` fst ` set cs" using ok [of n] by auto
  moreover have "''/'' @ n \<notin> fst ` set cs" using ok [of "''/'' @ n"] by fastforce
  moreover have "''/'' @ n \<notin> (\<lambda>n. ''/'' @ n) ` fst ` set cs" using calculation(1) by (simp add: image_iff)
  ultimately have "n \<notin> N" "''/'' @ n \<notin> N" "CHR 0x00 \<notin> set n" "CHR 0x00 \<notin> set (''/'' @ n)" using ok [of n] by (simp_all add: N_def)
  then have new: "osc_pad (bytes_of n) \<notin> fst ` set (concat (map entries cs))" "osc_pad (bytes_of (''/'' @ n)) \<notin> fst ` set (concat (map entries cs))"
    using fresh by blast+
  moreover have "osc_pad (bytes_of n) \<noteq> osc_pad (bytes_of (''/'' @ n))" using ok [of n] eq [of n "''/'' @ n"] by auto
  ultimately have "distinct (map fst (concat (map entries (c # cs))))" using IH(1) by (simp add: c entries_def)
  then show ?case using IH(2) by (auto simp: c entries_def)
qed simp

text \<open>Every command answers to its name, with and without a slash, and to its number.\<close>

lemma commands_found:
  assumes "initMiscCommands = Some lib" "(n, i, f) \<in> set misc_commands"
  shows "map_of (gCmdLib lib) (osc_pad (bytes_of n)) = Some f" "map_of (gCmdLib lib) (osc_pad (bytes_of (''/'' @ n))) = Some f"
    "i < NUMBER_OF_COMMANDS" "gCmdArray lib ! i = Some f"
proof -
  have lib: "gCmdLib lib = concat (map entries misc_commands)" "gCmdArray lib ! i = Some f"
    using new_commands_ok [of misc_commands "\<lparr>gCmdLib = [], gCmdArray = replicate NUMBER_OF_COMMANDS None\<rparr>"] misc_numbers assms
    by (auto simp: initMiscCommands_def)
  have mem: "(osc_pad (bytes_of n), f) \<in> set (gCmdLib lib)" "(osc_pad (bytes_of (''/'' @ n)), f) \<in> set (gCmdLib lib)"
    unfolding lib(1) using assms(2) by (force simp: entries_def)+
  have "distinct (map fst (gCmdLib lib))" unfolding lib(1) using distinct_entries [OF misc_names] by blast
  then show "map_of (gCmdLib lib) (osc_pad (bytes_of n)) = Some f" "map_of (gCmdLib lib) (osc_pad (bytes_of (''/'' @ n))) = Some f"
    using mem by (simp_all add: map_of_is_SomeI)
  show "i < NUMBER_OF_COMMANDS" using misc_numbers(2) assms(2) by auto
  show "gCmdArray lib ! i = Some f" by (rule lib(2))
qed

section \<open>Lemmas: receiving\<close>

lemma strcmp_eq_prefix: "strcmp_eq (s @ rest) s = Some True"
  by (induction s) auto

lemma bundle_bytes: "osc_pad (bytes_of ''#bundle'') = bytes_of ''#bundle'' @ [0]"
  by (simp add: osc_pad_def)

text \<open>An element of a bundle is a bundle, or does not begin with \<open>#\<close>.\<close>

definition element :: "byte list \<Rightarrow> bool \<Rightarrow> bool" where
  "element x b \<longleftrightarrow> (if b then take 8 x = osc_pad (bytes_of ''#bundle'') else x \<noteq> [] \<and> hd x \<noteq> tag_of (CHR ''#'')) \<and> length x < 2 ^ 31"

lemma is_bundle_at:
  assumes "element x b"
  shows "is_bundle (X @ x @ Y) (int (length X)) = Some b"
proof (cases b)
  case True
  then have "x = (bytes_of ''#bundle'' @ [0]) @ drop 8 x" using assms by (metis append_take_drop_id bundle_bytes element_def)
  then have "strcmp_eq (x @ Y) (bytes_of ''#bundle'' @ [0]) = Some True"
    using strcmp_eq_prefix [of "bytes_of ''#bundle'' @ [0]" "drop 8 x @ Y"] by (metis append_assoc)
  then show ?thesis using True by (simp add: is_bundle_def)
next
  case False
  then obtain c y where "x = c # y" "c \<noteq> tag_of (CHR ''#'')" using assms by (cases x) (auto simp: element_def)
  then show ?thesis using False by (simp add: is_bundle_def bytes_of_def)
qed

fun layout :: "nat \<Rightarrow> (byte list \<times> bool) list \<Rightarrow> (int \<times> int \<times> bool) list" where
  "layout p [] = []"
| "layout p ((x, b) # xs) = (int (length x), int (p + 4), b) # layout (p + 4 + length x) xs"

definition framed_all :: "(byte list \<times> bool) list \<Rightarrow> byte list" where
  "framed_all xs = concat (map (framed True \<circ> fst) xs)"

lemma framed_all_simps [simp]: "framed_all [] = []" "framed_all ((x, b) # xs) = framed True x @ framed_all xs"
  by (simp_all add: framed_all_def)

lemma elements_layout:
  assumes "\<forall>(x, b) \<in> set xs. element x b"
  shows "elements (X @ framed_all xs @ Y) (int (length X + length (framed_all xs))) (int (length X)) = Some (layout (length X) xs)"
  using assms
proof (induction xs arbitrary: X)
  case Nil
  then show ?case by (simp add: elements.simps)
next
  case (Cons xb xs)
  obtain x b where xb: "xb = (x, b)" by (cases xb)
  have x: "element x b" "length x < 2 ^ 31" using Cons.prems by (auto simp: xb element_def)
  define M n where "M = X @ framed_all (xb # xs) @ Y" and "n = int (length X + length (framed_all (xb # xs)))"
  let ?X = "X @ sc_htonl (of_nat (length x))"
  have M: "M = X @ framed True x @ (framed_all xs @ Y)" "M = ?X @ x @ (framed_all xs @ Y)" "M = (X @ framed True x) @ framed_all xs @ Y"
    by (simp_all add: M_def xb framed_def)
  have n: "n = int (length (X @ framed True x) + length (framed_all xs))" by (simp add: n_def xb)
  have pos: "int (length X) + 4 = int (length ?X)" "int (length ?X) + int (length x) = int (length (X @ framed True x))"
    by (simp_all add: framed_def)
  have size: "map_option sint (OSCint M (int (length X))) = Some (int (length x))" unfolding M(1) by (rule framed_size [OF x(2)])
  have nest: "is_bundle M (int (length ?X)) = Some b" unfolding M(2) by (rule is_bundle_at [OF x(1)])
  have rest: "elements M n (int (length (X @ framed True x))) = Some (layout (length (X @ framed True x)) xs)"
    unfolding M(3) n using Cons.prems by (intro Cons.IH) simp
  have "int (length X) < n" by (simp add: n length_framed)
  then have "elements M n (int (length X)) = Some ((int (length x), int (length ?X), b) # layout (length (X @ framed True x)) xs)"
    by (subst elements.simps) (simp only: if_True size bind.bind_lunit pos nest rest)
  then show ?case by (simp add: M_def n_def xb length_framed ac_simps)
qed

text \<open>A bundle with any elements.\<close>

definition bundle_of :: "64 word \<Rightarrow> (byte list \<times> bool) list \<Rightarrow> byte list" where
  "bundle_of t xs = osc_pad (bytes_of ''#bundle'') @ htonll t @ framed_all xs"

lemma bundle_header: "length (osc_pad (bytes_of ''#bundle'')) = 8" "length (osc_pad (bytes_of ''#bundle'') @ htonll t) = 16"
  by (simp_all add: osc_pad_def)

lemma bundle_starts: "is_bundle (X @ bundle_of t xs @ Y) (int (length X)) = Some True"
  using strcmp_eq_prefix [of "bytes_of ''#bundle'' @ [0]" "htonll t @ framed_all xs @ Y"]
  by (simp add: is_bundle_def bundle_of_def bundle_bytes)

lemma bundle_elements:
  assumes "\<forall>(x, b) \<in> set xs. element x b"
  shows "elements (X @ bundle_of t xs @ Y) (int (length X) + int (length (bundle_of t xs))) (int (length X) + 16) = Some (layout (length X + 16) xs)"
  using elements_layout [OF assms, of "X @ osc_pad (bytes_of ''#bundle'') @ htonll t" Y] bundle_header
  by (simp add: bundle_of_def add.assoc)

lemma layout_flat: "list_ex (\<lambda>(_, _, b). b) (layout p xs) \<longleftrightarrow> (\<exists>(x, b) \<in> set xs. b)"
  by (induction p xs rule: layout.induct) auto

lemma check_bundle: "checkIsBundle (bundle_of t xs) = Some True"
proof -
  have "take 4 (bundle_of t xs) = bytes_of ''#bun''" "take 4 (drop 4 (bundle_of t xs)) = bytes_of ''dle'' @ [0]"
    unfolding bundle_of_def bundle_bytes by (simp_all add: bytes_of_def)
  moreover have "16 \<le> length (bundle_of t xs)" using bundle_header by (simp add: bundle_of_def)
  ultimately show ?thesis by (simp add: checkIsBundle_def read_bytes_def)
qed

text \<open>A bundle of messages is handed on as it is.\<close>

lemma unroll_flat:
  assumes "\<forall>(x, b) \<in> set xs. element x b \<and> \<not> b"
  shows "UnrollOSCPacket junk (Suc k) (X @ bundle_of t xs @ Y) (int (length (bundle_of t xs))) (int (length X)) q = ProcessOSCPacket (bundle_of t xs) q"
proof -
  have "\<forall>(x, b) \<in> set xs. element x b" using assms by auto
  moreover have "\<not> (\<exists>(x, b) \<in> set xs. b)" using assms by auto
  moreover have "read_copy (X @ bundle_of t xs @ Y) (int (length X)) (int (length (bundle_of t xs))) = Some (bundle_of t xs)"
    using read_bytes_at [of X "bundle_of t xs" Y] by (simp add: read_copy_def)
  ultimately show ?thesis using bundle_elements [of xs X t Y] bundle_starts [of X t xs Y] by (simp add: layout_flat)
qed

lemma message_handed_on:
  assumes "holds N q ds" "checkIsBundle data = Some b"
  shows "\<exists>q'. ProcessOSCPacket data q = Some (length ds < N - 1, q') \<and>
    holds N q' (if length ds < N - 1 then ds @ [\<lparr>mData = data, mIsBundle = b\<rparr>] else ds)"
  using holds_write [OF assms(1), of "\<lparr>mData = data, mIsBundle = b\<rparr>"] assms(2)
  by (auto simp: ProcessOSCPacket_def SendOscPacketMsgToEngine_def)

text \<open>
  Copying the messages of a bundle that has others in it: each is written over the tail of the one
  before, so the copy keeps the size of the first message at its start.
\<close>

lemma write_copy_ok: "p + length bs \<le> length dest \<Longrightarrow> write_copy dest (int p) bs = Some (take p dest @ bs @ drop (p + length bs) dest)"
  by (simp add: write_copy_def)

definition msg_size :: "(byte list \<times> bool) list \<Rightarrow> nat" where
  "msg_size xs = (\<Sum>(x, b) \<leftarrow> xs. if b then 0 else 4 + length x)"

lemma msg_size_simps [simp]: "msg_size [] = 0" "msg_size ((x, b) # xs) = (if b then 0 else 4 + length x) + msg_size xs"
  by (simp_all add: msg_size_def)

lemma layout_size: "(\<Sum>(n, _, b) \<leftarrow> layout p xs. if b then 0 else 4 + n) = int (msg_size xs)"
  by (induction p xs rule: layout.induct) auto

lemma copy_keeps:
  assumes "M = X @ framed_all xs @ Y" "h \<le> p" "p + msg_size xs \<le> length dest"
  shows "\<exists>dest'. copy_messages M (layout (length X) xs) (int p) dest = Some dest' \<and> length dest' = length dest \<and> take h dest' = take h dest"
  using assms
proof (induction xs arbitrary: X p dest)
  case (Cons xb xs)
  obtain x b where xb: "xb = (x, b)" by (cases xb)
  have M: "M = (X @ framed True x) @ framed_all xs @ Y" "M = X @ framed True x @ (framed_all xs @ Y)" using Cons.prems(1) by (simp_all add: xb)
  have l: "length (X @ framed True x) = length X + 4 + length x" by (simp add: length_framed)
  show ?case
  proof (cases b)
    case True
    then show ?thesis using Cons.IH [OF M(1) Cons.prems(2), of dest] Cons.prems(3) unfolding l by (simp add: xb)
  next
    case False
    let ?dest = "take p dest @ framed True x @ drop (p + length (framed True x)) dest"
    have fits: "p + length (framed True x) \<le> length dest" using Cons.prems(3) False by (simp add: xb length_framed)
    have "read_copy M (int (length X) + 4 - 4) (4 + int (length x)) = Some (framed True x)"
      using read_bytes_at [of X "framed True x" "framed_all xs @ Y"] unfolding M(2) by (simp add: read_copy_def length_framed nat_add_distrib)
    moreover have "write_copy dest (int p) (framed True x) = Some ?dest" by (rule write_copy_ok [OF fits])
    moreover have "length ?dest = length dest" using fits by simp
    moreover have "take h ?dest = take h dest" using Cons.prems(2) fits by (simp add: min_absorb1)
    moreover have "h \<le> p + length x" "p + length x + msg_size xs \<le> length ?dest"
      using Cons.prems(2,3) False \<open>length ?dest = length dest\<close> by (simp_all add: xb)
    ultimately show ?thesis using Cons.IH [OF M(1), of "p + length x" ?dest] False unfolding l by (auto simp: xb)
  qed
qed simp


lemma small_size: "n < 128 \<Longrightarrow> sc_htonl (of_nat n) = [0, 0, 0, of_nat n]"
proof -
  assume n: "n < 128"
  have z: "drop_bit k (of_nat n :: 32 word) = 0" if "8 \<le> k" for k
  proof -
    have "(2 :: nat) ^ 8 \<le> 2 ^ k" using that by (intro power_increasing) simp_all
    then have "n < 2 ^ k" using n by simp
    then have "unat (drop_bit k (of_nat n :: 32 word)) = 0"
      using n by (simp add: unat_drop_bit_eq unat_of_nat del: unat_eq_0) (simp add: drop_bit_eq_div)
    then show ?thesis by (simp only: unat_eq_0)
  qed
  have "ucast (of_nat n :: 32 word) = (of_nat n :: byte)" using n by (simp add: unsigned_of_nat take_bit_nat_eq_self)
  then show ?thesis using z by (simp add: sc_htonl_def)
qed

lemma small_index: "n < 128 \<Longrightarrow> unat (scast (of_nat n :: byte) :: 32 word) = n"
proof -
  assume n: "n < 128"
  have "sint (of_nat n :: byte) = int n" using n by (simp add: signed_of_nat signed_take_bit_int_eq_self)
  then have "(scast (of_nat n :: byte) :: 32 word) = of_nat n" by (metis of_int_of_nat_eq scast_eq)
  then show ?thesis using n by (simp add: unat_of_nat)
qed

definition perform_numbered :: "server \<Rightarrow> nat \<Rightarrow> byte list \<Rightarrow> engine \<Rightarrow> (SCErr \<times> engine) option" where
  "perform_numbered S n m e =
     (case if n < NUMBER_OF_COMMANDS then gCmdArray (commands S) ! n else None of
        None \<Rightarrow> Some (kSCErr_NoSuchCommand, e)
      | Some cmd \<Rightarrow> SC_LibCmd_Perform S cmd m (int (length m) - 4) 4 e)"

lemma size_as_number:
  assumes "n < 128" "take 4 m = sc_htonl (of_nat n)" "4 \<le> length m"
  shows "checkIsBundle m = Some False" "PerformOSCPacket S \<lparr>mData = m, mIsBundle = False\<rparr> e = map_option (\<lambda>(_, e). (PacketPerformed, e)) (perform_numbered S n m e)"
proof -
  have m: "m = [0, 0, 0, of_nat n] @ drop 4 m" using assms(2) small_size [OF assms(1)] by (metis append_take_drop_id)
  then obtain y where y: "m = 0 # 0 # 0 # of_nat n # y" by simp
  show "checkIsBundle m = Some False" by (simp add: y checkIsBundle_def read_bytes_def bytes_of_def)
  have "read_byte m 0 = Some 0" "read_byte m (0 + 3) = Some (of_nat n)" by (simp_all add: y read_byte_def)
  then have "PerformOSCMessage S m (int (length m)) 0 e = perform_numbered S n m e"
    unfolding PerformOSCMessage_def using small_index [OF assms(1)]
    by (simp add: perform_numbered_def split: option.split)
  then show "PerformOSCPacket S \<lparr>mData = m, mIsBundle = False\<rparr> e = map_option (\<lambda>(_, e). (PacketPerformed, e)) (perform_numbered S n m e)"
    by (cases "perform_numbered S n m e") (auto simp: PerformOSCPacket_def)
qed

text \<open>The packet that is made of the messages of a mixed bundle begins with the size of its first message.\<close>

lemma mixed_copy:
  assumes "\<forall>(x, b) \<in> set ((m, False) # xs). element x b" "4 \<le> length m"
  shows "\<exists>dest. copy_messages (bundle_of t ((m, False) # xs)) (layout 16 ((m, False) # xs)) 0
      (osc_pad (bytes_of ''#bundle'') @ htonll t @ map junk [16..<16 + msg_size ((m, False) # xs)]) = Some dest \<and>
    take 4 dest = sc_htonl (of_nat (length m)) \<and> 4 \<le> length dest"
proof -
  define X where "X = osc_pad (bytes_of ''#bundle'') @ htonll t"
  define d0 where "d0 = X @ map junk [16..<16 + msg_size ((m, False) # xs)]"
  have lX: "length X = 16" using bundle_header by (simp add: X_def)
  have M: "bundle_of t ((m, False) # xs) = X @ framed True m @ framed_all xs" by (simp add: bundle_of_def X_def)
  have l0: "length d0 = 16 + msg_size ((m, False) # xs)" by (simp add: d0_def lX)
  define d1 where "d1 = framed True m @ drop (length (framed True m)) d0"
  have fit: "length (framed True m) \<le> length d0" by (simp add: l0 length_framed)
  have "read_copy (bundle_of t ((m, False) # xs)) 16 (4 + int (length m)) = Some (framed True m)"
    using read_bytes_at [of X "framed True m" "framed_all xs"] unfolding M by (simp add: lX read_copy_def length_framed nat_add_distrib)
  moreover have "write_copy d0 0 (framed True m) = Some d1"
    using write_copy_ok [of 0 "framed True m" d0] fit by (simp add: d1_def)
  moreover have l1: "length d1 = length d0" using fit by (simp add: d1_def)
  have "\<exists>d. copy_messages (bundle_of t ((m, False) # xs)) (layout (length (X @ framed True m)) xs) (int (length m)) d1 = Some d \<and>
      length d = length d1 \<and> take 4 d = take 4 d1"
    by (rule copy_keeps [where Y = "[]"]) (use M assms(2) l0 l1 in simp_all)
  ultimately obtain d where "copy_messages (bundle_of t ((m, False) # xs)) (layout 16 ((m, False) # xs)) 0 d0 = Some d"
      "length d = length d1" "take 4 d = take 4 d1"
    by (auto simp: lX length_framed)
  moreover have "take 4 d1 = sc_htonl (of_nat (length m))" by (simp add: d1_def framed_def)
  ultimately show ?thesis using l0 l1 by (auto simp: d0_def X_def)
qed

lemma unroll_mixed:
  assumes "is_bundle m 0 = Some True" "elements m n 16 = Some es" "list_ex (\<lambda>(_, _, b). b) es"
    "(\<Sum>(n, _, b) \<leftarrow> es. if b then 0 else 4 + n) = int s" "0 < s" "read_bytes m 0 16 = Some h"
    "copy_messages m es 0 (h @ map junk [16..<16 + s]) = Some dest" "ProcessOSCPacket dest q = Some (True, q1)"
  shows "UnrollOSCPacket junk (Suc k) m n 0 q = unroll_nested (\<lambda>n p. UnrollOSCPacket junk k m n p) es q1"
proof -
  have "nat (16 + int s) = 16 + s" by simp
  then show ?thesis using assms by (simp only: UnrollOSCPacket.simps(2) add_0 bind.bind_lunit if_True Let_def) simp
qed

lemma init_commands: "\<exists>lib. initMiscCommands = Some lib"
  using new_commands_ok [of misc_commands "\<lparr>gCmdLib = [], gCmdArray = replicate NUMBER_OF_COMMANDS None\<rparr>"] misc_numbers
  by (auto simp: initMiscCommands_def)

section \<open>Properties\<close>




end
