(* ===== verification/SC_EndToEnd.thy ===== *)
theory SC_EndToEnd
  imports SC_Engine
begin

text \<open>
  The path of a node command from the language to the tree of nodes: a bundle that
  \<open>makeSynthBundle\<close> builds (\<open>SC_LangOSC\<close>) is received, queued, scheduled and performed
  (\<open>SC_Engine\<close>, \<open>SC_MsgFifo\<close>, \<open>SC_Scheduler\<close>) by the commands of \<open>SC_Messages\<close> and \<open>SC_NodeServer\<close>. The
  theory has no model of its own: it states an abstract engine, in which a bundle is a time with a
  list of commands, and shows that the code of those theories, composed as the server composes
  it, simulates it. The address of a new node is the next one of the supply of the engine; a time
  is in units of \<open>2 ^ -32\<close> seconds.
\<close>

section \<open>Lemmas: one command\<close>

text \<open>The message that the language sends for a command; \<open>d\<close> is the name of a synth definition.\<close>

definition to_slot :: "int \<Rightarrow> slot" where
  "to_slot i = SInt (word_of_int i)"

definition small_id :: "int \<Rightarrow> bool" where
  "small_id i \<longleftrightarrow> - (2 ^ 31) \<le> i \<and> i < 2 ^ 31"

fun cmd_name :: "command \<Rightarrow> string" where
  "cmd_name (New g p i pos) = (if g then ''g_new'' else ''s_new'')"
| "cmd_name (Move i (AtHead g)) = ''g_head''"
| "cmd_name (Move i (AtTail g)) = ''g_tail''"
| "cmd_name (Move i (BeforeNode t)) = ''n_before''"
| "cmd_name (Move i (AfterNode t)) = ''n_after''"
| "cmd_name (command.Free i) = ''n_free''"
| "cmd_name (FreeAll i) = ''g_freeAll''"

fun cmd_args :: "byte list \<Rightarrow> command \<Rightarrow> slot list" where
  "cmd_args d (New g p i pos) = (if g then [] else [SSym d]) @ [to_slot i, to_slot (action pos), to_slot (target_id pos)]"
| "cmd_args d (Move i (AtHead g)) = [to_slot g, to_slot i]"
| "cmd_args d (Move i (AtTail g)) = [to_slot g, to_slot i]"
| "cmd_args d (Move i (BeforeNode t)) = [to_slot i, to_slot t]"
| "cmd_args d (Move i (AfterNode t)) = [to_slot i, to_slot t]"
| "cmd_args d (command.Free i) = [to_slot i]"
| "cmd_args d (FreeAll i) = [to_slot i]"

fun small_cmd :: "command \<Rightarrow> bool" where
  "small_cmd (New g p i pos) = (small_id i \<and> small_id (target_id pos))"
| "small_cmd (Move i pos) = (small_id i \<and> small_id (target_id pos))"
| "small_cmd (command.Free i) = small_id i"
| "small_cmd (FreeAll i) = small_id i"

text \<open>The address that a command needs.\<close>

fun cmd_addr :: "command \<Rightarrow> addr list" where
  "cmd_addr (New g p i pos) = [p]"
| "cmd_addr _ = []"

lemma sint_small: "small_id i \<Longrightarrow> sint (word_of_int i :: 32 word) = i"
  by (simp add: small_id_def signed_of_int signed_take_bit_int_eq_self)

lemma action_small: "small_id (action pos)" "known_action (action pos)"
  by (cases pos; simp add: small_id_def known_action_def)+

lemma cmd_args_sendable: "0 \<notin> set d \<Longrightarrow> \<forall>f \<in> set (cmd_args d c). sendable f"
  by (cases "(d, c)" rule: cmd_args.cases) (auto simp: to_slot_def)

lemma g_new_one:
  assumes "at_args ud [to_slot i, to_slot (action pos), to_slot (target_id pos)] it" "small_id i" "small_id (target_id pos)"
  shows "g_new k it (p # ps) w = map_option (\<lambda>(err, w). (err, ps, w)) (exec_cmd k (New True p i pos) w)"
proof -
  have "read_all read_new it = Some [(i, action pos, ById (target_id pos))]"
    using read_new_at assms action_small(1) unfolding to_slot_def by (simp add: sint_small)
  note fold = new_group.loop_folds [OF this, of k "(p # ps, w)"]
  have "g_new k it (p # ps) w =
      map_option (\<lambda>r. case r of Inl e \<Rightarrow> e | Inr s \<Rightarrow> (kSCErr_None, s)) (map_option fst (msg_loop (new_group_body k) (p # ps, w) it))"
    by (cases "msg_loop (new_group_body k) (p # ps, w) it") (auto simp: g_new_def)
  note this [unfolded fold]
  then show ?thesis using action_small(2) [of pos]
    by (auto simp: new_group_step_def split: Option.bind_split)
qed

lemma s_new_one:
  assumes "at_args ud [SSym d, to_slot i, to_slot (action pos), to_slot (target_id pos)] it" "small_id i" "small_id (target_id pos)"
    "0 \<notin> set d" "defs d"
  shows "s_new_msg True k defs it (p # ps) w = map_option (\<lambda>(err, w). (err, ps, w)) (exec_cmd k (New False p i pos) w)"
proof -
  obtain it1 q where 1: "gets None it = Some (Some q, it1)" "cstring (mem it) q = Some d" "mem it1 = mem it"
      "at_args ud [to_slot i, to_slot (action pos), to_slot (target_id pos)] it1"
    using at_args_sym [OF assms(1,4)] by auto
  obtain it2 where 2: "geti 0 it1 = Some (word_of_int i, it2)" "at_args ud [to_slot (action pos), to_slot (target_id pos)] it2" "mem it2 = mem it1"
    using at_args_int 1(4) unfolding to_slot_def by blast
  obtain it3 where 3: "geti 0 it2 = Some (word_of_int (action pos), it3)" "at_args ud [to_slot (target_id pos)] it3" "mem it3 = mem it2"
    using at_args_int 2(2) unfolding to_slot_def by blast
  obtain it4 where 4: "read_ref it3 = Some (ById (target_id pos), it4)"
    using read_ref_at 3(2) sint_small [OF assms(3)] unfolding to_slot_def by metis
  show ?thesis using 1 2 3 4 assms(2,5) action_small [of pos]
    by (auto simp: s_new_msg_def sint_small meth_s_new_def split: Option.bind_split)
qed

lemma map_world: "on_world r e = map_option (\<lambda>(err, w). (err, e\<lparr>world := w\<rparr>)) r"
  by (cases r) (auto simp: on_world_def)

lemma pair_read:
  assumes "at_args ud [to_slot i, to_slot j] it" "small_id i" "small_id j"
  shows "read_all read_pair it = Some [(ById i, ById j)]"
  using read_pairs_at [of ud "[(word_of_int i, word_of_int j)]" it] assms by (simp add: to_slot_def sint_small)

lemma ref_read: "at_args ud [to_slot i] it \<Longrightarrow> small_id i \<Longrightarrow> read_all read_ref it = Some [ById i]"
  using read_refs_at [of ud "[word_of_int i]" it] by (simp add: to_slot_def sint_small)

lemma same_addrs: "addrs e = ps \<Longrightarrow> e\<lparr>world := w, addrs := ps\<rparr> = e\<lparr>world := w\<rparr>"
  by simp

lemma command_performed:
  assumes "at_args False (cmd_args d c) it" "msg_init m n p = Some it" "small_cmd c" "0 \<notin> set d" "synthdefs S d"
    "addrs e = cmd_addr c @ ps" "(cmd_name c, j, cmd) \<in> set misc_commands"
  shows "SC_LibCmd_Perform S cmd m n p e =
    map_option (\<lambda>(err, w). (err, e\<lparr>world := w, addrs := ps\<rparr>)) (exec_cmd (depth S) c (world e))"
proof (cases c)
  case (New g p i pos)
  show ?thesis
  proof (cases g)
    case True
    then have "cmd = Cmd_g_new" using assms(7) New by (simp add: misc_commands_def)
    then show ?thesis using g_new_one [of False i pos it "depth S" p ps "world e"] assms New True
      by (cases "exec_cmd (depth S) c (world e)") (auto simp: SC_LibCmd_Perform_def on_new_def simp del: exec_cmd.simps)
  next
    case False
    then have "cmd = Cmd_s_new" using assms(7) New by (simp add: misc_commands_def)
    then show ?thesis using s_new_one [of False d i pos it "synthdefs S" "depth S" p ps "world e"] assms New False
      by (cases "exec_cmd (depth S) c (world e)") (auto simp: SC_LibCmd_Perform_def on_new_def simp del: exec_cmd.simps)
  qed
next
  case (Move i pos)
  show ?thesis
  proof (cases pos)
    case (AtHead g)
    then have "cmd = Cmd_g_head" using assms(7) Move by (simp add: misc_commands_def)
    then show ?thesis using handler_on_list [of it] pair_read [of False g i it] assms Move AtHead
      by (simp add: SC_LibCmd_Perform_def map_world same_addrs Let_def)
  next
    case (AtTail g)
    then have "cmd = Cmd_g_tail" using assms(7) Move by (simp add: misc_commands_def)
    then show ?thesis using handler_on_list [of it] pair_read [of False g i it] assms Move AtTail
      by (simp add: SC_LibCmd_Perform_def map_world same_addrs Let_def)
  next
    case (BeforeNode t)
    then have "cmd = Cmd_n_before" using assms(7) Move by (simp add: misc_commands_def)
    then show ?thesis using handler_on_list [of it] pair_read [of False i t it] assms Move BeforeNode
      by (simp add: SC_LibCmd_Perform_def map_world same_addrs Let_def)
  next
    case (AfterNode t)
    then have "cmd = Cmd_n_after" using assms(7) Move by (simp add: misc_commands_def)
    then show ?thesis using handler_on_list [of it] pair_read [of False i t it] assms Move AfterNode
      by (simp add: SC_LibCmd_Perform_def map_world same_addrs Let_def)
  qed
next
  case (Free i)
  then have "cmd = Cmd_n_free" using assms(7) by (simp add: misc_commands_def)
  then show ?thesis using handler_on_list [of it] ref_read [of False i it] assms Free
    by (simp add: SC_LibCmd_Perform_def map_world same_addrs Let_def)
next
  case (FreeAll i)
  then have "cmd = Cmd_g_freeAll" using assms(7) by (simp add: misc_commands_def)
  then show ?thesis using handler_on_list [of it] ref_read [of False i it] assms FreeAll
    by (simp add: SC_LibCmd_Perform_def map_world same_addrs Let_def)
qed

text \<open>The message of a command, anywhere in the memory.\<close>

definition cmd_message :: "byte list \<Rightarrow> command \<Rightarrow> byte list \<Rightarrow> bool" where
  "cmd_message d c m \<longleftrightarrow> osc_message False (bytes_of (''/'' @ cmd_name c)) (cmd_args d c) m"

text \<open>The server knows its commands and the synth definition \<open>d\<close>.\<close>

definition server_ok :: "byte list \<Rightarrow> server \<Rightarrow> bool" where
  "server_ok d S \<longleftrightarrow> initMiscCommands = Some (commands S) \<and> 0 \<notin> set d \<and> synthdefs S d"

lemma cmd_in_table: "\<exists>j cmd. (cmd_name c, j, cmd) \<in> set misc_commands"
  by (cases c rule: cmd_name.cases) (auto simp: misc_commands_def)

lemma slash_byte: "read_byte (X @ osc_pad (bytes_of (''/'' @ n)) @ Y) (int (length X)) = Some (tag_of (CHR ''/''))"
  by (simp add: read_byte_def bytes_of_def osc_pad_def)

lemma cmd_name_zero: "0 \<notin> set (bytes_of (''/'' @ cmd_name c))"
  unfolding bytes_zero by (cases c rule: cmd_name.cases) auto

lemma message_performed:
  assumes "server_ok d S" "cmd_message d c m" "length m < 2 ^ 31" "small_cmd c" "addrs e = cmd_addr c @ ps"
  shows "PerformOSCMessage S (X @ m @ Y) (int (length m)) (int (length X)) e =
    map_option (\<lambda>(err, w). (err, e\<lparr>world := w, addrs := ps\<rparr>)) (exec_cmd (depth S) c (world e))"
proof -
  let ?name = "bytes_of (''/'' @ cmd_name c)" and ?M = "X @ m @ Y"
  have S: "initMiscCommands = Some (commands S)" "0 \<notin> set d" "synthdefs S d" using assms(1) by (auto simp: server_ok_def)
  obtain j cmd where cmd: "(cmd_name c, j, cmd) \<in> set misc_commands" using cmd_in_table by blast
  have msg: "osc_message False ?name (cmd_args d c) m" using assms(2) by (simp add: cmd_message_def)
  then obtain rest where m: "m = osc_pad ?name @ rest" by (auto simp: osc_message_def)
  obtain it where it: "OSCstrlen ?M (int (length X)) = Some (int (length (osc_pad ?name)))"
      "msg_init ?M (int (length m) - int (length (osc_pad ?name))) (int (length X) + int (length (osc_pad ?name))) = Some it"
      "at_args False (cmd_args d c) it"
    using message_iter [OF msg cmd_name_zero cmd_args_sendable [OF S(2)], of X Y] assms(3) by auto
  have "read_byte ?M (int (length X)) = Some (tag_of (CHR ''/''))" using slash_byte [of X "cmd_name c" "rest @ Y"] m by simp
  moreover have "read_bytes ?M (int (length X)) (length (osc_pad ?name)) = Some (osc_pad ?name)"
    using read_bytes_at [of X "osc_pad ?name" "rest @ Y"] m by simp
  moreover have "map_of (gCmdLib (commands S)) (osc_pad ?name) = Some cmd" by (rule commands_found(2) [OF S(1) cmd])
  ultimately show ?thesis
    using it(1) command_performed [OF it(3,2) assms(4) S(2,3) assms(5) cmd] by (simp add: PerformOSCMessage_def)
qed

lemma messages_performed:
  assumes "server_ok d S" "list_all2 (cmd_message d) cs ms" "\<forall>m \<in> set ms. length m < 2 ^ 31" "\<forall>c \<in> set cs. small_cmd c"
    "addrs e = concat (map cmd_addr cs) @ ps"
  shows "perform_loop S (X @ concat (map (framed True) ms) @ Y) (int (length X + length (concat (map (framed True) ms)))) (int (length X)) e
    = map_option (\<lambda>(_, w). e\<lparr>world := w, addrs := ps\<rparr>) (run_cmds (exec_cmd (depth S)) cs (world e))"
  using assms(2-5)
proof (induction cs ms arbitrary: X e rule: list_all2_induct)
  case Nil
  then show ?case by (simp add: perform_loop.simps)
next
  case (Cons c cs m ms)
  define r where "r = concat (map (framed True) ms)"
  define M n where "M = X @ concat (map (framed True) (m # ms)) @ Y" and "n = int (length X + length (concat (map (framed True) (m # ms))))"
  let ?X = "X @ sc_htonl (of_nat (length m))"
  have M: "M = X @ framed True m @ (r @ Y)" "M = ?X @ m @ (r @ Y)" "M = (X @ framed True m) @ r @ Y"
    by (simp_all add: M_def r_def framed_def)
  have X: "int (length X) + 4 = int (length ?X)" "int (length ?X) + int (length m) = int (length (X @ framed True m))"
    by (simp_all add: framed_def)
  have size: "map_option sint (OSCint M (int (length X))) = Some (int (length m))"
    unfolding M(1) by (rule framed_size) (use Cons.prems(1) in simp)
  have head: "PerformOSCMessage S M (int (length m)) (int (length ?X)) e =
      map_option (\<lambda>(err, w). (err, e\<lparr>world := w, addrs := concat (map cmd_addr cs) @ ps\<rparr>)) (exec_cmd (depth S) c (world e))"
    unfolding M(2) using Cons.hyps(1) Cons.prems by (intro message_performed [OF assms(1)]) simp_all
  have n: "n = int (length (X @ framed True m) + length r)" by (simp add: n_def r_def)
  have tail: "perform_loop S M n (int (length (X @ framed True m))) (e\<lparr>world := w, addrs := concat (map cmd_addr cs) @ ps\<rparr>) =
      map_option (\<lambda>(_, w'). e\<lparr>world := w', addrs := ps\<rparr>) (run_cmds (exec_cmd (depth S)) cs w)" for w
    using Cons.IH [of "e\<lparr>world := w, addrs := concat (map cmd_addr cs) @ ps\<rparr>" "X @ framed True m"] Cons.prems
    unfolding M(3) n r_def by simp
  have lt: "int (length X) < n" by (simp add: n length_framed)
  have "perform_loop S M n (int (length X)) e = do {
      (_, e) \<leftarrow> PerformOSCMessage S M (int (length m)) (int (length ?X)) e;
      perform_loop S M n (int (length (X @ framed True m))) e }"
    using lt size by (subst perform_loop.simps) (simp only: if_True bind.bind_lunit X)
  also have "\<dots> = map_option (\<lambda>(_, w). e\<lparr>world := w, addrs := ps\<rparr>) (run_cmds (exec_cmd (depth S)) (c # cs) (world e))"
  proof (cases "exec_cmd (depth S) c (world e)")
    case (Some res)
    then show ?thesis unfolding head using tail [of "snd res"]
      by (cases res; cases "run_cmds (exec_cmd (depth S)) cs (snd res)") (auto simp del: exec_cmd.simps)
  next
    case None
    then show ?thesis unfolding head by simp
  qed
  finally show ?case by (simp only: M_def n_def)
qed

lemma bundle_performed:
  assumes "server_ok d S" "list_all2 (cmd_message d) cs ms" "\<forall>m \<in> set ms. length m < 2 ^ 31" "\<forall>c \<in> set cs. small_cmd c"
    "addrs e = concat (map cmd_addr cs) @ ps"
  shows "PerformOSCBundle S \<lparr>mData = osc_bundle t ms, mIsBundle = b\<rparr> e
    = map_option (\<lambda>(_, w). e\<lparr>world := w, addrs := ps\<rparr>) (run_cmds (exec_cmd (depth S)) cs (world e))"
proof -
  have "length (osc_pad (bytes_of ''#bundle'') @ htonll t) = 16" by (simp add: osc_pad_def)
  then show ?thesis using messages_performed [OF assms, of "osc_pad (bytes_of ''#bundle'') @ htonll t" "[]"]
    by (simp add: PerformOSCBundle_def osc_bundle_def)
qed

section \<open>Lemmas: what the language sends\<close>

text \<open>A command as the array of values that the language makes a message of.\<close>

definition cmd_slots :: "byte list \<Rightarrow> command \<Rightarrow> byte list \<times> slot list" where
  "cmd_slots d c = (bytes_of (''/'' @ cmd_name c), cmd_args d c)"

lemma slashed_cmd: "slashed (bytes_of (''/'' @ n)) = bytes_of (''/'' @ n)"
  by (simp add: slashed_def bytes_of_def)

lemma cmd_args_sent:
  assumes "0 \<notin> set d"
  shows "sends fresh off ud (cmd_args d c) (cmd_args d c)"
  using assms by (cases "(d, c)" rule: cmd_args.cases) (auto simp: sends_def to_slot_def sent_def)

lemma cmds_sent: "0 \<notin> set d \<Longrightarrow> sends_all fresh off ud (map (cmd_slots d) cs) (map (cmd_slots d) cs)"
  unfolding sends_all_def by (induction cs) (simp_all add: cmd_slots_def slashed_cmd cmd_args_sent cmd_name_zero del: append.simps)

lemma cmd_messages: "osc_messages False (map (cmd_slots d) cs) ms \<longleftrightarrow> list_all2 (cmd_message d) cs ms"
  by (simp add: osc_messages_def list_all2_map1 cmd_slots_def cmd_message_def [abs_def] del: append.simps)

definition cmds_words :: "byte list \<Rightarrow> command list \<Rightarrow> nat" where
  "cmds_words d cs = bundle_words False (map (cmd_slots d) cs)"

lemma cmd_element:
  assumes "cmd_message d c m" "length m < 2 ^ 31"
  shows "element m False"
proof -
  obtain rest where "m = osc_pad (bytes_of (''/'' @ cmd_name c)) @ rest" using assms(1) by (auto simp: cmd_message_def osc_message_def)
  then have "m = tag_of (CHR ''/'') # tl m" by (simp add: osc_pad_def bytes_of_def)
  then show ?thesis using assms(2) by (cases m) (auto simp: element_def)
qed

lemma bundle_as_elements: "osc_bundle t ms = bundle_of t (map (\<lambda>m. (m, False)) ms)"
  by (simp add: osc_bundle_def bundle_of_def framed_all_def comp_def)

text \<open>The packet of a bundle of commands.\<close>

definition packet_of :: "byte list \<Rightarrow> OSC_Packet \<Rightarrow> int \<times> command list \<Rightarrow> bool" where
  "packet_of d pk b \<longleftrightarrow> (\<exists>t ms. pk = \<lparr>mData = osc_bundle t ms, mIsBundle = True\<rparr> \<and> fst b = sint t \<and>
     list_all2 (cmd_message d) (snd b) ms \<and> (\<forall>m \<in> set ms. length m < 2 ^ 31) \<and> (\<forall>c \<in> set (snd b). small_cmd c))"

lemma bundle_sent:
  assumes "0 \<notin> set d" "bundle_time off False s = Some t" "s = SNil \<or> s = SInt i \<or> s = SFloat f" "length mem0 = 65516"
    "4 + cmds_words d cs \<le> 16379" "\<forall>c \<in> set cs. small_cmd c"
  shows "\<exists>ms. prArray_OSCBytes fresh off False mem0 (s # map (array_of \<circ> cmd_slots d) cs) = Inr (Inr (osc_bundle t ms)) \<and>
    packet_of d \<lparr>mData = osc_bundle t ms, mIsBundle = True\<rparr> (sint t, cs) \<and> (\<forall>m \<in> set ms. element m False)"
proof -
  let ?outs = "map (cmd_slots d) cs"
  obtain pk ms where pk: "makeSynthBundle fresh off False False (s # map array_of ?outs) (scpacket mem0) = Inr (errNone, pk)"
      "osc_messages False ?outs ms" "pdata pk = osc_bundle t ms"
    using make_bundle [OF cmds_sent [OF assms(1), of fresh off False cs] assms(2), of "scpacket mem0"] room_new assms(4,5) by (auto simp: cmds_words_def)
  have "length (concat (map (framed True) ms)) = 4 * bundle_words False ?outs"
    using cmd_args_sendable [OF assms(1)] by (intro osc_messages_length [OF pk(2)]) (auto simp: cmd_slots_def)
  then have small: "\<forall>m \<in> set ms. length m < 2 ^ 31" using member_length [of _ ms] assms(5) by (fastforce simp: cmds_words_def)
  have msgs: "list_all2 (cmd_message d) cs ms" using pk(2) by (simp add: cmd_messages)
  have "\<forall>m \<in> set ms. \<exists>c. cmd_message d c m" using msgs by (metis in_set_conv_nth list_all2_conv_all_nth)
  then have "\<forall>m \<in> set ms. element m False" using small cmd_element by blast
  moreover have "prArray_OSCBytes fresh off False mem0 (s # map (array_of \<circ> cmd_slots d) cs) = Inr (Inr (osc_bundle t ms))"
    using assms(3) pk(1,3) by (auto simp: prArray_OSCBytes_def)
  ultimately show ?thesis using msgs small assms(6) by (auto simp: packet_of_def)
qed

lemma bundle_received:
  assumes "\<forall>m \<in> set ms. element m False" "holds N q pks"
  shows "\<exists>q'. UnrollOSCPacket junk (Suc k) (osc_bundle t ms) (int (length (osc_bundle t ms))) 0 q = Some (length pks < N - 1, q') \<and>
    holds N q' (if length pks < N - 1 then pks @ [\<lparr>mData = osc_bundle t ms, mIsBundle = True\<rparr>] else pks)"
proof -
  have "\<forall>(x, b) \<in> set (map (\<lambda>m. (m, False)) ms). element x b \<and> \<not> b" using assms(1) by auto
  from unroll_flat [OF this, of junk k "[]" t "[]" q] have "UnrollOSCPacket junk (Suc k) (osc_bundle t ms) (int (length (osc_bundle t ms))) 0 q = ProcessOSCPacket (osc_bundle t ms) q"
    by (simp add: bundle_as_elements del: UnrollOSCPacket.simps)
  then show ?thesis
    using message_handed_on [OF assms(2) check_bundle [of t "map (\<lambda>m. (m, False)) ms"]] unfolding bundle_as_elements by metis
qed

section \<open>The abstract engine\<close>

text \<open>
  The abstract engine holds the abstract server of \<open>SC_NodeServer\<close>, the bundles that have arrived and
  those that are scheduled, each a time with its commands, the latter in the order in which they
  are due, and the addresses that the allocator is going to return.
\<close>

record abs_engine =
  a_server :: abs_server
  a_arrived :: "(int \<times> command list) list"
  a_sched :: "(int \<times> command list) list \<times> int"
  a_addrs :: "addr list"

text \<open>
  The language sends a bundle with a time and commands, and the server receives it; the audio
  callback performs the packets that have arrived; it performs what is due up to a time.
\<close>

datatype engine_op = Receive slot "command list" | Arrive | Block int

datatype engine_out = Received bool | Done

definition cmds_addrs :: "command list \<Rightarrow> addr list" where
  "cmds_addrs cs = concat (map cmd_addr cs)"

definition run_abs :: "addr \<Rightarrow> command list \<Rightarrow> abs_engine \<Rightarrow> abs_engine" where
  "run_abs r cs A = A\<lparr>a_server := snd (spec_cmds (spec_cmd r) cs (a_server A)), a_addrs := drop (length (cmds_addrs cs)) (a_addrs A)\<rparr>"

definition can_run :: "addr \<Rightarrow> command list \<Rightarrow> abs_engine \<Rightarrow> bool" where
  "can_run r cs A \<longleftrightarrow> legal_cmds (legal r) (spec_cmd r) cs (a_server A) \<and> (\<exists>ps. a_addrs A = cmds_addrs cs @ ps)"

text \<open>A time of 0 or 1 means at once.\<close>

fun arrive :: "addr \<Rightarrow> nat \<Rightarrow> (int \<times> command list) list \<Rightarrow> abs_engine \<Rightarrow> abs_engine" where
  "arrive r K [] A = A"
| "arrive r K ((t, cs) # bs) A =
     arrive r K bs (if t = 0 \<or> t = 1 then run_abs r cs A else A\<lparr>a_sched := snd (spec_sched K (Schedule t cs) (a_sched A))\<rparr>)"

fun can_arrive :: "addr \<Rightarrow> nat \<Rightarrow> (int \<times> command list) list \<Rightarrow> abs_engine \<Rightarrow> bool" where
  "can_arrive r K [] A = True"
| "can_arrive r K ((t, cs) # bs) A =
     (if t = 0 \<or> t = 1 then can_run r cs A \<and> can_arrive r K bs (run_abs r cs A)
      else legal_sched (Schedule t cs) (a_sched A) \<and> can_arrive r K bs (A\<lparr>a_sched := snd (spec_sched K (Schedule t cs) (a_sched A))\<rparr>))"

definition due_cmds :: "int \<Rightarrow> abs_engine \<Rightarrow> command list" where
  "due_cmds t A = concat (map snd (takeWhile (\<lambda>x. fst x \<le> t) (fst (a_sched A))))"

definition send_time :: "int \<Rightarrow> slot \<Rightarrow> int" where
  "send_time off s = (case bundle_time off False s of Some t \<Rightarrow> sint t | None \<Rightarrow> 0)"

text \<open>\<open>N\<close> is the size of the queue of packets, \<open>K\<close> that of the queue of events.\<close>

fun spec_engine :: "int \<Rightarrow> addr \<Rightarrow> nat \<Rightarrow> nat \<Rightarrow> engine_op \<Rightarrow> abs_engine \<Rightarrow> engine_out \<times> abs_engine" where
  "spec_engine off r N K (Receive s cs) A =
     (if length (a_arrived A) < N - 1 then (Received True, A\<lparr>a_arrived := a_arrived A @ [(send_time off s, cs)]\<rparr>) else (Received False, A))"
| "spec_engine off r N K Arrive A = (Done, arrive r K (a_arrived A) (A\<lparr>a_arrived := []\<rparr>))"
| "spec_engine off r N K (Block t) A = (Done, run_abs r (due_cmds t A) (A\<lparr>a_sched := snd (spec_sched K (Tick t) (a_sched A))\<rparr>))"

fun legal_op :: "int \<Rightarrow> byte list \<Rightarrow> addr \<Rightarrow> nat \<Rightarrow> engine_op \<Rightarrow> abs_engine \<Rightarrow> bool" where
  "legal_op off d r K (Receive s cs) A \<longleftrightarrow> bundle_time off False s \<noteq> None \<and> (s = SNil \<or> (\<exists>i. s = SInt i) \<or> (\<exists>f. s = SFloat f)) \<and>
     4 + cmds_words d cs \<le> 16379 \<and> (\<forall>c \<in> set cs. small_cmd c)"
| "legal_op off d r K Arrive A \<longleftrightarrow> can_arrive r K (a_arrived A) (A\<lparr>a_arrived := []\<rparr>)"
| "legal_op off d r K (Block t) A \<longleftrightarrow> t < kMaxInt64 \<and> can_run r (due_cmds t A) A"

text \<open>The operations of the code.\<close>

fun exec_engine :: "(slot list \<Rightarrow> byte list) \<Rightarrow> int \<Rightarrow> byte list \<Rightarrow> (nat \<Rightarrow> byte) \<Rightarrow> byte list \<Rightarrow> server \<Rightarrow> engine_op \<Rightarrow> engine \<Rightarrow> (engine_out \<times> engine) option" where
  "exec_engine fresh off mem0 junk d S (Receive s cs) e =
     (case prArray_OSCBytes fresh off False mem0 (s # map (array_of \<circ> cmd_slots d) cs) of
        Inr (Inr bs) \<Rightarrow> do {
          (ok, q) \<leftarrow> UnrollOSCPacket junk 1 bs (int (length bs)) 0 (mOscPacketsToEngine e);
          Some (Received ok, e\<lparr>mOscPacketsToEngine := q\<rparr>) }
      | _ \<Rightarrow> None)"
| "exec_engine fresh off mem0 junk d S Arrive e = do { e \<leftarrow> perform_arrived S e; Some (Done, e) }"
| "exec_engine fresh off mem0 junk d S (Block t) e = do { e \<leftarrow> perform_due S t e; Some (Done, e) }"

section \<open>The simulation\<close>

definition event_of :: "byte list \<Rightarrow> OSC_Packet Event \<Rightarrow> int \<times> command list \<Rightarrow> bool" where
  "event_of d y b \<longleftrightarrow> mTime y = fst b \<and> packet_of d (mPacket y) b"

definition core :: "byte list \<Rightarrow> addr \<Rightarrow> nat \<Rightarrow> server \<Rightarrow> engine \<Rightarrow> abs_engine \<Rightarrow> bool" where
  "core d r K S e A \<longleftrightarrow> related (depth S) r (world e) (a_server A) \<and> addrs e = a_addrs A \<and>
     (\<exists>ys. pq_inv K (mScheduler e) ys \<and> mStabilityCounter (mScheduler e) = snd (a_sched A) \<and> list_all2 (event_of d) ys (fst (a_sched A)))"

text \<open>The engine follows the abstract one, in a server and with a buffer of the language that are as they should be.\<close>

definition follows :: "byte list \<Rightarrow> addr \<Rightarrow> nat \<Rightarrow> nat \<Rightarrow> byte list \<Rightarrow> server \<Rightarrow> engine \<Rightarrow> abs_engine \<Rightarrow> bool" where
  "follows d r N K mem0 S e A \<longleftrightarrow> server_ok d S \<and> length mem0 = 65516 \<and> core d r K S e A \<and>
     (\<exists>pks. holds N (mOscPacketsToEngine e) pks \<and> list_all2 (packet_of d) pks (a_arrived A))"

text \<open>Running the commands of a bundle.\<close>

lemma run_bundle_ok:
  assumes "server_ok d S" "packet_of d pk b" "related (depth S) r (world e) (a_server A)" "addrs e = a_addrs A" "can_run r (snd b) A"
  shows "\<exists>w. PerformOSCBundle S pk e = Some (e\<lparr>world := w, addrs := a_addrs (run_abs r (snd b) A)\<rparr>) \<and>
    related (depth S) r w (a_server (run_abs r (snd b) A))"
proof -
  obtain t ms where pk: "pk = \<lparr>mData = osc_bundle t ms, mIsBundle = True\<rparr>" "list_all2 (cmd_message d) (snd b) ms"
      "\<forall>m \<in> set ms. length m < 2 ^ 31" "\<forall>c \<in> set (snd b). small_cmd c"
    using assms(2) by (auto simp: packet_of_def)
  obtain ps where ps: "a_addrs A = cmds_addrs (snd b) @ ps" "legal_cmds (legal r) (spec_cmd r) (snd b) (a_server A)"
    using assms(5) by (auto simp: can_run_def)
  obtain w where "run_cmds (exec_cmd (depth S)) (snd b) (world e) = Some (fst (spec_cmds (spec_cmd r) (snd b) (a_server A)), w)"
      "related (depth S) r w (snd (spec_cmds (spec_cmd r) (snd b) (a_server A)))"
    using node_server.run_refines [OF assms(3) ps(2)] by blast
  then show ?thesis
    using bundle_performed [OF assms(1) pk(2-4), of e ps t True] assms(4) ps(1)
    by (intro exI [of _ w]) (simp add: pk(1) run_abs_def cmds_addrs_def)
qed

lemma while_all2:
  assumes "list_all2 P xs ys" "\<And>x y. P x y \<Longrightarrow> f x = g y"
  shows "list_all2 P (takeWhile f xs) (takeWhile g ys)" "list_all2 P (dropWhile f xs) (dropWhile g ys)"
  using assms(1) by (induction rule: list_all2_induct) (auto simp: assms(2))

lemma packet_time: "OSCtime (osc_bundle t ms) 8 = Some t"
  using OSCtime_at [of "osc_pad (bytes_of ''#bundle'')" t "concat (map (framed True) ms)"] bundle_header(1) by (simp add: osc_bundle_def)

text \<open>Scheduling a bundle.\<close>

lemma schedule_ok:
  assumes "core d r K S e A" "packet_of d pk b" "legal_sched (Schedule (fst b) (snd b)) (a_sched A)"
  shows "\<exists>q. AddEvent (fst b) pk e = Some (e\<lparr>mScheduler := q\<rparr>) \<and>
    core d r K S (e\<lparr>mScheduler := q\<rparr>) (A\<lparr>a_sched := snd (spec_sched K (Schedule (fst b) (snd b)) (a_sched A))\<rparr>)"
proof -
  obtain xs c where A: "a_sched A = (xs, c)" by (cases "a_sched A")
  obtain ys where ys: "pq_inv K (mScheduler e) ys" "mStabilityCounter (mScheduler e) = c" "list_all2 (event_of d) ys xs"
    using assms(1) A by (auto simp: core_def)
  have rel: "related (depth S) r (world e) (a_server A)" "addrs e = a_addrs A" using assms(1) by (auto simp: core_def)
  have len: "length ys = length xs" using ys(3) by (rule list_all2_lengthD)
  let ?y = "\<lparr>mTime = fst b, mStabilityCount = 0, mPacket = pk\<rparr>"
  let ?z = "?y\<lparr>mStabilityCount := mStabilityCounter (mScheduler e)\<rparr>"
  have "mStabilityCounter (mScheduler e) < kMaxInt64" using ys(2) assms(3) A by simp
  from Add_ok [OF ys(1) this, of ?y]
  obtain q where q: "SC_Scheduler.Add ?y (mScheduler e) = Some (length ys < K, q)"
      "if length ys < K then pq_inv K q (insert_due ?z ys) \<and> mStabilityCounter q = mStabilityCounter (mScheduler e) + 1 else q = mScheduler e"
    by blast
  have add: "AddEvent (fst b) pk e = Some (e\<lparr>mScheduler := q\<rparr>)" using q(1) by (simp add: AddEvent_def)
  show ?thesis
  proof (cases "length ys < K")
    case False
    then have "core d r K S (e\<lparr>mScheduler := q\<rparr>) (A\<lparr>a_sched := snd (spec_sched K (Schedule (fst b) (snd b)) (a_sched A))\<rparr>)"
      using assms(1) q(2) A len by (simp add: core_def)
    then show ?thesis using add by blast
  next
    case True
    let ?P = "\<lambda>x. fst x \<le> fst b"
    have "event_of d ?z b" using assms(2) by (simp add: event_of_def)
    moreover have "mTime y \<le> mTime ?z \<longleftrightarrow> ?P x" if "event_of d y x" for y x using that by (simp add: event_of_def)
    note while_all2 [OF ys(3) this]
    ultimately have "list_all2 (event_of d) (insert_due ?z ys) (takeWhile ?P xs @ b # dropWhile ?P xs)"
      unfolding insert_due_def by (intro list_all2_appendI) simp_all
    then have "core d r K S (e\<lparr>mScheduler := q\<rparr>) (A\<lparr>a_sched := snd (spec_sched K (Schedule (fst b) (snd b)) (a_sched A))\<rparr>)"
      using True len q(2) rel A ys(2) by (auto simp: core_def)
    then show ?thesis using add by blast
  qed
qed

text \<open>Performing what has arrived.\<close>

lemma core_run:
  assumes "core d r K S e A" "related (depth S) r w (a_server (run_abs r cs A))"
  shows "core d r K S (e\<lparr>world := w, addrs := a_addrs (run_abs r cs A)\<rparr>) (run_abs r cs A)"
  using assms by (auto simp: core_def run_abs_def)

lemma packet_performed:
  assumes "server_ok d S" "core d r K S e A" "packet_of d pk b" "can_arrive r K [b] A"
  shows "\<exists>st e'. PerformOSCPacket S pk e = Some (st, e') \<and> core d r K S e' (arrive r K [b] A) \<and> mOscPacketsToEngine e' = mOscPacketsToEngine e"
proof -
  obtain t ms where pk: "pk = \<lparr>mData = osc_bundle t ms, mIsBundle = True\<rparr>" "fst b = sint t" using assms(3) by (auto simp: packet_of_def)
  obtain cs where b: "b = (sint t, cs)" using pk(2) by (cases b) auto
  show ?thesis
  proof (cases "sint t = 0 \<or> sint t = 1")
    case True
    then have run: "can_run r (snd b) A" using assms(4) b by simp
    obtain w where w: "PerformOSCBundle S pk e = Some (e\<lparr>world := w, addrs := a_addrs (run_abs r cs A)\<rparr>)"
        "related (depth S) r w (a_server (run_abs r cs A))"
      using run_bundle_ok [OF assms(1,3) _ _ run] assms(2) b by (auto simp: core_def)
    then show ?thesis using core_run [OF assms(2) w(2)] True by (auto simp: PerformOSCPacket_def pk(1) packet_time b)
  next
    case False
    then have "legal_sched (Schedule (fst b) (snd b)) (a_sched A)" using assms(4) b by simp
    from schedule_ok [OF assms(2,3) this] show ?thesis using False by (auto simp: PerformOSCPacket_def pk(1) packet_time b)
  qed
qed

lemma arrive_ok:
  assumes "server_ok d S" "core d r K S e A" "list_all2 (packet_of d) pks bs" "can_arrive r K bs A"
  shows "\<exists>e'. Perform_ToEngine_Msgs S pks e = Some e' \<and> core d r K S e' (arrive r K bs A) \<and> mOscPacketsToEngine e' = mOscPacketsToEngine e"
  using assms(3,2,4)
proof (induction pks bs arbitrary: e A rule: list_all2_induct)
  case (Cons pk pks b bs)
  obtain t cs where b: "b = (t, cs)" by (cases b)
  have "can_arrive r K [b] A" "can_arrive r K bs (arrive r K [b] A)" using Cons.prems(2) by (auto simp: b split: if_splits)
  then obtain st e1 where e1: "PerformOSCPacket S pk e = Some (st, e1)" "core d r K S e1 (arrive r K [b] A)"
      "mOscPacketsToEngine e1 = mOscPacketsToEngine e" "can_arrive r K bs (arrive r K [b] A)"
    using packet_performed [OF assms(1) Cons.prems(1) Cons.hyps(1)] by blast
  have "arrive r K (b # bs) A = arrive r K bs (arrive r K [b] A)" by (simp add: b)
  then show ?case using Cons.IH [OF e1(2,4)] e1(1,3) by auto
qed simp

text \<open>Performing what is due.\<close>

lemma spec_cmds_append: "snd (spec_cmds spec (cs @ ds) A) = snd (spec_cmds spec ds (snd (spec_cmds spec cs A)))"
  by (induction cs arbitrary: A) (auto simp: case_prod_beta)

lemma legal_cmds_append: "legal_cmds leg spec (cs @ ds) A \<longleftrightarrow> legal_cmds leg spec cs A \<and> legal_cmds leg spec ds (snd (spec_cmds spec cs A))"
  by (induction cs arbitrary: A) (auto simp: case_prod_beta)

lemma cmds_addrs_simps [simp]: "cmds_addrs [] = []" "cmds_addrs (cs @ ds) = cmds_addrs cs @ cmds_addrs ds"
  by (simp_all add: cmds_addrs_def)

lemma run_abs_simps [simp]:
  "run_abs r [] A = A" "a_sched (run_abs r cs A) = a_sched A" "a_arrived (run_abs r cs A) = a_arrived A"
  "run_abs r cs (A\<lparr>a_sched := x\<rparr>) = run_abs r cs A\<lparr>a_sched := x\<rparr>"
  by (simp_all add: run_abs_def)

lemma run_abs_append: "run_abs r (cs @ ds) A = run_abs r ds (run_abs r cs A)"
  by (simp add: run_abs_def spec_cmds_append add.commute)

lemma can_run_sched [simp]: "can_run r cs (A\<lparr>a_sched := x\<rparr>) = can_run r cs A"
  by (simp add: can_run_def)

lemma can_run_append: "can_run r (cs @ ds) A \<Longrightarrow> can_run r cs A \<and> can_run r ds (run_abs r cs A)"
  by (auto simp: can_run_def legal_cmds_append run_abs_def)

lemma perform_due_ok:
  assumes "server_ok d S" "t < kMaxInt64"
  shows "core d r K S e A \<Longrightarrow> a_sched A = (xs, c) \<Longrightarrow> can_run r (concat (map snd (takeWhile (\<lambda>x. fst x \<le> t) xs))) A \<Longrightarrow>
    \<exists>e'. perform_due S t e = Some e' \<and> mOscPacketsToEngine e' = mOscPacketsToEngine e \<and>
      core d r K S e' (run_abs r (concat (map snd (takeWhile (\<lambda>x. fst x \<le> t) xs)))
        (A\<lparr>a_sched := (dropWhile (\<lambda>x. fst x \<le> t) xs, if dropWhile (\<lambda>x. fst x \<le> t) xs = [] then 0 else c)\<rparr>))"
proof (induction xs arbitrary: e A c)
  case Nil
  then have q: "pq_inv K (mScheduler e) []" "c = 0" by (auto simp: core_def pq_inv_def)
  have "perform_due S t e = Some e"
    using NextTime_ok [OF q(1)] assms(2) by (subst perform_due.simps) simp
  moreover have "A\<lparr>a_sched := ([], 0)\<rparr> = A" using Nil.prems(2) q(2) by simp
  ultimately show ?case using Nil.prems(1) by simp
next
  case (Cons b xs)
  obtain y ys where ys: "pq_inv K (mScheduler e) (y # ys)" "mStabilityCounter (mScheduler e) = c" "event_of d y b" "list_all2 (event_of d) ys xs"
    using Cons.prems(1,2) by (auto simp: core_def list_all2_Cons2)
  have rel: "related (depth S) r (world e) (a_server A)" "addrs e = a_addrs A" using Cons.prems(1) by (auto simp: core_def)
  have y: "mTime y = fst b" "packet_of d (mPacket y) b" using ys(3) by (auto simp: event_of_def)
  note next_time = NextTime_ok [OF ys(1)]
  show ?case
  proof (cases "fst b \<le> t")
    case False
    then have "perform_due S t e = Some e" using next_time y(1) by (subst perform_due.simps) simp
    moreover have "A\<lparr>a_sched := (b # xs, c)\<rparr> = A" using Cons.prems(2) by simp
    ultimately show ?thesis using Cons.prems(1) False by simp
  next
    case True
    let ?A = "A\<lparr>a_sched := (xs, if xs = [] then 0 else c)\<rparr>" and ?ds = "concat (map snd (takeWhile (\<lambda>x. fst x \<le> t) xs))"
    have run: "can_run r (snd b) A" "can_run r ?ds (run_abs r (snd b) A)"
      using can_run_append Cons.prems(3) True by auto
    obtain q where q: "SC_Scheduler.Remove (mScheduler e) = Some (y, q)" "pq_inv K q ys"
        "mStabilityCounter q = (if ys = [] then 0 else mStabilityCounter (mScheduler e))"
      using Remove_first [OF ys(1)] by blast
    let ?e = "e\<lparr>mScheduler := q\<rparr>"
    have empty: "ys = [] \<longleftrightarrow> xs = []" using ys(4) by auto
    have core: "core d r K S ?e ?A" using rel q(2,3) ys(2,4) empty by (auto simp: core_def)
    have "related (depth S) r (world ?e) (a_server ?A)" "addrs ?e = a_addrs ?A" "can_run r (snd b) ?A" using rel run(1) by simp_all
    from run_bundle_ok [OF assms(1) y(2) this]
    obtain w where w: "PerformOSCBundle S (mPacket y) ?e = Some (?e\<lparr>world := w, addrs := a_addrs (run_abs r (snd b) ?A)\<rparr>)"
        "related (depth S) r w (a_server (run_abs r (snd b) ?A))"
      by blast
    let ?e2 = "?e\<lparr>world := w, addrs := a_addrs (run_abs r (snd b) ?A)\<rparr>"
    have "perform_due S t e = perform_due S t ?e2"
      using next_time True y(1) q(1) w(1) by (subst perform_due.simps) simp
    moreover have "core d r K S ?e2 (run_abs r (snd b) ?A)" by (rule core_run [OF core w(2)])
    from Cons.IH [OF this, of "if xs = [] then 0 else c"] run(2)
    obtain e' where "perform_due S t ?e2 = Some e'" "mOscPacketsToEngine e' = mOscPacketsToEngine ?e2"
      "core d r K S e' (run_abs r ?ds (run_abs r (snd b) ?A\<lparr>a_sched := (dropWhile (\<lambda>x. fst x \<le> t) xs,
         if dropWhile (\<lambda>x. fst x \<le> t) xs = [] then 0 else if xs = [] then 0 else c)\<rparr>))"
      by auto
    moreover have "(if dropWhile (\<lambda>x. fst x \<le> t) xs = [] then 0 else if xs = [] then 0 else c) = (if dropWhile (\<lambda>x. fst x \<le> t) xs = [] then 0 else c)"
      by auto
    ultimately show ?thesis using True by (simp add: run_abs_append)
  qed
qed

text \<open>Sending and receiving a bundle.\<close>

lemma receive_ok:
  assumes "follows d r N K mem0 S e A" "legal_op off d r K (Receive s cs) A"
  shows "\<exists>e'. exec_engine fresh off mem0 junk d S (Receive s cs) e = Some (fst (spec_engine off r N K (Receive s cs) A), e') \<and>
    follows d r N K mem0 S e' (snd (spec_engine off r N K (Receive s cs) A))"
proof -
  obtain pks where pks: "holds N (mOscPacketsToEngine e) pks" "list_all2 (packet_of d) pks (a_arrived A)"
    using assms(1) by (auto simp: follows_def)
  have len: "length pks = length (a_arrived A)" using pks(2) by (rule list_all2_lengthD)
  have S: "0 \<notin> set d" "length mem0 = 65516" using assms(1) by (auto simp: follows_def server_ok_def)
  obtain t where t: "bundle_time off False s = Some t" "send_time off s = sint t" using assms(2) by (auto simp: send_time_def)
  obtain i f where s: "s = SNil \<or> s = SInt i \<or> s = SFloat f" using assms(2) by auto
  have cs: "4 + cmds_words d cs \<le> 16379" "\<forall>c \<in> set cs. small_cmd c" using assms(2) by simp_all
  obtain ms where ms: "prArray_OSCBytes fresh off False mem0 (s # map (array_of \<circ> cmd_slots d) cs) = Inr (Inr (osc_bundle t ms))"
      "packet_of d \<lparr>mData = osc_bundle t ms, mIsBundle = True\<rparr> (sint t, cs)" "\<forall>m \<in> set ms. element m False"
    using bundle_sent [OF S(1) t(1) s S(2) cs] by blast
  obtain q where q: "UnrollOSCPacket junk (Suc 0) (osc_bundle t ms) (int (length (osc_bundle t ms))) 0 (mOscPacketsToEngine e) = Some (length pks < N - 1, q)"
      "holds N q (if length pks < N - 1 then pks @ [\<lparr>mData = osc_bundle t ms, mIsBundle = True\<rparr>] else pks)"
    using bundle_received [OF ms(3) pks(1)] by blast
  have run: "exec_engine fresh off mem0 junk d S (Receive s cs) e = Some (Received (length pks < N - 1), e\<lparr>mOscPacketsToEngine := q\<rparr>)"
    using ms(1) q(1) by (simp del: UnrollOSCPacket.simps)
  have "list_all2 (packet_of d) (pks @ [\<lparr>mData = osc_bundle t ms, mIsBundle = True\<rparr>]) (a_arrived A @ [(send_time off s, cs)])"
    using pks(2) ms(2) t(2) by (intro list_all2_appendI) simp_all
  then show ?thesis using run assms(1) q(2) pks(2) len
    by (cases "length pks < N - 1") (auto simp: follows_def core_def)
qed

lemma arrived_ok:
  assumes "follows d r N K mem0 S e A" "legal_op off d r K Arrive A"
  shows "\<exists>e'. exec_engine fresh off mem0 junk d S Arrive e = Some (fst (spec_engine off r N K Arrive A), e') \<and>
    follows d r N K mem0 S e' (snd (spec_engine off r N K Arrive A))"
proof -
  obtain pks where pks: "holds N (mOscPacketsToEngine e) pks" "list_all2 (packet_of d) pks (a_arrived A)"
    using assms(1) by (auto simp: follows_def)
  have S: "server_ok d S" "length mem0 = 65516" using assms(1) by (auto simp: follows_def)
  obtain q where q: "SC_MsgFifo.Perform (mOscPacketsToEngine e) = Some (pks, q)" "holds N q []" using holds_perform [OF pks(1)] by blast
  have "core d r K S (e\<lparr>mOscPacketsToEngine := q\<rparr>) (A\<lparr>a_arrived := []\<rparr>)" using assms(1) by (auto simp: follows_def core_def)
  from arrive_ok [OF S(1) this pks(2)] assms(2)
  obtain e' where e': "Perform_ToEngine_Msgs S pks (e\<lparr>mOscPacketsToEngine := q\<rparr>) = Some e'"
      "core d r K S e' (arrive r K (a_arrived A) (A\<lparr>a_arrived := []\<rparr>))" "mOscPacketsToEngine e' = q"
    by auto
  have none: "a_arrived (arrive r K bs B) = a_arrived B" for bs B
    by (induction r K bs B rule: arrive.induct) (simp_all del: spec_sched.simps)
  have "follows d r N K mem0 S e' (arrive r K (a_arrived A) (A\<lparr>a_arrived := []\<rparr>))"
    using S e'(2,3) q(2) by (auto simp: follows_def none)
  then show ?thesis using q(1) e'(1) by (simp add: perform_arrived_def)
qed

lemma block_ok:
  assumes "follows d r N K mem0 S e A" "legal_op off d r K (Block t) A"
  shows "\<exists>e'. exec_engine fresh off mem0 junk d S (Block t) e = Some (fst (spec_engine off r N K (Block t) A), e') \<and>
    follows d r N K mem0 S e' (snd (spec_engine off r N K (Block t) A))"
proof -
  obtain xs c where A: "a_sched A = (xs, c)" by (cases "a_sched A")
  have S: "server_ok d S" "core d r K S e A" using assms(1) by (auto simp: follows_def)
  obtain e' where e': "perform_due S t e = Some e'" "mOscPacketsToEngine e' = mOscPacketsToEngine e"
      "core d r K S e' (run_abs r (due_cmds t A) (A\<lparr>a_sched := snd (spec_sched K (Tick t) (a_sched A))\<rparr>))"
    using perform_due_ok [OF S(1) _ S(2) A, of t] assms(2) by (auto simp: due_cmds_def A Let_def)
  have "follows d r N K mem0 S e' (run_abs r (due_cmds t A) (A\<lparr>a_sched := snd (spec_sched K (Tick t) (a_sched A))\<rparr>))"
    using assms(1) e'(2,3) by (auto simp: follows_def simp del: run_abs_simps(4) spec_sched.simps)
  then show ?thesis using e'(1) by (simp del: spec_sched.simps)
qed

interpretation engine: simulation "follows d r N K mem0 S" "legal_op off d r K" "exec_engine fresh off mem0 junk d S" "spec_engine off r N K"
  for fresh off mem0 junk d S r N K
proof
  fix e A c assume a: "follows d r N K mem0 S e A" "legal_op off d r K c A"
  show "\<exists>e'. exec_engine fresh off mem0 junk d S c e = Some (fst (spec_engine off r N K c A), e') \<and>
      follows d r N K mem0 S e' (snd (spec_engine off r N K c A))"
  proof (cases c)
    case (Receive s cs)
    show ?thesis unfolding Receive by (rule receive_ok [OF a [unfolded Receive]])
  next
    case Arrive
    show ?thesis unfolding Arrive by (rule arrived_ok [OF a [unfolded Arrive]])
  next
    case (Block t)
    show ?thesis unfolding Block by (rule block_ok [OF a [unfolded Block]])
  qed
qed

text \<open>The engine at the start.\<close>

definition new_engine :: "addr \<Rightarrow> int \<Rightarrow> addr list \<Rightarrow> abs_engine" where
  "new_engine r n ps = \<lparr>a_server = new_server r n, a_arrived = [], a_sched = ([], 0), a_addrs = ps\<rparr>"

lemma start_ok:
  assumes "k < 30" "3 * 2 ^ k \<le> depth S" "server_ok d S" "length mem0 = 65516" "length its = 2 ^ j" "es \<noteq> []"
  shows "\<exists>w q. World_New r (2 ^ k) rt = Some (kSCErr_None, w) \<and> PriorityQueue es = Some q \<and>
    follows d r (2 ^ j) (length es) mem0 S \<lparr>world = w, mScheduler = q, mOscPacketsToEngine = MsgFifo_new its, addrs = ps\<rparr> (new_engine r (2 ^ k) ps)"
proof -
  obtain w where w: "World_New r (2 ^ k) rt = Some (kSCErr_None, w)" "refines r w (new_server r (2 ^ k))"
    using World_New_ok [OF assms(1), of r rt] by auto
  have "nat (2 ^ k :: int) = 2 ^ k" by (simp add: nat_power_eq)
  then have "3 * nat (a_max (new_server r (2 ^ k))) \<le> depth S" using assms(2) unfolding new_server_def abs_server.select_convs by linarith
  then have rel: "related (depth S) r w (new_server r (2 ^ k))" using w(2) by (simp add: related_def)
  obtain q where q: "PriorityQueue es = Some q" "schedules (length es) q ([], 0)" using PriorityQueue_ok [OF assms(6)] by blast
  then obtain ys where "pq_inv (length es) q ys" "ys = []" "mStabilityCounter q = 0" by (auto simp: schedules_def)
  then show ?thesis using w(1) q(1) rel assms(3,4) holds_new [OF assms(5)]
    by (auto simp: follows_def core_def new_engine_def)
qed

section \<open>An example\<close>

text \<open>A group, made at once, and a second one in it that a bundle makes 5 seconds after the start.\<close>

definition engine_ops :: "engine_op list" where
  "engine_ops = [Receive SNil [New True 1 10 (AtHead 0)], Arrive, Receive (SFloat 0x401C000000000000) [command.Free 10],
     Receive (SFloat 0x4014000000000000) [New True 2 20 (AtTail 10)], Arrive, Block (6 * 2 ^ 32)]"

lemma engine_floats:
  "f64 0x4014000000000000 = Fin False 0x14000000000000 (-50)" "f64 0x4214000000000000 = Fin False 0x14000000000000 (-18)"
  "f64 0x401C000000000000 = Fin False 0x1C000000000000 (-50)" "f64 0x421C000000000000 = Fin False 0x1C000000000000 (-18)"
  by (simp_all add: f64_def decode_def emin_def bias_def)

lemma engine_rounded:
  "to_f64 (Fin False 0x14000000000000 (-18)) = 0x4214000000000000" "to_f64 (Fin False 0x1C000000000000 (-18)) = 0x421C000000000000"
proof -
  have "nbits 0x14000000000000 = 53" "nbits 0x1C000000000000 = 53" by (rule nbits_eq [of 52, simplified]; simp)+
  then show "to_f64 (Fin False 0x14000000000000 (-18)) = 0x4214000000000000" "to_f64 (Fin False 0x1C000000000000 (-18)) = 0x421C000000000000"
    by (simp_all add: to_f64_def encode_def Let_def last_place_def emin_def bias_def scaled_def)
qed

lemma engine_times [simp]:
  "bundle_time off False SNil = Some 1"
  "bundle_time off False (SFloat 0x4014000000000000) = Some (5 * 2 ^ 32)" "bundle_time off False (SFloat 0x401C000000000000) = Some (7 * 2 ^ 32)"
  "send_time off SNil = 1" "send_time off (SFloat 0x4014000000000000) = 5 * 2 ^ 32" "send_time off (SFloat 0x401C000000000000) = 7 * 2 ^ 32"
  by (simp_all add: send_time_def bundle_time_def seconds_to_osc_def engine_floats engine_rounded fl_mult_def fl_to_int_def)

lemma engine_words: "cmds_words d [command.Free i] \<le> 20" "cmds_words d [New True p i pos] \<le> 20"
  by (simp_all add: cmds_words_def bundle_words_def cmd_slots_def msg_words_def bytes_of_def to_slot_def)

definition engine_end :: abs_engine where
  "engine_end = \<lparr>a_server = \<lparr>a_nodes = [(2, 20, True), (1, 10, True), (0, 0, True)], a_kids = (\<lambda>_. [])(0 := [1], 1 := [2]),
       a_hidden = -8, a_recent = 20, a_max = 4\<rparr>,
     a_arrived = [], a_sched = ([(7 * 2 ^ 32, [command.Free 10])], 2), a_addrs = []\<rparr>"

lemma engine_spec: "spec_cmds (spec_engine 0 0 (2 ^ 3) 4) engine_ops (new_engine 0 (2 ^ 2) [1, 2]) =
    ([Received True, Done, Received True, Received True, Done, Done], engine_end)"
  by (simp add: engine_ops_def engine_end_def new_engine_def new_server_def run_abs_def due_cmds_def cmds_addrs_def find_defs Let_def fun_eq_iff)

lemma engine_legal: "legal_cmds (legal_op 0 [] 0 4) (spec_engine 0 0 (2 ^ 3) 4) engine_ops (new_engine 0 (2 ^ 2) [1, 2])"
  using engine_words [of "[]"]
  by (simp add: engine_ops_def new_engine_def new_server_def run_abs_def can_run_def due_cmds_def cmds_addrs_def find_defs Let_def
      small_id_def kMaxInt64_def order_trans [OF engine_words(1)] order_trans [OF engine_words(2)])

section \<open>Properties\<close>

text \<open>
  C6. From the language to the tree of nodes. The language sends bundles of node commands, each with a
  time, over the path of the code: \<open>makeSynthBundle\<close> builds the packet, \<open>UnrollOSCPacket\<close> takes it
  apart and puts it into the queue to the engine, \<open>PerformOSCPacket\<close> performs it or adds it to the
  schedule, and the audio callback performs what is due. For every sequence of such steps that is
  legal, this path is defined, answers whether a packet was accepted and leaves the world in the
  state of an abstract engine, which knows of no bytes: a list of bundles that have arrived, a list of
  those scheduled in the order in which they are due, and the abstract tree of nodes of the server.
\<close>

theorem engine_refines:
  assumes "k < 30" "3 * 2 ^ k \<le> depth S" "server_ok d S" "length mem0 = 65516" "length its = 2 ^ j" "es \<noteq> []"
    and "legal_cmds (legal_op off d r (length es)) (spec_engine off r (2 ^ j) (length es)) ops (new_engine r (2 ^ k) ps)"
  shows "\<exists>w q e. World_New r (2 ^ k) rt = Some (kSCErr_None, w) \<and> PriorityQueue es = Some q \<and>
    run_cmds (exec_engine fresh off mem0 junk d S) ops \<lparr>world = w, mScheduler = q, mOscPacketsToEngine = MsgFifo_new its, addrs = ps\<rparr> =
      Some (fst (spec_cmds (spec_engine off r (2 ^ j) (length es)) ops (new_engine r (2 ^ k) ps)), e) \<and>
    refines r (world e) (a_server (snd (spec_cmds (spec_engine off r (2 ^ j) (length es)) ops (new_engine r (2 ^ k) ps))))"
proof -
  obtain w q where start: "World_New r (2 ^ k) rt = Some (kSCErr_None, w)" "PriorityQueue es = Some q"
      "follows d r (2 ^ j) (length es) mem0 S \<lparr>world = w, mScheduler = q, mOscPacketsToEngine = MsgFifo_new its, addrs = ps\<rparr> (new_engine r (2 ^ k) ps)"
    using start_ok [OF assms(1-6)] by blast
  from engine.run_refines [OF start(3) assms(7), of fresh junk]
  show ?thesis using start(1,2) by (auto simp: follows_def core_def related_def)
qed

theorem engine_refines_witness:
  "\<exists>S w q e. World_New 0 (2 ^ 2) True = Some (kSCErr_None, w) \<and>
    PriorityQueue (replicate 4 \<lparr>mTime = 0, mStabilityCount = 0, mPacket = \<lparr>mData = [], mIsBundle = False\<rparr>\<rparr>) = Some q \<and>
    run_cmds (exec_engine (\<lambda>_. []) 0 (replicate 65516 0) (\<lambda>_. 7) [] S) engine_ops
      \<lparr>world = w, mScheduler = q, mOscPacketsToEngine = MsgFifo_new (replicate 8 \<lparr>mData = [], mIsBundle = False\<rparr>), addrs = [1, 2]\<rparr> =
      Some ([Received True, Done, Received True, Received True, Done, Done], e) \<and>
    refines 0 (world e) (a_server engine_end)"
proof -
  obtain lib where lib: "initMiscCommands = Some lib" using init_commands by auto
  let ?S = "\<lparr>depth = 12, synthdefs = (\<lambda>_. True), others = (\<lambda>_ _ _ _ _. None), commands = lib\<rparr>"
  have "server_ok [] ?S" using lib by (simp add: server_ok_def)
  from engine_refines [of 2 ?S, OF _ _ this, of "replicate 65516 0" "replicate 8 \<lparr>mData = [], mIsBundle = False\<rparr>" 3
      "replicate 4 \<lparr>mTime = 0, mStabilityCount = 0, mPacket = \<lparr>mData = [], mIsBundle = False\<rparr>\<rparr>" 0 0 engine_ops "[1, 2]" True "\<lambda>_. []" "\<lambda>_. 7"]
  show ?thesis using engine_legal unfolding length_replicate engine_spec by (intro exI [of _ ?S]) simp
qed

end
