(* ===== verification/Spec2Isabelle.thy ===== *)
theory Spec2Isabelle
  imports SCMage_Plugin SC_NodeServer SC_Scheduler SC_LangOSC SC_MsgFifo SC_EndToEnd
begin

text \<open>
  A verification development for the speech synthesis of \<open>vox\<close>: the \<open>MAGE\<close> library
  (\<open>src/lib/scmage/mage/src\<close>), which turns HTS labels into samples with hidden Markov models,
  \<open>SCMage\<close> (\<open>src/lib/scmage/SCMage/SCMage.cpp\<close>), the plugin that runs it in the SuperCollider server,
  the parts of that server (\<open>src/lib/scmage/sc/server/scsynth\<close>) that decide which units exist, in
  which order they run and when a command takes effect, and the packets in which the language
  (\<open>src/lib/scmage/sc/lang\<close>) sends it commands.

  \<^bold>\<open>The program.\<close> \<open>Mage\<close> (\<open>mage.cpp\<close>) holds a queue of labels, a queue of models and a queue of frames, a
  map of voices and a vocoder. One thread calls \<open>run\<close>: it takes a label, computes the durations
  and parameters of a model from a voice, puts the model into the model queue and, when the queue
  holds enough models, generates frames from a window of them. The audio thread calls
  \<open>updateSamples\<close> and \<open>popSamples\<close>: it takes frames out of the frame queue and filters an
  excitation with them.

  A unit of the plugin lives in a synth, a synth is a node, and the nodes form a tree of groups in
  the \<open>World\<close> of the server. A client creates, moves and frees nodes with commands
  (\<open>SC_MiscCmds.cpp\<close>), which find the nodes by their ids in a hash table (\<open>HashTable.h\<close>). Commands with a
  time stamp wait in a priority queue (\<open>PriorityQueue.h\<close>) until the audio callback reaches their time.
  The language makes OSC packets of its arrays of values (\<open>OSCData.cpp\<close>) with the writer \<open>scpacket\<close>; the
  thread of the server that receives a packet hands it to the audio thread in a queue with three
  heads (\<open>MsgFifo.h\<close>), and both sides take packets apart with the reader \<open>sc\_msg\_iter\<close>. In the server
  \<open>UnrollOSCPacket\<close> (\<open>SC_ComPort.cpp\<close>) copies a packet, the parts of a nested bundle one by one, and puts it
  into that queue; \<open>PerformOSCPacket\<close> (\<open>SC_CoreAudio.cpp\<close>) performs it in the audio thread or adds it to
  the schedule; the table that \<open>initMiscCommands\<close> fills turns the name of a message into a command.

  \<^bold>\<open>Theories\<close>, in the order in which they build on each other:
  \<^item> \<open>Vox_Prelude\<close>: 32-bit counters, arrays and \<open>memcpy\<close> with their bounds, loops that may fail, ring
    buffers, the contract of a bounded queue (locale \<open>bounded_fifo\<close>) with its refinement lemma, and
    that of a machine that follows an abstract one command by command (locale \<open>simulation\<close>).
  \<^item> \<open>MemQueue\<close> (\<open>MemQueue.h\<close>): the template queue, interpreted as a \<open>bounded_fifo\<close>.
  \<^item> \<open>Label\<close>, \<open>LabelQueue\<close> (\<open>Label.cpp\<close>, \<open>LabelQueue.cpp\<close>): label lines, with the C library functions
    they use on strings, and their queue, the second interpretation of \<open>bounded_fifo\<close>.
  \<^item> \<open>Duration\<close> (\<open>mHTS_set_duration\<close> in \<open>hts.cpp\<close>), \<open>Constants\<close> (\<open>Constants.h\<close>), \<open>Model\<close> (\<open>Model.cpp\<close>): state
    durations, user actions on them, and the accumulation of the parameters of several voices.
  \<^item> \<open>Engine_Options\<close> (\<open>Engine::load\<close> and \<open>GetNumInterp\<close> in \<open>hts.cpp\<close>): the command line of a voice.
  \<^item> \<open>MLPG\<close> (\<open>HTS_PStream_mlpg\<close> and its subfunctions in \<open>hts.cpp\<close>): parameter generation.
  \<^item> \<open>Vocoder\<close> (\<open>Vocoder.cpp\<close>, \<open>MathFunctions.cpp\<close>): excitation and MLSA and MGLSA filters.
  \<^item> \<open>ModelQueue\<close> (\<open>ModelQueue.cpp\<close>): filling the matrices of a window of models, generation of frames,
    and the frame queue between the two threads as a step relation.
  \<^item> \<open>Mage\<close> (\<open>mage.cpp\<close>): the controls, the map of voices, configuration files and \<open>run\<close>.
  \<^item> \<open>SCMage_Plugin\<close> (\<open>SCMage.cpp\<close>): labels from a sound buffer, construction and destruction of a unit, the
    audio callback and the generating thread, and the two threads as a step relation.
  \<^item> \<open>SC_HashTable\<close> (\<open>HashTable.h\<close>, \<open>Hash.h\<close>): both open-addressing tables, their growth and the repair of
    probe chains, against the contract of a bounded map (locale \<open>bounded_table\<close>).
  \<^item> \<open>SC_NodeTree\<close> (\<open>SC_Node.cpp\<close>, \<open>SC_Group.cpp\<close>, \<open>SC_Graph.cpp\<close>): nodes and groups as records in a store, their
    links as pointers, and the operations on them, where a null or dangling pointer gives \<open>None\<close>.
  \<^item> \<open>SC_NodeCommands\<close> (\<open>SC_MiscCmds.cpp\<close>): the commands on nodes, with their loops over the arguments.
  \<^item> \<open>SC_NodeDeletion\<close>: the store as a forest of rose trees; deletion removes exactly a subtree.
  \<^item> \<open>SC_NodeServer\<close>: the abstract server, a forest of nodes with ids that is edited as a mathematical
    tree, and the proof that the commands simulate it, an interpretation of \<open>simulation\<close>.
  \<^item> \<open>SC_Scheduler\<close> (\<open>PriorityQueue.h\<close>): the heap of scheduled events, another interpretation of
    \<open>simulation\<close>, against a list in the order in which events are due.
  \<^item> \<open>SC_MsgFifo\<close> (\<open>MsgFifo.h\<close>): the queue of messages between two threads, alone and as a step relation
    whose steps are the accesses of the threads to the heads and items.
  \<^item> \<open>C_Floats\<close>: \<open>float\<close> and \<open>double\<close> by their bits, with the conversions that the packets need.
  \<^item> \<open>SC_Packets\<close> (\<open>scsynthsend.h\<close>, \<open>sc\_msg\_iter.h\<close>): the writer and the reader of packets, over bytes.
  \<^item> \<open>SC_LangOSC\<close> (\<open>OSCData.cpp\<close>): messages and bundles of the language to packets, and back.
  \<^item> \<open>SC_Messages\<close> (\<open>SC_MiscCmds.cpp\<close>): the handlers of the commands on nodes as they read their arguments
    from the bytes of a message, which do what the commands of \<open>SC_NodeCommands\<close> do on lists (locale
    \<open>message_body\<close>, interpreted for each handler).
  \<^item> \<open>SC_Engine\<close> (\<open>SC_ComPort.cpp\<close>, \<open>SC_CoreAudio.cpp\<close>, \<open>SC_Lib.cpp\<close>): the way of a packet from the socket
    through the queue and the schedule to the commands, and the table of commands.
  \<^item> \<open>SC_EndToEnd\<close>: an abstract engine, for which a bundle is a time with a list of commands, and the
    proof that the theories from \<open>SC_LangOSC\<close> to \<open>SC_NodeServer\<close> together simulate it.

  \<^bold>\<open>Conventions.\<close> A class is a record with the members of the class, a method a function on it. The result
  \<open>None\<close> (or \<open>Inl OutOfBounds\<close>) stands for undefined behaviour: an access outside of an array, a
  read of a member that was never set, or a conversion or an operation on \<open>int\<close> whose result does
  not fit. Unsigned counters are reduced modulo \<open>2 ^ 32\<close>. Numbers of type \<open>double\<close> are real numbers:
  rounding errors, infinities and NaN are not modelled, and an operation that would give them (a
  period of the pitch 0) is undefined. In the packets, where numbers are only converted and copied, a
  \<open>float\<close> or \<open>double\<close> is its bits, and conversions round to even. There the exception of a full packet
  is \<open>Inl (Overflow pk)\<close>, undefined behaviour \<open>Inl Undefined\<close>. What hts\_engine looks up in its trees, and
  \<open>mlsacheck\<close> of SPTK, are functions of the record \<open>Engine\<close> and arguments; what the code relies on is
  stated in \<open>voice_ok\<close>, \<open>durations_ok\<close> and \<open>engine_ok\<close> (sizes of vectors, ranges of means), which
  \<open>still_voice\<close> satisfies.

  \<^bold>\<open>Loops.\<close> The loops of \<open>MAGE\<close> are bounded by their data, and the correction loop of the durations has
  a termination proof. Loops that may not end in the source are a \<open>partial_function\<close>, and what is said
  of them includes that they return: the loop over a sound buffer, which does not end for a buffer
  without channels, the probing of a hash table, performing the events that are due, the messages of a queue, and those
  of a bundle, whose sizes come from the packet.
  Three families of operations call each other and carry a bound for the depth of these calls, with
  \<open>None\<close> when it is exceeded. \<open>Add\<close> to a hash table may resize it, which adds the old items again; a
  depth of 1 is shown to be enough for \<open>HashTable\<close>. \<open>Node_Delete\<close> calls itself for the children of a
  group; a depth of three times the number of nodes is shown to be enough for every tree, and no
  depth for a group that was moved below itself. \<open>UnrollOSCPacket\<close> calls itself for a bundle inside a
  bundle; a depth of 1 is enough for the bundles of the language, which hold messages only.

  \<^bold>\<open>Not modelled\<close>: printing, destructors and memory barriers; the vendored libraries hts\_engine, SPTK,
  Festival and speech tools, which are parameters or leave only their output; \<open>PsolaVocoder.cpp\<close>, which no
  part of the program instantiates. Of the server: controls, buses, buffers and synth definitions,
  and the queries about them, which do not change the tree of nodes; the audio drivers, which call
  the operating system; the unit generators of its own, which the synthesiser does not use; the
  sockets, replies, and who frees the memory of a packet; \<open>MsgFifoNoFree\<close>. A command that is not on nodes
  is the argument \<open>others\<close> of the model, the set of synth definitions is \<open>synthdefs\<close>, the content of fresh
  memory \<open>junk\<close>, and the addresses of new nodes are a list in the state of the engine. Of the language: its interpreter, libraries and editors; the conversion of messages treats
  objects other than strings and arrays alike.
\<close>

section \<open>From a line of text to frames\<close>

text \<open>
  C1. A line that is a bare label, pushed into a new synthesiser with one well-formed voice, is
  parsed, queued and run to completion; the frames are as many as the rounded mean durations of
  the label add up to, unless that exceeds the limit, and each of them can be pushed into the
  synthesis filter.
\<close>

theorem label_to_frames:
  assumes "is_field s" "\<not> isdigit_string s" "name \<noteq> ''''" "engine_ok e" "durations_ok e"
    and "normalise (duration_iw e) = duration_iw e" "\<forall>row ix. length (mlsacheck row ix) = length row"
  shows "\<exists>st l m1 m2 fs. parseQuery \<lparr>first_s = [], middle_s = [], last_s = []\<rparr> Label_new s = Some (st, l) \<and>
    pushLabel l (init\<lparr>engine := [(name, w, e)], defaultEngine := name\<rparr>) = Some m1 \<and>
    run mlsacheck m1 = Some (m2, fs) \<and> labels (labelQueue m2) = [] \<and>
    (sum_list (natural_durations e s) \<le> maxDuration \<longrightarrow> int (length fs) = sum_list (natural_durations e s)) \<and>
    (\<forall>f \<in> set fs. \<exists>v. push_frame f False default_vocoder = Some v \<and> vready v)"
proof -
  let ?st = "\<lparr>first_s = [], middle_s = [], last_s = []\<rparr>"
  have cs: "c_str s = s" "length s < maxStrLen" using assms(1) by (auto simp: is_field_def c_str_def takeWhile_all)
  have "statics_ok ?st" by (simp add: statics_ok_def c_str_def maxStrLen_def)
  from parse_bare [OF assms(1,2) this] obtain st l where
    p: "parseQuery ?st Label_new s = Some (st, l)" "getQuery l = s" "\<not> isDurationForced l"
    by (simp add: vox_simps)
  let ?m = "init\<lparr>engine := [(name, w, e)], defaultEngine := name\<rparr>"
  have i0: "mage_inv ?m" using init_inv by (simp add: mage_inv_def)
  have q0: "lq_inv (labelQueue ?m)" "labels (labelQueue ?m) = []" "\<not> lisFull (labelQueue ?m)"
    using LabelQueue_new_inv [of maxLabelQueueLen]
    by (simp_all add: init_def size_consts) (simp add: LabelQueue_new_def lisFull_def)
  obtain q where q: "push_label (labelQueue ?m) l = Some q" "lq_inv q" "labels q = [l]"
    using labelq.enq_ok [OF q0(1,3), of l] q0(2) by auto
  define m1 where "m1 = ?m\<lparr>labelQueue := q\<rparr>"
  have m1: "pushLabel l ?m = Some m1" "mage_inv m1" "labels (labelQueue m1) = [l]" "default_engine m1 = Some (w, e)" "flag m1"
    using q q0(3) i0 by (simp_all add: pushLabel_def m1_def mage_inv_def default_engine_def init_def)
  have pl: "plain_label m1 e l"
    using assms(4-6) p(2,3) cs by (simp add: plain_label_def m1_def init_def)
  obtain m2 fs where r: "run mlsacheck m1 = Some (m2, fs)" "labels (labelQueue m2) = []"
      "\<forall>f \<in> set fs. frame_ok (fstreams f)"
      "sum_list (natural_durations e s) \<le> maxDuration \<longrightarrow> int (length fs) = sum_list (natural_durations e s)"
    using run_plain [OF m1(2,3,4) pl, of mlsacheck] assms(7) m1(5) p(2) cs(1) by auto
  have "\<exists>v. push_frame f False default_vocoder = Some v \<and> vready v" if "f \<in> set fs" for f
    using prepare_ok [of default_vocoder "fstreams f" "fvoiced f" False] voc_ok_fits [OF default_vocoder_ok] r(3) that
    unfolding push_frame_def by metis
  then show ?thesis using p(1) m1(1) r by blast
qed

theorem label_to_frames_witness:
  "\<exists>st l m1 m2 fs. parseQuery \<lparr>first_s = [], middle_s = [], last_s = []\<rparr> Label_new ''x-pau'' = Some (st, l) \<and>
    pushLabel l (init\<lparr>engine := [(''v'', [], still_voice)], defaultEngine := ''v''\<rparr>) = Some m1 \<and>
    run (\<lambda>row ix. row) m1 = Some (m2, fs) \<and> length fs = 10"
proof -
  have v: "normalise (duration_iw still_voice) = duration_iw still_voice" "natural_durations still_voice q = [2, 2, 2, 2, 2]" for q
    by (simp_all add: still_voice_def normalise_def natural_durations_def)
  have t: "is_field ''x-pau''" "\<not> isdigit_string ''x-pau''" by (simp_all add: field_simps_concrete)
  from label_to_frames [OF t _ still_voice_engine still_voice_ok(2) v(1), of "''v''" "\<lambda>row ix. row" "[]"]
  show ?thesis by (auto simp: v(2) size_consts)
qed

end
